(* ===== verification/Prelude.thy ===== *)
theory Prelude
  imports Main "HOL-Library.DAList" "HOL-Library.Word" "HOL-Library.List_Lexorder"
    "HOL-Library.Char_ord" "HOL-Library.Sublist" "HOL-Library.Multiset"
begin

text \<open>
  Shared vocabulary of the development: Go's built-in maps, slices sorted by a key, sum-typed
  results and the generic facts on lists, maps and words that the component theories use.

  A Go map is the library type \<open>('k, 'v) alist\<close>, an association list with distinct keys. The
  order of the list stands for the iteration order of \<open>range\<close>, which Go leaves open; every
  consumer in the program sorts what it collected, and \<open>sort_key_values_unique\<close> shows that the
  result does not depend on the order.
\<close>

named_theorems go_simps \<open>unfolding rules for the Go library model\<close>
named_theorems event_simps \<open>facts on normalized events\<close>
named_theorems inv_intros \<open>introduction rules for component invariants\<close>

subsection \<open>Types\<close>

type_synonym u8 = "8 word"
type_synonym u16 = "16 word"
type_synonym u32 = "32 word"
type_synonym u64 = "64 word"
type_synonym ('k, 'v) gomap = "('k, 'v) alist"

abbreviation map_get :: "('k, 'v) gomap \<Rightarrow> 'k \<Rightarrow> 'v option" where
  "map_get \<equiv> DAList.lookup"

abbreviation map_set :: "'k \<Rightarrow> 'v \<Rightarrow> ('k, 'v) gomap \<Rightarrow> ('k, 'v) gomap" where
  "map_set \<equiv> DAList.update"

abbreviation map_del :: "'k \<Rightarrow> ('k, 'v) gomap \<Rightarrow> ('k, 'v) gomap" where
  "map_del \<equiv> DAList.delete"

abbreviation map_new :: "('k, 'v) gomap" where
  "map_new \<equiv> DAList.empty"

text \<open>The values and the key/value pairs that a \<open>range\<close> loop visits, in iteration order.\<close>

abbreviation map_entries :: "('k, 'v) gomap \<Rightarrow> ('k \<times> 'v) list" where
  "map_entries \<equiv> DAList.impl_of"

definition map_values :: "('k, 'v) gomap \<Rightarrow> 'v list" where
  "map_values m = map snd (map_entries m)"

text \<open>The copy loop \<open>for k, v := range src { dst[k] = f(v) }\<close> into a fresh map.\<close>

definition map_copy :: "('v \<Rightarrow> 'w) \<Rightarrow> ('k, 'v) gomap \<Rightarrow> ('k, 'w) gomap" where
  "map_copy f m = fold (\<lambda>(k, v). map_set k (f v)) (map_entries m) map_new"

text \<open>\<open>maps.Equal\<close>: the same length and every entry of the first map in the second.\<close>

definition maps_Equal :: "('k, 'v) gomap \<Rightarrow> ('k, 'v) gomap \<Rightarrow> bool" where
  "maps_Equal a b \<longleftrightarrow> length (map_entries a) = length (map_entries b) \<and>
     list_all (\<lambda>(k, v). map_get b k = Some v) (map_entries a)"

subsection \<open>Association maps\<close>

lemma impl_of_empty [simp, go_simps]: "map_entries map_new = []"
  by transfer simp

lemma impl_of_update [simp, go_simps]: "map_entries (map_set k v m) = AList.update k v (map_entries m)"
  by transfer simp

lemma impl_of_delete [simp, go_simps]: "map_entries (map_del k m) = AList.delete k (map_entries m)"
  by transfer simp

lemma distinct_entries [simp]: "distinct (map_entries m)"
  using impl_of_distinct [of m] by (simp add: distinct_map)

lemma map_get_conv: "map_get m k = map_of (map_entries m) k"
  by transfer simp

lemma map_get_entries: "map_get m k = Some v \<longleftrightarrow> (k, v) \<in> set (map_entries m)"
  by (simp add: map_get_conv)

lemma map_values_iff: "v \<in> set (map_values m) \<longleftrightarrow> (\<exists>k. map_get m k = Some v)"
  by (force simp: map_values_def map_get_entries image_iff)

lemma map_values_getI: "map_get m k = Some v \<Longrightarrow> v \<in> set (map_values m)"
  by (auto simp: map_values_iff)

lemma map_values_empty [simp]: "map_values map_new = []"
  by (simp add: map_values_def)

lemma AList_update_fresh: "k \<notin> fst ` set xs \<Longrightarrow> AList.update k v xs = xs @ [(k, v)]"
  by (induction xs) auto

lemma fold_map_set_entries:
  "distinct (map fst (map_entries dst) @ map fst xs) \<Longrightarrow>
   map_entries (fold (\<lambda>(k, v). map_set k (f v)) xs dst) =
     map_entries dst @ map (\<lambda>(k, v). (k, f v)) xs"
proof (induction xs arbitrary: dst)
  case Nil
  then show ?case by simp
next
  case (Cons x xs)
  obtain k v where x: "x = (k, v)" by fastforce
  have fresh: "k \<notin> fst ` set (map_entries dst)"
    using Cons.prems x by auto
  then have upd: "map_entries (map_set k (f v) dst) = map_entries dst @ [(k, f v)]"
    by (simp add: AList_update_fresh)
  have "distinct (map fst (map_entries (map_set k (f v) dst)) @ map fst xs)"
    using Cons.prems x upd by auto
  from Cons.IH [OF this] show ?case
    using x upd by simp
qed

lemma map_copy_entries: "map_entries (map_copy f m) = map (\<lambda>(k, v). (k, f v)) (map_entries m)"
  using fold_map_set_entries [of map_new "map_entries m" f] by (simp add: map_copy_def)

lemma map_copy_id: "map_copy (\<lambda>v. v) m = m"
  by (simp add: alist_eq_iff map_copy_entries)

lemma map_copy_cong_id: "(\<And>k v. map_get m k = Some v \<Longrightarrow> f v = v) \<Longrightarrow> map_copy f m = m"
  by (force simp: alist_eq_iff map_copy_entries map_get_entries intro: map_idI)

lemma map_get_copy: "map_get (map_copy f m) k = map_option f (map_get m k)"
  by (simp add: map_get_conv map_copy_entries map_of_map)

lemma maps_Equal_refl [simp]: "maps_Equal a a"
  by (auto simp: maps_Equal_def list_all_iff map_get_entries)

lemma maps_Equal_iff: "maps_Equal a b \<longleftrightarrow> map_get a = map_get b"
proof
  assume eq: "maps_Equal a b"
  have sub: "set (map_entries a) \<subseteq> set (map_entries b)"
    using eq by (auto simp: maps_Equal_def list_all_iff map_get_entries)
  have "card (set (map_entries a)) = card (set (map_entries b))"
    using eq by (simp add: maps_Equal_def distinct_card [OF distinct_entries])
  with sub have "set (map_entries a) = set (map_entries b)"
    by (simp add: card_subset_eq)
  then show "map_get a = map_get b"
    by (metis ext map_get_conv map_of_inject_set impl_of_distinct)
next
  assume eq: "map_get a = map_get b"
  then have "set (map_entries a) = set (map_entries b)"
    by (auto simp flip: map_get_entries)
  then have "length (map_entries a) = length (map_entries b)"
    by (metis distinct_card distinct_entries)
  with eq show "maps_Equal a b"
    by (auto simp: maps_Equal_def list_all_iff simp flip: map_get_entries)
qed

subsection \<open>Sorting the values of a map\<close>

text \<open>
  \<open>sort.Slice\<close> by a strict comparison of keys. On slices with distinct keys the sorted order is
  unique, so the unstable \<open>sort.Slice\<close> and the library's \<open>sort_key\<close> agree.
\<close>

lemma sort_key_unique:
  fixes f :: "'a \<Rightarrow> 'b::linorder"
  assumes "mset xs = mset ys" and "sorted (map f ys)" and "inj_on f (set xs)"
  shows "sort_key f xs = ys"
  using assms by (metis sort_key_inj_key_eq)

lemma set_sort_key_values [simp]: "set (sort_key f (map_values m)) = set (map_values m)"
  by simp

text \<open>
  A map that stores each value under its own key: then sorting its values by that key gives the
  same slice whatever the iteration order.
\<close>

definition keyed_by :: "('v \<Rightarrow> 'k) \<Rightarrow> ('k, 'v) gomap \<Rightarrow> bool" where
  "keyed_by f m \<longleftrightarrow> list_all (\<lambda>(k, v). f v = k) (map_entries m)"

lemma keyed_by_get: "keyed_by f m \<Longrightarrow> map_get m k = Some v \<Longrightarrow> f v = k"
  by (auto simp: keyed_by_def list_all_iff map_get_entries)

lemma keyed_byI: "(\<And>k v. map_get m k = Some v \<Longrightarrow> f v = k) \<Longrightarrow> keyed_by f m"
  by (auto simp: keyed_by_def list_all_iff simp flip: map_get_entries)

lemma keyed_by_empty [simp]: "keyed_by f map_new"
  by (simp add: keyed_by_def)

lemma keyed_by_set: "keyed_by f m \<Longrightarrow> f v = k \<Longrightarrow> keyed_by f (map_set k v m)"
  by (rule keyed_byI) (auto simp: lookup_update dest: keyed_by_get split: if_splits)

lemma keyed_by_del: "keyed_by f m \<Longrightarrow> keyed_by f (map_del k m)"
  by (rule keyed_byI) (auto dest: keyed_by_get split: if_splits)

lemma keyed_by_keys: "keyed_by f m \<Longrightarrow> map f (map_values m) = map fst (map_entries m)"
  by (auto simp: keyed_by_def list_all_iff map_values_def)

lemma keyed_by_distinct_keys: "keyed_by f m \<Longrightarrow> distinct (map f (map_values m))"
  by (simp only: keyed_by_keys impl_of_distinct)

lemma keyed_by_inj: "keyed_by f m \<Longrightarrow> inj_on f (set (map_values m))"
  by (drule keyed_by_distinct_keys) (simp add: distinct_map)

lemma keyed_by_distinct: "keyed_by f m \<Longrightarrow> distinct (map_values m)"
  by (drule keyed_by_distinct_keys) (simp add: distinct_map)

theorem sort_key_values_unique:
  fixes f :: "'v \<Rightarrow> 'k::linorder"
  assumes "keyed_by f m" and "keyed_by f m'" and "map_get m = map_get m'"
  shows "sort_key f (map_values m) = sort_key f (map_values m')"
proof (rule sort_key_inj_key_eq)
  have "set (map_values m) = set (map_values m')"
    using assms(3) by (auto simp: map_values_iff)
  then show "mset (map_values m) = mset (sort_key f (map_values m'))"
    using assms(1,2) by (simp add: keyed_by_distinct set_eq_iff_mset_eq_distinct)
qed (use assms(1) in \<open>simp_all add: keyed_by_inj\<close>)

lemma filter_sort_key_values:
  fixes f :: "'v \<Rightarrow> 'k::linorder"
  shows "sort_key f (filter P (map_values m)) = filter P (sort_key f (map_values m))"
  by (simp add: filter_sort)

lemma find_SomeD: "find P xs = Some x \<Longrightarrow> x \<in> set xs \<and> P x"
  by (induction xs) (auto split: if_splits)

subsection \<open>Results\<close>

text \<open>A Go function that returns \<open>(T, error)\<close> returns \<open>Inl\<close> the error or \<open>Inr\<close> the value.\<close>

definition is_ok :: "'e + 'a \<Rightarrow> bool" where
  "is_ok r = (case r of Inl _ \<Rightarrow> False | Inr _ \<Rightarrow> True)"

lemma is_ok_simps [simp]: "is_ok (Inr x)" "\<not> is_ok (Inl e)"
  by (simp_all add: is_ok_def)

lemma is_ok_iff: "is_ok r \<longleftrightarrow> (\<exists>x. r = Inr x)"
  by (auto simp: is_ok_def split: sum.splits)

end
