(* ===== verification/Go_Strings.thy ===== *)
theory Go_Strings
  imports Prelude
begin

text \<open>
  The parts of Go's \<open>unicode/utf8\<close>, \<open>unicode\<close>, \<open>strings\<close> and \<open>encoding/hex\<close> packages that the
  program uses. A Go string is a byte sequence, here a \<open>string\<close> whose characters are bytes; it
  need not be valid UTF-8. Runes are natural numbers.

  \<open>CaseRanges\<close> is the simple lower-case mapping of Unicode 15, as (first, last, stride, delta)
  rows; \<open>unicode_ToLower_idem\<close> rests on a check of the whole table (\<open>case_table_clear\<close>).

  Main results: decoding inverts encoding (\<open>decodeRune_encodeRune\<close>), \<open>strings.TrimSpace\<close> and
  \<open>strings.ToLower\<close> are idempotent, and trimming leaves the lower-cased form of a trimmed string
  alone (\<open>TrimSpace_ToLower\<close>), which is what makes event normalization idempotent.
\<close>

subsection \<open>Bytes\<close>

definition bytes_of :: "string \<Rightarrow> nat list" where
  "bytes_of s = map of_char s"

definition string_of :: "nat list \<Rightarrow> string" where
  "string_of bs = map char_of bs"

definition byte_list :: "nat list \<Rightarrow> bool" where
  "byte_list bs = list_all (\<lambda>b. b < 256) bs"

subsection \<open>utf8\<close>

abbreviation RuneError :: nat where
  "RuneError \<equiv> 65533"

definition cont_byte :: "nat \<Rightarrow> bool" where
  "cont_byte b \<longleftrightarrow> 128 \<le> b \<and> b \<le> 191"

text \<open>\<open>utf8.RuneStart\<close>: not a continuation byte.\<close>

definition RuneStart :: "nat \<Rightarrow> bool" where
  "RuneStart b \<longleftrightarrow> \<not> cont_byte b"

text \<open>The accept range of the second byte of a three- or four-byte sequence.\<close>

definition accept_lo :: "nat \<Rightarrow> nat" where
  "accept_lo a = (if a = 224 then 160 else if a = 240 then 144 else 128)"

definition accept_hi :: "nat \<Rightarrow> nat" where
  "accept_hi a = (if a = 237 then 159 else if a = 244 then 143 else 191)"

text \<open>\<open>utf8.DecodeRune\<close>: the first rune and its width; a malformed start gives \<open>RuneError\<close>, 1.\<close>

fun decodeRune :: "nat list \<Rightarrow> nat \<times> nat" where
  "decodeRune [] = (RuneError, 0)"
| "decodeRune (a # bs) =
     (if a < 128 then (a, 1)
      else if 194 \<le> a \<and> a \<le> 223 then
        (case bs of
           b # _ \<Rightarrow> if cont_byte b then ((a - 192) * 64 + (b - 128), 2) else (RuneError, 1)
         | [] \<Rightarrow> (RuneError, 1))
      else if 224 \<le> a \<and> a \<le> 239 then
        (case bs of
           b # c # _ \<Rightarrow>
             if accept_lo a \<le> b \<and> b \<le> accept_hi a \<and> cont_byte c
             then ((a - 224) * 4096 + (b - 128) * 64 + (c - 128), 3) else (RuneError, 1)
         | _ \<Rightarrow> (RuneError, 1))
      else if 240 \<le> a \<and> a \<le> 244 then
        (case bs of
           b # c # d # _ \<Rightarrow>
             if accept_lo a \<le> b \<and> b \<le> accept_hi a \<and> cont_byte c \<and> cont_byte d
             then ((a - 240) * 262144 + (b - 128) * 4096 + (c - 128) * 64 + (d - 128), 4)
             else (RuneError, 1)
         | _ \<Rightarrow> (RuneError, 1))
      else (RuneError, 1))"

text \<open>\<open>utf8.DecodeLastRune\<close>: back up over at most four bytes to a rune start.\<close>

definition decodeLastRune :: "nat list \<Rightarrow> nat \<times> nat" where
  "decodeLastRune bs =
     (if bs = [] then (RuneError, 0)
      else if last bs < 128 then (last bs, 1)
      else case find (\<lambda>k. k \<le> length bs \<and> RuneStart (bs ! (length bs - k))) [1, 2, 3, 4] of
          None \<Rightarrow> (RuneError, 1)
        | Some k \<Rightarrow> (let (r, w) = decodeRune (drop (length bs - k) bs)
                     in if w = k then (r, w) else (RuneError, 1)))"

definition scalar :: "nat \<Rightarrow> bool" where
  "scalar r \<longleftrightarrow> r < 1114112 \<and> \<not> (55296 \<le> r \<and> r \<le> 57343)"

definition encodeScalar :: "nat \<Rightarrow> nat list" where
  "encodeScalar r =
     (if r < 128 then [r]
      else if r < 2048 then [192 + r div 64, 128 + r mod 64]
      else if r < 65536 then [224 + r div 4096, 128 + r div 64 mod 64, 128 + r mod 64]
      else [240 + r div 262144, 128 + r div 4096 mod 64, 128 + r div 64 mod 64, 128 + r mod 64])"

text \<open>\<open>utf8.AppendRune\<close>: surrogates and values beyond the range encode as \<open>RuneError\<close>.\<close>

definition encodeRune :: "nat \<Rightarrow> nat list" where
  "encodeRune r = encodeScalar (if scalar r then r else RuneError)"

lemma decodeRune_width: "bs \<noteq> [] \<Longrightarrow> 1 \<le> snd (decodeRune bs) \<and> snd (decodeRune bs) \<le> length bs"
  by (cases bs) (auto split: list.splits)

text \<open>The runes that \<open>for _, r := range s\<close> visits.\<close>

function runes :: "nat list \<Rightarrow> nat list" where
  "runes bs = (if bs = [] then [] else fst (decodeRune bs) # runes (drop (snd (decodeRune bs)) bs))"
  by pat_completeness auto
termination
  by (relation "measure length") (use decodeRune_width in \<open>fastforce+\<close>)

declare runes.simps [simp del]

definition utf8_encode :: "nat list \<Rightarrow> nat list" where
  "utf8_encode rs = concat (map encodeRune rs)"

text \<open>\<open>utf8.Valid\<close>: no byte is decoded as an error of width 1.\<close>

function utf8_valid :: "nat list \<Rightarrow> bool" where
  "utf8_valid bs \<longleftrightarrow>
     (if bs = [] then True
      else decodeRune bs \<noteq> (RuneError, 1) \<and> utf8_valid (drop (snd (decodeRune bs)) bs))"
  by pat_completeness auto
termination
  by (relation "measure length") (use decodeRune_width in \<open>fastforce+\<close>)

declare utf8_valid.simps [simp del]

subsection \<open>unicode\<close>

text \<open>\<open>unicode.IsSpace\<close>: the White\_Space code points.\<close>

definition IsSpace :: "nat \<Rightarrow> bool" where
  "IsSpace r \<longleftrightarrow> 9 \<le> r \<and> r \<le> 13 \<or> r = 32 \<or> r = 133 \<or> r = 160 \<or> r = 5760 \<or>
     8192 \<le> r \<and> r \<le> 8202 \<or> r = 8232 \<or> r = 8233 \<or> r = 8239 \<or> r = 8287 \<or> r = 12288"

type_synonym case_range = "int \<times> int \<times> int \<times> int"

definition CaseRanges :: "case_range list" where
  "CaseRanges = [
    (65,90,1,32), (192,214,1,32), (216,222,1,32), (256,302,2,1), (304,304,2,-199), (306,310,2,1),
    (313,327,2,1), (330,374,2,1), (376,376,2,-121), (377,381,2,1), (385,385,2,210),
    (386,388,2,1), (390,390,2,206), (391,391,2,1), (393,394,1,205), (395,395,2,1),
    (398,398,2,79), (399,399,2,202), (400,400,2,203), (401,401,2,1), (403,403,2,205),
    (404,404,2,207), (406,406,2,211), (407,407,2,209), (408,408,2,1), (412,412,2,211),
    (413,413,2,213), (415,415,2,214), (416,420,2,1), (422,422,2,218), (423,423,2,1),
    (425,425,2,218), (428,428,2,1), (430,430,2,218), (431,431,2,1), (433,434,1,217),
    (435,437,2,1), (439,439,2,219), (440,440,2,1), (444,444,2,1), (452,452,2,2), (453,453,2,1),
    (455,455,2,2), (456,456,2,1), (458,458,2,2), (459,475,2,1), (478,494,2,1), (497,497,2,2),
    (498,500,2,1), (502,502,2,-97), (503,503,2,-56), (504,542,2,1), (544,544,2,-130),
    (546,562,2,1), (570,570,2,10795), (571,571,2,1), (573,573,2,-163), (574,574,2,10792),
    (577,577,2,1), (579,579,2,-195), (580,580,2,69), (581,581,2,71), (582,590,2,1),
    (880,882,2,1), (886,886,2,1), (895,895,2,116), (902,902,2,38), (904,906,1,37),
    (908,908,2,64), (910,911,1,63), (913,929,1,32), (931,939,1,32), (975,975,2,8),
    (984,1006,2,1), (1012,1012,2,-60), (1015,1015,2,1), (1017,1017,2,-7), (1018,1018,2,1),
    (1021,1023,1,-130), (1024,1039,1,80), (1040,1071,1,32), (1120,1152,2,1), (1162,1214,2,1),
    (1216,1216,2,15), (1217,1229,2,1), (1232,1326,2,1), (1329,1366,1,48), (4256,4293,1,7264),
    (4295,4295,2,7264), (4301,4301,2,7264), (5024,5103,1,38864), (5104,5109,1,8),
    (7312,7354,1,-3008), (7357,7359,1,-3008), (7680,7828,2,1), (7838,7838,2,-7615),
    (7840,7934,2,1), (7944,7951,1,-8), (7960,7965,1,-8), (7976,7983,1,-8), (7992,7999,1,-8),
    (8008,8013,1,-8), (8025,8031,2,-8), (8040,8047,1,-8), (8072,8079,1,-8), (8088,8095,1,-8),
    (8104,8111,1,-8), (8120,8121,1,-8), (8122,8123,1,-74), (8124,8124,2,-9), (8136,8139,1,-86),
    (8140,8140,2,-9), (8152,8153,1,-8), (8154,8155,1,-100), (8168,8169,1,-8), (8170,8171,1,-112),
    (8172,8172,2,-7), (8184,8185,1,-128), (8186,8187,1,-126), (8188,8188,2,-9),
    (8486,8486,2,-7517), (8490,8490,2,-8383), (8491,8491,2,-8262), (8498,8498,2,28),
    (8544,8559,1,16), (8579,8579,2,1), (9398,9423,1,26), (11264,11311,1,48), (11360,11360,2,1),
    (11362,11362,2,-10743), (11363,11363,2,-3814), (11364,11364,2,-10727), (11367,11371,2,1),
    (11373,11373,2,-10780), (11374,11374,2,-10749), (11375,11375,2,-10783),
    (11376,11376,2,-10782), (11378,11378,2,1), (11381,11381,2,1), (11390,11391,1,-10815),
    (11392,11490,2,1), (11499,11501,2,1), (11506,11506,2,1), (42560,42604,2,1),
    (42624,42650,2,1), (42786,42798,2,1), (42802,42862,2,1), (42873,42875,2,1),
    (42877,42877,2,-35332), (42878,42886,2,1), (42891,42891,2,1), (42893,42893,2,-42280),
    (42896,42898,2,1), (42902,42920,2,1), (42922,42922,2,-42308), (42923,42923,2,-42319),
    (42924,42924,2,-42315), (42925,42925,2,-42305), (42926,42926,2,-42308),
    (42928,42928,2,-42258), (42929,42929,2,-42282), (42930,42930,2,-42261), (42931,42931,2,928),
    (42932,42946,2,1), (42948,42948,2,-48), (42949,42949,2,-42307), (42950,42950,2,-35384),
    (42951,42953,2,1), (42960,42960,2,1), (42966,42968,2,1), (42997,42997,2,1),
    (65313,65338,1,32), (66560,66599,1,40), (66736,66771,1,40), (66928,66938,1,39),
    (66940,66954,1,39), (66956,66962,1,39), (66964,66965,1,39), (68736,68786,1,64),
    (71840,71871,1,32), (93760,93791,1,32), (125184,125217,1,34)]"

definition in_range :: "int \<Rightarrow> case_range \<Rightarrow> bool" where
  "in_range r = (\<lambda>(lo, hi, stride, delta). lo \<le> r \<and> r \<le> hi \<and> (r - lo) mod stride = 0)"

text \<open>\<open>unicode.ToLower\<close>: add the delta of the row that contains the rune, if there is one.\<close>

definition unicode_ToLower :: "nat \<Rightarrow> nat" where
  "unicode_ToLower r =
     (case find (in_range (int r)) CaseRanges of
        None \<Rightarrow> r
      | Some (lo, hi, stride, delta) \<Rightarrow> nat (int r + delta))"

subsection \<open>strings\<close>

text \<open>\<open>strings.TrimLeftFunc\<close> and \<open>strings.TrimRightFunc\<close> with \<open>unicode.IsSpace\<close>.\<close>

function trimLeft :: "nat list \<Rightarrow> nat list" where
  "trimLeft bs =
     (if bs \<noteq> [] \<and> IsSpace (fst (decodeRune bs)) then trimLeft (drop (snd (decodeRune bs)) bs) else bs)"
  by pat_completeness auto
termination
  by (relation "measure length") (use decodeRune_width in \<open>fastforce+\<close>)

declare trimLeft.simps [simp del]

lemma decodeLastRune_width: "bs \<noteq> [] \<Longrightarrow> 1 \<le> snd (decodeLastRune bs)"
  by (auto simp: decodeLastRune_def Let_def split: option.splits prod.splits if_splits
      dest!: find_SomeD)

function trimRight :: "nat list \<Rightarrow> nat list" where
  "trimRight bs =
     (if bs \<noteq> [] \<and> IsSpace (fst (decodeLastRune bs))
      then trimRight (take (length bs - snd (decodeLastRune bs)) bs) else bs)"
  by pat_completeness auto
termination
  by (relation "measure length") (use decodeLastRune_width in \<open>fastforce+\<close>)

declare trimRight.simps [simp del]

definition TrimSpace :: "string \<Rightarrow> string" where
  "TrimSpace s = string_of (trimRight (trimLeft (bytes_of s)))"

text \<open>
  \<open>strings.ToLower\<close>: the fast path for ASCII, otherwise \<open>strings.Map(unicode.ToLower, s)\<close>, which
  re-encodes every rune and so writes \<open>RuneError\<close> for each malformed byte.
\<close>

definition ascii_lower :: "nat \<Rightarrow> nat" where
  "ascii_lower b = (if 65 \<le> b \<and> b \<le> 90 then b + 32 else b)"

definition ToLower :: "string \<Rightarrow> string" where
  "ToLower s =
     (let bs = bytes_of s
      in if list_all (\<lambda>b. b < 128) bs then string_of (map ascii_lower bs)
         else string_of (utf8_encode (map unicode_ToLower (runes bs))))"

text \<open>\<open>strings.Join\<close>.\<close>

fun Join :: "string list \<Rightarrow> string \<Rightarrow> string" where
  "Join [] sep = []"
| "Join [x] sep = x"
| "Join (x # y # xs) sep = x @ sep @ Join (y # xs) sep"

text \<open>\<open>hex.EncodeToString\<close>.\<close>

definition hex_digit :: "nat \<Rightarrow> char" where
  "hex_digit n = ''0123456789abcdef'' ! (n mod 16)"

definition hex_encode :: "nat list \<Rightarrow> string" where
  "hex_encode bs = concat (map (\<lambda>b. [hex_digit (b div 16), hex_digit b]) bs)"

subsection \<open>Encoding and decoding runes\<close>

lemma scalar_RuneError [simp]: "scalar RuneError"
  by (simp add: scalar_def)

lemma encodeRune_scalar: "scalar r \<Longrightarrow> encodeRune r = encodeScalar r"
  by (simp add: encodeRune_def)

lemma mod64_le [simp]: "n mod 64 \<le> (63::nat)"
  using mod_less_divisor [of 64 n] by simp

lemma base64_sum3: "r div 4096 * 4096 + r div 64 mod 64 * 64 + r mod 64 = (r::nat)"
proof -
  have "r div 4096 = r div 64 div 64" by (simp flip: div_mult2_eq)
  then have "(r div 4096 * 64 + r div 64 mod 64) * 64 + r mod 64 = r"
    by (simp add: div_mult_mod_eq)
  then show ?thesis by (simp add: algebra_simps)
qed

lemma base64_sum4:
  "r div 262144 * 262144 + r div 4096 mod 64 * 4096 + r div 64 mod 64 * 64 + r mod 64 = (r::nat)"
proof -
  have "r div 262144 = r div 4096 div 64" by (simp flip: div_mult2_eq)
  then have "r div 262144 * 64 + r div 4096 mod 64 = r div 4096"
    by (simp add: div_mult_mod_eq)
  then have "(r div 262144 * 64 + r div 4096 mod 64) * 4096 = r div 4096 * 4096"
    by (rule arg_cong)
  then have "r div 262144 * 262144 + r div 4096 mod 64 * 4096 = r div 4096 * 4096"
    by (simp add: distrib_right mult.assoc del: mult_cancel2)
  then show ?thesis using base64_sum3 [of r] by linarith
qed

lemma decodeRune_encodeScalar:
  assumes "scalar r"
  shows "decodeRune (encodeScalar r @ s) = (r, length (encodeScalar r))"
proof -
  consider "r < 128" | "128 \<le> r" "r < 2048" | "2048 \<le> r" "r < 65536" | "65536 \<le> r"
    by linarith
  then show ?thesis
  proof cases
    case 1
    then show ?thesis by (simp add: encodeScalar_def)
  next
    case 2
    have "2 \<le> r div 64" "r div 64 \<le> 31" "r mod 64 < 64" using 2 by auto
    then show ?thesis using 2
      by (auto simp: encodeScalar_def cont_byte_def)
  next
    case 3
    have q: "r div 4096 \<le> 15" "r div 64 mod 64 < 64" "r mod 64 < 64" using 3 by auto
    have lo: "32 \<le> r div 64 mod 64" if "r div 4096 = 0"
    proof -
      have "r < 4096" using that by (simp add: div_eq_0_iff)
      with 3 have "32 \<le> r div 64" "r div 64 < 64" by auto
      then show ?thesis by simp
    qed
    have hi: "r div 64 mod 64 \<le> 31" if "r div 4096 = 13"
    proof -
      have "53248 \<le> r" "r < 57344" using that by auto
      with assms have "53248 \<le> r" "r < 55296" by (auto simp: scalar_def)
      then have "832 \<le> r div 64" "r div 64 < 864" by auto
      then have "r div 64 - 832 < 32" "r div 64 mod 64 = (r div 64 - 832) mod 64"
        using mod_mult_self2 [of "r div 64 - 832" 64 13] by auto
      then show ?thesis by simp
    qed
    have sum: "r div 4096 * 4096 + r div 64 mod 64 * 64 + r mod 64 = r"
      by (rule base64_sum3)
    show ?thesis using 3 q lo hi sum
      by (auto simp: encodeScalar_def cont_byte_def accept_lo_def accept_hi_def)
  next
    case 4
    have top: "r < 1114112" using assms by (simp add: scalar_def)
    have q: "r div 262144 \<le> 4" "r div 4096 mod 64 < 64" "r div 64 mod 64 < 64" "r mod 64 < 64"
      using top by auto
    have lo: "16 \<le> r div 4096 mod 64" if "r div 262144 = 0"
    proof -
      have "r < 262144" using that by (simp add: div_eq_0_iff)
      with 4 have "16 \<le> r div 4096" "r div 4096 < 64" by auto
      then show ?thesis by simp
    qed
    have hi: "r div 4096 mod 64 \<le> 15" if "r div 262144 = 4"
    proof -
      have "1048576 \<le> r" using that by auto
      with top have "256 \<le> r div 4096" "r div 4096 < 272" by auto
      then have "r div 4096 - 256 < 16" "r div 4096 mod 64 = (r div 4096 - 256) mod 64"
        using mod_mult_self2 [of "r div 4096 - 256" 64 4] by auto
      then show ?thesis by simp
    qed
    have sum: "r div 262144 * 262144 + r div 4096 mod 64 * 4096 + r div 64 mod 64 * 64 + r mod 64 = r"
      by (rule base64_sum4)
    show ?thesis using 4 q lo hi sum
      by (auto simp: encodeScalar_def cont_byte_def accept_lo_def accept_hi_def)
  qed
qed

lemma encodeScalar_ne [simp]: "encodeScalar r \<noteq> []"
  by (simp add: encodeScalar_def)

lemma byte_list_encodeScalar: "scalar r \<Longrightarrow> byte_list (encodeScalar r)"
  by (auto simp: encodeScalar_def byte_list_def scalar_def le_less_trans [OF mod64_le]
      less_mult_imp_div_less)

lemma encode_single: "a < 128 \<Longrightarrow> scalar a \<and> encodeScalar a = [a]"
  by (simp add: scalar_def encodeScalar_def)

lemma encode_pair: "194 \<le> a \<Longrightarrow> a \<le> 223 \<Longrightarrow> cont_byte b \<Longrightarrow>
  scalar ((a - 192) * 64 + (b - 128)) \<and> encodeScalar ((a - 192) * 64 + (b - 128)) = [a, b]"
proof -
  assume ab: "194 \<le> a" "a \<le> 223" "cont_byte b"
  define x y where "x = a - 192" and "y = b - 128"
  have "a = x + 192" "b = y + 128" "2 \<le> x" "x < 32" "y < 64"
    using ab by (auto simp: x_def y_def cont_byte_def)
  then show ?thesis by (auto simp: encodeScalar_def scalar_def)
qed

lemma encode_triple: "224 \<le> a \<Longrightarrow> a \<le> 239 \<Longrightarrow> accept_lo a \<le> b \<Longrightarrow> b \<le> accept_hi a \<Longrightarrow>
  cont_byte c \<Longrightarrow>
  scalar ((a - 224) * 4096 + (b - 128) * 64 + (c - 128)) \<and>
  encodeScalar ((a - 224) * 4096 + (b - 128) * 64 + (c - 128)) = [a, b, c]"
proof -
  assume abc: "224 \<le> a" "a \<le> 239" "accept_lo a \<le> b" "b \<le> accept_hi a" "cont_byte c"
  define x y z where "x = a - 224" and "y = b - 128" and "z = c - 128"
  have eq: "a = x + 224" "b = y + 128" "c = z + 128" "x < 16" "y < 64" "z < 64"
    and lo: "x = 0 \<longrightarrow> 32 \<le> y" and hi: "x = 13 \<longrightarrow> y < 32"
    using abc by (auto simp: x_def y_def z_def cont_byte_def accept_lo_def accept_hi_def split: if_splits)
  define r where "r = x * 4096 + y * 64 + z"
  have "r = z + (x * 64 + y) * 64"
    by (simp add: r_def)
  then have "r mod 64 = z"
    using eq(6) by (metis mod_mult_self1 mod_less)
  moreover have "r div 64 = x * 64 + y"
    using eq(6) by (simp add: r_def)
  moreover have "r div 4096 = x"
    using eq(5,6) by (simp add: r_def)
  moreover have "2048 \<le> r" "r < 65536"
    using eq lo by (auto simp: r_def)
  moreover have "scalar r"
  proof -
    consider "x \<le> 12" | "x = 13" | "14 \<le> x" by linarith
    then show ?thesis
      by cases (use eq hi in \<open>auto simp: r_def scalar_def\<close>)
  qed
  ultimately show ?thesis
    using eq(5) by (simp add: encodeScalar_def eq(1-3) r_def [symmetric])
qed

lemma encode_quad: "240 \<le> a \<Longrightarrow> a \<le> 244 \<Longrightarrow> accept_lo a \<le> b \<Longrightarrow> b \<le> accept_hi a \<Longrightarrow>
  cont_byte c \<Longrightarrow> cont_byte d \<Longrightarrow>
  scalar ((a - 240) * 262144 + (b - 128) * 4096 + (c - 128) * 64 + (d - 128)) \<and>
  encodeScalar ((a - 240) * 262144 + (b - 128) * 4096 + (c - 128) * 64 + (d - 128)) = [a, b, c, d]"
proof -
  assume abcd: "240 \<le> a" "a \<le> 244" "accept_lo a \<le> b" "b \<le> accept_hi a" "cont_byte c" "cont_byte d"
  define w x y z where "w = a - 240" and "x = b - 128" and "y = c - 128" and "z = d - 128"
  have eq: "a = w + 240" "b = x + 128" "c = y + 128" "d = z + 128" "w \<le> 4" "x < 64" "y < 64" "z < 64"
    and lo: "w = 0 \<longrightarrow> 16 \<le> x" and hi: "w = 4 \<longrightarrow> x < 16"
    using abcd by (auto simp: w_def x_def y_def z_def cont_byte_def accept_lo_def accept_hi_def split: if_splits)
  define r where "r = w * 262144 + x * 4096 + y * 64 + z"
  have "r = z + (w * 4096 + x * 64 + y) * 64"
    by (simp add: r_def)
  then have "r mod 64 = z"
    using eq(8) by (metis mod_mult_self1 mod_less)
  moreover have "r div 64 = y + (w * 64 + x) * 64"
    using eq(8) by (simp add: r_def)
  then have "r div 64 mod 64 = y"
    using eq(7) by (metis mod_mult_self1 mod_less)
  moreover have "r div 4096 = w * 64 + x" "r div 262144 = w"
    using eq(6-8) by (simp_all add: r_def)
  moreover have "65536 \<le> r" "r < 1114112" "scalar r"
    using eq lo hi by (auto simp: r_def scalar_def)
  ultimately show ?thesis
    using eq(6,7) by (simp add: encodeScalar_def eq(1-4) r_def [symmetric])
qed

lemma decodeRune_valid:
  assumes "decodeRune bs = (r, w)" and "bs \<noteq> []" and "(r, w) \<noteq> (RuneError, 1)"
  shows "scalar r \<and> take w bs = encodeScalar r"
  using assms
  by (cases bs) (auto simp: encode_single encode_pair encode_triple encode_quad
      split: if_splits list.splits)

lemma decodeRune_scalar: "scalar (fst (decodeRune bs))"
proof (cases "bs = [] \<or> decodeRune bs = (RuneError, 1)")
  case True
  then show ?thesis by auto
next
  case False
  then show ?thesis
    using decodeRune_valid [of bs "fst (decodeRune bs)" "snd (decodeRune bs)"] by simp
qed

lemma not_space_RuneError [simp]: "\<not> IsSpace RuneError"
  by (simp add: IsSpace_def)

text \<open>A decoded white space rune is a well-formed prefix, so it survives appending.\<close>

lemma decodeRune_spaceD:
  assumes "IsSpace (fst (decodeRune bs))"
  obtains r rest where "bs = encodeScalar r @ rest" "scalar r" "IsSpace r"
    "decodeRune bs = (r, length (encodeScalar r))"
proof -
  obtain r w where rw: "decodeRune bs = (r, w)" by fastforce
  have ne: "bs \<noteq> []" "(r, w) \<noteq> (RuneError, 1)" using assms rw by auto
  note v = decodeRune_valid [OF rw ne]
  have "bs = encodeScalar r @ drop w bs"
    using v by (metis append_take_drop_id)
  moreover have "decodeRune bs = (r, length (encodeScalar r))"
    using decodeRune_encodeScalar v by (metis calculation)
  ultimately show thesis
    using that v assms rw by auto
qed

lemma decodeRune_take_space:
  assumes "IsSpace (fst (decodeRune (take n bs)))"
  shows "IsSpace (fst (decodeRune bs))"
proof -
  obtain r rest where r: "take n bs = encodeScalar r @ rest" "scalar r" "IsSpace r"
    using assms by (rule decodeRune_spaceD)
  then have "bs = encodeScalar r @ rest @ drop n bs"
    by (metis append.assoc append_take_drop_id)
  with r show ?thesis
    by (metis decodeRune_encodeScalar fst_conv)
qed

lemma encodeScalar_shape:
  assumes "scalar r" "128 \<le> r"
  obtains a cs where "encodeScalar r = a # cs" "cs \<noteq> []" "length cs \<le> 3" "RuneStart a" "128 \<le> a"
    "\<And>c. c \<in> set cs \<Longrightarrow> cont_byte c"
  using assms that
  by (fastforce simp: encodeScalar_def RuneStart_def cont_byte_def scalar_def split: if_splits)

lemma nth_append_back:
  "k \<le> length ys \<Longrightarrow> 0 < k \<Longrightarrow> (xs @ ys) ! (length xs + length ys - k) = ys ! (length ys - k)"
  by (auto simp: nth_append)

lemma find_rune_start:
  assumes "RuneStart a" "cs \<noteq> []" "length cs \<le> 3" and cont: "\<And>c. c \<in> set cs \<Longrightarrow> cont_byte c"
    and bs_def: "bs = xs @ a # cs"
  shows "find (\<lambda>k. k \<le> length bs \<and> RuneStart (bs ! (length bs - k))) [1, 2, 3, 4] = Some (Suc (length cs))"
proof -
  have at_end: "bs ! (length bs - k) = (a # cs) ! (Suc (length cs) - k)" if "k \<le> Suc (length cs)" "0 < k" for k
    using that nth_append_back [of k "a # cs" xs] by (simp add: bs_def)
  have len: "Suc (length cs) \<le> length bs" by (simp add: bs_def)
  consider c where "cs = [c]" "cont_byte c" | c d where "cs = [c, d]" "cont_byte c" "cont_byte d"
    | c d e where "cs = [c, d, e]" "cont_byte c" "cont_byte d" "cont_byte e"
    using assms(2,3) cont by (cases cs; cases "tl cs"; cases "tl (tl cs)") auto
  then show ?thesis
  proof cases
    case 1
    then show ?thesis using at_end [of 1] at_end [of 2] len assms(1) by (simp add: RuneStart_def)
  next
    case 2
    then show ?thesis using at_end [of 1] at_end [of 2] at_end [of 3] len assms(1) by (simp add: RuneStart_def)
  next
    case 3
    then show ?thesis using at_end [of 1] at_end [of 2] at_end [of 3] at_end [of 4] len assms(1)
      by (simp add: RuneStart_def)
  qed
qed

lemma decodeLastRune_encodeScalar:
  assumes "scalar r"
  shows "decodeLastRune (xs @ encodeScalar r) = (r, length (encodeScalar r))"
proof (cases "r < 128")
  case True
  then show ?thesis by (simp add: decodeLastRune_def encodeScalar_def)
next
  case False
  then obtain a cs where e: "encodeScalar r = a # cs" "cs \<noteq> []" "length cs \<le> 3" "RuneStart a"
    "\<And>c. c \<in> set cs \<Longrightarrow> cont_byte c"
    using assms encodeScalar_shape [of r] by (metis not_less)
  have "\<not> last (xs @ a # cs) < 128"
    using e(2) e(5) [of "last cs"] by (auto simp: cont_byte_def)
  moreover have "decodeRune (a # cs) = (r, Suc (length cs))"
    using decodeRune_encodeScalar [OF assms, of "[]"] e(1) by simp
  ultimately show ?thesis
    using find_rune_start [OF e(4,2,3,5) refl] e(1) by (simp add: decodeLastRune_def)
qed

lemma decodeLastRune_spaceD:
  assumes "IsSpace (fst (decodeLastRune bs))"
  obtains r pre where "bs = pre @ encodeScalar r" "scalar r" "IsSpace r"
    "snd (decodeLastRune bs) = length (encodeScalar r)"
proof -
  have ne: "bs \<noteq> []" using assms by (auto simp: decodeLastRune_def)
  show thesis
  proof (cases "last bs < 128")
    case True
    have last: "decodeLastRune bs = (last bs, 1)"
      using True ne by (simp add: decodeLastRune_def)
    show ?thesis
      by (rule that [where r = "last bs" and pre = "butlast bs"])
        (use True ne assms last encode_single [OF True] in auto)
  next
    case False
    then obtain k where k: "find (\<lambda>k. k \<le> length bs \<and> RuneStart (bs ! (length bs - k))) [1, 2, 3, 4] = Some k"
        "decodeLastRune bs = decodeRune (drop (length bs - k) bs)"
        "snd (decodeRune (drop (length bs - k) bs)) = k"
      using assms ne by (auto simp: decodeLastRune_def Let_def split: option.splits prod.splits if_splits)
    then have "IsSpace (fst (decodeRune (drop (length bs - k) bs)))" using assms by simp
    then obtain r rest where r: "drop (length bs - k) bs = encodeScalar r @ rest" "scalar r" "IsSpace r"
        "decodeRune (drop (length bs - k) bs) = (r, length (encodeScalar r))"
      by (rule decodeRune_spaceD)
    have "k \<le> length bs" using find_SomeD [OF k(1)] by simp
    then have "length (drop (length bs - k) bs) = k" by simp
    with r k(3) have "rest = []" by simp
    then have "bs = take (length bs - k) bs @ encodeScalar r"
      using r(1) by (metis append_Nil2 append_take_drop_id)
    then show ?thesis using that r k by simp
  qed
qed

subsection \<open>Runes of encoded text\<close>

lemma runes_Nil [simp]: "runes [] = []"
  by (simp add: runes.simps)

lemma runes_encodeScalar: "scalar r \<Longrightarrow> runes (encodeScalar r @ bs) = r # runes bs"
  by (subst runes.simps) (simp add: decodeRune_encodeScalar)

lemma utf8_encode_Cons [simp]: "utf8_encode (r # rs) = encodeRune r @ utf8_encode rs"
  by (simp add: utf8_encode_def)

lemma utf8_encode_Nil [simp]: "utf8_encode [] = []"
  by (simp add: utf8_encode_def)

lemma utf8_encode_append: "utf8_encode (rs @ rs') = utf8_encode rs @ utf8_encode rs'"
  by (simp add: utf8_encode_def)

lemma runes_utf8_encode: "list_all scalar rs \<Longrightarrow> runes (utf8_encode rs) = rs"
  by (induction rs) (simp_all add: encodeRune_scalar runes_encodeScalar)

lemma runes_scalar: "list_all scalar (runes bs)"
proof (induction bs rule: runes.induct)
  case (1 bs)
  then show ?case by (subst runes.simps) (simp add: decodeRune_scalar)
qed

lemma byte_list_utf8_encode: "byte_list (utf8_encode rs)"
  by (induction rs) (use byte_list_encodeScalar in \<open>auto simp: byte_list_def encodeRune_def\<close>)

lemma runes_eq_Nil [simp]: "runes bs = [] \<longleftrightarrow> bs = []"
  by (subst runes.simps) simp

lemma utf8_encode_eq_Nil [simp]: "utf8_encode rs = [] \<longleftrightarrow> rs = []"
  by (cases rs) (simp_all add: encodeRune_def)

lemma runes_last_space:
  "bs \<noteq> [] \<Longrightarrow> IsSpace (last (runes bs)) \<Longrightarrow> IsSpace (fst (decodeLastRune bs))"
proof (induction bs rule: runes.induct)
  case (1 bs)
  let ?r = "fst (decodeRune bs)" and ?rest = "drop (snd (decodeRune bs)) bs"
  have eq: "runes bs = ?r # runes ?rest" using 1(2) by (simp add: runes.simps [of bs])
  show ?case
  proof (cases "?rest = []")
    case True
    then have "IsSpace ?r" using 1(3) eq by simp
    then obtain r rest where r: "bs = encodeScalar r @ rest" "scalar r" "IsSpace r"
        "decodeRune bs = (r, length (encodeScalar r))"
      by (rule decodeRune_spaceD)
    then have "bs = encodeScalar r" using True by simp
    then show ?thesis using r decodeLastRune_encodeScalar [of r "[]"] by simp
  next
    case False
    then have "IsSpace (last (runes ?rest))" using 1(3) eq by simp
    with 1(1,2) False have "IsSpace (fst (decodeLastRune ?rest))" by blast
    then obtain r pre where r: "?rest = pre @ encodeScalar r" "scalar r" "IsSpace r"
      by (rule decodeLastRune_spaceD)
    then have "bs = (take (snd (decodeRune bs)) bs @ pre) @ encodeScalar r"
      by (metis append.assoc append_take_drop_id)
    then show ?thesis using r decodeLastRune_encodeScalar by (metis fst_conv)
  qed
qed

subsection \<open>Trimming\<close>

definition trimmed :: "nat list \<Rightarrow> bool" where
  "trimmed bs \<longleftrightarrow> bs = [] \<or> \<not> IsSpace (fst (decodeRune bs)) \<and> \<not> IsSpace (fst (decodeLastRune bs))"

lemma trimLeft_stop: "trimLeft bs = [] \<or> \<not> IsSpace (fst (decodeRune (trimLeft bs)))"
proof (induction bs rule: trimLeft.induct)
  case (1 bs)
  then show ?case
    by (cases "bs \<noteq> [] \<and> IsSpace (fst (decodeRune bs))") (auto simp: trimLeft.simps [of bs])
qed

lemma trimRight_stop: "trimRight bs = [] \<or> \<not> IsSpace (fst (decodeLastRune (trimRight bs)))"
proof (induction bs rule: trimRight.induct)
  case (1 bs)
  then show ?case
    by (cases "bs \<noteq> [] \<and> IsSpace (fst (decodeLastRune bs))") (auto simp: trimRight.simps [of bs])
qed

lemma trimLeft_drop: "\<exists>n. trimLeft bs = drop n bs"
proof (induction bs rule: trimLeft.induct)
  case (1 bs)
  then show ?case
    by (cases "bs \<noteq> [] \<and> IsSpace (fst (decodeRune bs))")
      (auto simp: trimLeft.simps [of bs] intro: exI [of _ 0])
qed

lemma trimRight_take: "\<exists>n. trimRight bs = take n bs"
proof (induction bs rule: trimRight.induct)
  case (1 bs)
  then show ?case
    by (cases "bs \<noteq> [] \<and> IsSpace (fst (decodeLastRune bs))")
      (auto simp: trimRight.simps [of bs] intro: exI [of _ "length bs"])
qed

lemma trimmed_trim: "trimmed (trimRight (trimLeft bs))"
proof -
  obtain n where n: "trimRight (trimLeft bs) = take n (trimLeft bs)"
    using trimRight_take by blast
  have "trimRight (trimLeft bs) \<noteq> [] \<Longrightarrow> \<not> IsSpace (fst (decodeRune (trimRight (trimLeft bs))))"
    using trimLeft_stop [of bs] decodeRune_take_space [of n "trimLeft bs"] n by auto
  then show ?thesis
    using trimRight_stop [of "trimLeft bs"] by (auto simp: trimmed_def)
qed

lemma trim_trimmed: "trimmed bs \<Longrightarrow> trimRight (trimLeft bs) = bs"
  by (auto simp: trimmed_def trimLeft.simps [of bs] trimRight.simps [of bs])

lemma byte_list_trim: "byte_list bs \<Longrightarrow> byte_list (trimRight (trimLeft bs))"
proof -
  assume bs: "byte_list bs"
  obtain n where n: "trimLeft bs = drop n bs" using trimLeft_drop by blast
  obtain m where m: "trimRight (trimLeft bs) = take m (trimLeft bs)" using trimRight_take by blast
  have "set (trimRight (trimLeft bs)) \<subseteq> set (trimLeft bs)" unfolding m by (rule set_take_subset)
  also have "\<dots> \<subseteq> set bs" unfolding n by (rule set_drop_subset)
  finally have "set (trimRight (trimLeft bs)) \<subseteq> set bs" .
  then show ?thesis using bs by (auto simp: byte_list_def list_all_iff)
qed

lemma byte_list_bytes_of [simp]: "byte_list (bytes_of s)"
  by (simp add: byte_list_def bytes_of_def list_all_iff)

lemma bytes_of_string_of: "byte_list bs \<Longrightarrow> bytes_of (string_of bs) = bs"
  by (induction bs) (simp_all add: bytes_of_def string_of_def byte_list_def)

lemma string_of_bytes_of [simp]: "string_of (bytes_of s) = s"
  by (simp add: bytes_of_def string_of_def)

lemma bytes_of_TrimSpace: "bytes_of (TrimSpace s) = trimRight (trimLeft (bytes_of s))"
  by (simp add: TrimSpace_def bytes_of_string_of byte_list_trim)

lemma TrimSpace_trimmed: "trimmed (bytes_of s) \<Longrightarrow> TrimSpace s = s"
  by (simp add: TrimSpace_def trim_trimmed)

lemma trimmed_TrimSpace [simp]: "trimmed (bytes_of (TrimSpace s))"
  by (simp add: bytes_of_TrimSpace trimmed_trim)

theorem TrimSpace_idem [simp]: "TrimSpace (TrimSpace s) = TrimSpace s"
  by (simp add: TrimSpace_trimmed)

lemma TrimSpace_empty [simp]: "TrimSpace [] = []"
  by (rule TrimSpace_trimmed) (simp add: trimmed_def bytes_of_def)

subsection \<open>The case table\<close>

text \<open>
  One row is sound when its image holds no white space and no surrogate. Two rows are clear of each
  other when the image of the first misses the second. The table is checked in chunks, each with the
  interval it spans, so that most pairs are decided by their chunk.
\<close>

definition row_ok :: "case_range \<Rightarrow> bool" where
  "row_ok = (\<lambda>(lo, hi, stride, delta).
     (let a = lo + delta; b = hi + delta
      in 32 < a \<and> (b < 133 \<or> 160 < a) \<and> (b < 5760 \<or> 5760 < a) \<and> (b < 8192 \<or> 8287 < a) \<and>
         (b < 12288 \<or> 12288 < a) \<and> (b < 55296 \<or> 57343 < a) \<and> b < 1114112))"

definition row_clear :: "case_range \<Rightarrow> case_range \<Rightarrow> bool" where
  "row_clear = (\<lambda>(lo, hi, stride, delta) (lo', hi', stride', delta').
     hi + delta < lo' \<or> hi' < lo + delta \<or> stride = 2 \<and> stride' = 2 \<and> (lo + delta - lo') mod 2 = 1)"

fun chunks :: "nat \<Rightarrow> 'a list \<Rightarrow> 'a list list" where
  "chunks 0 xs = [xs]"
| "chunks (Suc n) xs = take 14 xs # chunks n (drop 14 xs)"

definition span_clear :: "case_range \<Rightarrow> case_range list \<Rightarrow> bool" where
  "span_clear row rows =
     (let (lo, hi, stride, delta) = row; (lo', _) = hd rows; (_, hi', _) = last rows
      in if hi + delta < lo' \<or> hi' < lo + delta
         then True else list_all (row_clear row) rows)"

definition span_ok :: "case_range list \<Rightarrow> bool" where
  "span_ok rows = (let (lo, _) = hd rows; (_, hi, _) = last rows
     in list_all (\<lambda>(lo', hi', _). lo \<le> lo' \<and> hi' \<le> hi) rows)"

lemma concat_chunks: "concat (chunks n xs) = xs"
  by (induction n xs rule: chunks.induct) simp_all

lemma case_rows_ok: "list_all row_ok CaseRanges"
  by code_simp

lemma case_spans_ok: "list_all span_ok (chunks 12 CaseRanges)"
  by code_simp

lemma case_table_clear:
  "list_all (\<lambda>row. list_all (span_clear row) (chunks 12 CaseRanges)) CaseRanges"
  by code_simp

lemma find_row:
  assumes "find (in_range (int r)) CaseRanges = Some (lo, hi, stride, delta)"
  shows "(lo, hi, stride, delta) \<in> set CaseRanges" "lo \<le> int r" "int r \<le> hi" "(int r - lo) mod stride = 0"
  using find_SomeD [OF assms] by (auto simp: in_range_def)

lemma row_image:
  assumes "find (in_range (int r)) CaseRanges = Some (lo, hi, stride, delta)"
  shows "lo + delta \<le> int (unicode_ToLower r)" "int (unicode_ToLower r) \<le> hi + delta"
    "int (unicode_ToLower r) = int r + delta"
proof -
  have "32 < lo + delta"
    using case_rows_ok find_row(1) [OF assms] by (auto simp: list_all_iff row_ok_def Let_def)
  then have "int (unicode_ToLower r) = int r + delta"
    using assms find_row(2) [OF assms] by (simp add: unicode_ToLower_def)
  then show "lo + delta \<le> int (unicode_ToLower r)" "int (unicode_ToLower r) \<le> hi + delta"
    "int (unicode_ToLower r) = int r + delta"
    using find_row(2,3) [OF assms] by simp_all
qed

lemma unicode_ToLower_fixed: "find (in_range (int r)) CaseRanges = None \<Longrightarrow> unicode_ToLower r = r"
  by (simp add: unicode_ToLower_def)

lemma rows_clear:
  assumes "row \<in> set CaseRanges" "row' \<in> set CaseRanges"
  shows "row_clear row row'"
proof -
  obtain rows where rows: "rows \<in> set (chunks 12 CaseRanges)" "row' \<in> set rows"
    using assms(2) by (metis concat_chunks UN_E set_concat)
  have clear: "span_clear row rows" and ok: "span_ok rows"
    using case_table_clear case_spans_ok assms(1) rows(1) by (auto simp: list_all_iff)
  show ?thesis
  proof (cases "list_all (row_clear row) rows")
    case True
    with rows show ?thesis by (simp add: list_all_iff)
  next
    case False
    with clear ok rows show ?thesis
      by (cases "hd rows"; cases "last rows"; cases row; cases row')
        (fastforce simp: span_clear_def span_ok_def row_clear_def list_all_iff split: if_splits)
  qed
qed

theorem unicode_ToLower_idem: "unicode_ToLower (unicode_ToLower r) = unicode_ToLower r"
proof (cases "find (in_range (int r)) CaseRanges")
  case None
  then show ?thesis by (simp add: unicode_ToLower_fixed)
next
  case (Some row)
  obtain lo hi stride delta where row: "row = (lo, hi, stride, delta)" by (cases row) auto
  note this_row = Some [unfolded row]
  have "find (in_range (int (unicode_ToLower r))) CaseRanges = None"
  proof (rule ccontr)
    assume "find (in_range (int (unicode_ToLower r))) CaseRanges \<noteq> None"
    then obtain lo' hi' stride' delta' where other:
        "find (in_range (int (unicode_ToLower r))) CaseRanges = Some (lo', hi', stride', delta')"
      by auto
    have "row_clear (lo, hi, stride, delta) (lo', hi', stride', delta')"
      using rows_clear find_row(1) this_row other by blast
    then have "stride = 2" "stride' = 2" "(lo + delta - lo') mod 2 = 1"
      using row_image [OF this_row] find_row(2,3) [OF other] by (auto simp: row_clear_def)
    moreover from calculation have "(int r - lo) mod 2 = 0" "(int r + delta - lo') mod 2 = 0"
      using find_row(4) [OF this_row] find_row(4) [OF other] row_image(3) [OF this_row] by simp_all
    ultimately show False by presburger
  qed
  then show ?thesis by (rule unicode_ToLower_fixed)
qed

lemma unicode_ToLower_scalar: "scalar r \<Longrightarrow> scalar (unicode_ToLower r)"
proof (cases "find (in_range (int r)) CaseRanges")
  case (Some row)
  obtain lo hi stride delta where row: "row = (lo, hi, stride, delta)" by (cases row) auto
  have "row_ok (lo, hi, stride, delta)"
    using case_rows_ok find_row(1) [OF Some [unfolded row]] by (auto simp: list_all_iff)
  then show ?thesis
    using row_image(1,2) [OF Some [unfolded row]] by (auto simp: scalar_def row_ok_def Let_def)
qed (simp add: unicode_ToLower_fixed)

lemma unicode_ToLower_space: "IsSpace (unicode_ToLower r) \<Longrightarrow> IsSpace r"
proof (cases "find (in_range (int r)) CaseRanges")
  case (Some row)
  obtain lo hi stride delta where row: "row = (lo, hi, stride, delta)" by (cases row) auto
  have "row_ok (lo, hi, stride, delta)"
    using case_rows_ok find_row(1) [OF Some [unfolded row]] by (auto simp: list_all_iff)
  then have "\<not> IsSpace (unicode_ToLower r)"
    using row_image(1,2) [OF Some [unfolded row]] by (auto simp: IsSpace_def row_ok_def Let_def)
  moreover assume "IsSpace (unicode_ToLower r)"
  ultimately show ?thesis by blast
qed (simp add: unicode_ToLower_fixed)

lemma unicode_ToLower_ascii: "r < 128 \<Longrightarrow> unicode_ToLower r = ascii_lower r"
proof -
  assume r: "r < 128"
  have hd: "CaseRanges = (65, 90, 1, 32) # tl CaseRanges" by (simp add: CaseRanges_def)
  have "list_all (\<lambda>(lo, _). 128 \<le> lo) (tl CaseRanges)" by code_simp
  then have "find (in_range (int r)) (tl CaseRanges) = None"
    using r by (auto simp: find_None_iff list_all_iff in_range_def)
  then show ?thesis
    by (subst unicode_ToLower_def, subst hd) (auto simp: in_range_def ascii_lower_def)
qed

subsection \<open>Lower-casing\<close>

lemma runes_ascii: "list_all (\<lambda>b. b < 128) bs \<Longrightarrow> runes bs = bs"
  by (induction bs) (simp_all add: runes.simps [of "_ # _"])

lemma utf8_encode_ascii: "list_all (\<lambda>b. b < 128) bs \<Longrightarrow> utf8_encode bs = bs"
  by (induction bs) (simp_all add: encodeRune_scalar encode_single)

text \<open>The ASCII fast path computes what the general path computes.\<close>

theorem ToLower_fast_path:
  "ToLower s = string_of (utf8_encode (map unicode_ToLower (runes (bytes_of s))))"
proof (cases "list_all (\<lambda>b. b < 128) (bytes_of s)")
  case True
  have "map unicode_ToLower (bytes_of s) = map ascii_lower (bytes_of s)"
    using True by (auto simp: list_all_iff unicode_ToLower_ascii)
  moreover have "list_all (\<lambda>b. b < 128) (map ascii_lower (bytes_of s))"
    using True by (auto simp: list_all_iff ascii_lower_def)
  ultimately show ?thesis
    using True by (simp only: ToLower_def Let_def runes_ascii utf8_encode_ascii if_True)
qed (simp add: ToLower_def Let_def)

lemma bytes_of_ToLower:
  "bytes_of (ToLower s) = utf8_encode (map unicode_ToLower (runes (bytes_of s)))"
  by (simp add: ToLower_fast_path bytes_of_string_of byte_list_utf8_encode)

lemma runes_ToLower: "runes (bytes_of (ToLower s)) = map unicode_ToLower (runes (bytes_of s))"
  using runes_scalar [of "bytes_of s"]
  by (auto simp: bytes_of_ToLower list_all_iff unicode_ToLower_scalar intro!: runes_utf8_encode)

theorem ToLower_idem [simp]: "ToLower (ToLower s) = ToLower s"
  by (simp add: ToLower_fast_path [of "ToLower s"] runes_ToLower unicode_ToLower_idem
      flip: bytes_of_ToLower cong: map_cong)

lemma ToLower_empty [simp]: "ToLower [] = []"
  by (simp add: ToLower_def bytes_of_def string_of_def)

lemma ToLower_eq_Nil [simp]: "ToLower s = [] \<longleftrightarrow> s = []"
proof -
  have nil: "bytes_of t = [] \<longleftrightarrow> t = []" for t by (simp add: bytes_of_def)
  show ?thesis using runes_ToLower [of s] by (metis Nil_is_map_conv nil runes_eq_Nil)
qed

lemma trimmed_ToLower:
  assumes "trimmed (bytes_of s)"
  shows "trimmed (bytes_of (ToLower s))"
proof (cases "s = []")
  case True
  then show ?thesis using assms by simp
next
  case False
  let ?rs = "runes (bytes_of s)"
  have ne: "?rs \<noteq> []" "bytes_of s \<noteq> []" using False by (simp_all add: bytes_of_def)
  have ok: "list_all scalar (map unicode_ToLower ?rs)"
    using runes_scalar [of "bytes_of s"] by (auto simp: list_all_iff unicode_ToLower_scalar)
  have "hd ?rs = fst (decodeRune (bytes_of s))"
    using ne by (simp add: runes.simps [of "bytes_of s"])
  then have first: "\<not> IsSpace (unicode_ToLower (hd ?rs))"
    using assms ne unicode_ToLower_space by (auto simp: trimmed_def)
  have last: "\<not> IsSpace (unicode_ToLower (last ?rs))"
    using assms ne unicode_ToLower_space runes_last_space by (auto simp: trimmed_def)
  have enc: "bytes_of (ToLower s) = utf8_encode (map unicode_ToLower ?rs)"
    by (rule bytes_of_ToLower)
  obtain r rs where r: "map unicode_ToLower ?rs = r # rs" "r = unicode_ToLower (hd ?rs)"
    using ne by (cases ?rs) auto
  obtain q qs where q: "map unicode_ToLower ?rs = qs @ [q]" "q = unicode_ToLower (last ?rs)"
    using ne by (cases ?rs rule: rev_cases) auto
  have "decodeRune (bytes_of (ToLower s)) = (r, length (encodeScalar r))"
    using ok r(1) by (simp add: enc encodeRune_scalar decodeRune_encodeScalar)
  moreover have "decodeLastRune (bytes_of (ToLower s)) = (q, length (encodeScalar q))"
    using ok q(1) by (simp add: enc utf8_encode_append encodeRune_scalar decodeLastRune_encodeScalar)
  ultimately show ?thesis
    using first last r(2) q(2) by (simp add: trimmed_def)
qed

theorem TrimSpace_ToLower [simp]: "TrimSpace (ToLower (TrimSpace s)) = ToLower (TrimSpace s)"
  by (simp add: TrimSpace_trimmed trimmed_ToLower)

subsection \<open>Valid UTF-8\<close>

lemma utf8_valid_Nil [simp]: "utf8_valid []"
  by (simp add: utf8_valid.simps)

lemma utf8_valid_encodeScalar: "scalar r \<Longrightarrow> utf8_valid (encodeScalar r @ bs) = utf8_valid bs"
proof -
  assume r: "scalar r"
  have "length (encodeScalar r) \<noteq> 1" if "r = RuneError"
    using that by (simp add: encodeScalar_def)
  then show ?thesis
    using r by (subst utf8_valid.simps) (auto simp: decodeRune_encodeScalar)
qed

lemma utf8_valid_encode: "list_all scalar rs \<Longrightarrow> utf8_valid (utf8_encode rs)"
  by (induction rs) (simp_all add: encodeRune_scalar utf8_valid_encodeScalar)

lemma utf8_encode_runes: "utf8_valid bs \<Longrightarrow> utf8_encode (runes bs) = bs"
proof (induction bs rule: runes.induct)
  case (1 bs)
  show ?case
  proof (cases "bs = []")
    case False
    then have ok: "decodeRune bs \<noteq> (RuneError, 1)" "utf8_valid (drop (snd (decodeRune bs)) bs)"
      using 1(2) by (simp_all add: utf8_valid.simps [of bs])
    then have "scalar (fst (decodeRune bs))" "take (snd (decodeRune bs)) bs = encodeScalar (fst (decodeRune bs))"
      using decodeRune_valid [of bs "fst (decodeRune bs)" "snd (decodeRune bs)"] False by auto
    then show ?thesis
      using 1(1) [OF False ok(2)] False
      by (simp add: runes.simps [of bs] encodeRune_scalar) (metis append_take_drop_id)
  qed simp
qed

lemma utf8_valid_iff: "utf8_valid bs \<longleftrightarrow> (\<exists>rs. list_all scalar rs \<and> bs = utf8_encode rs)"
  by (metis runes_scalar utf8_encode_runes utf8_valid_encode)

lemma utf8_valid_snoc:
  assumes "scalar r" "utf8_valid (pre @ encodeScalar r)"
  shows "utf8_valid pre"
proof -
  obtain rs where rs: "list_all scalar rs" "pre @ encodeScalar r = utf8_encode rs"
    using assms(2) by (auto simp: utf8_valid_iff)
  then obtain qs q where q: "rs = qs @ [q]"
    by (cases rs rule: rev_cases) auto
  then have "pre @ encodeScalar r = utf8_encode qs @ encodeScalar q" "scalar q"
    using rs by (simp_all add: utf8_encode_append encodeRune_scalar)
  then have "q = r"
    using decodeLastRune_encodeScalar assms(1) by (metis prod.inject)
  then have "pre = utf8_encode qs"
    using \<open>pre @ encodeScalar r = utf8_encode qs @ encodeScalar q\<close> by simp
  then show ?thesis
    using rs q by (auto simp: utf8_valid_iff)
qed

lemma utf8_valid_trimLeft: "utf8_valid bs \<Longrightarrow> utf8_valid (trimLeft bs)"
proof (induction bs rule: trimLeft.induct)
  case (1 bs)
  then show ?case
    by (cases "bs \<noteq> [] \<and> IsSpace (fst (decodeRune bs))")
      (auto simp: trimLeft.simps [of bs] utf8_valid.simps [of bs])
qed

lemma utf8_valid_trimRight: "utf8_valid bs \<Longrightarrow> utf8_valid (trimRight bs)"
proof (induction bs rule: trimRight.induct)
  case (1 bs)
  show ?case
  proof (cases "bs \<noteq> [] \<and> IsSpace (fst (decodeLastRune bs))")
    case True
    then obtain r pre where r: "bs = pre @ encodeScalar r" "scalar r"
        "snd (decodeLastRune bs) = length (encodeScalar r)"
      by (metis decodeLastRune_spaceD)
    then have "utf8_valid (take (length bs - snd (decodeLastRune bs)) bs)"
      using 1(2) utf8_valid_snoc by auto
    with 1(1) True show ?thesis by (simp add: trimRight.simps [of bs])
  next
    case False
    then show ?thesis using 1(2) by (subst trimRight.simps) auto
  qed
qed

text \<open>\<open>utf8.ValidString\<close>.\<close>

definition valid_string :: "string \<Rightarrow> bool" where
  "valid_string s = utf8_valid (bytes_of s)"

lemma valid_string_TrimSpace: "valid_string s \<Longrightarrow> valid_string (TrimSpace s)"
  by (simp add: valid_string_def bytes_of_TrimSpace utf8_valid_trimRight utf8_valid_trimLeft)

lemma valid_string_ToLower: "valid_string (ToLower s)"
  using runes_scalar [of "bytes_of s"]
  by (auto simp: valid_string_def bytes_of_ToLower list_all_iff unicode_ToLower_scalar
      intro!: utf8_valid_encode)

lemma utf8_valid_ascii: "list_all (\<lambda>b. b < 128) bs \<Longrightarrow> utf8_valid bs"
  using utf8_valid_encode [of bs] by (simp add: utf8_encode_ascii list_all_iff encode_single)

lemma valid_string_ascii: "list_all (\<lambda>c. of_char c < (128::nat)) s \<Longrightarrow> valid_string s"
  by (simp add: valid_string_def bytes_of_def utf8_valid_ascii list_all_iff)

lemma valid_string_Nil [simp]: "valid_string []"
  by (simp add: valid_string_def bytes_of_def)

lemma hex_digit_ascii: "of_char (hex_digit n) < (128::nat)"
proof -
  have all: "list_all (\<lambda>c. of_char c < (128::nat)) ''0123456789abcdef''" by code_simp
  have "n mod 16 < length ''0123456789abcdef''" by simp
  with all show ?thesis unfolding hex_digit_def list_all_length by blast
qed

lemma valid_string_hex: "valid_string (hex_encode bs)"
  by (rule valid_string_ascii) (auto simp: hex_encode_def list_all_iff hex_digit_ascii)

lemma length_hex_encode [simp]: "length (hex_encode bs) = 2 * length bs"
  by (induction bs) (simp_all add: hex_encode_def)

subsection \<open>Evaluation of literals\<close>

lemma ToLower_ascii: "list_all (\<lambda>c. of_char c < (128::nat)) s \<Longrightarrow>
  ToLower s = map (\<lambda>c. char_of (ascii_lower (of_char c))) s"
  by (simp add: ToLower_def bytes_of_def string_of_def Let_def list_all_iff)

end
