(* ===== verification/Sha256.thy ===== *)
theory Sha256
  imports Go_Strings
begin

text \<open>
  Go's \<open>crypto/sha256.Sum256\<close> (FIPS 180-4) on byte lists, over 32-bit words. The program uses the
  digest as an opaque key; what it relies on is stated as a disjunction (equal digests come from
  equal inputs or from a collision of the hash), never as an assumption on the function.
\<close>

unbundle bit_operations_syntax

definition rotr :: "nat \<Rightarrow> u32 \<Rightarrow> u32" where
  "rotr n x = drop_bit n x OR push_bit (32 - n) x"

definition big_sigma0 :: "u32 \<Rightarrow> u32" where
  "big_sigma0 x = rotr 2 x XOR rotr 13 x XOR rotr 22 x"

definition big_sigma1 :: "u32 \<Rightarrow> u32" where
  "big_sigma1 x = rotr 6 x XOR rotr 11 x XOR rotr 25 x"

definition small_sigma0 :: "u32 \<Rightarrow> u32" where
  "small_sigma0 x = rotr 7 x XOR rotr 18 x XOR drop_bit 3 x"

definition small_sigma1 :: "u32 \<Rightarrow> u32" where
  "small_sigma1 x = rotr 17 x XOR rotr 19 x XOR drop_bit 10 x"

definition sha_ch :: "u32 \<Rightarrow> u32 \<Rightarrow> u32 \<Rightarrow> u32" where
  "sha_ch x y z = (x AND y) XOR (NOT x AND z)"

definition sha_maj :: "u32 \<Rightarrow> u32 \<Rightarrow> u32 \<Rightarrow> u32" where
  "sha_maj x y z = (x AND y) XOR (x AND z) XOR (y AND z)"

text \<open>The round constants are the first 32 bits of the fractional parts of the cube roots of the first 64
  primes, the initial state those of the square roots of the first eight, both in decimal.\<close>

definition sha_k :: "u32 list" where
  "sha_k = [
    1116352408, 1899447441, 3049323471, 3921009573, 961987163, 1508970993, 2453635748, 2870763221,
    3624381080, 310598401, 607225278, 1426881987, 1925078388, 2162078206, 2614888103, 3248222580,
    3835390401, 4022224774, 264347078, 604807628, 770255983, 1249150122, 1555081692, 1996064986,
    2554220882, 2821834349, 2952996808, 3210313671, 3336571891, 3584528711, 113926993, 338241895,
    666307205, 773529912, 1294757372, 1396182291, 1695183700, 1986661051, 2177026350, 2456956037,
    2730485921, 2820302411, 3259730800, 3345764771, 3516065817, 3600352804, 4094571909, 275423344,
    430227734, 506948616, 659060556, 883997877, 958139571, 1322822218, 1537002063, 1747873779,
    1955562222, 2024104815, 2227730452, 2361852424, 2428436474, 2756734187, 3204031479, 3329325298]"

definition sha_init :: "u32 list" where
  "sha_init = [1779033703, 3144134277, 1013904242, 2773480762, 1359893119, 2600822924, 528734635, 1541459225]"

text \<open>Padding: 0x80, zeros up to 56 modulo 64, then the bit length in eight big-endian bytes.\<close>

definition length_bytes :: "u64 \<Rightarrow> nat list" where
  "length_bytes w = map (\<lambda>k. unat (take_bit 8 (drop_bit k w))) [56, 48, 40, 32, 24, 16, 8, 0]"

definition sha_pad :: "nat list \<Rightarrow> nat list" where
  "sha_pad bs = bs @ [128] @ replicate ((119 - length bs mod 64) mod 64) 0 @ length_bytes (of_nat (8 * length bs))"

fun be_words :: "nat list \<Rightarrow> u32 list" where
  "be_words (a # b # c # d # bs) =
     (push_bit 24 (of_nat a) OR push_bit 16 (of_nat b) OR push_bit 8 (of_nat c) OR of_nat d) # be_words bs"
| "be_words _ = []"

definition word_bytes :: "u32 \<Rightarrow> nat list" where
  "word_bytes w = map (\<lambda>k. unat (take_bit 8 (drop_bit k w))) [24, 16, 8, 0]"

text \<open>The message schedule, built with the newest word first.\<close>

fun sha_schedule :: "nat \<Rightarrow> u32 list \<Rightarrow> u32 list" where
  "sha_schedule 0 ws = ws"
| "sha_schedule (Suc n) ws =
     sha_schedule n ((small_sigma1 (ws ! 1) + ws ! 6 + small_sigma0 (ws ! 14) + ws ! 15) # ws)"

fun sha_round :: "(u32 \<times> u32) \<Rightarrow> u32 list \<Rightarrow> u32 list" where
  "sha_round (k, w) [a, b, c, d, e, f, g, h] =
     (let t1 = h + big_sigma1 e + sha_ch e f g + k + w;
          t2 = big_sigma0 a + sha_maj a b c
      in [t1 + t2, a, b, c, d + t1, e, f, g])"
| "sha_round _ st = st"

definition sha_block :: "u32 list \<Rightarrow> nat list \<Rightarrow> u32 list" where
  "sha_block h blk =
     (let ws = rev (sha_schedule 48 (rev (be_words blk)))
      in map2 (+) h (fold sha_round (zip sha_k ws) h))"

fun sha_blocks :: "nat \<Rightarrow> nat list \<Rightarrow> u32 list \<Rightarrow> u32 list" where
  "sha_blocks 0 bs h = h"
| "sha_blocks (Suc n) bs h = sha_blocks n (drop 64 bs) (sha_block h (take 64 bs))"

definition sha256_Sum256 :: "nat list \<Rightarrow> nat list" where
  "sha256_Sum256 bs =
     (let p = sha_pad bs
      in concat (map word_bytes (sha_blocks (length p div 64) p sha_init)))"

text \<open>Two different inputs with one digest.\<close>

definition sha_collision :: "nat list \<Rightarrow> nat list \<Rightarrow> bool" where
  "sha_collision a b \<longleftrightarrow> a \<noteq> b \<and> sha256_Sum256 a = sha256_Sum256 b"

lemma length_sha_round [simp]: "length (sha_round kw st) = length st"
  by (induction kw st rule: sha_round.induct) (simp_all add: Let_def)

lemma length_sha_rounds [simp]: "length (fold sha_round kws st) = length st"
  by (induction kws arbitrary: st) simp_all

lemma length_sha_blocks: "length h = 8 \<Longrightarrow> length (sha_blocks n bs h) = 8"
  by (induction n bs h rule: sha_blocks.induct) (simp_all add: sha_block_def Let_def)

lemma length_word_bytes [simp]: "length (word_bytes w) = 4"
  by (simp add: word_bytes_def)

lemma byte_list_word_bytes: "byte_list (word_bytes w)"
proof -
  have "unat (take_bit 8 v) < 256" for v :: u32
    using take_bit_nat_less_exp [of 8 "unat v"] by (simp add: unsigned_take_bit_eq)
  then show ?thesis by (simp add: word_bytes_def byte_list_def del: take_bit_numeral_1)
qed

lemma length_sha256: "length (sha256_Sum256 bs) = 32"
proof -
  have "length (sha_blocks n p sha_init) = 8" for n p
    by (rule length_sha_blocks) (simp add: sha_init_def)
  then show ?thesis
    by (simp add: sha256_Sum256_def Let_def length_concat comp_def sum_list_triv)
qed

lemma byte_list_sha256: "byte_list (sha256_Sum256 bs)"
  using byte_list_word_bytes by (auto simp: sha256_Sum256_def Let_def byte_list_def list_all_iff)

text \<open>Hexadecimal text determines the bytes, so equal hex digests are equal digests.\<close>

lemma hex_digit_inj: "hex_digit m = hex_digit n \<Longrightarrow> m mod 16 = n mod 16"
proof -
  assume eq: "hex_digit m = hex_digit n"
  have "distinct ''0123456789abcdef''" by code_simp
  then show ?thesis
    using eq by (simp add: hex_digit_def nth_eq_iff_index_eq del: nth.simps)
qed

lemma hex_encode_inj:
  "byte_list a \<Longrightarrow> byte_list b \<Longrightarrow> hex_encode a = hex_encode b \<Longrightarrow> a = b"
proof (induction a arbitrary: b)
  case Nil
  then show ?case by (cases b) (simp_all add: hex_encode_def)
next
  case (Cons x a)
  then obtain y b' where b: "b = y # b'" by (cases b) (simp_all add: hex_encode_def)
  then have "x div 16 mod 16 = y div 16 mod 16" "x mod 16 = y mod 16" "x < 256" "y < 256"
    using Cons.prems by (auto simp: hex_encode_def byte_list_def dest!: hex_digit_inj)
  then have "x div 16 = y div 16" "x mod 16 = y mod 16"
    by (simp_all add: less_mult_imp_div_less)
  then have "x = y" by (metis div_mult_mod_eq)
  then show ?case using Cons b by (simp add: hex_encode_def byte_list_def)
qed

lemma hex_sha256_eq_iff:
  "hex_encode (sha256_Sum256 a) = hex_encode (sha256_Sum256 b) \<longleftrightarrow> a = b \<or> sha_collision a b"
  by (auto simp: sha_collision_def dest: hex_encode_inj [OF byte_list_sha256 byte_list_sha256])

lemma length_hex_sha256 [simp]: "length (hex_encode (sha256_Sum256 bs)) = 64"
  by (simp add: length_sha256)

text \<open>The FIPS 180-4 test vector for the empty message.\<close>

lemma sha256_empty: "hex_encode (sha256_Sum256 []) =
  ''e3b0c44298fc1c149afbf4c8996fb92427ae41e4649b934ca495991b7852b855''"
  by code_simp

end
