(* ===== verification/Go_Runtime.thy ===== *)
theory Go_Runtime
  imports Sha256
begin

text \<open>
  The remaining run-time vocabulary: \<open>time.Time\<close> as an instant with a zone offset, error values
  with the wrapping of \<open>fmt.Errorf("...%w")\<close> and \<open>errors.Join\<close>, \<open>errors.Is\<close>, and the context that
  every storage operation checks first.

  An instant is the number of nanoseconds since January 1, year 1, 00:00 UTC, the zero time of
  \<open>time.Time\<close>. It is unbounded here; Go's range is about 292 billion years, and the only overflow
  that the program can meet is the four-digit year of the JSON encoding, which is modelled
  (\<open>json_time_ok\<close>).
\<close>

subsection \<open>time.Time\<close>

record gotime =
  instant :: int
  zone :: int  \<comment> \<open>offset east of UTC in seconds\<close>

definition time_zero :: gotime where
  "time_zero = \<lparr>instant = 0, zone = 0\<rparr>"

definition UTC :: "gotime \<Rightarrow> gotime" where
  "UTC t = t\<lparr>zone := 0\<rparr>"

definition IsZero :: "gotime \<Rightarrow> bool" where
  "IsZero t \<longleftrightarrow> instant t = 0"

definition Before :: "gotime \<Rightarrow> gotime \<Rightarrow> bool" where
  "Before t u \<longleftrightarrow> instant t < instant u"

definition After :: "gotime \<Rightarrow> gotime \<Rightarrow> bool" where
  "After t u \<longleftrightarrow> instant t > instant u"

definition Equal :: "gotime \<Rightarrow> gotime \<Rightarrow> bool" where
  "Equal t u \<longleftrightarrow> instant t = instant u"

text \<open>\<open>Add\<close> with a \<open>time.Duration\<close> in nanoseconds.\<close>

definition Add :: "gotime \<Rightarrow> int \<Rightarrow> gotime" where
  "Add t d = t\<lparr>instant := instant t + d\<rparr>"

text \<open>
  \<open>Time.MarshalJSON\<close> refuses a year outside 0 to 9999 in the zone of the time. Year 0 begins 366
  days before the zero time, year 10000 begins 3652059 days after it.
\<close>

definition json_time_ok :: "gotime \<Rightarrow> bool" where
  "json_time_ok t \<longleftrightarrow>
     (let day = 86400 * 1000000000; local = instant t + zone t * 1000000000
      in - 366 * day \<le> local \<and> local < 3652059 * day)"

text \<open>The civil date of a day number counted from January 1, year 1, in the Gregorian calendar.\<close>

definition civil_date :: "int \<Rightarrow> int \<times> int \<times> int" where
  "civil_date days =
     (let z = days + 306;
          era = z div 146097;
          doe = z mod 146097;
          yoe = (doe - doe div 1460 + doe div 36524 - doe div 146096) div 365;
          doy = doe - (365 * yoe + yoe div 4 - yoe div 100);
          mp = (5 * doy + 2) div 153;
          d = doy - (153 * mp + 2) div 5 + 1;
          m = (if mp < 10 then mp + 3 else mp - 9)
      in (yoe + era * 400 + (if m \<le> 2 then 1 else 0), m, d))"

definition digit :: "int \<Rightarrow> char" where
  "digit n = char_of (48 + nat (n mod 10))"

text \<open>Zero-padded decimal of the given width, for values that fit it.\<close>

fun pad_digits :: "nat \<Rightarrow> int \<Rightarrow> string" where
  "pad_digits 0 n = []"
| "pad_digits (Suc k) n = pad_digits k (n div 10) @ [digit n]"

lemmas time_simps [go_simps] = UTC_def IsZero_def Before_def After_def Equal_def Add_def time_zero_def

lemma UTC_simps [simp]:
  "UTC (UTC t) = UTC t" "instant (UTC t) = instant t" "zone (UTC t) = 0"
  "IsZero (UTC t) = IsZero t" "Before (UTC t) u = Before t u" "Before t (UTC u) = Before t u"
  "After (UTC t) u = After t u" "After t (UTC u) = After t u"
  "Equal (UTC t) u = Equal t u" "Equal t (UTC u) = Equal t u"
  by (simp_all add: time_simps)

lemma IsZero_zero [simp]: "IsZero time_zero"
  by (simp add: time_simps)

lemma Equal_refl [simp]: "Equal t t"
  by (simp add: time_simps)

lemma json_time_zero [simp]: "json_time_ok time_zero"
  by (simp add: json_time_ok_def time_zero_def Let_def)

subsection \<open>Errors\<close>

text \<open>
  Sentinel errors are constructors; \<open>ErrNew\<close> is \<open>errors.New\<close> with a fixed text, \<open>ErrWrap\<close> is
  \<open>fmt.Errorf(prefix + "%w", err)\<close>, \<open>ErrJoin\<close> is \<open>errors.Join\<close>, and \<open>ErrLib\<close> is an error raised by
  the operating system or a library, with its text.
\<close>

datatype error =
    ErrNotFound
  | ErrIDConflict
  | ErrEventIDConflict
  | ErrEventScopeConflict
  | ErrNoTask
  | ErrTaskNotFound
  | ErrLeaseConflict
  | ErrNew string
  | ErrLib string
  | ErrWrap string error
  | ErrJoin "error list"

text \<open>\<open>errors.Is\<close>: some error of the wrapping tree is the target.\<close>

fun errors_Is :: "error \<Rightarrow> error \<Rightarrow> bool" where
  "errors_Is (ErrWrap p e) target \<longleftrightarrow> ErrWrap p e = target \<or> errors_Is e target"
| "errors_Is (ErrJoin es) target \<longleftrightarrow> ErrJoin es = target \<or> (\<exists>e \<in> set es. errors_Is e target)"
| "errors_Is e target \<longleftrightarrow> e = target"

text \<open>\<open>err.Error()\<close>.\<close>

fun error_text :: "error \<Rightarrow> string" where
  "error_text ErrNotFound = ''case not found''"
| "error_text ErrIDConflict = ''case ID already exists''"
| "error_text ErrEventIDConflict = ''event ID already exists with different content''"
| "error_text ErrEventScopeConflict = ''event scope conflicts with incident''"
| "error_text ErrNoTask = ''no investigation task available''"
| "error_text ErrTaskNotFound = ''investigation task not found''"
| "error_text ErrLeaseConflict = ''investigation task lease conflict''"
| "error_text (ErrNew s) = s"
| "error_text (ErrLib s) = s"
| "error_text (ErrWrap p e) = p @ error_text e"
| "error_text (ErrJoin es) = Join (map error_text es) [CHR 0x0A]"

subsection \<open>context.Context\<close>

text \<open>A context is what \<open>ctx.Err()\<close> returns: \<open>None\<close>, or the cancellation error.\<close>

type_synonym ctx = "error option"

end
