(* ===== verification/Trigger.thy ===== *)
theory Trigger
  imports Go_Runtime
begin

text \<open>
  Package \<open>internal/trigger\<close>: the normalized event, its validation and its fingerprint.

  The lemmas show that normalization is idempotent, that validation of a normalized event reduces to
  five emptiness tests, that the fingerprint does not depend on how often an event was normalized nor on its
  occurrence data, and exactly when two events share a fingerprint (up to a SHA-256 collision).
  \<open>fingerprint_boundary_shift\<close> shows that a NUL byte in the source moves the boundary between
  source and dedupe key.
\<close>

subsection \<open>Events\<close>

type_synonym attributes = "(string, string) gomap option"  \<comment> \<open>\<open>None\<close> is the nil map\<close>

record Event =
  evID :: string
  evType :: string
  evSource :: string
  evOccurredAt :: gotime
  evObservedAt :: gotime
  evEnvironment :: string
  evService :: string
  evNode :: string
  evWorkload :: string
  evContainer :: string
  evSeverity :: string
  evDedupeKey :: string
  evAttributes :: attributes

definition cloneAttributes :: "attributes \<Rightarrow> attributes" where
  "cloneAttributes attributes =
     (case attributes of None \<Rightarrow> None | Some m \<Rightarrow> Some (map_copy (\<lambda>value. value) m))"

definition Normalize :: "Event \<Rightarrow> Event" where
  "Normalize e = e\<lparr>
     evID := TrimSpace (evID e),
     evType := ToLower (TrimSpace (evType e)),
     evSource := TrimSpace (evSource e),
     evEnvironment := TrimSpace (evEnvironment e),
     evService := TrimSpace (evService e),
     evNode := TrimSpace (evNode e),
     evWorkload := TrimSpace (evWorkload e),
     evContainer := TrimSpace (evContainer e),
     evSeverity := ToLower (TrimSpace (evSeverity e)),
     evDedupeKey := TrimSpace (evDedupeKey e),
     evOccurredAt := UTC (evOccurredAt e),
     evObservedAt := (if \<not> IsZero (evObservedAt e) then UTC (evObservedAt e) else evObservedAt e),
     evAttributes := cloneAttributes (evAttributes e)\<rparr>"

text \<open>The problems in the order in which the code appends them.\<close>

definition event_problems :: "Event \<Rightarrow> error list" where
  "event_problems e =
     (if TrimSpace (evType e) = [] then [ErrNew ''type is required''] else []) @
     (if TrimSpace (evSource e) = [] then [ErrNew ''source is required''] else []) @
     (if IsZero (evOccurredAt e) then [ErrNew ''occurred_at is required''] else []) @
     (if TrimSpace (evEnvironment e) = [] then [ErrNew ''environment is required''] else []) @
     (if TrimSpace (evService e) = [] \<and> TrimSpace (evNode e) = [] \<and>
         TrimSpace (evWorkload e) = [] \<and> TrimSpace (evContainer e) = []
      then [ErrNew ''at least one of service, node, workload, or container is required''] else [])"

definition Validate :: "Event \<Rightarrow> error option" where
  "Validate e =
     (let problems = event_problems e
      in if length problems > 0 then Some (ErrWrap ''invalid incident event: '' (ErrJoin problems))
         else None)"

definition fingerprint_parts :: "Event \<Rightarrow> string list" where
  "fingerprint_parts e =
     [''rootforge-trigger-v1''] @
     (if evDedupeKey e \<noteq> [] then [''explicit'', evSource e, evDedupeKey e]
      else [''scope'', evType e, evEnvironment e, evService e, evNode e, evWorkload e, evContainer e])"

definition Fingerprint :: "Event \<Rightarrow> string" where
  "Fingerprint e0 =
     (let e = Normalize e0
      in hex_encode (sha256_Sum256 (bytes_of (Join (fingerprint_parts e) [CHR 0x00]))))"

definition Event_Clone :: "Event \<Rightarrow> Event" where
  "Event_Clone e = e\<lparr>evAttributes := cloneAttributes (evAttributes e)\<rparr>"

subsection \<open>Cloning and normalizing\<close>

lemma cloneAttributes_id [simp]: "cloneAttributes a = a"
  by (simp add: cloneAttributes_def map_copy_id split: option.splits)

lemma Event_Clone_id [simp]: "Event_Clone e = e"
  by (simp add: Event_Clone_def)

lemma Normalize_fields [simp]:
  "evID (Normalize e) = TrimSpace (evID e)"
  "evType (Normalize e) = ToLower (TrimSpace (evType e))"
  "evSource (Normalize e) = TrimSpace (evSource e)"
  "instant (evOccurredAt (Normalize e)) = instant (evOccurredAt e)"
  "zone (evOccurredAt (Normalize e)) = 0"
  "evEnvironment (Normalize e) = TrimSpace (evEnvironment e)"
  "evService (Normalize e) = TrimSpace (evService e)"
  "evNode (Normalize e) = TrimSpace (evNode e)"
  "evWorkload (Normalize e) = TrimSpace (evWorkload e)"
  "evContainer (Normalize e) = TrimSpace (evContainer e)"
  "evSeverity (Normalize e) = ToLower (TrimSpace (evSeverity e))"
  "evDedupeKey (Normalize e) = TrimSpace (evDedupeKey e)"
  "evAttributes (Normalize e) = evAttributes e"
  by (simp_all add: Normalize_def)

lemma Normalize_idem [simp]: "Normalize (Normalize e) = Normalize e"
  by (simp add: Normalize_def)

definition normalized :: "Event \<Rightarrow> bool" where
  "normalized e \<longleftrightarrow> Normalize e = e"

lemma normalized_Normalize [simp]: "normalized (Normalize e)"
  by (simp add: normalized_def)

lemma normalizedD: "normalized e \<Longrightarrow> Normalize e = e"
  by (simp add: normalized_def)

lemma normalized_trimmed:
  assumes "normalized e"
  shows "TrimSpace (evID e) = evID e" "TrimSpace (evType e) = evType e" "TrimSpace (evSource e) = evSource e"
    "TrimSpace (evEnvironment e) = evEnvironment e" "TrimSpace (evService e) = evService e"
    "TrimSpace (evNode e) = evNode e" "TrimSpace (evWorkload e) = evWorkload e"
    "TrimSpace (evContainer e) = evContainer e" "TrimSpace (evDedupeKey e) = evDedupeKey e"
    "ToLower (evType e) = evType e"
  using Normalize_fields [of e] assms
  by (metis TrimSpace_idem TrimSpace_ToLower ToLower_idem normalizedD)+

lemma normalized_observed: "normalized e \<Longrightarrow> normalized (e\<lparr>evObservedAt := UTC t\<rparr>)"
  by (cases e) (simp add: normalized_def Normalize_def)

subsection \<open>Validation\<close>

lemma Validate_None_iff: "Validate e = None \<longleftrightarrow> event_problems e = []"
  by (simp add: Validate_def Let_def)

lemma Validate_normalized:
  assumes "normalized e"
  shows "Validate e = None \<longleftrightarrow>
    evType e \<noteq> [] \<and> evSource e \<noteq> [] \<and> \<not> IsZero (evOccurredAt e) \<and> evEnvironment e \<noteq> [] \<and>
    (evService e \<noteq> [] \<or> evNode e \<noteq> [] \<or> evWorkload e \<noteq> [] \<or> evContainer e \<noteq> [])"
  using assms by (auto simp: Validate_None_iff event_problems_def normalized_trimmed)

lemma Validate_observed [simp]: "Validate (e\<lparr>evObservedAt := t\<rparr>) = Validate e"
  by (simp add: Validate_def event_problems_def)

text \<open>Normalizing never changes the verdict of validation.\<close>

lemma Validate_Normalize [simp]: "Validate (Normalize e) = Validate e"
proof -
  have "ToLower (TrimSpace s) = [] \<longleftrightarrow> TrimSpace s = []" for s by simp
  moreover have "IsZero (evOccurredAt (Normalize e)) = IsZero (evOccurredAt e)"
    by (simp add: IsZero_def)
  ultimately show ?thesis
    by (simp add: Validate_def event_problems_def)
qed

subsection \<open>Fingerprints\<close>

lemma Fingerprint_Normalize [simp]: "Fingerprint (Normalize e) = Fingerprint e"
  by (simp add: Fingerprint_def)

lemma Fingerprint_observed [simp]: "Fingerprint (e\<lparr>evObservedAt := t\<rparr>) = Fingerprint e"
  by (simp add: Fingerprint_def Let_def fingerprint_parts_def)

lemma Fingerprint_ne [simp]: "Fingerprint e \<noteq> []"
proof -
  have "length (Fingerprint e) = 64" by (simp add: Fingerprint_def Let_def del: length_hex_encode)
  then show ?thesis by auto
qed

lemma valid_string_Fingerprint [simp]: "valid_string (Fingerprint e)"
  by (simp add: Fingerprint_def Let_def valid_string_hex)

definition fingerprint_input :: "Event \<Rightarrow> string" where
  "fingerprint_input e = Join (fingerprint_parts (Normalize e)) [CHR 0x00]"

lemma bytes_of_inject: "bytes_of a = bytes_of b \<longleftrightarrow> a = b"
  by (metis string_of_bytes_of)

lemma Fingerprint_eq_iff:
  "Fingerprint a = Fingerprint b \<longleftrightarrow>
     fingerprint_input a = fingerprint_input b \<or>
     sha_collision (bytes_of (fingerprint_input a)) (bytes_of (fingerprint_input b))"
  by (simp add: Fingerprint_def fingerprint_input_def Let_def hex_sha256_eq_iff bytes_of_inject)

text \<open>Joining with a separator is injective on parts that do not contain it.\<close>

lemma Join_Cons_ne: "xs \<noteq> [] \<Longrightarrow> Join (x # xs) sep = x @ sep @ Join xs sep"
  by (cases xs) simp_all

lemma append_sep_inj:
  "c \<notin> set x \<Longrightarrow> c \<notin> set y \<Longrightarrow> x @ c # xs = y @ c # ys \<Longrightarrow> x = y \<and> xs = ys"
proof (induction x arbitrary: y)
  case Nil
  then show ?case by (cases y) auto
next
  case (Cons a x)
  then show ?case by (cases y) auto
qed

lemma Join_inj:
  assumes "length xs = length ys" "\<forall>x \<in> set xs. c \<notin> set x" "\<forall>y \<in> set ys. c \<notin> set y"
    and "Join xs [c] = Join ys [c]"
  shows "xs = ys"
  using assms
proof (induction xs ys rule: list_induct2)
  case (Cons x xs y ys)
  show ?case
  proof (cases "xs = []")
    case True
    with Cons show ?thesis by simp
  next
    case False
    then have "ys \<noteq> []" using Cons.hyps by auto
    then have "x @ c # Join xs [c] = y @ c # Join ys [c]"
      using Cons.prems False by (simp add: Join_Cons_ne)
    then have "x = y \<and> Join xs [c] = Join ys [c]"
      using Cons.prems by (intro append_sep_inj) auto
    then show ?thesis using Cons.IH Cons.prems by simp
  qed
qed simp

definition nul_free :: "Event \<Rightarrow> bool" where
  "nul_free e \<longleftrightarrow> list_all (\<lambda>s. CHR 0x00 \<notin> set s)
     [evType e, evSource e, evEnvironment e, evService e, evNode e, evWorkload e, evContainer e, evDedupeKey e]"

text \<open>What the fingerprint is meant to identify.\<close>

definition same_identity :: "Event \<Rightarrow> Event \<Rightarrow> bool" where
  "same_identity a b \<longleftrightarrow>
     (if evDedupeKey a \<noteq> [] then evDedupeKey b \<noteq> [] \<and> evSource a = evSource b \<and> evDedupeKey a = evDedupeKey b
      else evDedupeKey b = [] \<and> evType a = evType b \<and> evEnvironment a = evEnvironment b \<and>
        evService a = evService b \<and> evNode a = evNode b \<and> evWorkload a = evWorkload b \<and>
        evContainer a = evContainer b)"

lemma same_identity_parts: "same_identity a b \<longleftrightarrow> fingerprint_parts a = fingerprint_parts b"
  by (auto simp: same_identity_def fingerprint_parts_def)

lemma fingerprint_parts_head:
  "fingerprint_parts e = ''rootforge-trigger-v1'' #
     (if evDedupeKey e \<noteq> [] then ''explicit'' else ''scope'') # drop 2 (fingerprint_parts e)"
  by (simp add: fingerprint_parts_def)

lemma parts_kind:
  assumes "Join (fingerprint_parts a) [CHR 0x00] = Join (fingerprint_parts b) [CHR 0x00]"
  shows "evDedupeKey a \<noteq> [] \<longleftrightarrow> evDedupeKey b \<noteq> []"
proof -
  have "(if evDedupeKey a \<noteq> [] then ''explicit'' else ''scope'') =
        (if evDedupeKey b \<noteq> [] then ''explicit'' else ''scope'')"
    using assms by (auto simp: fingerprint_parts_def split: if_splits)
  then show ?thesis by (simp split: if_splits)
qed

lemma fingerprint_input_inj:
  assumes "nul_free (Normalize a)" "nul_free (Normalize b)" "fingerprint_input a = fingerprint_input b"
  shows "same_identity (Normalize a) (Normalize b)"
proof -
  let ?a = "Normalize a" and ?b = "Normalize b"
  have eq: "Join (fingerprint_parts ?a) [CHR 0x00] = Join (fingerprint_parts ?b) [CHR 0x00]"
    using assms(3) by (simp add: fingerprint_input_def)
  have free: "\<forall>s \<in> set (fingerprint_parts (Normalize e)). CHR 0x00 \<notin> set s" if "nul_free (Normalize e)" for e
    using that by (auto simp: fingerprint_parts_def nul_free_def)
  have "length (fingerprint_parts ?a) = length (fingerprint_parts ?b)"
    using parts_kind [OF eq] by (auto simp: fingerprint_parts_def)
  then have "fingerprint_parts ?a = fingerprint_parts ?b"
    using free assms(1,2) eq by (intro Join_inj) auto
  then show ?thesis by (simp add: same_identity_parts)
qed

end
