(* ===== verification/Incident.thy ===== *)
theory Incident
  imports Trigger
begin

text \<open>
  Package \<open>internal/incident\<close>: the deduplicated lifecycle state of one incident.

  \<open>Apply\<close> mutates its receiver only after every check has passed, so the model returns either an
  error (receiver unchanged) or the flag \<open>changed\<close> together with the new incident. The nil
  receiver of the Go method has no counterpart in a record and is left out.

  The lemmas give the value of \<open>Apply\<close> on each branch, the invariant \<open>incident_inv\<close> (kept by \<open>New\<close>
  and \<open>Apply\<close>), which is what the local store re-checks when it loads a case, and idempotence of a
  replayed event.
\<close>

type_synonym Status = string

definition StatusPendingInvestigation :: Status where
  "StatusPendingInvestigation = ''pending_investigation''"

definition StatusInvestigating :: Status where
  "StatusInvestigating = ''investigating''"

definition StatusResolved :: Status where
  "StatusResolved = ''resolved''"

definition StatusClosed :: Status where
  "StatusClosed = ''closed''"

lemmas status_defs [go_simps] = StatusPendingInvestigation_def StatusInvestigating_def
  StatusResolved_def StatusClosed_def

record Incident =
  incFingerprint :: string
  incType :: string
  incStatus :: Status
  incEnvironment :: string
  incService :: string
  incNode :: string
  incWorkload :: string
  incContainer :: string
  incSeverity :: string
  incFirstOccurredAt :: gotime
  incLastOccurredAt :: gotime
  incEvents :: "Event list"

definition Incident_New :: "Event \<Rightarrow> error + Incident" where
  "Incident_New event0 =
     (let event = Normalize event0
      in case Validate event of
        Some err \<Rightarrow> Inl err
      | None \<Rightarrow> Inr \<lparr>
          incFingerprint = Fingerprint event,
          incType = evType event,
          incStatus = StatusPendingInvestigation,
          incEnvironment = evEnvironment event,
          incService = evService event,
          incNode = evNode event,
          incWorkload = evWorkload event,
          incContainer = evContainer event,
          incSeverity = evSeverity event,
          incFirstOccurredAt = evOccurredAt event,
          incLastOccurredAt = evOccurredAt event,
          incEvents = [Event_Clone event]\<rparr>)"

definition sameEvent :: "Event \<Rightarrow> Event \<Rightarrow> bool" where
  "sameEvent left0 right0 =
     (let left = Normalize left0; right = Normalize right0
      in evID left = evID right \<and> evType left = evType right \<and> evSource left = evSource right \<and>
         Equal (evOccurredAt left) (evOccurredAt right) \<and>
         evEnvironment left = evEnvironment right \<and> evService left = evService right \<and>
         evNode left = evNode right \<and> evWorkload left = evWorkload right \<and>
         evContainer left = evContainer right \<and> evSeverity left = evSeverity right \<and>
         evDedupeKey left = evDedupeKey right \<and>
         maps_Equal (case evAttributes left of None \<Rightarrow> map_new | Some m \<Rightarrow> m)
           (case evAttributes right of None \<Rightarrow> map_new | Some m \<Rightarrow> m))"

text \<open>
  The scan for an earlier event of the same source and ID: \<open>None\<close> when the loop runs to its end,
  otherwise what the loop returns.
\<close>

fun replay_scan :: "Event list \<Rightarrow> Event \<Rightarrow> (error + bool) option" where
  "replay_scan [] event = None"
| "replay_scan (existing # rest) event =
     (if evSource existing \<noteq> evSource event \<or> evID existing \<noteq> evID event then replay_scan rest event
      else if sameEvent existing event then Some (Inr False)
      else Some (Inl ErrEventIDConflict))"

definition scope_matches :: "Incident \<Rightarrow> Event \<Rightarrow> bool" where
  "scope_matches i event \<longleftrightarrow>
     evType event = incType i \<and> evEnvironment event = incEnvironment i \<and>
     evService event = incService i \<and> evNode event = incNode i \<and>
     evWorkload event = incWorkload i \<and> evContainer event = incContainer i"

text \<open>The tail of \<open>Apply\<close>, which records the occurrence.\<close>

definition record_occurrence :: "Incident \<Rightarrow> Event \<Rightarrow> Incident" where
  "record_occurrence i event = i\<lparr>
     incFirstOccurredAt := (if Before (evOccurredAt event) (incFirstOccurredAt i)
                            then evOccurredAt event else incFirstOccurredAt i),
     incLastOccurredAt := (if After (evOccurredAt event) (incLastOccurredAt i)
                           then evOccurredAt event else incLastOccurredAt i),
     incSeverity := (if evSeverity event \<noteq> [] then evSeverity event else incSeverity i),
     incEvents := incEvents i @ [Event_Clone event]\<rparr>"

definition Incident_Apply :: "Incident \<Rightarrow> Event \<Rightarrow> error + (bool \<times> Incident)" where
  "Incident_Apply i event0 =
     (let event = Normalize event0
      in case Validate event of
        Some err \<Rightarrow> Inl err
      | None \<Rightarrow>
          if Fingerprint event \<noteq> incFingerprint i
          then Inl (ErrNew ''apply event: fingerprint does not match incident'')
          else if \<not> scope_matches i event then Inl ErrEventScopeConflict
          else case (if evID event \<noteq> [] then replay_scan (incEvents i) event else None) of
              Some (Inl err) \<Rightarrow> Inl err
            | Some (Inr changed) \<Rightarrow> Inr (changed, i)
            | None \<Rightarrow> Inr (True, record_occurrence i event))"

definition Incident_Open :: "Incident \<Rightarrow> bool" where
  "Incident_Open i \<longleftrightarrow> incStatus i \<noteq> StatusResolved \<and> incStatus i \<noteq> StatusClosed"

definition Incident_Clone :: "Incident \<Rightarrow> Incident" where
  "Incident_Clone i = i\<lparr>incEvents := map Event_Clone (incEvents i)\<rparr>"

subsection \<open>Cloning\<close>

lemma map_Event_Clone [simp]: "map Event_Clone es = es"
  by (induction es) simp_all

lemma Incident_Clone_id [simp]: "Incident_Clone i = i"
  by (simp add: Incident_Clone_def)

subsection \<open>Same event\<close>

lemma sameEvent_refl [simp]: "sameEvent e e"
  by (simp add: sameEvent_def Let_def)

lemma sameEvent_Normalize [simp]:
  "sameEvent (Normalize a) b = sameEvent a b" "sameEvent a (Normalize b) = sameEvent a b"
  by (simp_all add: sameEvent_def)

text \<open>The observation time is the only field that a replay may change.\<close>

lemma sameEvent_observed [simp]: "sameEvent (e\<lparr>evObservedAt := t\<rparr>) e'  = sameEvent e e'"
  by (simp add: sameEvent_def Let_def Equal_def)

lemma sameEvent_sym: "sameEvent a b \<longleftrightarrow> sameEvent b a"
  by (auto simp: sameEvent_def Let_def Equal_def maps_Equal_iff)

lemma sameEvent_trans: "sameEvent a b \<Longrightarrow> sameEvent b c \<Longrightarrow> sameEvent a c"
  by (auto simp: sameEvent_def Let_def Equal_def maps_Equal_iff)

subsection \<open>The scan\<close>

lemma replay_scan_None_iff:
  "replay_scan es event = None \<longleftrightarrow> (\<forall>x \<in> set es. \<not> (evSource x = evSource event \<and> evID x = evID event))"
  by (induction es) auto

lemma replay_scan_Some:
  "replay_scan es event = Some r \<Longrightarrow>
   \<exists>x \<in> set es. evSource x = evSource event \<and> evID x = evID event \<and>
     r = (if sameEvent x event then Inr False else Inl ErrEventIDConflict)"
  by (induction es) (auto split: if_splits)

lemma replay_scan_cases:
  assumes "replay_scan es event = Some r"
  obtains x where "x \<in> set es" "evSource x = evSource event" "evID x = evID event"
    "r = (if sameEvent x event then Inr False else Inl ErrEventIDConflict)"
  using replay_scan_Some [OF assms] that by blast

subsection \<open>Branches of Apply\<close>

lemma Apply_error_or:
  obtains err where "Incident_Apply i event = Inl err"
  | changed i' where "Incident_Apply i event = Inr (changed, i')"
  by (cases "Incident_Apply i event") auto

lemma Apply_ok_cases:
  assumes "Incident_Apply i event = Inr (changed, i')"
  obtains (replayed) x where "changed = False" "i' = i" "x \<in> set (incEvents i)" "evID (Normalize event) \<noteq> []"
      "evSource x = evSource (Normalize event)" "evID x = evID (Normalize event)" "sameEvent x event"
  | (recorded) "changed = True" "i' = record_occurrence i (Normalize event)"
      "\<And>x. x \<in> set (incEvents i) \<Longrightarrow> evID (Normalize event) \<noteq> [] \<Longrightarrow>
        \<not> (evSource x = evSource (Normalize event) \<and> evID x = evID (Normalize event))"
proof -
  let ?e = "Normalize event"
  let ?scan = "if evID ?e \<noteq> [] then replay_scan (incEvents i) ?e else None"
  have ok: "Validate ?e = None" "Fingerprint ?e = incFingerprint i" "scope_matches i ?e"
    using assms by (auto simp: Incident_Apply_def Let_def split: option.splits if_splits)
  show thesis
  proof (cases ?scan)
    case None
    then show ?thesis
      using assms ok recorded by (auto simp: Incident_Apply_def Let_def replay_scan_None_iff split: if_splits)
  next
    case (Some r)
    then have ne: "evID ?e \<noteq> []" and scan: "replay_scan (incEvents i) ?e = Some r"
      by (auto split: if_splits)
    from scan obtain x where x: "x \<in> set (incEvents i)" "evSource x = evSource ?e" "evID x = evID ?e"
        "r = (if sameEvent x ?e then Inr False else Inl ErrEventIDConflict)"
      by (rule replay_scan_cases)
    have "sameEvent x ?e" "changed = False" "i' = i"
      using assms ok Some x(4) by (auto simp: Incident_Apply_def Let_def split: if_splits)
    then show ?thesis using x ne replayed by simp
  qed
qed

lemma Apply_ok_facts:
  assumes "Incident_Apply i event = Inr (changed, i')"
  shows "Validate (Normalize event) = None" "Fingerprint event = incFingerprint i"
    "scope_matches i (Normalize event)"
  using assms by (auto simp: Incident_Apply_def Let_def split: option.splits if_splits)

lemma Apply_errors:
  assumes "Incident_Apply i event = Inl err"
  shows "Validate event = Some err \<or>
    err = ErrNew ''apply event: fingerprint does not match incident'' \<and> Fingerprint event \<noteq> incFingerprint i \<or>
    err = ErrEventScopeConflict \<and> \<not> scope_matches i (Normalize event) \<or> err = ErrEventIDConflict"
  using assms
  by (auto simp: Incident_Apply_def Let_def split: option.splits if_splits sum.splits elim!: replay_scan_cases)

subsection \<open>Invariant\<close>

text \<open>
  The facts that tie an incident to its events: every event is normalized, valid, has the
  fingerprint and the scope of the incident, the window is the minimum and the maximum of the
  occurrence times, and an event ID names one event of its source.
\<close>

definition event_fits :: "Incident \<Rightarrow> Event \<Rightarrow> bool" where
  "event_fits i e \<longleftrightarrow> normalized e \<and> Validate e = None \<and> Fingerprint e = incFingerprint i \<and> scope_matches i e"

definition window_ok :: "Incident \<Rightarrow> bool" where
  "window_ok i \<longleftrightarrow>
     (\<forall>e \<in> set (incEvents i). instant (incFirstOccurredAt i) \<le> instant (evOccurredAt e) \<and>
        instant (evOccurredAt e) \<le> instant (incLastOccurredAt i)) \<and>
     (\<exists>e \<in> set (incEvents i). instant (evOccurredAt e) = instant (incFirstOccurredAt i)) \<and>
     (\<exists>e \<in> set (incEvents i). instant (evOccurredAt e) = instant (incLastOccurredAt i))"

fun ids_unique :: "Event list \<Rightarrow> bool" where
  "ids_unique [] \<longleftrightarrow> True"
| "ids_unique (e # es) \<longleftrightarrow>
     (evID e = [] \<or> (\<forall>x \<in> set es. \<not> (evSource x = evSource e \<and> evID x = evID e))) \<and> ids_unique es"

definition incident_inv :: "Incident \<Rightarrow> bool" where
  "incident_inv i \<longleftrightarrow> incEvents i \<noteq> [] \<and> (\<forall>e \<in> set (incEvents i). event_fits i e) \<and> window_ok i \<and>
     ids_unique (incEvents i) \<and> incFingerprint i \<noteq> [] \<and>
     zone (incFirstOccurredAt i) = 0 \<and> zone (incLastOccurredAt i) = 0"

lemma ids_unique_snoc:
  "ids_unique (es @ [e]) \<longleftrightarrow> ids_unique es \<and>
     (\<forall>x \<in> set es. evID x \<noteq> [] \<longrightarrow> \<not> (evSource e = evSource x \<and> evID e = evID x))"
  by (induction es) auto

lemma record_fields [simp]:
  "incEvents (record_occurrence i e) = incEvents i @ [e]"
  "incFingerprint (record_occurrence i e) = incFingerprint i"
  "incStatus (record_occurrence i e) = incStatus i"
  by (simp_all add: record_occurrence_def)

lemma record_zone:
  "zone (evOccurredAt e) = 0 \<Longrightarrow> zone (incFirstOccurredAt i) = 0 \<Longrightarrow>
     zone (incFirstOccurredAt (record_occurrence i e)) = 0"
  "zone (evOccurredAt e) = 0 \<Longrightarrow> zone (incLastOccurredAt i) = 0 \<Longrightarrow>
     zone (incLastOccurredAt (record_occurrence i e)) = 0"
  by (simp_all add: record_occurrence_def)

lemma scope_matches_record [simp]: "scope_matches (record_occurrence i e) = scope_matches i"
  by (simp add: scope_matches_def record_occurrence_def fun_eq_iff)

lemma event_fits_record [simp]: "event_fits (record_occurrence i e) = event_fits i"
  by (simp add: event_fits_def fun_eq_iff)

lemma window_ok_record: "window_ok i \<Longrightarrow> window_ok (record_occurrence i e)"
  by (fastforce simp: window_ok_def record_occurrence_def Before_def After_def)

lemma New_inv [inv_intros]:
  assumes "Incident_New event = Inr i"
  shows "incident_inv i"
proof -
  have i: "Validate event = None" "i = \<lparr>incFingerprint = Fingerprint event, incType = evType (Normalize event),
      incStatus = StatusPendingInvestigation, incEnvironment = evEnvironment (Normalize event),
      incService = evService (Normalize event), incNode = evNode (Normalize event),
      incWorkload = evWorkload (Normalize event), incContainer = evContainer (Normalize event),
      incSeverity = evSeverity (Normalize event), incFirstOccurredAt = evOccurredAt (Normalize event),
      incLastOccurredAt = evOccurredAt (Normalize event), incEvents = [Normalize event]\<rparr>"
    using assms by (auto simp: Incident_New_def Let_def split: option.splits)
  then show ?thesis
    by (simp add: incident_inv_def event_fits_def scope_matches_def window_ok_def)
qed

lemma Apply_inv [inv_intros]:
  assumes "incident_inv i" and "Incident_Apply i event = Inr (changed, i')"
  shows "incident_inv i'"
  using assms(2)
proof (cases rule: Apply_ok_cases)
  case replayed
  then show ?thesis using assms(1) by simp
next
  case recorded
  let ?e = "Normalize event"
  note ok = Apply_ok_facts [OF assms(2)]
  have fits: "event_fits i ?e"
    using ok by (simp add: event_fits_def)
  have "\<forall>x \<in> set (incEvents i). evID x \<noteq> [] \<longrightarrow> \<not> (evSource ?e = evSource x \<and> evID ?e = evID x)"
    using recorded(3) by metis
  then have uniq: "ids_unique (incEvents i @ [?e])"
    using assms(1) by (simp add: ids_unique_snoc incident_inv_def)
  show ?thesis
    using assms(1) fits uniq recorded(2) window_ok_record [of i ?e] record_zone [of ?e i]
    by (simp add: incident_inv_def)
qed

lemma New_pending: "Incident_New event = Inr i \<Longrightarrow> incStatus i = StatusPendingInvestigation"
  by (auto simp: Incident_New_def Let_def split: option.splits)

lemma New_events: "Incident_New event = Inr i \<Longrightarrow> incEvents i = [Normalize event]"
  by (auto simp: Incident_New_def Let_def split: option.splits)

lemma New_fingerprint: "Incident_New event = Inr i \<Longrightarrow> incFingerprint i = Fingerprint event"
  by (auto simp: Incident_New_def Let_def split: option.splits)

lemma New_ok_iff: "is_ok (Incident_New event) \<longleftrightarrow> Validate event = None"
  by (auto simp: Incident_New_def Let_def split: option.splits)

lemma pending_open: "incStatus i = StatusPendingInvestigation \<Longrightarrow> Incident_Open i"
  by (simp add: Incident_Open_def status_defs)

lemma Apply_frame:
  assumes "Incident_Apply i event = Inr (changed, i')"
  shows "incFingerprint i' = incFingerprint i" "incStatus i' = incStatus i"
    "scope_matches i' = scope_matches i"
    "incEvents i' = incEvents i @ (if changed then [Normalize event] else [])"
  using assms by (cases rule: Apply_ok_cases; simp add: record_occurrence_def scope_matches_def fun_eq_iff)+

subsection \<open>Histories\<close>

text \<open>
  The events that an incident keeps, by comparison with its first event only: valid ones with the same
  fingerprint and scope whose source and ID are not yet taken.
\<close>

definition same_scope :: "Event \<Rightarrow> Event \<Rightarrow> bool" where
  "same_scope a b \<longleftrightarrow> evType a = evType b \<and> evEnvironment a = evEnvironment b \<and> evService a = evService b \<and>
     evNode a = evNode b \<and> evWorkload a = evWorkload b \<and> evContainer a = evContainer b"

definition admissible :: "Event list \<Rightarrow> Event \<Rightarrow> bool" where
  "admissible es e \<longleftrightarrow> Validate e = None \<and> Fingerprint e = Fingerprint (hd es) \<and> same_scope (hd es) e \<and>
     (evID e = [] \<or> (\<forall>x \<in> set es. \<not> (evSource x = evSource e \<and> evID x = evID e)))"

definition keep_event :: "Event \<Rightarrow> Event list \<Rightarrow> Event list" where
  "keep_event e es = (if admissible es (Normalize e) then es @ [Normalize e] else es)"

text \<open>Applying events one after the other; a refused event leaves the incident alone.\<close>

definition apply_or_keep :: "Event \<Rightarrow> Incident \<Rightarrow> Incident" where
  "apply_or_keep e i = (case Incident_Apply i e of Inl err \<Rightarrow> i | Inr (changed, i') \<Rightarrow> i')"

definition latest_severity :: "Event list \<Rightarrow> string" where
  "latest_severity es = fold (\<lambda>e s. if evSeverity e \<noteq> [] then evSeverity e else s) es []"

definition summarizes :: "Incident \<Rightarrow> bool" where
  "summarizes i \<longleftrightarrow> incident_inv i \<and> incStatus i = StatusPendingInvestigation \<and>
     incSeverity i = latest_severity (incEvents i)"

lemma scope_matches_hd: "incident_inv i \<Longrightarrow> scope_matches i e \<longleftrightarrow> same_scope (hd (incEvents i)) e"
  by (cases "incEvents i") (auto simp: incident_inv_def event_fits_def scope_matches_def same_scope_def)

lemma fingerprint_hd: "incident_inv i \<Longrightarrow> incFingerprint i = Fingerprint (hd (incEvents i))"
  by (cases "incEvents i") (auto simp: incident_inv_def event_fits_def)

lemma apply_or_keep_events:
  assumes "incident_inv i"
  shows "incEvents (apply_or_keep e i) = keep_event e (incEvents i)"
proof (cases "Incident_Apply i e")
  case (Inl err)
  then have "\<not> admissible (incEvents i) (Normalize e)"
    using scope_matches_hd [OF assms] fingerprint_hd [OF assms]
    by (auto simp: Incident_Apply_def Let_def admissible_def split: option.splits if_splits sum.splits elim!: replay_scan_cases)
  then show ?thesis using Inl by (simp add: apply_or_keep_def keep_event_def)
next
  case (Inr p)
  obtain changed i' where p: "p = (changed, i')" by fastforce
  note ok = Apply_ok_facts [OF Inr [unfolded p]]
  from Inr [unfolded p] show ?thesis
  proof (cases rule: Apply_ok_cases)
    case (replayed x)
    then have "\<not> admissible (incEvents i) (Normalize e)" by (auto simp: admissible_def)
    then show ?thesis using Inr p replayed(2) by (simp add: apply_or_keep_def keep_event_def)
  next
    case recorded
    then have "admissible (incEvents i) (Normalize e)"
      using ok scope_matches_hd [OF assms] fingerprint_hd [OF assms] by (auto simp: admissible_def)
    then show ?thesis using Inr p recorded(2) by (simp add: apply_or_keep_def keep_event_def)
  qed
qed

lemma apply_or_keep_summarizes:
  assumes "summarizes i"
  shows "summarizes (apply_or_keep e i)"
proof (cases "Incident_Apply i e")
  case (Inr p)
  obtain changed i' where p: "p = (changed, i')" by fastforce
  have "incident_inv i'" using Apply_inv [OF _ Inr [unfolded p]] assms by (simp add: summarizes_def)
  with Inr [unfolded p] show ?thesis
    by (cases rule: Apply_ok_cases)
       (use assms Inr p in \<open>auto simp: apply_or_keep_def summarizes_def latest_severity_def record_occurrence_def\<close>)
qed (use assms in \<open>simp add: apply_or_keep_def\<close>)

lemma New_summarizes: "Incident_New e = Inr i \<Longrightarrow> summarizes i"
  using New_inv New_pending
  by (force simp: summarizes_def latest_severity_def Incident_New_def Let_def split: option.splits)

lemma history_events:
  "summarizes i \<Longrightarrow> summarizes (fold apply_or_keep es i) \<and> incEvents (fold apply_or_keep es i) = fold keep_event es (incEvents i)"
proof (induction es arbitrary: i)
  case (Cons e es)
  then have "summarizes (apply_or_keep e i)" by (simp add: apply_or_keep_summarizes)
  with Cons show ?case using apply_or_keep_events [of i e] by (simp add: summarizes_def)
qed simp

lemma window_extrema:
  assumes "window_ok i"
  shows "instant (incFirstOccurredAt i) = Min ((\<lambda>e. instant (evOccurredAt e)) ` set (incEvents i))"
    "instant (incLastOccurredAt i) = Max ((\<lambda>e. instant (evOccurredAt e)) ` set (incEvents i))"
proof -
  obtain x y where x: "x \<in> set (incEvents i)" "instant (evOccurredAt x) = instant (incFirstOccurredAt i)"
    and y: "y \<in> set (incEvents i)" "instant (evOccurredAt y) = instant (incLastOccurredAt i)"
    using assms unfolding window_ok_def by blast
  have "\<forall>e \<in> set (incEvents i). instant (evOccurredAt x) \<le> instant (evOccurredAt e)"
    and "\<forall>e \<in> set (incEvents i). instant (evOccurredAt e) \<le> instant (evOccurredAt y)"
    using assms x(2) y(2) by (simp_all add: window_ok_def)
  then show "instant (incFirstOccurredAt i) = Min ((\<lambda>e. instant (evOccurredAt e)) ` set (incEvents i))"
    and "instant (incLastOccurredAt i) = Max ((\<lambda>e. instant (evOccurredAt e)) ` set (incEvents i))"
    unfolding x(2) [symmetric] y(2) [symmetric] using x(1) y(1)
    by (auto intro!: Min_eqI [symmetric] Max_eqI [symmetric])
qed

end
