(* ===== verification/Casefile.thy ===== *)
theory Casefile
  imports Incident
begin

text \<open>
  Package \<open>internal/casefile\<close>: the case, the \<open>Store\<close> interface, its in-memory implementation and the
  service above it.

  The interface is the locale \<open>case_store\<close>: an implementation state has an abstraction, the pair of
  the cases by ID and the open index, and \<open>ApplyEvent\<close> either performs the step \<open>apply_spec\<close> on it or
  fails and changes nothing but, at most, a stale index entry. The lemmas of the service are proved
  once in the locale; \<open>mem\<close> interprets it on \<open>MemoryStore\<close> (and \<open>Local_Cases\<close> on the durable
  store).
\<close>

subsection \<open>Cases\<close>

record Case =
  caseID :: string
  caseRevision :: u64
  caseCreatedAt :: gotime
  caseUpdatedAt :: gotime
  caseIncident :: Incident

definition Case_Clone :: "Case \<Rightarrow> Case" where
  "Case_Clone c = c\<lparr>caseIncident := Incident_Clone (caseIncident c)\<rparr>"

lemma Case_Clone_id [simp]: "Case_Clone c = c"
  by (simp add: Case_Clone_def)

lemma map_Case_Clone [simp]: "map Case_Clone cs = cs"
  by (induction cs) simp_all

text \<open>The zero values that a missing map key yields.\<close>

definition zero_incident :: Incident where
  "zero_incident = \<lparr>incFingerprint = [], incType = [], incStatus = [], incEnvironment = [],
     incService = [], incNode = [], incWorkload = [], incContainer = [], incSeverity = [],
     incFirstOccurredAt = time_zero, incLastOccurredAt = time_zero, incEvents = []\<rparr>"

definition zero_case :: Case where
  "zero_case = \<lparr>caseID = [], caseRevision = 0, caseCreatedAt = time_zero, caseUpdatedAt = time_zero,
     caseIncident = zero_incident\<rparr>"

text \<open>The result of one call of the ID generator, which may read randomness.\<close>

type_synonym IDGenerator = "gotime \<Rightarrow> error + string"

type_synonym apply_result = "error + (Case \<times> bool)"

subsection \<open>MemoryStore\<close>

record MemoryStore =
  byID :: "(string, Case) gomap"
  openByPrint :: "(string, string) gomap"

definition NewMemoryStore :: MemoryStore where
  "NewMemoryStore = \<lparr>byID = map_new, openByPrint = map_new\<rparr>"

text \<open>A matching event moves an open case to its next revision; the update time never goes back.\<close>

definition bump_case :: "Case \<Rightarrow> Incident \<Rightarrow> gotime \<Rightarrow> Case" where
  "bump_case current i now = current\<lparr>caseIncident := i, caseRevision := caseRevision current + 1,
     caseUpdatedAt := (if Before (UTC now) (caseUpdatedAt current) then caseUpdatedAt current else UTC now)\<rparr>"

definition new_case :: "string \<Rightarrow> Incident \<Rightarrow> gotime \<Rightarrow> Case" where
  "new_case cid i now = \<lparr>caseID = cid, caseRevision = 1, caseCreatedAt = UTC now, caseUpdatedAt = UTC now,
     caseIncident = i\<rparr>"

text \<open>The second half of \<open>ApplyEvent\<close>: a fresh case under a generated ID.\<close>

definition mem_create :: "Event \<Rightarrow> gotime \<Rightarrow> IDGenerator \<Rightarrow> MemoryStore \<Rightarrow> apply_result \<times> MemoryStore" where
  "mem_create event now generateID s =
     (case Incident_New event of
        Inl err \<Rightarrow> (Inl err, s)
      | Inr record \<Rightarrow>
          (case generateID now of
             Inl err \<Rightarrow> (Inl err, s)
           | Inr cid \<Rightarrow>
               if cid = [] then (Inl (ErrNew ''generated case ID is empty''), s)
               else if map_get (byID s) cid \<noteq> None then (Inl ErrIDConflict, s)
               else (let created = new_case cid record now
                     in (Inr (Case_Clone created, True),
                         s\<lparr>byID := map_set cid (Case_Clone created) (byID s),
                           openByPrint := map_set (Fingerprint event) cid (openByPrint s)\<rparr>))))"

definition MemoryStore_ApplyEvent ::
  "ctx \<Rightarrow> Event \<Rightarrow> gotime \<Rightarrow> IDGenerator \<Rightarrow> MemoryStore \<Rightarrow> apply_result \<times> MemoryStore" where
  "MemoryStore_ApplyEvent ctx event now generateID s =
     (case ctx of
        Some err \<Rightarrow> (Inl err, s)
      | None \<Rightarrow>
          (let fingerprint = Fingerprint event
           in case map_get (openByPrint s) fingerprint of
                None \<Rightarrow> mem_create event now generateID s
              | Some cid \<Rightarrow>
                  (let current = (case map_get (byID s) cid of Some c \<Rightarrow> c | None \<Rightarrow> zero_case)
                   in if Incident_Open (caseIncident current) then
                        (case Incident_Apply (caseIncident current) event of
                           Inl err \<Rightarrow> (Inl err, s)
                         | Inr (changed, i) \<Rightarrow>
                             if \<not> changed then (Inr (Case_Clone current, False), s)
                             else (let current' = bump_case current i now
                                   in (Inr (Case_Clone current', False),
                                       s\<lparr>byID := map_set cid (Case_Clone current') (byID s)\<rparr>)))
                      else mem_create event now generateID
                             (s\<lparr>openByPrint := map_del fingerprint (openByPrint s)\<rparr>))))"

definition MemoryStore_Get :: "ctx \<Rightarrow> string \<Rightarrow> MemoryStore \<Rightarrow> error + Case" where
  "MemoryStore_Get ctx cid s =
     (case ctx of
        Some err \<Rightarrow> Inl err
      | None \<Rightarrow> (case map_get (byID s) cid of None \<Rightarrow> Inl ErrNotFound | Some stored \<Rightarrow> Inr (Case_Clone stored)))"

definition MemoryStore_ListPendingInvestigation :: "ctx \<Rightarrow> MemoryStore \<Rightarrow> error + Case list" where
  "MemoryStore_ListPendingInvestigation ctx s =
     (case ctx of
        Some err \<Rightarrow> Inl err
      | None \<Rightarrow> Inr (sort_key caseID (map Case_Clone
          (filter (\<lambda>stored. incStatus (caseIncident stored) = StatusPendingInvestigation) (map_values (byID s))))))"

subsection \<open>Service\<close>

record 's Service =
  svStore :: 's
  svNow :: "gotime option"                 \<comment> \<open>what the clock returns at the call; \<open>None\<close> is a nil clock\<close>
  svGenerateID :: "IDGenerator option"

definition WithClock :: "gotime option \<Rightarrow> 's Service \<Rightarrow> 's Service" where
  "WithClock now service = service\<lparr>svNow := now\<rparr>"

definition WithIDGenerator :: "IDGenerator option \<Rightarrow> 's Service \<Rightarrow> 's Service" where
  "WithIDGenerator generate service = service\<lparr>svGenerateID := generate\<rparr>"

definition NewService ::
  "gotime \<Rightarrow> IDGenerator \<Rightarrow> 's option \<Rightarrow> ('s Service \<Rightarrow> 's Service) list \<Rightarrow> error + 's Service" where
  "NewService wall_clock randomCaseID store options =
     (case store of
        None \<Rightarrow> Inl (ErrNew ''create case service: store is required'')
      | Some st \<Rightarrow>
          (let service = fold (\<lambda>option service. option service) options
                 \<lparr>svStore = st, svNow = Some wall_clock, svGenerateID = Some randomCaseID\<rparr>
           in if svNow service = None \<or> svGenerateID service = None
              then Inl (ErrNew ''create case service: clock and ID generator are required'')
              else Inr service))"

text \<open>
  \<open>RecordEvent\<close> over any store: \<open>apply\<close> is the store's \<open>ApplyEvent\<close>, \<open>now\<close> what the clock returns.
\<close>

definition Service_RecordEvent ::
  "(ctx \<Rightarrow> Event \<Rightarrow> gotime \<Rightarrow> IDGenerator \<Rightarrow> 's \<Rightarrow> apply_result \<times> 's) \<Rightarrow>
   gotime \<Rightarrow> IDGenerator \<Rightarrow> ctx \<Rightarrow> Event \<Rightarrow> 's \<Rightarrow> apply_result \<times> 's" where
  "Service_RecordEvent apply now0 generateID ctx event0 s =
     (let event = Normalize event0
      in case Validate event of
           Some err \<Rightarrow> (Inl err, s)
         | None \<Rightarrow>
             (let now = UTC now0;
                  event' = (if IsZero (evObservedAt event) then event\<lparr>evObservedAt := now\<rparr> else event)
              in apply ctx event' now generateID s))"

definition Service_Get ::
  "(ctx \<Rightarrow> string \<Rightarrow> 's \<Rightarrow> error + Case) \<Rightarrow> ctx \<Rightarrow> string \<Rightarrow> 's \<Rightarrow> error + Case" where
  "Service_Get get ctx cid s = (if cid = [] then Inl ErrNotFound else get ctx cid s)"

definition Service_ListPendingInvestigation ::
  "(ctx \<Rightarrow> 's \<Rightarrow> error + Case list) \<Rightarrow> ctx \<Rightarrow> 's \<Rightarrow> error + Case list" where
  "Service_ListPendingInvestigation list_pending ctx s = list_pending ctx s"

subsection \<open>Case IDs\<close>

text \<open>\<open>Format("20060102T150405Z")\<close> for years 0 to 9999.\<close>

definition format_compact :: "gotime \<Rightarrow> string" where
  "format_compact t =
     (let secs = instant t div 1000000000;
          (y, m, d) = civil_date (secs div 86400);
          s = secs mod 86400
      in pad_digits 4 y @ pad_digits 2 m @ pad_digits 2 d @ ''T'' @
         pad_digits 2 (s div 3600) @ pad_digits 2 (s div 60 mod 60) @ pad_digits 2 (s mod 60) @ ''Z'')"

text \<open>\<open>rnd\<close> is what \<open>rand.Read\<close> fills in, or its error.\<close>

definition randomCaseID :: "error + nat list \<Rightarrow> IDGenerator" where
  "randomCaseID rnd now =
     (case rnd of
        Inl err \<Rightarrow> Inl (ErrWrap ''generate case ID: '' err)
      | Inr bs \<Rightarrow> Inr (''INC-'' @ format_compact (UTC now) @ ''-'' @ hex_encode bs))"

subsection \<open>The contract of a store\<close>

type_synonym abs_store = "(string \<rightharpoonup> Case) \<times> (string \<rightharpoonup> string)"

text \<open>
  What every store promises of one event: it is appended to the one open case of its fingerprint or
  opens a new one.
\<close>

definition create_spec :: "Event \<Rightarrow> gotime \<Rightarrow> IDGenerator \<Rightarrow> abs_store \<Rightarrow> apply_result \<times> abs_store" where
  "create_spec event now generateID = (\<lambda>(cases, opn).
     (case Incident_New event of
        Inl err \<Rightarrow> (Inl err, cases, opn)
      | Inr i \<Rightarrow>
          (case generateID now of
             Inl err \<Rightarrow> (Inl err, cases, opn)
           | Inr cid \<Rightarrow>
               if cid = [] then (Inl (ErrNew ''generated case ID is empty''), cases, opn)
               else if cases cid \<noteq> None then (Inl ErrIDConflict, cases, opn)
               else (Inr (new_case cid i now, True),
                     cases(cid \<mapsto> new_case cid i now), opn(Fingerprint event \<mapsto> cid)))))"

definition apply_spec :: "Event \<Rightarrow> gotime \<Rightarrow> IDGenerator \<Rightarrow> abs_store \<Rightarrow> apply_result \<times> abs_store" where
  "apply_spec event now generateID = (\<lambda>(cases, opn).
     (case opn (Fingerprint event) of
        None \<Rightarrow> create_spec event now generateID (cases, opn)
      | Some cid \<Rightarrow>
          (let current = the (cases cid)
           in case Incident_Apply (caseIncident current) event of
                Inl err \<Rightarrow> (Inl err, cases, opn)
              | Inr (changed, i) \<Rightarrow>
                  if \<not> changed then (Inr (current, False), cases, opn)
                  else (Inr (bump_case current i now, False), cases(cid \<mapsto> bump_case current i now), opn))))"

definition case_inv :: "Case \<Rightarrow> bool" where
  "case_inv c \<longleftrightarrow> caseID c \<noteq> [] \<and> incident_inv (caseIncident c) \<and>
     caseRevision c = of_nat (length (incEvents (caseIncident c))) \<and>
     zone (caseCreatedAt c) = 0 \<and> zone (caseUpdatedAt c) = 0 \<and>
     instant (caseCreatedAt c) \<le> instant (caseUpdatedAt c) \<and>
     incStatus (caseIncident c) \<in> {StatusPendingInvestigation, StatusInvestigating, StatusResolved, StatusClosed}"

text \<open>The index lists exactly the open cases, so two open cases never share a fingerprint.\<close>

definition store_inv :: "abs_store \<Rightarrow> bool" where
  "store_inv = (\<lambda>(cases, opn).
     (\<forall>cid c. cases cid = Some c \<longrightarrow> caseID c = cid \<and> case_inv c) \<and>
     (\<forall>f cid. opn f = Some cid \<longleftrightarrow>
        (\<exists>c. cases cid = Some c \<and> Incident_Open (caseIncident c) \<and> incFingerprint (caseIncident c) = f)))"

subsection \<open>The specification keeps the invariant\<close>

lemma store_inv_case: "store_inv (cases, opn) \<Longrightarrow> cases cid = Some c \<Longrightarrow> caseID c = cid \<and> case_inv c"
  by (simp add: store_inv_def)

lemma store_inv_open:
  assumes "store_inv (cases, opn)" and "opn f = Some cid"
  obtains c where "cases cid = Some c" "caseID c = cid" "case_inv c" "Incident_Open (caseIncident c)"
    "incFingerprint (caseIncident c) = f"
proof -
  have "\<exists>c. cases cid = Some c \<and> Incident_Open (caseIncident c) \<and> incFingerprint (caseIncident c) = f"
    using assms by (simp add: store_inv_def)
  then show thesis using store_inv_case [OF assms(1)] that by blast
qed

lemma store_inv_unique_open:
  assumes "store_inv (cases, opn)" "cases a = Some c" "cases b = Some d"
    "Incident_Open (caseIncident c)" "Incident_Open (caseIncident d)"
    "incFingerprint (caseIncident c) = incFingerprint (caseIncident d)"
  shows "a = b"
proof -
  have "opn (incFingerprint (caseIncident c)) = Some a" "opn (incFingerprint (caseIncident c)) = Some b"
    using assms by (auto simp: store_inv_def)
  then show ?thesis by simp
qed

lemma store_inv_empty [simp]: "store_inv (Map.empty, Map.empty)"
  by (simp add: store_inv_def)

lemma new_case_inv:
  "Incident_New event = Inr i \<Longrightarrow> cid \<noteq> [] \<Longrightarrow> case_inv (new_case cid i now)"
  by (simp add: case_inv_def new_case_def New_inv New_events New_pending)

lemma bump_case_fields [simp]:
  "caseID (bump_case c i now) = caseID c" "caseIncident (bump_case c i now) = i"
  "caseRevision (bump_case c i now) = caseRevision c + 1" "caseCreatedAt (bump_case c i now) = caseCreatedAt c"
  by (simp_all add: bump_case_def)

lemma bump_case_inv:
  assumes "case_inv c" "Incident_Apply (caseIncident c) event = Inr (True, i)"
  shows "case_inv (bump_case c i now)"
  using assms Apply_inv [OF _ assms(2)] Apply_frame [OF assms(2)]
  by (auto simp: case_inv_def bump_case_def Before_def)

lemma new_case_fields [simp]:
  "caseID (new_case cid i now) = cid" "caseIncident (new_case cid i now) = i"
  "caseRevision (new_case cid i now) = 1"
  by (simp_all add: new_case_def)

lemma store_inv_insert:
  assumes "store_inv (cases, opn)" "cases cid = None" "opn f = None"
    and "caseID c = cid" "case_inv c" "Incident_Open (caseIncident c)" "incFingerprint (caseIncident c) = f"
  shows "store_inv (cases(cid \<mapsto> c), opn(f \<mapsto> cid))"
proof -
  have iff: "opn g = Some d \<longleftrightarrow>
      (\<exists>x. cases d = Some x \<and> Incident_Open (caseIncident x) \<and> incFingerprint (caseIncident x) = g)" for g d
    using assms(1) by (simp add: store_inv_def)
  have other: "\<not> (cases d = Some x \<and> Incident_Open (caseIncident x) \<and> incFingerprint (caseIncident x) = f)" for d x
    using iff [of f d] assms(3) by auto
  have "(opn(f \<mapsto> cid)) g = Some d \<longleftrightarrow> (\<exists>x. (cases(cid \<mapsto> c)) d = Some x \<and> Incident_Open (caseIncident x) \<and>
      incFingerprint (caseIncident x) = g)" for g d
  proof (cases "g = f")
    case True
    then show ?thesis using other [of d] assms(6,7) by auto
  next
    case False
    then show ?thesis using iff [of g d] assms(2,7) by auto
  qed
  then show ?thesis using assms(1,4,5) by (simp add: store_inv_def)
qed

lemma store_inv_replace:
  assumes "store_inv (cases, opn)" "cases cid = Some c" "caseID c' = cid" "case_inv c'"
    and "incStatus (caseIncident c') = incStatus (caseIncident c)"
    and "incFingerprint (caseIncident c') = incFingerprint (caseIncident c)"
  shows "store_inv (cases(cid \<mapsto> c'), opn)"
  using assms unfolding store_inv_def by (auto simp: Incident_Open_def split: if_splits)

lemma create_spec_inv:
  assumes "store_inv st" "snd st (Fingerprint event) = None" "create_spec event now gen st = (r, st')"
  shows "store_inv st'"
proof (cases st)
  case (Pair cases opn)
  show ?thesis
  proof (cases "st' = st")
    case True
    then show ?thesis using assms by simp
  next
    case False
    then obtain i cid where c: "Incident_New event = Inr i" "cid \<noteq> []" "cases cid = None"
        "st' = (cases(cid \<mapsto> new_case cid i now), opn(Fingerprint event \<mapsto> cid))"
      using assms(3) Pair by (auto simp: create_spec_def split: sum.splits if_splits)
    show ?thesis
      unfolding c(4)
      by (rule store_inv_insert)
        (use assms Pair c in \<open>auto simp: new_case_inv New_fingerprint pending_open New_pending\<close>)
  qed
qed

lemma apply_spec_cases:
  assumes "store_inv (cases, opn)" "apply_spec event now gen (cases, opn) = (r, st')"
  obtains (failed) err where "r = Inl err" "st' = (cases, opn)"
  | (replayed) cid c where "opn (Fingerprint event) = Some cid" "cases cid = Some c" "r = Inr (c, False)"
      "st' = (cases, opn)" "Incident_Apply (caseIncident c) event = Inr (False, caseIncident c)"
  | (updated) cid c i where "opn (Fingerprint event) = Some cid" "cases cid = Some c"
      "Incident_Apply (caseIncident c) event = Inr (True, i)" "r = Inr (bump_case c i now, False)"
      "st' = (cases(cid \<mapsto> bump_case c i now), opn)"
  | (created) cid i where "opn (Fingerprint event) = None" "Incident_New event = Inr i" "gen now = Inr cid"
      "cid \<noteq> []" "cases cid = None" "r = Inr (new_case cid i now, True)"
      "st' = (cases(cid \<mapsto> new_case cid i now), opn(Fingerprint event \<mapsto> cid))"
proof (cases "opn (Fingerprint event)")
  case None
  then show ?thesis
    using assms(2) failed created
    by (auto simp: apply_spec_def create_spec_def split: sum.splits if_splits)
next
  case (Some cid)
  obtain c where c: "cases cid = Some c" using store_inv_open [OF assms(1) Some] by blast
  show ?thesis
  proof (cases "Incident_Apply (caseIncident c) event" rule: sum.exhaust)
    case (Inl err)
    then show ?thesis using assms(2) Some c failed by (auto simp: apply_spec_def)
  next
    case (Inr p)
    obtain changed i where p: "p = (changed, i)" by fastforce
    show ?thesis
    proof (cases changed)
      case True
      then show ?thesis using Inr p assms(2) Some c updated by (auto simp: apply_spec_def)
    next
      case False
      then have "i = caseIncident c" using Inr p by (auto elim: Apply_ok_cases)
      then show ?thesis using Inr p False assms(2) Some c replayed by (auto simp: apply_spec_def)
    qed
  qed
qed

lemma apply_spec_inv:
  assumes "store_inv st" "apply_spec event now gen st = (r, st')"
  shows "store_inv st'"
proof -
  obtain cases opn where st: "st = (cases, opn)" by fastforce
  have inv: "store_inv (cases, opn)" and app: "apply_spec event now gen (cases, opn) = (r, st')"
    using assms st by auto
  show ?thesis
    using inv app
  proof (cases rule: apply_spec_cases)
    case (updated cid c i)
    note frame = Apply_frame [OF updated(3)]
    have "caseID c = cid \<and> case_inv c" using inv updated(2) by (rule store_inv_case)
    then show ?thesis
      unfolding updated(5) using inv updated(2,3) frame
      by (intro store_inv_replace) (auto simp: bump_case_inv)
  next
    case (created cid i)
    then show ?thesis
      unfolding created(7) using inv
      by (intro store_inv_insert) (auto simp: new_case_inv New_fingerprint pending_open New_pending)
  qed (use assms st in auto)
qed

text \<open>No case is lost and no event of a case is ever dropped.\<close>

definition cases_grow :: "(string \<rightharpoonup> Case) \<Rightarrow> (string \<rightharpoonup> Case) \<Rightarrow> bool" where
  "cases_grow cases cases' \<longleftrightarrow>
     (\<forall>cid c. cases cid = Some c \<longrightarrow>
        (\<exists>c'. cases' cid = Some c' \<and>
           prefix (incEvents (caseIncident c)) (incEvents (caseIncident c')) \<and>
           caseCreatedAt c' = caseCreatedAt c \<and> instant (caseUpdatedAt c) \<le> instant (caseUpdatedAt c')))"

lemma cases_grow_refl [simp]: "cases_grow cases cases"
  by (simp add: cases_grow_def)

lemma cases_grow_trans: "cases_grow a b \<Longrightarrow> cases_grow b c \<Longrightarrow> cases_grow a c"
  unfolding cases_grow_def by (fastforce intro: prefix_order.trans)

lemma apply_spec_grow:
  assumes "store_inv (cases, opn)" "apply_spec event now gen (cases, opn) = (r, cases', opn')"
  shows "cases_grow cases cases'"
  using assms
proof (cases rule: apply_spec_cases)
  case (updated cid c i)
  then show ?thesis
    using Apply_frame(4) [OF updated(3)]
    by (auto simp: cases_grow_def bump_case_def Before_def)
qed (auto simp: cases_grow_def)

lemma apply_spec_result:
  assumes "store_inv (cases, opn)" "apply_spec event now gen (cases, opn) = (Inr (c, created), cases', opn')"
  shows "cases' (caseID c) = Some c" "Incident_Open (caseIncident c)" "incFingerprint (caseIncident c) = Fingerprint event"
    "created \<longleftrightarrow> opn (Fingerprint event) = None" "case_inv c"
    "\<exists>e \<in> set (incEvents (caseIncident c)). sameEvent e event"
proof -
  have st: "store_inv (cases', opn')"
    using apply_spec_inv [OF assms] .
  have "cases' (caseID c) = Some c \<and> Incident_Open (caseIncident c) \<and>
    incFingerprint (caseIncident c) = Fingerprint event \<and> (created \<longleftrightarrow> opn (Fingerprint event) = None) \<and>
    (\<exists>e \<in> set (incEvents (caseIncident c)). sameEvent e event)"
    using assms
  proof (cases rule: apply_spec_cases)
    case (replayed cid c')
    obtain d where "cases cid = Some d" "caseID d = cid" "Incident_Open (caseIncident d)"
        "incFingerprint (caseIncident d) = Fingerprint event"
      using assms(1) replayed(1) by (rule store_inv_open)
    then show ?thesis using replayed by (auto elim: Apply_ok_cases)
  next
    case (updated cid c' i)
    obtain d where "cases cid = Some d" "caseID d = cid" "Incident_Open (caseIncident d)"
        "incFingerprint (caseIncident d) = Fingerprint event"
      using assms(1) updated(1) by (rule store_inv_open)
    then show ?thesis
      using updated Apply_frame [OF updated(3)] by (auto simp: Incident_Open_def)
  next
    case (created cid i)
    then show ?thesis by (auto simp: New_fingerprint New_pending pending_open New_events)
  qed simp
  then show "cases' (caseID c) = Some c" "Incident_Open (caseIncident c)"
    "incFingerprint (caseIncident c) = Fingerprint event" "created \<longleftrightarrow> opn (Fingerprint event) = None"
    "case_inv c" "\<exists>e \<in> set (incEvents (caseIncident c)). sameEvent e event"
    using store_inv_case [OF st] by blast+
qed


lemma sameEvent_Fingerprint: "sameEvent a b \<Longrightarrow> Fingerprint a = Fingerprint b"
  by (simp add: sameEvent_def Fingerprint_def fingerprint_parts_def Let_def)

lemma sameEvent_Validate:
  assumes "sameEvent a b" "Validate a = None"
  shows "Validate b = None"
proof -
  have "Validate (Normalize a) = None" using assms(2) by simp
  then have "Validate (Normalize b) = None"
    using assms(1) unfolding Validate_normalized [OF normalized_Normalize]
    by (auto simp: sameEvent_def Let_def Equal_def IsZero_def simp del: Normalize_fields)
  then show ?thesis by simp
qed

lemma sameEvent_scope: "sameEvent a b \<Longrightarrow> scope_matches i (Normalize a) = scope_matches i (Normalize b)"
  by (simp add: sameEvent_def scope_matches_def Let_def)

lemma ids_unique_eq:
  "ids_unique es \<Longrightarrow> x \<in> set es \<Longrightarrow> y \<in> set es \<Longrightarrow> evSource x = evSource y \<Longrightarrow> evID x = evID y \<Longrightarrow>
     evID x \<noteq> [] \<Longrightarrow> x = y"
  by (induction es) auto

text \<open>An event that the incident already holds is answered from it and changes nothing.\<close>

lemma Apply_replay:
  assumes "incident_inv i" "x \<in> set (incEvents i)" "sameEvent x event"
    and "Validate event = None" "evID (Normalize event) \<noteq> []"
  shows "Incident_Apply i event = Inr (False, i)"
proof -
  let ?e = "Normalize event"
  have fits: "event_fits i x" and uniq: "ids_unique (incEvents i)"
    using assms(1,2) by (auto simp: incident_inv_def)
  have norm: "Normalize x = x" using fits by (simp add: event_fits_def normalizedD)
  have key: "evSource x = evSource ?e" "evID x = evID ?e"
    using assms(3) norm by (auto simp: sameEvent_def Let_def)
  have fp: "Fingerprint event = incFingerprint i" "scope_matches i ?e"
    using fits assms(3) norm sameEvent_Fingerprint [OF assms(3)] sameEvent_scope [OF assms(3), of i]
    by (auto simp: event_fits_def)
  have "replay_scan (incEvents i) ?e \<noteq> None"
    using assms(2) key by (auto simp: replay_scan_None_iff)
  then obtain r where r: "replay_scan (incEvents i) ?e = Some r" by auto
  then obtain y where y: "y \<in> set (incEvents i)" "evSource y = evSource ?e" "evID y = evID ?e"
      "r = (if sameEvent y ?e then Inr False else Inl ErrEventIDConflict)"
    by (rule replay_scan_cases)
  then have "y = x" using ids_unique_eq [OF uniq y(1) assms(2)] key assms(5) by metis
  then have "r = Inr False" using y(4) assms(3) by simp
  then show ?thesis
    using r fp assms(4,5) by (simp add: Incident_Apply_def Let_def)
qed

lemma apply_spec_replay:
  assumes "store_inv (cases, opn)" "cases cid = Some c" "Incident_Open (caseIncident c)"
    and "x \<in> set (incEvents (caseIncident c))" "sameEvent x event"
    and "Validate event = None" "evID (Normalize event) \<noteq> []"
  shows "apply_spec event now gen (cases, opn) = (Inr (c, False), cases, opn)"
proof -
  have inv: "incident_inv (caseIncident c)"
    using store_inv_case [OF assms(1,2)] by (simp add: case_inv_def)
  have "Fingerprint event = incFingerprint (caseIncident c)"
    using inv assms(4) sameEvent_Fingerprint [OF assms(5)] by (auto simp: incident_inv_def event_fits_def)
  then have "opn (Fingerprint event) = Some cid"
    using assms(1-3) by (auto simp: store_inv_def)
  then show ?thesis
    using Apply_replay [OF inv assms(4-7)] assms(2) by (simp add: apply_spec_def)
qed

text \<open>A whole history of requests, each with its own clock reading, generator and context.\<close>

definition Service_RecordAll ::
  "(ctx \<Rightarrow> Event \<Rightarrow> gotime \<Rightarrow> IDGenerator \<Rightarrow> 's \<Rightarrow> apply_result \<times> 's) \<Rightarrow>
   (gotime \<times> IDGenerator \<times> ctx \<times> Event) list \<Rightarrow> 's \<Rightarrow> 's" where
  "Service_RecordAll apply = fold (\<lambda>(now, gen, ctx, event) s. snd (Service_RecordEvent apply now gen ctx event s))"

subsection \<open>The Store interface\<close>

text \<open>
  \<open>Store\<close> as the service uses it. \<open>apply_quiet\<close> says that a step that has nothing to store cannot
  fail for a reason of its own, \<open>apply_refines\<close> that any other step is the one of the
  specification or an error that changes nothing.
\<close>

locale case_store =
  fixes apply_event :: "ctx \<Rightarrow> Event \<Rightarrow> gotime \<Rightarrow> IDGenerator \<Rightarrow> 's \<Rightarrow> apply_result \<times> 's"
    and get_case :: "ctx \<Rightarrow> string \<Rightarrow> 's \<Rightarrow> error + Case"
    and list_pending :: "ctx \<Rightarrow> 's \<Rightarrow> error + Case list"
    and abs :: "'s \<Rightarrow> abs_store"
    and inv :: "'s \<Rightarrow> bool"
  assumes inv_abs: "inv s \<Longrightarrow> store_inv (abs s)"
    and apply_inv: "inv s \<Longrightarrow> apply_event ctx event now gen s = (r, s') \<Longrightarrow> inv s'"
    and apply_cancelled: "apply_event (Some err) event now gen s = (Inl err, s)"
    and apply_quiet: "inv s \<Longrightarrow> apply_spec event now gen (abs s) = (r, abs s) \<Longrightarrow>
          apply_event None event now gen s = (r, s)"
    and apply_refines: "inv s \<Longrightarrow> apply_event ctx event now gen s = (r, s') \<Longrightarrow>
          (\<exists>err. r = Inl err) \<and> abs s' = abs s \<or> (r, abs s') = apply_spec event now gen (abs s)"
    and get_cancelled: "get_case (Some err) cid s = Inl err"
    and get_law: "inv s \<Longrightarrow> get_case None cid s = (case fst (abs s) cid of None \<Rightarrow> Inl ErrNotFound | Some c \<Rightarrow> Inr c)"
    and list_cancelled: "list_pending (Some err) s = Inl err"
    and list_law: "inv s \<Longrightarrow> \<exists>cs. list_pending None s = Inr cs \<and> sorted (map caseID cs) \<and> distinct (map caseID cs) \<and>
          (\<forall>c. c \<in> set cs \<longleftrightarrow> fst (abs s) (caseID c) = Some c \<and> incStatus (caseIncident c) = StatusPendingInvestigation)"
begin

abbreviation record_event :: "gotime \<Rightarrow> IDGenerator \<Rightarrow> ctx \<Rightarrow> Event \<Rightarrow> 's \<Rightarrow> apply_result \<times> 's" where
  "record_event \<equiv> Service_RecordEvent apply_event"

lemma record_cases:
  assumes "inv s" "record_event now gen ctx event s = (r, s')"
  obtains (failed) err where "r = Inl err" "abs s' = abs s" "inv s'"
  | (stepped) e where "Validate event = None" "sameEvent e event" "Fingerprint e = Fingerprint event"
      "normalized e" "(r, abs s') = apply_spec e (UTC now) gen (abs s)" "inv s'"
proof (cases "Validate event")
  case (Some err)
  then show ?thesis using assms failed by (auto simp: Service_RecordEvent_def Let_def)
next
  case None
  define e where "e = (if IsZero (evObservedAt (Normalize event)) then (Normalize event)\<lparr>evObservedAt := UTC now\<rparr>
    else Normalize event)"
  have app: "apply_event ctx e (UTC now) gen s = (r, s')"
    using assms(2) None by (simp add: Service_RecordEvent_def Let_def e_def)
  have e: "sameEvent e event" "Fingerprint e = Fingerprint event" "normalized e"
    by (simp_all add: e_def normalized_observed)
  have i: "inv s'" using apply_inv [OF assms(1) app] .
  show ?thesis
    using apply_refines [OF assms(1) app]
  proof
    assume "(\<exists>err. r = Inl err) \<and> abs s' = abs s"
    then show ?thesis using failed i by blast
  next
    assume "(r, abs s') = apply_spec e (UTC now) gen (abs s)"
    then show ?thesis using stepped e None i by blast
  qed
qed

lemma record_inv: "inv s \<Longrightarrow> record_event now gen ctx event s = (r, s') \<Longrightarrow> inv s'"
  by (rule record_cases) auto

lemma record_failed:
  assumes "inv s" "record_event now gen ctx event s = (Inl err, s')"
  shows "abs s' = abs s"
  using assms
proof (cases rule: record_cases)
  case (stepped e)
  obtain cases opn where a: "abs s = (cases, opn)" by fastforce
  have "store_inv (cases, opn)" using inv_abs [OF assms(1)] a by simp
  moreover have "apply_spec e (UTC now) gen (cases, opn) = (Inl err, abs s')" using stepped(5) a by simp
  ultimately show ?thesis by (cases rule: apply_spec_cases) (use a in auto)
qed simp

lemma record_ok:
  assumes "inv s" "record_event now gen ctx event s = (Inr (c, created), s')"
  shows "get_case None (caseID c) s' = Inr c" "Incident_Open (caseIncident c)"
    "incFingerprint (caseIncident c) = Fingerprint event" "created \<longleftrightarrow> snd (abs s) (Fingerprint event) = None"
    "case_inv c" "\<exists>x \<in> set (incEvents (caseIncident c)). sameEvent x event"
proof -
  obtain e where stepped: "Validate event = None" "sameEvent e event" "Fingerprint e = Fingerprint event"
      "normalized e" "(Inr (c, created), abs s') = apply_spec e (UTC now) gen (abs s)" "inv s'"
    using assms by (rule record_cases) auto
  obtain cases opn cases' opn' where a: "abs s = (cases, opn)" "abs s' = (cases', opn')" by fastforce
  have i: "store_inv (cases, opn)" using inv_abs [OF assms(1)] a by simp
  have ap: "apply_spec e (UTC now) gen (cases, opn) = (Inr (c, created), cases', opn')" using stepped(5) a by simp
  note res = apply_spec_result [OF i ap]
  show "get_case None (caseID c) s' = Inr c" using get_law [OF stepped(6), of "caseID c"] res(1) a by simp
  show "Incident_Open (caseIncident c)" "incFingerprint (caseIncident c) = Fingerprint event"
    "created \<longleftrightarrow> snd (abs s) (Fingerprint event) = None" "case_inv c"
    using res stepped(3) a by simp_all
  show "\<exists>x \<in> set (incEvents (caseIncident c)). sameEvent x event"
    using res(6) stepped(2) sameEvent_trans by blast
qed

lemma record_grow:
  assumes "inv s" "record_event now gen ctx event s = (r, s')"
  shows "cases_grow (fst (abs s)) (fst (abs s'))"
  using assms
proof (cases rule: record_cases)
  case (stepped e)
  obtain cases opn cases' opn' where a: "abs s = (cases, opn)" "abs s' = (cases', opn')" by fastforce
  have "store_inv (cases, opn)" using inv_abs [OF assms(1)] a by simp
  moreover have "apply_spec e (UTC now) gen (cases, opn) = (r, cases', opn')" using stepped(5) a by simp
  ultimately show ?thesis using apply_spec_grow a by fastforce
qed simp

lemma record_other:
  assumes "inv s" "record_event now gen ctx event s = (Inr (c, created), s')" "cid \<noteq> caseID c"
  shows "fst (abs s') cid = fst (abs s) cid"
proof -
  obtain e where e: "(Inr (c, created), abs s') = apply_spec e (UTC now) gen (abs s)"
    using assms(1,2) by (rule record_cases) auto
  obtain cases opn where a: "abs s = (cases, opn)" by fastforce
  have i: "store_inv (cases, opn)" using inv_abs [OF assms(1)] a by simp
  have "apply_spec e (UTC now) gen (cases, opn) = (Inr (c, created), abs s')" using e a by simp
  with i show ?thesis
  proof (cases rule: apply_spec_cases)
    case (updated k d j)
    have "caseID d = k" using store_inv_case [OF i updated(2)] by simp
    then show ?thesis using updated assms(3) a by auto
  qed (use a assms(3) in auto)
qed

lemma record_replay:
  assumes "inv s" "fst (abs s) cid = Some c" "Incident_Open (caseIncident c)"
    and "x \<in> set (incEvents (caseIncident c))" "sameEvent x event"
    and "Validate event = None" "TrimSpace (evID event) \<noteq> []"
  shows "record_event now gen None event s = (Inr (c, False), s)"
proof -
  obtain cases opn where a: "abs s = (cases, opn)" by fastforce
  define e where "e = (if IsZero (evObservedAt (Normalize event)) then (Normalize event)\<lparr>evObservedAt := UTC now\<rparr>
    else Normalize event)"
  have "sameEvent e event" by (simp add: e_def)
  then have same: "sameEvent x e" using assms(5) sameEvent_sym sameEvent_trans by blast
  have e: "Validate e = None" "evID (Normalize e) \<noteq> []"
    using assms(6,7) by (auto simp: e_def)
  have "apply_spec e (UTC now) gen (cases, opn) = (Inr (c, False), cases, opn)"
    using apply_spec_replay [OF _ _ assms(3,4) same e] inv_abs [OF assms(1)] assms(2) a by simp
  then have "apply_event None e (UTC now) gen s = (Inr (c, False), s)"
    using apply_quiet [OF assms(1)] a by simp
  then show ?thesis
    using assms(6) by (simp add: Service_RecordEvent_def Let_def e_def)
qed

lemma record_twice:
  assumes "inv s" "record_event now gen ctx event s = (Inr (c, created), s')"
    and "sameEvent event event'" "TrimSpace (evID event) \<noteq> []"
  shows "record_event now' gen' None event' s' = (Inr (c, False), s')"
proof -
  note ok = record_ok [OF assms(1,2)]
  have i: "inv s'" using record_inv [OF assms(1,2)] .
  have c: "fst (abs s') (caseID c) = Some c"
    using ok(1) get_law [OF i, of "caseID c"] by (auto split: option.splits)
  obtain x where x: "x \<in> set (incEvents (caseIncident c))" "sameEvent x event" using ok(6) by blast
  have "sameEvent x event'" using x(2) assms(3) sameEvent_trans by blast
  moreover have "TrimSpace (evID event') \<noteq> []"
    using assms(3,4) by (simp add: sameEvent_def Let_def)
  moreover have "Validate event = None"
    using assms(1,2) by (rule record_cases) auto
  then have "Validate event' = None" by (rule sameEvent_Validate [OF assms(3)])
  ultimately show ?thesis using record_replay [OF i c ok(2) x(1)] by simp
qed

lemma one_open_case:
  assumes "inv s" "get_case None a s = Inr c" "get_case None b s = Inr d"
    and "Incident_Open (caseIncident c)" "Incident_Open (caseIncident d)"
    and "incFingerprint (caseIncident c) = incFingerprint (caseIncident d)"
  shows "a = b"
proof -
  obtain cases opn where a: "abs s = (cases, opn)" by fastforce
  have "cases a = Some c" "cases b = Some d"
    using assms(2,3) get_law [OF assms(1)] a by (auto split: option.splits)
  then show ?thesis
    using store_inv_unique_open [of cases opn a c b d] inv_abs [OF assms(1)] assms(4-6) a by simp
qed

lemma record_all_inv: "inv s \<Longrightarrow> inv (Service_RecordAll apply_event reqs s) \<and> cases_grow (fst (abs s)) (fst (abs (Service_RecordAll apply_event reqs s)))"
proof (induction reqs arbitrary: s)
  case Nil
  then show ?case by (simp add: Service_RecordAll_def)
next
  case (Cons q reqs)
  obtain now gen ctx event where q: "q = (now, gen, ctx, event)" by (cases q)
  obtain r s' where st: "record_event now gen ctx event s = (r, s')" by fastforce
  have "inv s'" "cases_grow (fst (abs s)) (fst (abs s'))"
    using record_inv [OF Cons.prems st] record_grow [OF Cons.prems st] by auto
  moreover have "Service_RecordAll apply_event (q # reqs) s = Service_RecordAll apply_event reqs s'"
    by (simp add: Service_RecordAll_def q st)
  ultimately show ?case using Cons.IH [of s'] cases_grow_trans by auto
qed

end

subsection \<open>MemoryStore implements the interface\<close>

definition mem_abs :: "MemoryStore \<Rightarrow> abs_store" where
  "mem_abs s = (map_get (byID s), map_get (openByPrint s))"

definition mem_inv :: "MemoryStore \<Rightarrow> bool" where
  "mem_inv s \<longleftrightarrow> store_inv (mem_abs s)"

lemma mem_create_refines:
  "mem_create event now gen s = (r, s') \<Longrightarrow> (r, mem_abs s') = create_spec event now gen (mem_abs s)"
  by (auto simp: mem_create_def create_spec_def mem_abs_def Let_def fun_eq_iff lookup_update
      split: sum.splits if_splits)

lemma mem_apply_refines:
  assumes "mem_inv s" "MemoryStore_ApplyEvent None event now gen s = (r, s')"
  shows "(r, mem_abs s') = apply_spec event now gen (mem_abs s)"
proof (cases "map_get (openByPrint s) (Fingerprint event)")
  case None
  then have "mem_create event now gen s = (r, s')"
    using assms(2) by (simp add: MemoryStore_ApplyEvent_def Let_def)
  from mem_create_refines [OF this] show ?thesis
    using None by (simp add: apply_spec_def mem_abs_def)
next
  case (Some cid)
  have "store_inv (map_get (byID s), map_get (openByPrint s))"
    using assms(1) by (simp add: mem_inv_def mem_abs_def)
  then obtain c where "map_get (byID s) cid = Some c" "Incident_Open (caseIncident c)"
    using Some by (rule store_inv_open)
  then show ?thesis
    using assms(2) Some
    by (auto simp: MemoryStore_ApplyEvent_def apply_spec_def mem_abs_def Let_def fun_eq_iff lookup_update
        split: sum.splits if_splits prod.splits)
qed

lemma bump_case_neq: "bump_case c i now \<noteq> c"
proof
  assume "bump_case c i now = c"
  then have "caseRevision c + 1 = caseRevision c" by (metis bump_case_fields(3))
  then show False by simp
qed

lemma apply_spec_quiet:
  assumes "store_inv (cases, opn)" "apply_spec event now gen (cases, opn) = (r, cases, opn)"
  shows "(\<exists>err. r = Inl err) \<or> (\<exists>cid c. opn (Fingerprint event) = Some cid \<and> cases cid = Some c \<and> r = Inr (c, False))"
  using assms
proof (cases rule: apply_spec_cases)
  case (updated cid c i)
  then have "cases cid = Some (bump_case c i now)" by (metis Pair_inject fun_upd_same)
  then show ?thesis using updated(2) bump_case_neq [of c i now] by simp
next
  case (created cid i)
  then have "cases cid = Some (new_case cid i now)" by (metis Pair_inject fun_upd_same)
  then show ?thesis using created(5) by simp
qed auto

lemma mem_quiet:
  assumes "mem_inv s" "apply_spec event now gen (mem_abs s) = (r, mem_abs s)"
  shows "MemoryStore_ApplyEvent None event now gen s = (r, s)"
proof -
  have inv: "store_inv (map_get (byID s), map_get (openByPrint s))"
    using assms(1) by (simp add: mem_inv_def mem_abs_def)
  have spec: "apply_spec event now gen (map_get (byID s), map_get (openByPrint s)) =
      (r, map_get (byID s), map_get (openByPrint s))"
    using assms(2) by (simp add: mem_abs_def)
  note quiet = apply_spec_quiet [OF inv spec]
  show ?thesis
  proof (cases "map_get (openByPrint s) (Fingerprint event)")
    case None
    then show ?thesis
      using quiet spec
      by (auto simp: MemoryStore_ApplyEvent_def mem_create_def apply_spec_def create_spec_def Let_def
          split: sum.splits if_splits)
  next
    case (Some cid)
    obtain c where "map_get (byID s) cid = Some c" "Incident_Open (caseIncident c)"
      using inv Some by (rule store_inv_open)
    then show ?thesis
      using quiet spec Some bump_case_neq [of c]
      by (auto simp: MemoryStore_ApplyEvent_def apply_spec_def Let_def split: sum.splits if_splits prod.splits)
  qed
qed

lemma listed_values:
  fixes f :: "'v \<Rightarrow> 'k::linorder"
  assumes "keyed_by f m"
  shows "sorted (map f (sort_key f (filter P (map_values m))))"
    "distinct (map f (sort_key f (filter P (map_values m))))"
    "v \<in> set (sort_key f (filter P (map_values m))) \<longleftrightarrow> map_get m (f v) = Some v \<and> P v"
proof -
  have d: "distinct (map f (filter P (map_values m)))"
    using keyed_by_distinct_keys [OF assms] by (rule distinct_map_filter)
  then show "distinct (map f (sort_key f (filter P (map_values m))))"
    by (simp add: distinct_map)
  show "v \<in> set (sort_key f (filter P (map_values m))) \<longleftrightarrow> map_get m (f v) = Some v \<and> P v"
    using assms by (auto simp: map_values_iff dest: keyed_by_get)
qed simp

lemma store_inv_keyed: "store_inv (map_get m, opn) \<Longrightarrow> keyed_by caseID m"
  by (rule keyed_byI) (simp add: store_inv_def)

interpretation mem: case_store MemoryStore_ApplyEvent MemoryStore_Get MemoryStore_ListPendingInvestigation
  mem_abs mem_inv
proof
  fix s :: MemoryStore and event now gen r s' and ctx :: ctx and cid err
  show "mem_inv s \<Longrightarrow> store_inv (mem_abs s)" by (simp add: mem_inv_def)
  show cancelled: "MemoryStore_ApplyEvent (Some err) event now gen s = (Inl err, s)" for err
    by (simp add: MemoryStore_ApplyEvent_def)
  show refines: "(\<exists>err. r = Inl err) \<and> mem_abs s' = mem_abs s \<or> (r, mem_abs s') = apply_spec event now gen (mem_abs s)"
    if "mem_inv s" "MemoryStore_ApplyEvent ctx event now gen s = (r, s')"
    using that mem_apply_refines cancelled by (cases ctx) auto
  show "mem_inv s'" if "mem_inv s" "MemoryStore_ApplyEvent ctx event now gen s = (r, s')"
    using refines [OF that] that(1) apply_spec_inv unfolding mem_inv_def by metis
  show "MemoryStore_ApplyEvent None event now gen s = (r, s)"
    if "mem_inv s" "apply_spec event now gen (mem_abs s) = (r, mem_abs s)"
    by (rule mem_quiet [OF that])
  show "MemoryStore_Get (Some err) cid s = Inl err" by (simp add: MemoryStore_Get_def)
  show "MemoryStore_ListPendingInvestigation (Some err) s = Inl err"
    by (simp add: MemoryStore_ListPendingInvestigation_def)
  show "MemoryStore_Get None cid s = (case fst (mem_abs s) cid of None \<Rightarrow> Inl ErrNotFound | Some c \<Rightarrow> Inr c)"
    by (simp add: MemoryStore_Get_def mem_abs_def split: option.splits)
  show "\<exists>cs. MemoryStore_ListPendingInvestigation None s = Inr cs \<and> sorted (map caseID cs) \<and> distinct (map caseID cs) \<and>
      (\<forall>c. c \<in> set cs \<longleftrightarrow> fst (mem_abs s) (caseID c) = Some c \<and> incStatus (caseIncident c) = StatusPendingInvestigation)"
    if "mem_inv s"
  proof -
    have "keyed_by caseID (byID s)"
      using that store_inv_keyed by (auto simp: mem_inv_def mem_abs_def)
    from listed_values [OF this] show ?thesis
      by (auto simp: MemoryStore_ListPendingInvestigation_def mem_abs_def)
  qed
qed

end
