(* ===== verification/Go_Json.thy ===== *)
theory Go_Json
  imports Go_Runtime
begin

text \<open>
  What the program uses of \<open>encoding/json\<close>: values as trees, struct decoding by field names with
  \<open>DisallowUnknownFields\<close>, and encoding.

  The tree keeps the text level out: \<open>JString\<close> holds the characters after unescaping, and a string
  literal in RFC 3339 form carries the time that it denotes next to its text (\<open>JTime\<close>). What the text
  level does to values is kept: a Go string is written with every invalid byte replaced by U+FFFD
  (\<open>coerce\<close>), a number outside the range of the target is refused, \<open>null\<close> leaves the target as it is,
  and a time whose year does not have four digits makes encoding fail (\<open>json_ok\<close>). When several
  fields of one document are wrong the model reports the first.

  A file or a request body is a sequence of values that a decoder reads one after the other, and may
  break off in bytes that are no JSON (\<open>Garbage\<close>).
\<close>

datatype json =
    JNull
  | JBool bool
  | JNumber int
  | JReal string
  | JString string
  | JTime string gotime
  | JArray "json list"
  | JObject "(string \<times> json) list"

subsection \<open>Encoding\<close>

text \<open>How \<open>encoding/json\<close> writes a Go string: invalid UTF-8 becomes U+FFFD.\<close>

definition coerce :: "string \<Rightarrow> string" where
  "coerce s = string_of (utf8_encode (runes (bytes_of s)))"

definition fraction :: "int \<Rightarrow> string" where
  "fraction ns = (if ns = 0 then []
     else CHR ''.'' # rev (dropWhile (\<lambda>c. c = CHR ''0'') (rev (pad_digits 9 ns))))"

text \<open>\<open>RFC3339Nano\<close>, for the years that \<open>MarshalJSON\<close> accepts.\<close>

definition rfc3339 :: "gotime \<Rightarrow> string" where
  "rfc3339 t =
     (let local = instant t + zone t * 1000000000;
          secs = local div 1000000000;
          (y, m, d) = civil_date (secs div 86400);
          s = secs mod 86400;
          off = zone t div 60
      in pad_digits 4 y @ ''-'' @ pad_digits 2 m @ ''-'' @ pad_digits 2 d @ ''T'' @
         pad_digits 2 (s div 3600) @ '':'' @ pad_digits 2 (s div 60 mod 60) @ '':'' @ pad_digits 2 (s mod 60) @
         fraction (local mod 1000000000) @
         (if off = 0 then ''Z''
          else (if off < 0 then ''-'' else ''+'') @ pad_digits 2 (\<bar>off\<bar> div 60) @ '':'' @ pad_digits 2 (\<bar>off\<bar> mod 60)))"

definition enc_string :: "string \<Rightarrow> json" where
  "enc_string s = JString (coerce s)"

definition enc_time :: "gotime \<Rightarrow> json" where
  "enc_time t = JTime (rfc3339 t) t"

text \<open>A struct field, and a struct field tagged \<open>omitempty\<close>.\<close>

definition member :: "string \<Rightarrow> json \<Rightarrow> (string \<times> json) list" where
  "member name v = [(name, v)]"

definition omitempty :: "string \<Rightarrow> bool \<Rightarrow> json \<Rightarrow> (string \<times> json) list" where
  "omitempty name present v = (if present then [(name, v)] else [])"

text \<open>A \<open>map[string]string\<close> is written in the order of its keys.\<close>

definition enc_strmap :: "(string, string) gomap \<Rightarrow> json" where
  "enc_strmap m = JObject (map (\<lambda>(k, v). (coerce k, enc_string v)) (sort_key fst (map_entries m)))"

fun json_ok :: "json \<Rightarrow> bool" where
  "json_ok (JTime s t) = json_time_ok t"
| "json_ok (JArray vs) = list_all json_ok vs"
| "json_ok (JObject ms) = list_all (\<lambda>(k, v). json_ok v) ms"
| "json_ok _ = True"

definition Marshal :: "json \<Rightarrow> error + json" where
  "Marshal v = (if json_ok v then Inr v else Inl (ErrLib ''json: error calling MarshalJSON for type time.Time''))"

subsection \<open>Decoding\<close>

type_synonym 'r setter = "json \<Rightarrow> 'r \<Rightarrow> error + 'r"
type_synonym 'r fields = "(string \<times> 'r setter) list"

definition type_error :: error where
  "type_error = ErrLib ''json: cannot unmarshal into Go struct field''"

definition set_string :: "(string \<Rightarrow> 'r \<Rightarrow> 'r) \<Rightarrow> 'r setter" where
  "set_string upd v r =
     (case v of JString s \<Rightarrow> Inr (upd s r) | JTime s t \<Rightarrow> Inr (upd s r) | JNull \<Rightarrow> Inr r | _ \<Rightarrow> Inl type_error)"

definition set_time :: "(gotime \<Rightarrow> 'r \<Rightarrow> 'r) \<Rightarrow> 'r setter" where
  "set_time upd v r = (case v of JTime s t \<Rightarrow> Inr (upd t r) | JNull \<Rightarrow> Inr r | _ \<Rightarrow> Inl type_error)"

definition set_int :: "int \<Rightarrow> int \<Rightarrow> (int \<Rightarrow> 'r \<Rightarrow> 'r) \<Rightarrow> 'r setter" where
  "set_int lo hi upd v r =
     (case v of JNumber n \<Rightarrow> (if lo \<le> n \<and> n < hi then Inr (upd n r) else Inl type_error)
      | JNull \<Rightarrow> Inr r | _ \<Rightarrow> Inl type_error)"

definition dec_string :: "json \<Rightarrow> error + string" where
  "dec_string v = set_string (\<lambda>s r. s) v []"

fun dec_strmap :: "(string \<times> json) list \<Rightarrow> (string, string) gomap \<Rightarrow> error + (string, string) gomap" where
  "dec_strmap [] m = Inr m"
| "dec_strmap ((k, v) # ms) m =
     (case dec_string v of Inl e \<Rightarrow> Inl e | Inr s \<Rightarrow> dec_strmap ms (map_set k s m))"

definition set_strmap :: "('r \<Rightarrow> (string, string) gomap option) \<Rightarrow>
    ((string, string) gomap option \<Rightarrow> 'r \<Rightarrow> 'r) \<Rightarrow> 'r setter" where
  "set_strmap sel upd v r =
     (case v of
        JObject ms \<Rightarrow>
          (case dec_strmap ms (case sel r of None \<Rightarrow> map_new | Some m \<Rightarrow> m) of
             Inl e \<Rightarrow> Inl e | Inr m \<Rightarrow> Inr (upd (Some m) r))
      | JNull \<Rightarrow> Inr (upd None r)
      | _ \<Rightarrow> Inl type_error)"

fun dec_list :: "(json \<Rightarrow> error + 'a) \<Rightarrow> json list \<Rightarrow> error + 'a list" where
  "dec_list dec [] = Inr []"
| "dec_list dec (v # vs) =
     (case dec v of Inl e \<Rightarrow> Inl e
      | Inr x \<Rightarrow> (case dec_list dec vs of Inl e \<Rightarrow> Inl e | Inr xs \<Rightarrow> Inr (x # xs)))"

definition set_list :: "(json \<Rightarrow> error + 'a) \<Rightarrow> ('a list \<Rightarrow> 'r \<Rightarrow> 'r) \<Rightarrow> 'r setter" where
  "set_list dec upd v r =
     (case v of
        JArray vs \<Rightarrow> (case dec_list dec vs of Inl e \<Rightarrow> Inl e | Inr xs \<Rightarrow> Inr (upd xs r))
      | JNull \<Rightarrow> Inr (upd [] r)
      | _ \<Rightarrow> Inl type_error)"

text \<open>
  Keys match a field name exactly, or failing that under case folding; the long s and the Kelvin sign
  are the only other characters that fold to a letter of an ASCII name.
\<close>

definition fold_rune :: "nat \<Rightarrow> nat" where
  "fold_rune r = (if 97 \<le> r \<and> r \<le> 122 then r - 32 else if r = 0x17F then 83 else if r = 0x212A then 75 else r)"

definition foldName :: "string \<Rightarrow> nat list" where
  "foldName s = map fold_rune (runes (bytes_of s))"

definition find_field :: "'r fields \<Rightarrow> string \<Rightarrow> 'r setter option" where
  "find_field fs key =
     (case map_of fs key of
        Some f \<Rightarrow> Some f
      | None \<Rightarrow> map_option snd (find (\<lambda>(name, f). foldName name = foldName key) fs))"

fun dec_members :: "'r fields \<Rightarrow> (string \<times> json) list \<Rightarrow> 'r \<Rightarrow> error + 'r" where
  "dec_members fs [] r = Inr r"
| "dec_members fs ((key, v) # ms) r =
     (case find_field fs key of
        None \<Rightarrow> Inl (ErrLib (''json: unknown field '' @ key))
      | Some setter \<Rightarrow> (case setter v r of Inl e \<Rightarrow> Inl e | Inr r' \<Rightarrow> dec_members fs ms r'))"

definition dec_struct :: "'r fields \<Rightarrow> json \<Rightarrow> 'r \<Rightarrow> error + 'r" where
  "dec_struct fs v r =
     (case v of JObject ms \<Rightarrow> dec_members fs ms r | JNull \<Rightarrow> Inr r | _ \<Rightarrow> Inl type_error)"

definition set_struct :: "'a fields \<Rightarrow> ('r \<Rightarrow> 'a) \<Rightarrow> ('a \<Rightarrow> 'r \<Rightarrow> 'r) \<Rightarrow> 'r setter" where
  "set_struct fs sel upd v r = (case dec_struct fs v (sel r) of Inl e \<Rightarrow> Inl e | Inr x \<Rightarrow> Inr (upd x r))"

subsection \<open>Decoders on a stream\<close>

datatype item = Doc json | Garbage error

type_synonym stream = "item list"

text \<open>\<open>Decode\<close> into a struct: the value and the rest of the stream; \<open>io.EOF\<close> at the end.\<close>

definition EOF :: error where
  "EOF = ErrLib ''EOF''"

definition Decode :: "'r fields \<Rightarrow> 'r \<Rightarrow> stream \<Rightarrow> error + ('r \<times> stream)" where
  "Decode fs zero is =
     (case is of
        [] \<Rightarrow> Inl EOF
      | Garbage e # rest \<Rightarrow> Inl e
      | Doc v # rest \<Rightarrow> (case dec_struct fs v zero of Inl e \<Rightarrow> Inl e | Inr r \<Rightarrow> Inr (r, rest)))"

text \<open>\<open>Decode\<close> into a \<open>json.RawMessage\<close>, which takes any value.\<close>

definition DecodeRaw :: "stream \<Rightarrow> error + (json \<times> stream)" where
  "DecodeRaw is = (case is of [] \<Rightarrow> Inl EOF | Garbage e # rest \<Rightarrow> Inl e | Doc v # rest \<Rightarrow> Inr (v, rest))"

subsection \<open>Facts\<close>

lemma coerce_valid [simp]: "valid_string s \<Longrightarrow> coerce s = s"
  by (simp add: coerce_def valid_string_def utf8_encode_runes)

lemma valid_coerce [simp]: "valid_string (coerce s)"
  by (simp add: coerce_def valid_string_def bytes_of_string_of byte_list_utf8_encode utf8_valid_encode runes_scalar)

lemma coerce_idem [simp]: "coerce (coerce s) = coerce s"
  by simp

lemma coerce_Nil [simp]: "coerce [] = []"
  by simp

lemma coerce_eq_Nil [simp]: "coerce s = [] \<longleftrightarrow> s = []"
  by (auto simp: coerce_def string_of_def bytes_of_def)

lemma set_enc_string [simp]: "set_string upd (enc_string s) r = Inr (upd (coerce s) r)"
  by (simp add: set_string_def enc_string_def)

lemma set_enc_time [simp]: "set_time upd (enc_time t) r = Inr (upd t r)"
  by (simp add: set_time_def enc_time_def)

lemma set_enc_int [simp]: "lo \<le> n \<Longrightarrow> n < hi \<Longrightarrow> set_int lo hi upd (JNumber n) r = Inr (upd n r)"
  by (simp add: set_int_def)

lemma dec_members_member:
  "find_field fs name = Some f \<Longrightarrow>
   dec_members fs (member name v @ ms) r = (case f v r of Inl e \<Rightarrow> Inl e | Inr r' \<Rightarrow> dec_members fs ms r')"
  by (simp add: member_def)

text \<open>An omitted string field comes back as the empty string that the zero value holds.\<close>

lemma dec_members_omit_string:
  "find_field fs name = Some (set_string upd) \<Longrightarrow> upd [] r = r \<Longrightarrow>
   dec_members fs (omitempty name (s \<noteq> []) (enc_string s) @ ms) r = dec_members fs ms (upd (coerce s) r)"
  by (cases "s = []") (simp_all add: omitempty_def)

lemma dec_list_map: "(\<And>x. x \<in> set xs \<Longrightarrow> dec (enc x) = Inr (f x)) \<Longrightarrow> dec_list dec (map enc xs) = Inr (map f xs)"
  by (induction xs) auto

text \<open>What a map looks like after it has been written and read back.\<close>

definition coerce_strmap :: "(string, string) gomap \<Rightarrow> (string, string) gomap" where
  "coerce_strmap m = fold (\<lambda>(k, v). map_set (coerce k) (coerce v)) (sort_key fst (map_entries m)) map_new"

lemma dec_strmap_fold:
  "dec_strmap (map (\<lambda>(k, v). (coerce k, enc_string v)) kvs) m =
     Inr (fold (\<lambda>(k, v). map_set (coerce k) (coerce v)) kvs m)"
  by (induction kvs arbitrary: m) (auto simp: dec_string_def)

lemma set_enc_strmap:
  "sel r = None \<Longrightarrow> set_strmap sel upd (enc_strmap m) r = Inr (upd (Some (coerce_strmap m)) r)"
  by (simp add: set_strmap_def enc_strmap_def dec_strmap_fold coerce_strmap_def)

lemma fold_map_set_get:
  "distinct (map fst kvs) \<Longrightarrow>
   map_get (fold (\<lambda>(k, v). map_set k v) kvs m) k = (case map_of kvs k of Some v \<Rightarrow> Some v | None \<Rightarrow> map_get m k)"
proof (induction kvs arbitrary: m)
  case (Cons kv kvs)
  obtain a b where kv: "kv = (a, b)" by fastforce
  have "map_of kvs a = None" using Cons.prems kv by (simp add: map_of_eq_None_iff)
  then show ?case using Cons kv by (auto simp: lookup_update split: option.splits)
qed simp

lemma map_of_sort_key:
  assumes "distinct (map fst kvs)"
  shows "map_of (sort_key fst kvs) = map_of (kvs :: (string \<times> 'v) list)"
  using assms by (intro map_of_eqI) (auto simp: distinct_map image_set [symmetric] simp del: image_set)

text \<open>A map of valid strings survives the round trip.\<close>

lemma coerce_strmap_get:
  assumes "list_all (\<lambda>(k, v). valid_string k \<and> valid_string v) (map_entries m)"
  shows "map_get (coerce_strmap m) = map_get m"
proof
  fix k
  have "fold (\<lambda>(k, v). map_set (coerce k) (coerce v)) (sort_key fst (map_entries m)) map_new =
      fold (\<lambda>(k, v). map_set k v) (sort_key fst (map_entries m)) map_new"
    using assms by (intro fold_cong) (auto simp: list_all_iff)
  moreover have "distinct (map fst (sort_key fst (map_entries m)))"
    using impl_of_distinct [of m] by (simp add: distinct_map)
  ultimately show "map_get (coerce_strmap m) k = map_get m k"
    using fold_map_set_get [of "sort_key fst (map_entries m)" map_new k] map_of_sort_key [OF impl_of_distinct [of m]]
    by (simp add: coerce_strmap_def map_get_conv split: option.splits)
qed

end
