(* ===== verification/Wire.thy ===== *)
theory Wire
  imports Casefile Go_Json
begin

text \<open>
  The JSON form of events, incidents and cases: the struct tags of \<open>trigger.Event\<close>,
  \<open>incident.Incident\<close> and \<open>casefile.Case\<close>, as an encoder and a field table each.

  Reading back what was written gives \<open>coerce_case\<close> of the case: strings with invalid bytes
  replaced, an empty attribute map turned into nil, everything else unchanged.
\<close>

subsection \<open>Event\<close>

definition zero_event :: Event where
  "zero_event = \<lparr>evID = [], evType = [], evSource = [], evOccurredAt = time_zero, evObservedAt = time_zero,
     evEnvironment = [], evService = [], evNode = [], evWorkload = [], evContainer = [], evSeverity = [],
     evDedupeKey = [], evAttributes = None\<rparr>"

definition attributes_present :: "attributes \<Rightarrow> bool" where
  "attributes_present a = (case a of None \<Rightarrow> False | Some m \<Rightarrow> map_entries m \<noteq> [])"

definition event_json :: "Event \<Rightarrow> json" where
  "event_json e = JObject (
     omitempty ''id'' (evID e \<noteq> []) (enc_string (evID e)) @
     member ''type'' (enc_string (evType e)) @
     member ''source'' (enc_string (evSource e)) @
     member ''occurred_at'' (enc_time (evOccurredAt e)) @
     member ''observed_at'' (enc_time (evObservedAt e)) @
     member ''environment'' (enc_string (evEnvironment e)) @
     omitempty ''service'' (evService e \<noteq> []) (enc_string (evService e)) @
     omitempty ''node'' (evNode e \<noteq> []) (enc_string (evNode e)) @
     omitempty ''workload'' (evWorkload e \<noteq> []) (enc_string (evWorkload e)) @
     omitempty ''container'' (evContainer e \<noteq> []) (enc_string (evContainer e)) @
     omitempty ''severity'' (evSeverity e \<noteq> []) (enc_string (evSeverity e)) @
     omitempty ''dedupe_key'' (evDedupeKey e \<noteq> []) (enc_string (evDedupeKey e)) @
     omitempty ''attributes'' (attributes_present (evAttributes e))
       (case evAttributes e of None \<Rightarrow> JNull | Some m \<Rightarrow> enc_strmap m))"

definition event_fields :: "Event fields" where
  "event_fields =
     [(''id'', set_string (\<lambda>s e. e\<lparr>evID := s\<rparr>)),
      (''type'', set_string (\<lambda>s e. e\<lparr>evType := s\<rparr>)),
      (''source'', set_string (\<lambda>s e. e\<lparr>evSource := s\<rparr>)),
      (''occurred_at'', set_time (\<lambda>t e. e\<lparr>evOccurredAt := t\<rparr>)),
      (''observed_at'', set_time (\<lambda>t e. e\<lparr>evObservedAt := t\<rparr>)),
      (''environment'', set_string (\<lambda>s e. e\<lparr>evEnvironment := s\<rparr>)),
      (''service'', set_string (\<lambda>s e. e\<lparr>evService := s\<rparr>)),
      (''node'', set_string (\<lambda>s e. e\<lparr>evNode := s\<rparr>)),
      (''workload'', set_string (\<lambda>s e. e\<lparr>evWorkload := s\<rparr>)),
      (''container'', set_string (\<lambda>s e. e\<lparr>evContainer := s\<rparr>)),
      (''severity'', set_string (\<lambda>s e. e\<lparr>evSeverity := s\<rparr>)),
      (''dedupe_key'', set_string (\<lambda>s e. e\<lparr>evDedupeKey := s\<rparr>)),
      (''attributes'', set_strmap evAttributes (\<lambda>m e. e\<lparr>evAttributes := m\<rparr>))]"

definition dec_event :: "json \<Rightarrow> error + Event" where
  "dec_event v = dec_struct event_fields v zero_event"

definition coerce_attributes :: "attributes \<Rightarrow> attributes" where
  "coerce_attributes a = (case a of None \<Rightarrow> None
     | Some m \<Rightarrow> if map_entries m = [] then None else Some (coerce_strmap m))"

definition coerce_event :: "Event \<Rightarrow> Event" where
  "coerce_event e = \<lparr>evID = coerce (evID e), evType = coerce (evType e), evSource = coerce (evSource e),
     evOccurredAt = evOccurredAt e, evObservedAt = evObservedAt e, evEnvironment = coerce (evEnvironment e),
     evService = coerce (evService e), evNode = coerce (evNode e), evWorkload = coerce (evWorkload e),
     evContainer = coerce (evContainer e), evSeverity = coerce (evSeverity e),
     evDedupeKey = coerce (evDedupeKey e), evAttributes = coerce_attributes (evAttributes e)\<rparr>"

lemma find_field_exact: "map_of fs name = Some f \<Longrightarrow> find_field fs name = Some f"
  by (simp add: find_field_def)

lemma dec_members_last:
  "find_field fs name = Some f \<Longrightarrow>
   dec_members fs (member name v) r = f v r"
  by (simp add: member_def split: sum.splits)

lemma dec_members_omit_attributes:
  "find_field fs name = Some (set_strmap sel upd) \<Longrightarrow> sel r = None \<Longrightarrow> upd None r = r \<Longrightarrow>
   dec_members fs (omitempty name (attributes_present a) (case a of None \<Rightarrow> JNull | Some m \<Rightarrow> enc_strmap m)) r =
     Inr (upd (coerce_attributes a) r)"
  by (auto simp: omitempty_def attributes_present_def coerce_attributes_def set_enc_strmap split: option.splits)

lemmas dec_rules = dec_members_member dec_members_omit_string dec_members_omit_attributes dec_members_last
  find_field_exact

lemma dec_event_json: "dec_event (event_json e) = Inr (coerce_event e)"
  by (simp add: dec_event_def event_json_def dec_struct_def zero_event_def event_fields_def dec_rules
      coerce_event_def)

subsection \<open>Incident\<close>

definition incident_json :: "Incident \<Rightarrow> json" where
  "incident_json i = JObject (
     member ''fingerprint'' (enc_string (incFingerprint i)) @
     member ''type'' (enc_string (incType i)) @
     member ''status'' (enc_string (incStatus i)) @
     member ''environment'' (enc_string (incEnvironment i)) @
     omitempty ''service'' (incService i \<noteq> []) (enc_string (incService i)) @
     omitempty ''node'' (incNode i \<noteq> []) (enc_string (incNode i)) @
     omitempty ''workload'' (incWorkload i \<noteq> []) (enc_string (incWorkload i)) @
     omitempty ''container'' (incContainer i \<noteq> []) (enc_string (incContainer i)) @
     omitempty ''severity'' (incSeverity i \<noteq> []) (enc_string (incSeverity i)) @
     member ''first_occurred_at'' (enc_time (incFirstOccurredAt i)) @
     member ''last_occurred_at'' (enc_time (incLastOccurredAt i)) @
     member ''events'' (JArray (map event_json (incEvents i))))"

definition incident_fields :: "Incident fields" where
  "incident_fields =
     [(''fingerprint'', set_string (\<lambda>s i. i\<lparr>incFingerprint := s\<rparr>)),
      (''type'', set_string (\<lambda>s i. i\<lparr>incType := s\<rparr>)),
      (''status'', set_string (\<lambda>s i. i\<lparr>incStatus := s\<rparr>)),
      (''environment'', set_string (\<lambda>s i. i\<lparr>incEnvironment := s\<rparr>)),
      (''service'', set_string (\<lambda>s i. i\<lparr>incService := s\<rparr>)),
      (''node'', set_string (\<lambda>s i. i\<lparr>incNode := s\<rparr>)),
      (''workload'', set_string (\<lambda>s i. i\<lparr>incWorkload := s\<rparr>)),
      (''container'', set_string (\<lambda>s i. i\<lparr>incContainer := s\<rparr>)),
      (''severity'', set_string (\<lambda>s i. i\<lparr>incSeverity := s\<rparr>)),
      (''first_occurred_at'', set_time (\<lambda>t i. i\<lparr>incFirstOccurredAt := t\<rparr>)),
      (''last_occurred_at'', set_time (\<lambda>t i. i\<lparr>incLastOccurredAt := t\<rparr>)),
      (''events'', set_list dec_event (\<lambda>es i. i\<lparr>incEvents := es\<rparr>))]"

definition coerce_incident :: "Incident \<Rightarrow> Incident" where
  "coerce_incident i = \<lparr>incFingerprint = coerce (incFingerprint i), incType = coerce (incType i),
     incStatus = coerce (incStatus i), incEnvironment = coerce (incEnvironment i),
     incService = coerce (incService i), incNode = coerce (incNode i), incWorkload = coerce (incWorkload i),
     incContainer = coerce (incContainer i), incSeverity = coerce (incSeverity i),
     incFirstOccurredAt = incFirstOccurredAt i, incLastOccurredAt = incLastOccurredAt i,
     incEvents = map coerce_event (incEvents i)\<rparr>"

lemma dec_events: "dec_list dec_event (map event_json es) = Inr (map coerce_event es)"
  by (rule dec_list_map) (rule dec_event_json)

lemma dec_incident_json: "dec_struct incident_fields (incident_json i) zero_incident = Inr (coerce_incident i)"
  by (simp add: incident_json_def dec_struct_def zero_incident_def incident_fields_def dec_rules
      set_list_def dec_events coerce_incident_def)

subsection \<open>Case\<close>

definition case_json :: "Case \<Rightarrow> json" where
  "case_json c = JObject (
     member ''id'' (enc_string (caseID c)) @
     member ''revision'' (JNumber (uint (caseRevision c))) @
     member ''created_at'' (enc_time (caseCreatedAt c)) @
     member ''updated_at'' (enc_time (caseUpdatedAt c)) @
     member ''incident'' (incident_json (caseIncident c)))"

definition case_fields :: "Case fields" where
  "case_fields =
     [(''id'', set_string (\<lambda>s c. c\<lparr>caseID := s\<rparr>)),
      (''revision'', set_int 0 18446744073709551616 (\<lambda>n c. c\<lparr>caseRevision := of_int n\<rparr>)),
      (''created_at'', set_time (\<lambda>t c. c\<lparr>caseCreatedAt := t\<rparr>)),
      (''updated_at'', set_time (\<lambda>t c. c\<lparr>caseUpdatedAt := t\<rparr>)),
      (''incident'', set_struct incident_fields caseIncident (\<lambda>i c. c\<lparr>caseIncident := i\<rparr>))]"

definition dec_case :: "json \<Rightarrow> error + Case" where
  "dec_case v = dec_struct case_fields v zero_case"

definition coerce_case :: "Case \<Rightarrow> Case" where
  "coerce_case c = c\<lparr>caseID := coerce (caseID c), caseIncident := coerce_incident (caseIncident c)\<rparr>"

lemma uint_u64 [simp]: "uint (n :: u64) < 18446744073709551616"
  using uint_lt2p [of n] by simp

lemma uint_u32 [simp]: "uint (n :: u32) < 4294967296"
  using uint_lt2p [of n] by simp

lemma dec_case_json: "dec_case (case_json c) = Inr (coerce_case c)"
proof -
  have nested: "set_struct incident_fields caseIncident upd (incident_json i) r = Inr (upd (coerce_incident i) r)"
    if "caseIncident r = zero_incident" for upd i and r :: Case
    using that by (simp add: set_struct_def dec_incident_json)
  show ?thesis
    by (simp add: dec_case_def case_json_def dec_struct_def zero_case_def case_fields_def dec_rules nested
        coerce_case_def)
qed

subsection \<open>Values that survive\<close>

definition valid_attributes :: "attributes \<Rightarrow> bool" where
  "valid_attributes a = (case a of None \<Rightarrow> True
     | Some m \<Rightarrow> list_all (\<lambda>(k, v). valid_string k \<and> valid_string v) (map_entries m))"

definition valid_event :: "Event \<Rightarrow> bool" where
  "valid_event e \<longleftrightarrow> list_all valid_string [evID e, evType e, evSource e, evEnvironment e, evService e, evNode e,
     evWorkload e, evContainer e, evSeverity e, evDedupeKey e] \<and> valid_attributes (evAttributes e)"

definition valid_incident :: "Incident \<Rightarrow> bool" where
  "valid_incident i \<longleftrightarrow> list_all valid_string [incFingerprint i, incType i, incStatus i, incEnvironment i,
     incService i, incNode i, incWorkload i, incContainer i, incSeverity i] \<and> list_all valid_event (incEvents i)"

definition valid_case :: "Case \<Rightarrow> bool" where
  "valid_case c \<longleftrightarrow> valid_string (caseID c) \<and> valid_incident (caseIncident c)"

definition attr_map :: "attributes \<Rightarrow> (string \<rightharpoonup> string)" where
  "attr_map a = (case a of None \<Rightarrow> Map.empty | Some m \<Rightarrow> map_get m)"

lemma attr_map_coerce: "valid_attributes a \<Longrightarrow> attr_map (coerce_attributes a) = attr_map a"
proof (cases a)
  case (Some m)
  assume "valid_attributes a"
  with Some coerce_strmap_get [of m] show ?thesis
    by (auto simp: attr_map_def coerce_attributes_def valid_attributes_def map_get_conv)
qed (simp add: coerce_attributes_def)

text \<open>Two values that differ at most in the representation of attribute maps.\<close>

definition event_eq :: "Event \<Rightarrow> Event \<Rightarrow> bool" where
  "event_eq a b \<longleftrightarrow> a\<lparr>evAttributes := None\<rparr> = b\<lparr>evAttributes := None\<rparr> \<and>
     attr_map (evAttributes a) = attr_map (evAttributes b)"

definition case_eq :: "Case \<Rightarrow> Case \<Rightarrow> bool" where
  "case_eq c d \<longleftrightarrow> c\<lparr>caseIncident := (caseIncident c)\<lparr>incEvents := []\<rparr>\<rparr> =
       d\<lparr>caseIncident := (caseIncident d)\<lparr>incEvents := []\<rparr>\<rparr> \<and>
     list_all2 event_eq (incEvents (caseIncident c)) (incEvents (caseIncident d))"

lemma coerce_event_eq: "valid_event e \<Longrightarrow> event_eq (coerce_event e) e"
  by (simp add: event_eq_def coerce_event_def valid_event_def attr_map_coerce)

lemma coerce_case_eq: "valid_case c \<Longrightarrow> case_eq (coerce_case c) c"
proof -
  assume c: "valid_case c"
  then have "list_all2 event_eq (map coerce_event (incEvents (caseIncident c))) (incEvents (caseIncident c))"
    by (auto simp: valid_case_def valid_incident_def list_all2_map1 list_all_iff coerce_event_eq
        intro: list.rel_refl_strong)
  moreover have "coerce_incident (caseIncident c) = (caseIncident c)\<lparr>incEvents := map coerce_event (incEvents (caseIncident c))\<rparr>"
    using c by (simp add: coerce_incident_def valid_case_def valid_incident_def)
  ultimately show ?thesis
    using c by (simp add: case_eq_def coerce_case_def valid_case_def)
qed

lemma event_eq_facts:
  assumes "event_eq a b"
  shows "Validate a = Validate b" "Fingerprint a = Fingerprint b" "scope_matches i a = scope_matches i b"
    "evOccurredAt a = evOccurredAt b" "sameEvent a b"
proof -
  have f: "evID a = evID b" "evType a = evType b" "evSource a = evSource b" "evOccurredAt a = evOccurredAt b"
    "evEnvironment a = evEnvironment b" "evService a = evService b" "evNode a = evNode b"
    "evWorkload a = evWorkload b" "evContainer a = evContainer b" "evSeverity a = evSeverity b"
    "evDedupeKey a = evDedupeKey b"
    using assms unfolding event_eq_def by (cases a; cases b; simp)+
  show "evOccurredAt a = evOccurredAt b" by (rule f)
  show "Validate a = Validate b" using f by (simp add: Validate_def event_problems_def)
  show "Fingerprint a = Fingerprint b" using f by (simp add: Fingerprint_def fingerprint_parts_def Let_def)
  show "scope_matches i a = scope_matches i b" using f by (simp add: scope_matches_def)
  have "map_get (case evAttributes a of None \<Rightarrow> map_new | Some m \<Rightarrow> m) =
      map_get (case evAttributes b of None \<Rightarrow> map_new | Some m \<Rightarrow> m)"
    using assms by (auto simp: event_eq_def attr_map_def fun_eq_iff split: option.splits)
  then show "sameEvent a b" using f by (simp add: sameEvent_def Let_def maps_Equal_iff Equal_def)
qed

end
