(* ===== verification/Local_Json.thy ===== *)
theory Local_Json
  imports Go_Json
begin

text \<open>
  \<open>internal/storage/local/jsonfile.go\<close>: the data directory, reading a state file and replacing it
  atomically.

  A disk maps a path (directory and base name) to the contents of the file. Every system call of
  \<open>writeJSONAtomic\<close> can fail; how it goes is the \<open>write_env\<close> of the call, and the model returns, with
  the error, the disk after each system call that changes it. The last of them is the disk at the
  return; the others are what a process that dies in between leaves behind.

  Permissions are not modelled, nor is the cache between the file system and the platter: the disk is
  what a later process sees.
\<close>

type_synonym path = "string \<times> string"
type_synonym disk = "path \<rightharpoonup> stream"

subsection \<open>The data directory\<close>

text \<open>\<open>filepath.Clean\<close> on a slash-separated path, on the stack of the elements kept so far.\<close>

fun split_on :: "char \<Rightarrow> string \<Rightarrow> string list" where
  "split_on c [] = [[]]"
| "split_on c (x # xs) = (if x = c then [] # split_on c xs
     else (case split_on c xs of [] \<Rightarrow> [[x]] | y # ys \<Rightarrow> (x # y) # ys))"

fun clean_elements :: "bool \<Rightarrow> string list \<Rightarrow> string list \<Rightarrow> string list" where
  "clean_elements rooted kept [] = rev kept"
| "clean_elements rooted kept (x # xs) =
     (if x = [] \<or> x = ''.'' then clean_elements rooted kept xs
      else if x = ''..'' then
        (case kept of
           [] \<Rightarrow> clean_elements rooted (if rooted then [] else [''..'']) xs
         | k # ks \<Rightarrow> if k = ''..'' then clean_elements rooted (''..'' # kept) xs else clean_elements rooted ks xs)
      else clean_elements rooted (x # kept) xs)"

definition filepath_Clean :: "string \<Rightarrow> string" where
  "filepath_Clean p =
     (let rooted = (case p of CHR ''/'' # _ \<Rightarrow> True | _ \<Rightarrow> False);
          body = Join (clean_elements rooted [] (split_on (CHR ''/'') p)) ''/''
      in if rooted then CHR ''/'' # body else if body = [] then ''.'' else body)"

definition ensureDataDirectory :: "error option \<Rightarrow> string \<Rightarrow> error + string" where
  "ensureDataDirectory mkdirAll directory =
     (if directory = [] then Inl (ErrNew ''local storage directory is required'')
      else (let cleaned = filepath_Clean directory
            in case mkdirAll of
                 Some err \<Rightarrow> Inl (ErrWrap ''create local storage directory: '' err)
               | None \<Rightarrow> Inr cleaned))"

subsection \<open>Reading\<close>

text \<open>\<open>None\<close> is the result \<open>(false, nil)\<close> of a missing file; \<open>openErr\<close> is an error of \<open>os.Open\<close> other than that.\<close>

definition readJSONFile :: "error option \<Rightarrow> path \<Rightarrow> 'r fields \<Rightarrow> 'r \<Rightarrow> disk \<Rightarrow> error + 'r option" where
  "readJSONFile openErr path fs zero d =
     (case d path of
        None \<Rightarrow> Inr None
      | Some content \<Rightarrow>
          (case openErr of
             Some err \<Rightarrow> Inl (ErrWrap (''open '' @ snd path @ '': '') err)
           | None \<Rightarrow>
               (case Decode fs zero content of
                  Inl err \<Rightarrow> Inl (ErrWrap (''decode '' @ snd path @ '': '') err)
                | Inr (target, rest) \<Rightarrow>
                    (case DecodeRaw rest of
                       Inl err \<Rightarrow> if errors_Is err EOF then Inr (Some target)
                                  else Inl (ErrWrap (''decode '' @ snd path @ '': trailing data: '') err)
                     | Inr _ \<Rightarrow> Inl (ErrWrap (''decode '' @ snd path @ '': trailing data: '')
                                       (ErrNew ''multiple JSON values''))))))"

subsection \<open>Writing\<close>

record write_env =
  weTemp :: "error + string"        \<comment> \<open>the random part of the temporary name\<close>
  weChmod :: "error option"
  weWrite :: "error option"
  weSync :: "error option"
  weClose :: "error option"
  weRename :: "error option"
  weRemove :: "error option"

definition all_ok :: "string \<Rightarrow> write_env" where
  "all_ok sfx = \<lparr>weTemp = Inr sfx, weChmod = None, weWrite = None, weSync = None, weClose = None,
     weRename = None, weRemove = None\<rparr>"

definition temp_path :: "string \<Rightarrow> string \<Rightarrow> path" where
  "temp_path directory sfx = (directory, ''.rootforge-state-'' @ sfx)"

text \<open>\<open>os.CreateTemp\<close> opens the file exclusively, so it never takes over an existing one.\<close>

definition CreateTemp :: "write_env \<Rightarrow> string \<Rightarrow> disk \<Rightarrow> error + path" where
  "CreateTemp env directory d =
     (case weTemp env of
        Inl err \<Rightarrow> Inl err
      | Inr sfx \<Rightarrow> if d (temp_path directory sfx) = None then Inr (temp_path directory sfx)
                   else Inl (ErrLib ''file exists''))"

definition remove_file :: "write_env \<Rightarrow> path \<Rightarrow> disk \<Rightarrow> disk" where
  "remove_file env tmp d = (case weRemove env of None \<Rightarrow> d(tmp := None) | Some _ \<Rightarrow> d)"

text \<open>A return before \<open>removeTemporary = false\<close> runs the deferred removal.\<close>

definition fail_write :: "write_env \<Rightarrow> path \<Rightarrow> string \<Rightarrow> error \<Rightarrow> disk list \<Rightarrow> error option \<times> disk list" where
  "fail_write env tmp pre err ds = (Some (ErrWrap pre err), ds @ [remove_file env tmp (last ds)])"

definition writeJSONAtomic :: "write_env \<Rightarrow> path \<Rightarrow> json \<Rightarrow> disk \<Rightarrow> error option \<times> disk list" where
  "writeJSONAtomic env path value d =
     (case CreateTemp env (fst path) d of
        Inl err \<Rightarrow> (Some (ErrWrap ''create temporary state file: '' err), [d])
      | Inr tmp \<Rightarrow>
          (let d1 = d(tmp \<mapsto> [])
           in case weChmod env of
                Some err \<Rightarrow> fail_write env tmp ''set state file permissions: '' err [d, d1]
              | None \<Rightarrow>
          (case Marshal value of
             Inl err \<Rightarrow> fail_write env tmp ''encode state file: '' err [d, d1]
           | Inr v \<Rightarrow>
          (case weWrite env of
             Some err \<Rightarrow> fail_write env tmp ''encode state file: '' err [d, d1, d1(tmp \<mapsto> [Garbage (ErrLib ''unexpected EOF'')])]
           | None \<Rightarrow>
          (let d2 = d1(tmp \<mapsto> [Doc v])
           in case weSync env of
                Some err \<Rightarrow> fail_write env tmp ''sync state file: '' err [d, d1, d2]
              | None \<Rightarrow>
          (case weClose env of
             Some err \<Rightarrow> fail_write env tmp ''close state file: '' err [d, d1, d2]
           | None \<Rightarrow>
          (case weRename env of
             Some err \<Rightarrow> fail_write env tmp ''replace state file: '' err [d, d1, d2]
           | None \<Rightarrow> (None, [d, d1, d2, d2(path \<mapsto> [Doc v], tmp := None)]))))))))"

subsection \<open>A process and its disk\<close>

text \<open>The disk together with how the coming writes will go; when the list is used up, writes succeed.\<close>

record world =
  wDisk :: disk
  wScript :: "write_env list"

definition next_env :: "world \<Rightarrow> write_env" where
  "next_env w = (case wScript w of [] \<Rightarrow> all_ok ''0'' | env # _ \<Rightarrow> env)"

definition write_file :: "path \<Rightarrow> json \<Rightarrow> world \<Rightarrow> error option \<times> world" where
  "write_file path value w =
     (case writeJSONAtomic (next_env w) path value (wDisk w) of
        (r, ds) \<Rightarrow> (r, w\<lparr>wDisk := last ds, wScript := tl (wScript w)\<rparr>))"

subsection \<open>Atomicity\<close>

definition is_temp :: "path \<Rightarrow> bool" where
  "is_temp p \<longleftrightarrow> take 17 (snd p) = ''.rootforge-state-''"

lemma is_temp_temp [simp]: "is_temp (temp_path dir sfx)"
  by (simp add: is_temp_def temp_path_def)

lemma CreateTemp_temp: "CreateTemp env dir d = Inr tmp \<Longrightarrow> is_temp tmp \<and> d tmp = None"
  by (auto simp: CreateTemp_def split: sum.splits if_splits)

lemma writeJSONAtomic_trace:
  assumes "writeJSONAtomic env path value d = (r, ds)" "\<not> is_temp path" "d' \<in> set ds"
  shows "d' path = d path \<or> d' path = Some [Doc value] \<and> json_ok value"
proof (cases "CreateTemp env (fst path) d")
  case (Inl err)
  then show ?thesis using assms by (auto simp: writeJSONAtomic_def)
next
  case (Inr tmp)
  then have "tmp \<noteq> path" using CreateTemp_temp assms(2) by blast
  then show ?thesis
    using assms Inr
    by (auto simp: writeJSONAtomic_def fail_write_def remove_file_def Marshal_def Let_def
        split: option.splits sum.splits if_splits)
qed

lemma writeJSONAtomic_other:
  assumes "writeJSONAtomic env path value d = (r, ds)" "\<not> is_temp p" "p \<noteq> path" "d' \<in> set ds"
  shows "d' p = d p"
proof (cases "CreateTemp env (fst path) d")
  case (Inl err)
  then show ?thesis using assms by (auto simp: writeJSONAtomic_def)
next
  case (Inr tmp)
  then have "tmp \<noteq> p" using CreateTemp_temp assms(2) by blast
  then show ?thesis
    using assms Inr
    by (auto simp: writeJSONAtomic_def fail_write_def remove_file_def Marshal_def Let_def
        split: option.splits sum.splits if_splits)
qed

lemma writeJSONAtomic_result:
  assumes "writeJSONAtomic env path value d = (r, ds)" "\<not> is_temp path"
  shows "ds \<noteq> []" "r = None \<Longrightarrow> last ds path = Some [Doc value] \<and> json_ok value"
    "r \<noteq> None \<Longrightarrow> last ds path = d path"
    "r \<noteq> None \<Longrightarrow> weRemove env = None \<Longrightarrow> last ds = d" "r = None \<Longrightarrow> p \<noteq> path \<Longrightarrow> last ds p = d p"
proof -
  have "ds \<noteq> [] \<and> (r = None \<longrightarrow> last ds path = Some [Doc value] \<and> json_ok value) \<and>
      (r \<noteq> None \<longrightarrow> last ds path = d path) \<and> (r \<noteq> None \<longrightarrow> weRemove env = None \<longrightarrow> last ds = d) \<and>
      (r = None \<longrightarrow> p \<noteq> path \<longrightarrow> last ds p = d p)"
  proof (cases "CreateTemp env (fst path) d")
    case (Inl err)
    then show ?thesis using assms by (auto simp: writeJSONAtomic_def)
  next
    case (Inr tmp)
    then have "tmp \<noteq> path" "d tmp = None" using CreateTemp_temp assms(2) by blast+
    then show ?thesis
      using assms Inr
      by (auto simp: writeJSONAtomic_def fail_write_def remove_file_def Marshal_def Let_def fun_eq_iff
          split: option.splits sum.splits if_splits)
  qed
  then show "ds \<noteq> []" "r = None \<Longrightarrow> last ds path = Some [Doc value] \<and> json_ok value"
    "r \<noteq> None \<Longrightarrow> last ds path = d path" "r \<noteq> None \<Longrightarrow> weRemove env = None \<Longrightarrow> last ds = d"
    "r = None \<Longrightarrow> p \<noteq> path \<Longrightarrow> last ds p = d p"
    by blast+
qed

lemma write_file_cases:
  assumes "write_file path value w = (r, w')" "\<not> is_temp path"
  obtains (written) "r = None" "wDisk w' path = Some [Doc value]" "json_ok value" "wScript w' = tl (wScript w)"
  | (failed) err where "r = Some err" "wDisk w' path = wDisk w path" "wScript w' = tl (wScript w)"
proof -
  obtain ds where "writeJSONAtomic (next_env w) path value (wDisk w) = (r, ds)"
      "w' = w\<lparr>wDisk := last ds, wScript := tl (wScript w)\<rparr>"
    using assms(1) by (auto simp: write_file_def split: prod.splits)
  note res = writeJSONAtomic_result [OF this(1) assms(2)] this(2)
  show thesis
    using res written failed by (cases r) auto
qed

lemma write_file_other:
  assumes "write_file path value w = (r, w')" "\<not> is_temp p" "p \<noteq> path"
  shows "wDisk w' p = wDisk w p"
proof -
  obtain ds where ds: "writeJSONAtomic (next_env w) path value (wDisk w) = (r, ds)" "wDisk w' = last ds"
    using assms(1) by (auto simp: write_file_def split: prod.splits)
  have "ds \<noteq> []"
    using ds(1) by (auto simp: writeJSONAtomic_def fail_write_def Let_def split: sum.splits option.splits)
  then show ?thesis using writeJSONAtomic_other [OF ds(1) assms(2,3)] ds(2) by simp
qed

text \<open>Without faults the write succeeds.\<close>

lemma write_file_ok:
  assumes "wScript w = all_ok sfx # rest" "wDisk w (temp_path (fst path) sfx) = None" "json_ok value" "\<not> is_temp path"
  shows "write_file path value w =
     (None, w\<lparr>wDisk := (wDisk w)(path \<mapsto> [Doc value], temp_path (fst path) sfx := None), wScript := rest\<rparr>)"
  using assms by (auto simp: write_file_def next_env_def writeJSONAtomic_def CreateTemp_def all_ok_def Marshal_def
      fun_eq_iff Let_def)

lemma read_back:
  "d path = Some [Doc value] \<Longrightarrow> dec_struct fs value zero = Inr r \<Longrightarrow> readJSONFile None path fs zero d = Inr (Some r)"
  by (simp add: readJSONFile_def Decode_def DecodeRaw_def EOF_def)

end
