(* ===== verification/Local_Cases.thy ===== *)
theory Local_Cases
  imports Wire Local_Json
begin

text \<open>
  \<open>internal/storage/local/cases.go\<close>: the durable case store.

  \<open>ApplyEvent\<close> works on copies of its maps, writes the whole state and only then installs the copies.
  The state of an operation is the store together with the disk and the outcomes of the coming
  writes. \<open>lcs\<close> interprets the interface \<open>case_store\<close> on it, so that every lemma of the service holds
  for the durable store too, and \<open>open_saved\<close> shows that opening the written file gives the state
  back.

  Error texts that the code formats with \<open>%q\<close> show the string between quotes; escape sequences are
  not modelled.
\<close>

definition caseStateVersion :: int where
  "caseStateVersion = 1"

record caseDiskState =
  stVersion :: int
  stCases :: "Case list"

record CaseStore =
  csPath :: path
  csByID :: "(string, Case) gomap"
  csOpenByPrint :: "(string, string) gomap"

subsection \<open>The state file\<close>

definition case_state_json :: "caseDiskState \<Rightarrow> json" where
  "case_state_json st = JObject (
     member ''version'' (JNumber (stVersion st)) @
     member ''cases'' (JArray (map case_json (stCases st))))"

definition case_state_fields :: "caseDiskState fields" where
  "case_state_fields =
     [(''version'', set_int (- 9223372036854775808) 9223372036854775808 (\<lambda>n st. st\<lparr>stVersion := n\<rparr>)),
      (''cases'', set_list dec_case (\<lambda>cs st. st\<lparr>stCases := cs\<rparr>))]"

definition zero_case_state :: caseDiskState where
  "zero_case_state = \<lparr>stVersion = 0, stCases = []\<rparr>"

fun digits_of :: "nat \<Rightarrow> string" where
  "digits_of n = (if n < 10 then [digit (int n)] else digits_of (n div 10) @ [digit (int n)])"

declare digits_of.simps [simp del]

definition Itoa :: "int \<Rightarrow> string" where
  "Itoa n = (if n < 0 then CHR ''-'' # digits_of (nat (- n)) else digits_of (nat n))"

definition Quote :: "string \<Rightarrow> string" where
  "Quote s = CHR 0x22 # s @ [CHR 0x22]"

subsection \<open>Validation on load\<close>

text \<open>The loop over the events: the first error, or the occurrence window.\<close>

fun window_scan :: "Case \<Rightarrow> Event list \<Rightarrow> gotime \<Rightarrow> gotime \<Rightarrow> error + (gotime \<times> gotime)" where
  "window_scan stored [] first latest = Inr (first, latest)"
| "window_scan stored (event # events) first latest =
     (case Validate event of
        Some err \<Rightarrow> Inl (ErrWrap (''Case '' @ Quote (caseID stored) @ '' contains invalid Event: '') err)
      | None \<Rightarrow>
          if Fingerprint event \<noteq> incFingerprint (caseIncident stored) then
            Inl (ErrNew (''Case '' @ Quote (caseID stored) @ '' contains an Event with a different fingerprint''))
          else if \<not> scope_matches (caseIncident stored) event then
            Inl (ErrNew (''Case '' @ Quote (caseID stored) @ '' contains an Event with a different scope''))
          else window_scan stored events
                 (if Before (evOccurredAt event) first then evOccurredAt event else first)
                 (if After (evOccurredAt event) latest then evOccurredAt event else latest))"

definition validateStoredCase :: "Case \<Rightarrow> error option" where
  "validateStoredCase stored =
     (let i = caseIncident stored
      in if caseID stored = [] \<or> caseRevision stored = 0 then Some (ErrNew ''Case ID and revision are required'')
         else if IsZero (caseCreatedAt stored) \<or> IsZero (caseUpdatedAt stored) \<or>
           Before (caseUpdatedAt stored) (caseCreatedAt stored) then
           Some (ErrNew (''Case '' @ Quote (caseID stored) @ '' has invalid timestamps''))
         else if incFingerprint i = [] \<or> incEvents i = [] then
           Some (ErrNew (''Case '' @ Quote (caseID stored) @ '' has incomplete Incident state''))
         else if incStatus i \<notin> {StatusPendingInvestigation, StatusInvestigating, StatusResolved, StatusClosed} then
           Some (ErrNew (''Case '' @ Quote (caseID stored) @ '' has unsupported Incident status '' @ Quote (incStatus i)))
         else (let first = evOccurredAt (hd (incEvents i))
               in case window_scan stored (incEvents i) first first of
                    Inl err \<Rightarrow> Some err
                  | Inr (first, latest) \<Rightarrow>
                      if \<not> Equal (incFirstOccurredAt i) first \<or> \<not> Equal (incLastOccurredAt i) latest then
                        Some (ErrNew (''Case '' @ Quote (caseID stored) @ '' has an invalid occurrence window''))
                      else None))"

subsection \<open>Opening\<close>

fun load_cases :: "Case list \<Rightarrow> CaseStore \<Rightarrow> error + CaseStore" where
  "load_cases [] store = Inr store"
| "load_cases (stored # rest) store =
     (case validateStoredCase stored of
        Some err \<Rightarrow> Inl (ErrWrap ''load Case state: '' err)
      | None \<Rightarrow>
          if map_get (csByID store) (caseID stored) \<noteq> None then
            Inl (ErrNew (''load Case state: duplicate Case ID '' @ Quote (caseID stored)))
          else
            (let store' = store\<lparr>csByID := map_set (caseID stored) (Case_Clone stored) (csByID store)\<rparr>
             in if Incident_Open (caseIncident stored) then
                  (let fingerprint = incFingerprint (caseIncident stored)
                   in case map_get (csOpenByPrint store') fingerprint of
                        Some existing \<Rightarrow>
                          Inl (ErrNew (''load Case state: open Cases '' @ Quote existing @ '' and '' @
                            Quote (caseID stored) @ '' share a fingerprint''))
                      | None \<Rightarrow>
                          load_cases rest
                            (store'\<lparr>csOpenByPrint := map_set fingerprint (caseID stored) (csOpenByPrint store')\<rparr>))
                else load_cases rest store'))"

text \<open>The first two arguments are what \<open>MkdirAll\<close> and \<open>os.Open\<close> report.\<close>

definition OpenCaseStore :: "error option \<Rightarrow> error option \<Rightarrow> string \<Rightarrow> disk \<Rightarrow> error + CaseStore" where
  "OpenCaseStore mkdirAll openErr directory d =
     (case ensureDataDirectory mkdirAll directory of
        Inl err \<Rightarrow> Inl err
      | Inr directory \<Rightarrow>
          (let store = \<lparr>csPath = (directory, ''cases.v1.json''), csByID = map_new, csOpenByPrint = map_new\<rparr>
           in case readJSONFile openErr (csPath store) case_state_fields zero_case_state d of
                Inl err \<Rightarrow> Inl err
              | Inr None \<Rightarrow> Inr store
              | Inr (Some state) \<Rightarrow>
                  if stVersion state \<noteq> caseStateVersion then
                    Inl (ErrNew (''load Case state: unsupported version '' @ Itoa (stVersion state)))
                  else load_cases (stCases state) store))"

subsection \<open>Operations\<close>

definition cloneCases :: "(string, Case) gomap \<Rightarrow> (string, Case) gomap" where
  "cloneCases source = map_copy Case_Clone source"

definition cloneStrings :: "(string, string) gomap \<Rightarrow> (string, string) gomap" where
  "cloneStrings source = map_copy (\<lambda>value. value) source"

text \<open>The value that \<open>persist\<close> writes.\<close>

definition saved_cases :: "(string, Case) gomap \<Rightarrow> json" where
  "saved_cases cases = case_state_json \<lparr>stVersion = caseStateVersion,
     stCases = sort_key caseID (map Case_Clone (map_values cases))\<rparr>"

definition CaseStore_persist :: "CaseStore \<Rightarrow> (string, Case) gomap \<Rightarrow> world \<Rightarrow> error option \<times> world" where
  "CaseStore_persist s cases w =
     (case write_file (csPath s) (saved_cases cases) w of
        (r, w') \<Rightarrow> (map_option (ErrWrap ''persist Case state: '') r, w'))"

text \<open>The end of both branches of \<open>ApplyEvent\<close>: persist, then install the maps.\<close>

definition CaseStore_install ::
  "(string, Case) gomap \<Rightarrow> (string, string) gomap \<Rightarrow> Case \<times> bool \<Rightarrow> CaseStore \<times> world \<Rightarrow>
   apply_result \<times> (CaseStore \<times> world)" where
  "CaseStore_install nextCases nextOpen result = (\<lambda>(s, w).
     (case CaseStore_persist s nextCases w of
        (Some err, w') \<Rightarrow> (Inl err, s, w')
      | (None, w') \<Rightarrow> (Inr result, s\<lparr>csByID := nextCases, csOpenByPrint := nextOpen\<rparr>, w')))"

definition CaseStore_create ::
  "Event \<Rightarrow> gotime \<Rightarrow> IDGenerator \<Rightarrow> (string, Case) gomap \<Rightarrow> (string, string) gomap \<Rightarrow> CaseStore \<times> world \<Rightarrow>
   apply_result \<times> (CaseStore \<times> world)" where
  "CaseStore_create event now generateID nextCases nextOpen = (\<lambda>(s, w).
     (case Incident_New event of
        Inl err \<Rightarrow> (Inl err, s, w)
      | Inr record \<Rightarrow>
          (case generateID now of
             Inl err \<Rightarrow> (Inl err, s, w)
           | Inr cid \<Rightarrow>
               if cid = [] then (Inl (ErrNew ''generated case ID is empty''), s, w)
               else if map_get nextCases cid \<noteq> None then (Inl ErrIDConflict, s, w)
               else (let created = new_case cid record now;
                         nextCases = map_set cid (Case_Clone created) nextCases;
                         nextOpen = map_set (Fingerprint event) cid nextOpen
                     in CaseStore_install nextCases nextOpen (Case_Clone created, True) (s, w)))))"

definition CaseStore_ApplyEvent ::
  "ctx \<Rightarrow> Event \<Rightarrow> gotime \<Rightarrow> IDGenerator \<Rightarrow> CaseStore \<times> world \<Rightarrow> apply_result \<times> (CaseStore \<times> world)" where
  "CaseStore_ApplyEvent ctx event now generateID = (\<lambda>(s, w).
     (case ctx of
        Some err \<Rightarrow> (Inl err, s, w)
      | None \<Rightarrow>
          (let nextCases = cloneCases (csByID s);
               nextOpen = cloneStrings (csOpenByPrint s);
               fingerprint = Fingerprint event
           in case map_get nextOpen fingerprint of
                None \<Rightarrow> CaseStore_create event now generateID nextCases nextOpen (s, w)
              | Some cid \<Rightarrow>
                  (let current = (case map_get nextCases cid of Some c \<Rightarrow> c | None \<Rightarrow> zero_case)
                   in if Incident_Open (caseIncident current) then
                        (case Incident_Apply (caseIncident current) event of
                           Inl err \<Rightarrow> (Inl err, s, w)
                         | Inr (changed, i) \<Rightarrow>
                             if \<not> changed then (Inr (Case_Clone current, False), s, w)
                             else (let current' = bump_case current i now;
                                       nextCases = map_set cid (Case_Clone current') nextCases
                                   in CaseStore_install nextCases nextOpen (Case_Clone current', False) (s, w)))
                      else CaseStore_create event now generateID nextCases (map_del fingerprint nextOpen) (s, w)))))"

definition CaseStore_Get :: "ctx \<Rightarrow> string \<Rightarrow> CaseStore \<times> world \<Rightarrow> error + Case" where
  "CaseStore_Get ctx cid = (\<lambda>(s, w).
     (case ctx of
        Some err \<Rightarrow> Inl err
      | None \<Rightarrow> (case map_get (csByID s) cid of None \<Rightarrow> Inl ErrNotFound | Some stored \<Rightarrow> Inr (Case_Clone stored))))"

definition CaseStore_ListPendingInvestigation :: "ctx \<Rightarrow> CaseStore \<times> world \<Rightarrow> error + Case list" where
  "CaseStore_ListPendingInvestigation ctx = (\<lambda>(s, w).
     (case ctx of
        Some err \<Rightarrow> Inl err
      | None \<Rightarrow> Inr (sort_key caseID (map Case_Clone
          (filter (\<lambda>stored. incStatus (caseIncident stored) = StatusPendingInvestigation) (map_values (csByID s)))))))"

subsection \<open>The store implements the interface\<close>

lemma cloneCases_id [simp]: "cloneCases m = m"
  by (simp add: cloneCases_def map_copy_cong_id)

lemma cloneStrings_id [simp]: "cloneStrings m = m"
  by (simp add: cloneStrings_def map_copy_id)

definition lcs_abs :: "CaseStore \<times> world \<Rightarrow> abs_store" where
  "lcs_abs = (\<lambda>(s, w). (map_get (csByID s), map_get (csOpenByPrint s)))"

definition lcs_inv :: "CaseStore \<times> world \<Rightarrow> bool" where
  "lcs_inv sw \<longleftrightarrow> store_inv (lcs_abs sw)"

text \<open>
  One call either leaves the store alone or installs and saves the maps of the specification's step.
\<close>

definition step_ok ::
  "Event \<Rightarrow> gotime \<Rightarrow> IDGenerator \<Rightarrow> CaseStore \<times> world \<Rightarrow> apply_result \<times> CaseStore \<times> world \<Rightarrow> bool" where
  "step_ok event now gen = (\<lambda>(s, w) (r, s', w').
     (let spec = apply_spec event now gen (lcs_abs (s, w))
      in s' = s \<and> w' = w \<and> spec = (r, lcs_abs (s, w)) \<or>
         snd spec \<noteq> lcs_abs (s, w) \<and> is_ok (fst spec) \<and>
         ((\<exists>err m. s' = s \<and> CaseStore_persist s m w = (Some err, w') \<and> r = Inl err \<and> map_get m = fst (snd spec)) \<or>
          CaseStore_persist s (csByID s') w = (None, w') \<and> csPath s' = csPath s \<and> spec = (r, lcs_abs (s', w')))))"

lemma install_step:
  assumes "apply_spec event now gen (lcs_abs (s, w)) = (Inr x, map_get m, map_get opn)" "map_get m \<noteq> map_get (csByID s)"
  shows "step_ok event now gen (s, w) (CaseStore_install m opn x (s, w))"
proof -
  obtain r w' where p: "CaseStore_persist s m w = (r, w')" by fastforce
  show ?thesis
    using assms p by (cases r) (auto simp: step_ok_def CaseStore_install_def lcs_abs_def Let_def)
qed

lemma same_step: "apply_spec event now gen (lcs_abs (s, w)) = (r, lcs_abs (s, w)) \<Longrightarrow> step_ok event now gen (s, w) (r, s, w)"
  by (simp add: step_ok_def Let_def)

lemma create_step:
  assumes "map_get (csOpenByPrint s) (Fingerprint event) = None"
  shows "step_ok event now gen (s, w) (CaseStore_create event now gen (csByID s) (csOpenByPrint s) (s, w))"
proof -
  have spec: "apply_spec event now gen (lcs_abs (s, w)) =
      create_spec event now gen (map_get (csByID s), map_get (csOpenByPrint s))"
    using assms by (simp add: apply_spec_def lcs_abs_def)
  show ?thesis
  proof (cases "Incident_New event")
    case (Inl err)
    then show ?thesis using spec by (simp add: CaseStore_create_def create_spec_def same_step lcs_abs_def)
  next
    case i: (Inr i)
    show ?thesis
    proof (cases "gen now")
      case (Inl err)
      then show ?thesis using spec i by (simp add: CaseStore_create_def create_spec_def same_step lcs_abs_def)
    next
      case (Inr cid)
      let ?m = "map_set cid (new_case cid i now) (csByID s)"
      let ?o = "map_set (Fingerprint event) cid (csOpenByPrint s)"
      have "map_get ?m = (map_get (csByID s))(cid \<mapsto> new_case cid i now)"
        "map_get ?o = (map_get (csOpenByPrint s))(Fingerprint event \<mapsto> cid)"
        by (auto simp: fun_eq_iff lookup_update)
      moreover have "map_get ?m \<noteq> map_get (csByID s)" if "map_get (csByID s) cid = None"
        using that by (metis lookup_update option.distinct(1))
      ultimately show ?thesis
        using spec i Inr install_step [of event now gen s w "(new_case cid i now, True)" ?m ?o]
        by (simp add: CaseStore_create_def create_spec_def Let_def same_step lcs_abs_def)
    qed
  qed
qed

lemma CaseStore_step:
  assumes "lcs_inv (s, w)"
  shows "step_ok event now gen (s, w) (CaseStore_ApplyEvent None event now gen (s, w))"
proof (cases "map_get (csOpenByPrint s) (Fingerprint event)")
  case None
  then show ?thesis using create_step by (simp add: CaseStore_ApplyEvent_def Let_def)
next
  case (Some cid)
  have inv: "store_inv (map_get (csByID s), map_get (csOpenByPrint s))"
    using assms by (simp add: lcs_inv_def lcs_abs_def)
  obtain c where c: "map_get (csByID s) cid = Some c" "Incident_Open (caseIncident c)"
    using inv Some by (rule store_inv_open)
  show ?thesis
  proof (cases "Incident_Apply (caseIncident c) event")
    case (Inl err)
    then show ?thesis using Some c by (simp add: CaseStore_ApplyEvent_def Let_def apply_spec_def same_step lcs_abs_def)
  next
    case (Inr p)
    obtain changed i where p: "p = (changed, i)" by fastforce
    let ?m = "map_set cid (bump_case c i now) (csByID s)"
    have "map_get ?m = (map_get (csByID s))(cid \<mapsto> bump_case c i now)"
      by (auto simp: fun_eq_iff lookup_update)
    moreover have "map_get ?m \<noteq> map_get (csByID s)"
      using c(1) bump_case_neq [of c i now] by (metis lookup_update option.inject)
    ultimately show ?thesis
      using Some c Inr p install_step [of event now gen s w "(bump_case c i now, False)" ?m "csOpenByPrint s"]
      by (simp add: CaseStore_ApplyEvent_def Let_def apply_spec_def same_step lcs_abs_def)
  qed
qed

lemma CaseStore_cases:
  assumes "lcs_inv (s, w)" "CaseStore_ApplyEvent None event now gen (s, w) = (r, s', w')"
  obtains (same) "s' = s" "w' = w" "apply_spec event now gen (lcs_abs (s, w)) = (r, lcs_abs (s, w))"
  | (failed) err m where "s' = s" "CaseStore_persist s m w = (Some err, w')" "r = Inl err"
      "map_get m = fst (snd (apply_spec event now gen (lcs_abs (s, w))))"
      "is_ok (fst (apply_spec event now gen (lcs_abs (s, w))))"
      "snd (apply_spec event now gen (lcs_abs (s, w))) \<noteq> lcs_abs (s, w)"
  | (saved) "CaseStore_persist s (csByID s') w = (None, w')" "csPath s' = csPath s"
      "apply_spec event now gen (lcs_abs (s, w)) = (r, lcs_abs (s', w'))" "is_ok r" "lcs_abs (s', w') \<noteq> lcs_abs (s, w)"
proof -
  have "step_ok event now gen (s, w) (r, s', w')"
    using CaseStore_step [OF assms(1), of event now gen] assms(2) by simp
  then show thesis
    using same failed saved by (auto simp: step_ok_def Let_def)
qed

lemma lcs_quiet:
  assumes "lcs_inv sw" "apply_spec event now gen (lcs_abs sw) = (r, lcs_abs sw)"
  shows "CaseStore_ApplyEvent None event now gen sw = (r, sw)"
proof -
  obtain s w r' s' w' where sw: "sw = (s, w)" and st: "CaseStore_ApplyEvent None event now gen (s, w) = (r', s', w')"
    by (metis prod.exhaust)
  have inv: "lcs_inv (s, w)" "store_inv (map_get (csByID s), map_get (csOpenByPrint s))"
    using assms(1) sw by (auto simp: lcs_inv_def lcs_abs_def)
  show ?thesis
    using inv(1) st
  proof (cases rule: CaseStore_cases)
    case same
    then show ?thesis using st sw assms(2) by simp
  next
    case (failed err m)
    then show ?thesis using assms(2) sw by simp
  next
    case saved
    then show ?thesis using assms(2) sw by simp
  qed
qed

interpretation lcs: case_store CaseStore_ApplyEvent CaseStore_Get CaseStore_ListPendingInvestigation lcs_abs lcs_inv
proof
  fix sw :: "CaseStore \<times> world" and event now gen r sw' and ctx :: ctx and cid err
  show "lcs_inv sw \<Longrightarrow> store_inv (lcs_abs sw)" by (simp add: lcs_inv_def)
  show cancelled: "CaseStore_ApplyEvent (Some err) event now gen sw = (Inl err, sw)" for err
    by (cases sw) (simp add: CaseStore_ApplyEvent_def)
  show refines: "(\<exists>err. r = Inl err) \<and> lcs_abs sw' = lcs_abs sw \<or> (r, lcs_abs sw') = apply_spec event now gen (lcs_abs sw)"
    if "lcs_inv sw" "CaseStore_ApplyEvent ctx event now gen sw = (r, sw')"
  proof (cases ctx)
    case None
    obtain s w s' w' where sw: "sw = (s, w)" "sw' = (s', w')" by fastforce
    have "lcs_inv (s, w)" "CaseStore_ApplyEvent None event now gen (s, w) = (r, s', w')" using that None sw by auto
    then show ?thesis unfolding sw by (cases rule: CaseStore_cases) (simp_all add: lcs_abs_def)
  qed (use that cancelled in auto)
  show "lcs_inv sw'" if "lcs_inv sw" "CaseStore_ApplyEvent ctx event now gen sw = (r, sw')"
    using refines [OF that] that(1) apply_spec_inv unfolding lcs_inv_def by metis
  show "CaseStore_ApplyEvent None event now gen sw = (r, sw)"
    if "lcs_inv sw" "apply_spec event now gen (lcs_abs sw) = (r, lcs_abs sw)"
    by (rule lcs_quiet [OF that])
  show "CaseStore_Get (Some err) cid sw = Inl err" by (cases sw) (simp add: CaseStore_Get_def)
  show "CaseStore_ListPendingInvestigation (Some err) sw = Inl err"
    by (cases sw) (simp add: CaseStore_ListPendingInvestigation_def)
  show "CaseStore_Get None cid sw = (case fst (lcs_abs sw) cid of None \<Rightarrow> Inl ErrNotFound | Some c \<Rightarrow> Inr c)"
    by (cases sw) (simp add: CaseStore_Get_def lcs_abs_def split: option.splits)
  show "\<exists>cs. CaseStore_ListPendingInvestigation None sw = Inr cs \<and> sorted (map caseID cs) \<and> distinct (map caseID cs) \<and>
      (\<forall>c. c \<in> set cs \<longleftrightarrow> fst (lcs_abs sw) (caseID c) = Some c \<and> incStatus (caseIncident c) = StatusPendingInvestigation)"
    if "lcs_inv sw"
  proof -
    have "keyed_by caseID (csByID (fst sw))"
      using that store_inv_keyed by (auto simp: lcs_inv_def lcs_abs_def split: prod.splits)
    from listed_values [OF this] show ?thesis
      by (cases sw) (auto simp: CaseStore_ListPendingInvestigation_def lcs_abs_def)
  qed
qed

subsection \<open>Opening what was saved\<close>

text \<open>What validation on load asks of a case beyond \<open>case_inv\<close>, and what JSON keeps.\<close>

definition storable :: "Case \<Rightarrow> bool" where
  "storable c \<longleftrightarrow> valid_case c \<and> caseRevision c \<noteq> 0 \<and> \<not> IsZero (caseCreatedAt c) \<and> \<not> IsZero (caseUpdatedAt c)"

definition all_storable :: "(string \<rightharpoonup> Case) \<Rightarrow> bool" where
  "all_storable cases \<longleftrightarrow> (\<forall>cid c. cases cid = Some c \<longrightarrow> storable c)"

lemma window_scan_ok:
  assumes "\<forall>e \<in> set es. Validate e = None \<and> Fingerprint e = incFingerprint (caseIncident c) \<and>
    scope_matches (caseIncident c) e"
  shows "\<exists>f l. window_scan c es f0 l0 = Inr (f, l) \<and>
    instant f \<le> instant f0 \<and> (\<forall>e \<in> set es. instant f \<le> instant (evOccurredAt e)) \<and>
    instant f \<in> insert (instant f0) ((\<lambda>e. instant (evOccurredAt e)) ` set es) \<and>
    instant l0 \<le> instant l \<and> (\<forall>e \<in> set es. instant (evOccurredAt e) \<le> instant l) \<and>
    instant l \<in> insert (instant l0) ((\<lambda>e. instant (evOccurredAt e)) ` set es)"
  using assms
proof (induction es arbitrary: f0 l0)
  case (Cons e es)
  let ?f = "if Before (evOccurredAt e) f0 then evOccurredAt e else f0"
  let ?l = "if After (evOccurredAt e) l0 then evOccurredAt e else l0"
  have step: "window_scan c (e # es) f0 l0 = window_scan c es ?f ?l"
    using Cons.prems by simp
  have "\<forall>e \<in> set es. Validate e = None \<and> Fingerprint e = incFingerprint (caseIncident c) \<and>
      scope_matches (caseIncident c) e"
    using Cons.prems by simp
  from Cons.IH [OF this, of ?f ?l] obtain f l where
    w: "window_scan c es ?f ?l = Inr (f, l)" "instant f \<le> instant ?f" "instant ?l \<le> instant l"
    and f: "\<forall>e \<in> set es. instant f \<le> instant (evOccurredAt e)"
      "instant f \<in> insert (instant ?f) ((\<lambda>e. instant (evOccurredAt e)) ` set es)"
    and l: "\<forall>e \<in> set es. instant (evOccurredAt e) \<le> instant l"
      "instant l \<in> insert (instant ?l) ((\<lambda>e. instant (evOccurredAt e)) ` set es)"
    by blast
  have "instant f \<le> instant f0" "instant f \<le> instant (evOccurredAt e)"
    "instant l0 \<le> instant l" "instant (evOccurredAt e) \<le> instant l"
    using w(2,3) by (auto simp: Before_def After_def split: if_splits)
  moreover have "instant f \<in> insert (instant f0) ((\<lambda>e. instant (evOccurredAt e)) ` set (e # es))"
    "instant l \<in> insert (instant l0) ((\<lambda>e. instant (evOccurredAt e)) ` set (e # es))"
    using f(2) l(2) by (auto split: if_splits)
  ultimately show ?case
    unfolding step using w(1) f(1) l(1) by auto
qed simp

lemma validateStoredCase_ok:
  assumes "case_inv c" "caseRevision c \<noteq> 0" "\<not> IsZero (caseCreatedAt c)" "\<not> IsZero (caseUpdatedAt c)"
  shows "validateStoredCase c = None"
proof -
  let ?i = "caseIncident c" and ?f = "evOccurredAt (hd (incEvents (caseIncident c)))"
  have inv: "incident_inv ?i" "incEvents ?i \<noteq> []" using assms(1) by (auto simp: case_inv_def incident_inv_def)
  then have "\<forall>e \<in> set (incEvents ?i). Validate e = None \<and> Fingerprint e = incFingerprint ?i \<and> scope_matches ?i e"
    by (auto simp: incident_inv_def event_fits_def)
  from window_scan_ok [OF this, of ?f ?f] obtain f l where w: "window_scan c (incEvents ?i) ?f ?f = Inr (f, l)"
    and f: "\<forall>e \<in> set (incEvents ?i). instant f \<le> instant (evOccurredAt e)"
      "instant f \<in> insert (instant ?f) ((\<lambda>e. instant (evOccurredAt e)) ` set (incEvents ?i))"
    and l: "\<forall>e \<in> set (incEvents ?i). instant (evOccurredAt e) \<le> instant l"
      "instant l \<in> insert (instant ?f) ((\<lambda>e. instant (evOccurredAt e)) ` set (incEvents ?i))"
    by blast
  have hd: "hd (incEvents ?i) \<in> set (incEvents ?i)" using inv(2) by simp
  have win: "window_ok ?i" using inv(1) by (simp add: incident_inv_def)
  have "instant (incFirstOccurredAt ?i) \<le> instant f"
    using win f(2) hd by (auto simp: window_ok_def)
  moreover have "instant f \<le> instant (incFirstOccurredAt ?i)"
    using win f(1) unfolding window_ok_def by metis
  moreover have "instant l \<le> instant (incLastOccurredAt ?i)"
    using win l(2) hd by (auto simp: window_ok_def)
  moreover have "instant (incLastOccurredAt ?i) \<le> instant l"
    using win l(1) unfolding window_ok_def by metis
  ultimately have "Equal (incFirstOccurredAt ?i) f" "Equal (incLastOccurredAt ?i) l"
    by (simp_all add: Equal_def)
  then show ?thesis
    using assms w inv
    by (simp add: validateStoredCase_def case_inv_def incident_inv_def Before_def Let_def)
qed

lemma store_inv_insert_closed:
  assumes "store_inv (cases, opn)" "cases cid = None" "caseID c = cid" "case_inv c" "\<not> Incident_Open (caseIncident c)"
  shows "store_inv (cases(cid \<mapsto> c), opn)"
  using assms unfolding store_inv_def by (auto split: if_splits)

lemma store_inv_index_unique:
  assumes "store_inv (cases, o1)" "store_inv (cases, o2)"
  shows "o1 = o2"
proof
  fix f
  have "o1 f = Some cid \<longleftrightarrow> o2 f = Some cid" for cid
    using assms by (simp add: store_inv_def)
  then show "o1 f = o2 f" by (metis option.exhaust)
qed

abbreviation store_of :: "CaseStore \<Rightarrow> abs_store" where
  "store_of st \<equiv> (map_get (csByID st), map_get (csOpenByPrint st))"

lemma option_eqI: "(\<And>v. a = Some v \<longleftrightarrow> b = Some v) \<Longrightarrow> a = b"
  by (cases a; cases b) auto

lemma map_of_keyed:
  assumes "distinct (map k xs)"
  shows "map_of (map (\<lambda>x. (k x, x)) xs) key = Some v \<longleftrightarrow> v \<in> set xs \<and> k v = key"
proof -
  have "distinct (map fst (map (\<lambda>x. (k x, x)) xs))" using assms by (simp add: comp_def)
  from map_of_eq_Some_iff [OF this, of key v] show ?thesis by auto
qed

lemma map_get_new [simp]: "map_get map_new = Map.empty"
  by (simp add: fun_eq_iff map_get_conv)

lemma load_cases_ok:
  assumes "store_inv (target, opn)" "store_inv (store_of st)" "map_get (csByID st) \<subseteq>\<^sub>m target"
    and "\<forall>c \<in> set cs. target (caseID c) = Some c \<and> validateStoredCase c = None"
    and "distinct (map caseID cs)" "\<forall>c \<in> set cs. map_get (csByID st) (caseID c) = None"
  shows "\<exists>st'. load_cases cs st = Inr st' \<and> csPath st' = csPath st \<and> store_inv (store_of st') \<and>
    map_get (csByID st') = map_get (csByID st) ++ map_of (map (\<lambda>c. (caseID c, c)) cs)"
  using assms(2-)
proof (induction cs arbitrary: st)
  case (Cons c cs)
  let ?m = "map_set (caseID c) c (csByID st)"
  have c: "target (caseID c) = Some c" "validateStoredCase c = None" "map_get (csByID st) (caseID c) = None"
    using Cons.prems by auto
  have inv: "case_inv c" using store_inv_case [OF assms(1) c(1)] by simp
  define st1 where "st1 = (if Incident_Open (caseIncident c)
    then st\<lparr>csByID := ?m, csOpenByPrint := map_set (incFingerprint (caseIncident c)) (caseID c) (csOpenByPrint st)\<rparr>
    else st\<lparr>csByID := ?m\<rparr>)"
  have get: "map_get (csByID st1) = (map_get (csByID st))(caseID c \<mapsto> c)"
    by (auto simp: st1_def lookup_update fun_eq_iff)
  have free: "map_get (csOpenByPrint st) (incFingerprint (caseIncident c)) = None" if "Incident_Open (caseIncident c)"
  proof (rule ccontr)
    assume "map_get (csOpenByPrint st) (incFingerprint (caseIncident c)) \<noteq> None"
    then obtain e where e: "map_get (csOpenByPrint st) (incFingerprint (caseIncident c)) = Some e" by auto
    obtain d where d: "map_get (csByID st) e = Some d" "Incident_Open (caseIncident d)"
        "incFingerprint (caseIncident d) = incFingerprint (caseIncident c)"
      using Cons.prems(1) e by (rule store_inv_open)
    have "target e = Some d" using d(1) Cons.prems(2) by (metis domI map_le_def)
    then have "e = caseID c" using store_inv_unique_open [OF assms(1) _ c(1)] d that by simp
    then show False using d(1) c(3) by simp
  qed
  have inv1: "store_inv (store_of st1)"
  proof (cases "Incident_Open (caseIncident c)")
    case True
    have "map_get (csOpenByPrint st1) = (map_get (csOpenByPrint st))(incFingerprint (caseIncident c) \<mapsto> caseID c)"
      using True by (auto simp: st1_def lookup_update fun_eq_iff)
    then show ?thesis
      using store_inv_insert [OF Cons.prems(1) c(3) free [OF True] refl inv True refl] get by simp
  next
    case False
    then have "map_get (csOpenByPrint st1) = map_get (csOpenByPrint st)" by (simp add: st1_def)
    then show ?thesis
      using store_inv_insert_closed [OF Cons.prems(1) c(3) refl inv False] get by simp
  qed
  have load: "load_cases (c # cs) st = load_cases cs st1" "csPath st1 = csPath st"
    using c free by (auto simp: st1_def)
  have "map_get (csByID st1) \<subseteq>\<^sub>m target"
    using Cons.prems(2) c(1) get by (auto simp: map_le_def)
  moreover have "\<forall>x \<in> set cs. map_get (csByID st1) (caseID x) = None"
    using Cons.prems(4,5) get by (auto simp: image_iff)
  ultimately obtain st' where st': "load_cases cs st1 = Inr st'" "csPath st' = csPath st1" "store_inv (store_of st')"
      "map_get (csByID st') = map_get (csByID st1) ++ map_of (map (\<lambda>c. (caseID c, c)) cs)"
    using Cons.IH [OF inv1] Cons.prems(3,4) by auto
  have "map_of (map (\<lambda>c. (caseID c, c)) cs) (caseID c) = None"
    using Cons.prems(4) by (simp add: map_of_eq_None_iff image_image)
  then have "map_get (csByID st1) ++ map_of (map (\<lambda>c. (caseID c, c)) cs) =
      map_get (csByID st) ++ map_of (map (\<lambda>c. (caseID c, c)) (c # cs))"
    using get by (auto simp: fun_eq_iff map_add_def split: option.splits)
  then show ?case using st' unfolding load by metis
qed simp

lemma coerce_event_attrs:
  "valid_event e \<Longrightarrow> coerce_event e = e\<lparr>evAttributes := coerce_attributes (evAttributes e)\<rparr>"
  by (simp add: coerce_event_def valid_event_def)

lemma event_attrs_facts [simp]:
  "Validate (e\<lparr>evAttributes := a\<rparr>) = Validate e" "Fingerprint (e\<lparr>evAttributes := a\<rparr>) = Fingerprint e"
  "scope_matches i (e\<lparr>evAttributes := a\<rparr>) = scope_matches i e"
  "normalized (e\<lparr>evAttributes := a\<rparr>) = normalized e"
proof -
  show "Fingerprint (e\<lparr>evAttributes := a\<rparr>) = Fingerprint e"
    by (simp add: Fingerprint_def fingerprint_parts_def Let_def)
  show "normalized (e\<lparr>evAttributes := a\<rparr>) = normalized e"
    by (cases e) (auto simp: normalized_def Normalize_def)
qed (simp_all add: Validate_def event_problems_def scope_matches_def)

lemma ids_unique_map:
  "(\<And>e. e \<in> set es \<Longrightarrow> evID (f e) = evID e \<and> evSource (f e) = evSource e) \<Longrightarrow> ids_unique (map f es) = ids_unique es"
  by (induction es) auto

lemma coerce_incident_events:
  "valid_incident i \<Longrightarrow> coerce_incident i = i\<lparr>incEvents := map coerce_event (incEvents i)\<rparr>"
  by (simp add: coerce_incident_def valid_incident_def)

lemma coerce_incident_inv:
  assumes "incident_inv i" "valid_incident i"
  shows "incident_inv (coerce_incident i)"
proof -
  let ?i = "i\<lparr>incEvents := map coerce_event (incEvents i)\<rparr>"
  have valid: "valid_event e" if "e \<in> set (incEvents i)" for e
    using assms(2) that by (auto simp: valid_incident_def list_all_iff)
  have fits: "event_fits ?i (coerce_event e)" if "event_fits i e" "e \<in> set (incEvents i)" for e
    using that valid [OF that(2)] by (auto simp: event_fits_def coerce_event_attrs scope_matches_def)
  have "window_ok ?i"
    using assms(1) by (simp add: incident_inv_def window_ok_def coerce_event_def)
  moreover have "ids_unique (map coerce_event (incEvents i))"
    using assms(1) ids_unique_map [of "incEvents i" coerce_event] valid
    by (simp add: incident_inv_def coerce_event_attrs)
  ultimately show ?thesis
    using assms fits by (auto simp: incident_inv_def coerce_incident_events)
qed

lemma coerce_case_inv:
  assumes "case_inv c" "valid_case c"
  shows "case_inv (coerce_case c)" "caseID (coerce_case c) = caseID c"
    "Incident_Open (caseIncident (coerce_case c)) = Incident_Open (caseIncident c)"
    "incFingerprint (caseIncident (coerce_case c)) = incFingerprint (caseIncident c)"
    "caseRevision (coerce_case c) = caseRevision c" "caseCreatedAt (coerce_case c) = caseCreatedAt c"
    "caseUpdatedAt (coerce_case c) = caseUpdatedAt c"
  using assms coerce_incident_inv [of "caseIncident c"]
  by (auto simp: case_inv_def coerce_case_def valid_case_def coerce_incident_events Incident_Open_def)

lemma coerce_store_inv:
  assumes "store_inv (cases, opn)" "all_storable cases"
  shows "store_inv (map_option coerce_case \<circ> cases, opn)"
proof -
  have c: "case_inv c \<and> valid_case c \<and> caseID c = cid" if "cases cid = Some c" for cid c
    using store_inv_case [OF assms(1) that] assms(2) that by (auto simp: all_storable_def storable_def)
  have "opn f = Some cid \<longleftrightarrow> (\<exists>d. map_option coerce_case (cases cid) = Some d \<and> Incident_Open (caseIncident d) \<and>
      incFingerprint (caseIncident d) = f)" for f cid
  proof -
    have "opn f = Some cid \<longleftrightarrow> (\<exists>c. cases cid = Some c \<and> Incident_Open (caseIncident c) \<and> incFingerprint (caseIncident c) = f)"
      using assms(1) by (simp add: store_inv_def)
    then show ?thesis using c [of cid] coerce_case_inv by (cases "cases cid") auto
  qed
  moreover have "caseID d = cid \<and> case_inv d" if asm: "map_option coerce_case (cases cid) = Some d" for cid d
  proof -
    obtain x where x: "cases cid = Some x" "d = coerce_case x" using asm by auto
    then show ?thesis using c [OF x(1)] coerce_case_inv(1,2) [of x] by simp
  qed
  ultimately show ?thesis unfolding store_inv_def prod.case comp_apply by blast
qed

lemma dec_case_state:
  "dec_struct case_state_fields (case_state_json \<lparr>stVersion = caseStateVersion, stCases = cs\<rparr>) zero_case_state =
     Inr \<lparr>stVersion = caseStateVersion, stCases = map coerce_case cs\<rparr>"
proof -
  have "dec_list dec_case (map case_json cs) = Inr (map coerce_case cs)"
    by (rule dec_list_map) (rule dec_case_json)
  then show ?thesis
    by (simp add: case_state_json_def case_state_fields_def dec_struct_def zero_case_state_def dec_rules
        set_list_def caseStateVersion_def)
qed

definition cases_path :: "string \<Rightarrow> path" where
  "cases_path directory = (filepath_Clean directory, ''cases.v1.json'')"

lemma cases_path_temp [simp]: "\<not> is_temp (cases_path d)"
  by (simp add: cases_path_def is_temp_def)

text \<open>Opening the file that \<open>persist\<close> wrote yields the same cases and the same index.\<close>

lemma open_saved:
  assumes "directory \<noteq> []" "store_inv (map_get m, opn)" "all_storable (map_get m)"
    and "d (cases_path directory) = Some [Doc (saved_cases m)]"
  shows "\<exists>st. OpenCaseStore None None directory d = Inr st \<and> csPath st = cases_path directory \<and>
    map_get (csByID st) = map_option coerce_case \<circ> map_get m \<and> map_get (csOpenByPrint st) = opn"
proof -
  let ?cs = "map coerce_case (sort_key caseID (map_values m))"
  let ?st = "\<lparr>csPath = cases_path directory, csByID = map_new, csOpenByPrint = map_new\<rparr>"
  let ?target = "map_option coerce_case \<circ> map_get m"
  have key: "keyed_by caseID m" using assms(2) by (rule store_inv_keyed)
  have target: "store_inv (?target, opn)" using coerce_store_inv [OF assms(2,3)] .
  have mem: "c \<in> set (map_values m) \<Longrightarrow> map_get m (caseID c) = Some c \<and> case_inv c \<and> storable c" for c
    using key assms(2,3) by (auto simp: map_values_iff all_storable_def dest: keyed_by_get store_inv_case)
  have each: "\<forall>c \<in> set ?cs. ?target (caseID c) = Some c \<and> validateStoredCase c = None"
    using mem coerce_case_inv validateStoredCase_ok by (fastforce simp: storable_def)
  have ids: "map caseID ?cs = map caseID (sort_key caseID (map_values m))"
    using mem coerce_case_inv(2) by (auto simp: storable_def)
  have dist: "distinct (map caseID ?cs)"
    unfolding ids using listed_values(2) [OF key, of "\<lambda>_. True"] by simp
  obtain st where st: "load_cases ?cs ?st = Inr st" "csPath st = cases_path directory" "store_inv (store_of st)"
      "map_get (csByID st) = map_of (map (\<lambda>c. (caseID c, c)) ?cs)"
    using load_cases_ok [OF target _ _ each dist, of ?st] by (auto simp del: map_map)
  have "map_of (map (\<lambda>c. (caseID c, c)) ?cs) k = ?target k" for k
  proof -
    have "map_of (map (\<lambda>c. (caseID c, c)) ?cs) k = Some v \<longleftrightarrow> ?target k = Some v" for v
    proof
      assume "map_of (map (\<lambda>c. (caseID c, c)) ?cs) k = Some v"
      then have "v \<in> set ?cs" "caseID v = k" using map_of_keyed [OF dist, of k v] by blast+
      then show "?target k = Some v" using each by blast
    next
      assume "?target k = Some v"
      then obtain c where c: "map_get m k = Some c" "v = coerce_case c" by auto
      then have v: "c \<in> set (map_values m)" by (auto simp: map_values_iff)
      then have "caseID v = k"
        using mem [OF v] c coerce_case_inv(2) [of c] keyed_by_get [OF key c(1)] by (auto simp: storable_def)
      moreover have "v \<in> set ?cs" using v c(2) by simp
      ultimately show "map_of (map (\<lambda>c. (caseID c, c)) ?cs) k = Some v" using map_of_keyed [OF dist] by blast
    qed
    then show ?thesis by (rule option_eqI)
  qed
  then have get: "map_get (csByID st) = ?target" using st(4) by auto
  then have "map_get (csOpenByPrint st) = opn"
    using store_inv_index_unique [of ?target] st(3) target by metis
  moreover have "OpenCaseStore None None directory d = Inr st"
  proof -
    have "readJSONFile None (cases_path directory) case_state_fields zero_case_state d =
        Inr (Some \<lparr>stVersion = caseStateVersion, stCases = ?cs\<rparr>)"
      by (rule read_back, rule assms(4)) (simp add: saved_cases_def dec_case_state)
    then show ?thesis
      using st(1) assms(1) by (simp add: OpenCaseStore_def ensureDataDirectory_def Let_def cases_path_def)
  qed
  ultimately show ?thesis using st(2) get by blast
qed

subsection \<open>Durability\<close>

lemma event_eq_refl [simp]: "event_eq e e"
  by (simp add: event_eq_def)

lemma case_eq_refl [simp]: "case_eq c c"
  by (simp add: case_eq_def list.rel_refl)

text \<open>A process that starts on this disk gets these cases and this index.\<close>

definition reopens :: "string \<Rightarrow> disk \<Rightarrow> abs_store \<Rightarrow> bool" where
  "reopens directory d = (\<lambda>(cases, opn). \<exists>st. OpenCaseStore None None directory d = Inr st \<and>
     csPath st = cases_path directory \<and>
     store_inv (store_of st) \<and> all_storable (map_get (csByID st)) \<and>
     (\<forall>cid. rel_option case_eq (map_get (csByID st) cid) (cases cid)) \<and> map_get (csOpenByPrint st) = opn)"

lemma open_cong: "d (cases_path directory) = d' (cases_path directory) \<Longrightarrow>
    OpenCaseStore mk opn directory d = OpenCaseStore mk opn directory d'"
  by (auto simp: OpenCaseStore_def ensureDataDirectory_def readJSONFile_def cases_path_def Let_def
      split: option.splits sum.splits)

lemma reopens_cong:
  assumes "d (cases_path directory) = d' (cases_path directory)"
  shows "reopens directory d = reopens directory d'"
  unfolding reopens_def open_cong [of d directory d', OF assms] ..

lemma set_AList_update: "set (AList.update k v xs) \<subseteq> insert (k, v) (set xs)"
  by (induction xs) auto

lemma coerce_strmap_valid: "valid_attributes (Some (coerce_strmap m))"
proof -
  have "valid_attributes (Some (fold (\<lambda>(k, v). map_set (coerce k) (coerce v)) kvs m))"
    if "valid_attributes (Some m)" for kvs m
    using that
  proof (induction kvs arbitrary: m)
    case (Cons kv kvs)
    obtain k v where kv: "kv = (k, v)" by fastforce
    have "valid_attributes (Some (map_set (coerce k) (coerce v) m))"
      using Cons.prems set_AList_update [of "coerce k" "coerce v" "map_entries m"]
      by (auto simp: valid_attributes_def list_all_iff)
    then show ?case using Cons.IH kv by simp
  qed simp
  then show ?thesis by (simp add: coerce_strmap_def valid_attributes_def [of "Some map_new"])
qed

lemma coerce_storable:
  assumes "case_inv c" "storable c"
  shows "storable (coerce_case c)"
proof -
  have "valid_event (coerce_event e)" for e
    by (auto simp: valid_event_def coerce_event_def coerce_attributes_def coerce_strmap_valid
        valid_attributes_def [of None] split: option.splits)
  then show ?thesis
    using assms by (auto simp: storable_def valid_case_def coerce_case_def coerce_incident_def valid_incident_def list_all_iff)
qed

lemma reopens_saved:
  assumes "directory \<noteq> []" "store_inv (map_get m, opn)" "all_storable (map_get m)"
    and "d (cases_path directory) = Some [Doc (saved_cases m)]"
  shows "reopens directory d (map_get m, opn)"
proof -
  obtain st where st: "OpenCaseStore None None directory d = Inr st" "csPath st = cases_path directory"
      "map_get (csByID st) = map_option coerce_case \<circ> map_get m" "map_get (csOpenByPrint st) = opn"
    using open_saved [where d = d and directory = directory, OF assms] by blast
  have "rel_option case_eq (map_option coerce_case (map_get m cid)) (map_get m cid)" for cid
  proof (cases "map_get m cid")
    case (Some c)
    then have "valid_case c" using assms(3) by (simp add: all_storable_def storable_def)
    then show ?thesis using Some by (simp add: coerce_case_eq)
  qed simp
  moreover have "store_inv (store_of st)"
    using coerce_store_inv [OF assms(2,3)] st(3,4) by simp
  moreover have "all_storable (map_get (csByID st))"
    using assms(2,3) st(3) coerce_storable by (auto simp: all_storable_def dest: store_inv_case)
  ultimately show ?thesis using st by (simp add: reopens_def)
qed

lemma persist_disk:
  assumes "CaseStore_persist s m w = (r, w')" "csPath s = cases_path directory"
  shows "r = None \<Longrightarrow> wDisk w' (cases_path directory) = Some [Doc (saved_cases m)]"
    "r \<noteq> None \<Longrightarrow> wDisk w' (cases_path directory) = wDisk w (cases_path directory)"
proof -
  obtain r0 where "write_file (cases_path directory) (saved_cases m) w = (r0, w')"
      "r = map_option (ErrWrap ''persist Case state: '') r0"
    using assms by (auto simp: CaseStore_persist_def split: prod.splits)
  note this(2) write_file_cases [OF this(1) cases_path_temp]
  then show "r = None \<Longrightarrow> wDisk w' (cases_path directory) = Some [Doc (saved_cases m)]"
    "r \<noteq> None \<Longrightarrow> wDisk w' (cases_path directory) = wDisk w (cases_path directory)"
    by (metis option.distinct(1) option.map_disc_iff)+
qed

text \<open>
  After every call, failed or not, the disk reopens to exactly the state in memory: an answer is
  given only for what a restart would know, and a failed write leaves no trace in either.
\<close>

lemma ApplyEvent_durable:
  assumes "directory \<noteq> []" "csPath s = cases_path directory" "lcs_inv (s, w)"
    and "reopens directory (wDisk w) (lcs_abs (s, w))"
    and "CaseStore_ApplyEvent ctx event now gen (s, w) = (r, s', w')"
    and "all_storable (map_get (csByID s'))"
  shows "reopens directory (wDisk w') (lcs_abs (s', w')) \<and> csPath s' = cases_path directory"
proof (cases ctx)
  case (Some err)
  then show ?thesis using assms by (simp add: CaseStore_ApplyEvent_def)
next
  case None
  have inv': "lcs_inv (s', w')" using lcs.apply_inv [OF assms(3,5)] .
  show ?thesis
    using assms(3) assms(5) [unfolded None]
  proof (cases rule: CaseStore_cases)
    case same
    then show ?thesis using assms by simp
  next
    case (failed err m)
    then have "wDisk w' (cases_path directory) = wDisk w (cases_path directory)"
      using persist_disk(2) [OF failed(2) assms(2)] by simp
    from reopens_cong [of "wDisk w'" directory "wDisk w", OF this] show ?thesis
      using failed(1) assms(2,4) by (simp add: lcs_abs_def)
  next
    case saved
    have "wDisk w' (cases_path directory) = Some [Doc (saved_cases (csByID s'))]"
      using persist_disk(1) [OF saved(1) assms(2)] by simp
    then have "reopens directory (wDisk w') (map_get (csByID s'), map_get (csOpenByPrint s'))"
      using reopens_saved [where d = "wDisk w'" and directory = directory, OF assms(1) _ assms(6)] inv'
      by (simp add: lcs_inv_def lcs_abs_def)
    then show ?thesis using saved(2) assms(2) by (simp add: lcs_abs_def)
  qed
qed

text \<open>A crash at any point of the write leaves the old state or the new one.\<close>

lemma persist_crash:
  assumes "directory \<noteq> []" "csPath s = cases_path directory" "reopens directory (wDisk w) old"
    and "store_inv (map_get m, opn)" "all_storable (map_get m)"
    and "writeJSONAtomic env (csPath s) (saved_cases m) (wDisk w) = (r, ds)" "d \<in> set ds"
  shows "reopens directory d old \<or> reopens directory d (map_get m, opn)"
proof -
  have "d (cases_path directory) = wDisk w (cases_path directory) \<or>
      d (cases_path directory) = Some [Doc (saved_cases m)]"
    using writeJSONAtomic_trace [OF assms(6) _ assms(7)] assms(2) by auto
  then show ?thesis
  proof
    assume "d (cases_path directory) = wDisk w (cases_path directory)"
    from reopens_cong [of d directory "wDisk w", OF this] show ?thesis using assms(3) by simp
  next
    assume "d (cases_path directory) = Some [Doc (saved_cases m)]"
    then show ?thesis using reopens_saved [where d = d and directory = directory, OF assms(1,4,5)] by simp
  qed
qed

subsection \<open>Storable cases stay storable\<close>

lemma valid_event_Normalize: "valid_event e \<Longrightarrow> valid_event (Normalize e)"
  by (simp add: valid_event_def valid_string_TrimSpace valid_string_ToLower)

lemma valid_status [simp]:
  "valid_string StatusPendingInvestigation" "valid_string StatusInvestigating" "valid_string StatusResolved"
  "valid_string StatusClosed"
  by (simp_all add: status_defs valid_string_ascii)

lemma New_valid:
  assumes "Incident_New event = Inr i" "valid_event event"
  shows "valid_incident i"
proof -
  have "valid_event (Normalize event)" using assms(2) by (rule valid_event_Normalize)
  then show ?thesis
    using assms(1) by (auto simp: Incident_New_def Let_def valid_incident_def valid_event_def split: option.splits)
qed

lemma Apply_valid:
  assumes "Incident_Apply i event = Inr (changed, i')" "valid_incident i" "valid_event event"
  shows "valid_incident i'"
  using assms(1)
proof (cases rule: Apply_ok_cases)
  case replayed
  then show ?thesis using assms(2) by simp
next
  case recorded
  have "valid_event (Normalize event)" using assms(3) by (rule valid_event_Normalize)
  then show ?thesis
    using assms(2) recorded(2) by (auto simp: valid_incident_def record_occurrence_def valid_event_def)
qed

lemma apply_spec_storable:
  assumes "store_inv (cases, opn)" "apply_spec event now gen (cases, opn) = (r, cases', opn')" "all_storable cases"
    and "valid_event event" "\<not> IsZero now" "\<And>cid. gen now = Inr cid \<Longrightarrow> valid_string cid"
    and "\<And>cid c. cases cid = Some c \<Longrightarrow> caseRevision c + 1 \<noteq> 0"
  shows "all_storable cases'"
  using assms(1,2)
proof (cases rule: apply_spec_cases)
  case (updated cid c i)
  have c: "storable c" "caseRevision c + 1 \<noteq> 0"
    using assms(3,7) updated(2) by (auto simp: all_storable_def)
  have "valid_incident i"
    using Apply_valid [OF updated(3)] c(1) assms(4) by (simp add: storable_def valid_case_def)
  then have "storable (bump_case c i now)"
    using c assms(5) by (auto simp: storable_def valid_case_def bump_case_def)
  then show ?thesis using updated(5) assms(3) by (auto simp: all_storable_def)
next
  case (created cid i)
  have "valid_incident i" using New_valid [OF created(2) assms(4)] .
  then have "storable (new_case cid i now)"
    using assms(5) assms(6) [OF created(3)] by (auto simp: storable_def valid_case_def new_case_def)
  then show ?thesis using created(7) assms(3) by (auto simp: all_storable_def)
qed (use assms(3) in auto)

end
