(* ===== verification/Local_Outbox.thy ===== *)
theory Local_Outbox
  imports Local_Cases "HOL-Library.Product_Lexorder"
begin

text \<open>
  \<open>internal/investigation/outbox.go\<close> and \<open>internal/storage/local/outbox.go\<close>: the durable queue of
  investigation tasks.

  The operations follow the shape of the case store: they work on a copy of the task map, persist it
  and then install it. \<open>LeaseNext\<close> takes what \<open>rand.Read\<close> returns as an argument. The state is the
  outbox together with the disk.

  \<open>outbox_inv\<close> is what \<open>validateTask\<close> checks on load, kept by every operation under the condition
  that the clock readings are not the zero time; the lease lemmas say who may complete or retry a
  task.
\<close>

subsection \<open>Tasks\<close>

type_synonym TaskStatus = string

definition TaskPending :: TaskStatus where
  "TaskPending = ''pending''"

definition TaskLeased :: TaskStatus where
  "TaskLeased = ''leased''"

lemmas task_status [go_simps] = TaskPending_def TaskLeased_def

record Task =
  tkID :: string
  tkCaseID :: string
  tkCaseRevision :: u64
  tkStatus :: TaskStatus
  tkAttempts :: u32
  tkAvailableAt :: gotime
  tkLeaseOwner :: string
  tkLeaseToken :: string
  tkLeaseUntil :: gotime
  tkLeasedRevision :: u64
  tkLastError :: string
  tkCreatedAt :: gotime
  tkUpdatedAt :: gotime

definition zero_task :: Task where
  "zero_task = \<lparr>tkID = [], tkCaseID = [], tkCaseRevision = 0, tkStatus = [], tkAttempts = 0,
     tkAvailableAt = time_zero, tkLeaseOwner = [], tkLeaseToken = [], tkLeaseUntil = time_zero,
     tkLeasedRevision = 0, tkLastError = [], tkCreatedAt = time_zero, tkUpdatedAt = time_zero\<rparr>"

text \<open>\<open>omitempty\<close> has no effect on \<open>lease_until\<close>: a struct is never empty.\<close>

definition task_json :: "Task \<Rightarrow> json" where
  "task_json t = JObject (
     member ''id'' (enc_string (tkID t)) @
     member ''case_id'' (enc_string (tkCaseID t)) @
     member ''case_revision'' (JNumber (uint (tkCaseRevision t))) @
     member ''status'' (enc_string (tkStatus t)) @
     member ''attempts'' (JNumber (uint (tkAttempts t))) @
     member ''available_at'' (enc_time (tkAvailableAt t)) @
     omitempty ''lease_owner'' (tkLeaseOwner t \<noteq> []) (enc_string (tkLeaseOwner t)) @
     omitempty ''lease_token'' (tkLeaseToken t \<noteq> []) (enc_string (tkLeaseToken t)) @
     member ''lease_until'' (enc_time (tkLeaseUntil t)) @
     omitempty ''leased_revision'' (tkLeasedRevision t \<noteq> 0) (JNumber (uint (tkLeasedRevision t))) @
     omitempty ''last_error'' (tkLastError t \<noteq> []) (enc_string (tkLastError t)) @
     member ''created_at'' (enc_time (tkCreatedAt t)) @
     member ''updated_at'' (enc_time (tkUpdatedAt t)))"

definition task_fields :: "Task fields" where
  "task_fields =
     [(''id'', set_string (\<lambda>s t. t\<lparr>tkID := s\<rparr>)),
      (''case_id'', set_string (\<lambda>s t. t\<lparr>tkCaseID := s\<rparr>)),
      (''case_revision'', set_int 0 18446744073709551616 (\<lambda>n t. t\<lparr>tkCaseRevision := of_int n\<rparr>)),
      (''status'', set_string (\<lambda>s t. t\<lparr>tkStatus := s\<rparr>)),
      (''attempts'', set_int 0 4294967296 (\<lambda>n t. t\<lparr>tkAttempts := of_int n\<rparr>)),
      (''available_at'', set_time (\<lambda>s t. t\<lparr>tkAvailableAt := s\<rparr>)),
      (''lease_owner'', set_string (\<lambda>s t. t\<lparr>tkLeaseOwner := s\<rparr>)),
      (''lease_token'', set_string (\<lambda>s t. t\<lparr>tkLeaseToken := s\<rparr>)),
      (''lease_until'', set_time (\<lambda>s t. t\<lparr>tkLeaseUntil := s\<rparr>)),
      (''leased_revision'', set_int 0 18446744073709551616 (\<lambda>n t. t\<lparr>tkLeasedRevision := of_int n\<rparr>)),
      (''last_error'', set_string (\<lambda>s t. t\<lparr>tkLastError := s\<rparr>)),
      (''created_at'', set_time (\<lambda>s t. t\<lparr>tkCreatedAt := s\<rparr>)),
      (''updated_at'', set_time (\<lambda>s t. t\<lparr>tkUpdatedAt := s\<rparr>))]"

definition dec_task :: "json \<Rightarrow> error + Task" where
  "dec_task v = dec_struct task_fields v zero_task"

definition outboxStateVersion :: int where
  "outboxStateVersion = 1"

record outboxDiskState =
  obVersion :: int
  obTasks :: "Task list"

definition outbox_state_json :: "outboxDiskState \<Rightarrow> json" where
  "outbox_state_json st = JObject (
     member ''version'' (JNumber (obVersion st)) @
     member ''tasks'' (JArray (map task_json (obTasks st))))"

definition outbox_state_fields :: "outboxDiskState fields" where
  "outbox_state_fields =
     [(''version'', set_int (- 9223372036854775808) 9223372036854775808 (\<lambda>n st. st\<lparr>obVersion := n\<rparr>)),
      (''tasks'', set_list dec_task (\<lambda>ts st. st\<lparr>obTasks := ts\<rparr>))]"

definition zero_outbox_state :: outboxDiskState where
  "zero_outbox_state = \<lparr>obVersion = 0, obTasks = []\<rparr>"

record InvestigationOutbox =
  ioPath :: path
  ioTasks :: "(string, Task) gomap"

subsection \<open>Identity and validation\<close>

definition taskID :: "string \<Rightarrow> string" where
  "taskID cid =
     (let digest = sha256_Sum256 (bytes_of (''rootforge-investigation-v1'' @ [CHR 0x00] @ cid))
      in ''INV-'' @ hex_encode (take 16 digest))"

definition validateTask :: "Task \<Rightarrow> error option" where
  "validateTask task =
     (if tkID task = [] \<or> tkCaseID task = [] \<or> tkCaseRevision task = 0 then
        Some (ErrNew ''task ID, Case ID, and revision are required'')
      else if IsZero (tkCreatedAt task) \<or> IsZero (tkUpdatedAt task) \<or> IsZero (tkAvailableAt task) then
        Some (ErrNew (''task '' @ Quote (tkID task) @ '' has incomplete timestamps''))
      else if tkID task \<noteq> taskID (tkCaseID task) then
        Some (ErrNew (''task '' @ Quote (tkID task) @ '' does not match its Case ID''))
      else if tkStatus task \<noteq> TaskPending \<and> tkStatus task \<noteq> TaskLeased then
        Some (ErrNew (''task '' @ Quote (tkID task) @ '' has unsupported status '' @ Quote (tkStatus task)))
      else if tkStatus task = TaskLeased then
        (if tkLeaseToken task = [] \<or> tkLeaseOwner task = [] \<or> IsZero (tkLeaseUntil task) \<or>
            tkLeasedRevision task = 0 \<or> tkLeasedRevision task > tkCaseRevision task
         then Some (ErrNew (''task '' @ Quote (tkID task) @ '' has incomplete lease state'')) else None)
      else if tkLeaseToken task \<noteq> [] \<or> tkLeaseOwner task \<noteq> [] \<or> \<not> IsZero (tkLeaseUntil task) \<or>
            tkLeasedRevision task \<noteq> 0
         then Some (ErrNew (''task '' @ Quote (tkID task) @ '' has lease state while pending'')) else None)"

definition randomLeaseToken :: "error + nat list \<Rightarrow> error + string" where
  "randomLeaseToken rnd =
     (case rnd of
        Inl err \<Rightarrow> Inl (ErrWrap ''generate investigation lease token: '' err)
      | Inr token \<Rightarrow> Inr (hex_encode token))"

definition clearLease :: "Task \<Rightarrow> Task" where
  "clearLease task = task\<lparr>tkLeaseOwner := [], tkLeaseToken := [], tkLeaseUntil := time_zero, tkLeasedRevision := 0\<rparr>"

definition cloneTasks :: "(string, Task) gomap \<Rightarrow> (string, Task) gomap" where
  "cloneTasks source = map_copy (\<lambda>value. value) source"

definition truncate :: "string \<Rightarrow> nat \<Rightarrow> string" where
  "truncate value maximum = (if length value \<le> maximum then value else take maximum value)"

subsection \<open>Opening\<close>

fun load_tasks :: "Task list \<Rightarrow> InvestigationOutbox \<Rightarrow> error + InvestigationOutbox" where
  "load_tasks [] outbox = Inr outbox"
| "load_tasks (task # rest) outbox =
     (case validateTask task of
        Some err \<Rightarrow> Inl (ErrWrap ''load investigation Outbox: '' err)
      | None \<Rightarrow>
          if map_get (ioTasks outbox) (tkID task) \<noteq> None then
            Inl (ErrNew (''load investigation Outbox: duplicate task ID '' @ Quote (tkID task)))
          else load_tasks rest (outbox\<lparr>ioTasks := map_set (tkID task) task (ioTasks outbox)\<rparr>))"

definition OpenInvestigationOutbox ::
  "error option \<Rightarrow> error option \<Rightarrow> string \<Rightarrow> disk \<Rightarrow> error + InvestigationOutbox" where
  "OpenInvestigationOutbox mkdirAll openErr directory d =
     (case ensureDataDirectory mkdirAll directory of
        Inl err \<Rightarrow> Inl err
      | Inr directory \<Rightarrow>
          (let outbox = \<lparr>ioPath = (directory, ''investigation-outbox.v1.json''), ioTasks = map_new\<rparr>
           in case readJSONFile openErr (ioPath outbox) outbox_state_fields zero_outbox_state d of
                Inl err \<Rightarrow> Inl err
              | Inr None \<Rightarrow> Inr outbox
              | Inr (Some state) \<Rightarrow>
                  if obVersion state \<noteq> outboxStateVersion then
                    Inl (ErrNew (''load investigation Outbox: unsupported version '' @ Itoa (obVersion state)))
                  else load_tasks (obTasks state) outbox))"

subsection \<open>Operations\<close>

type_synonym io = "InvestigationOutbox \<times> world"

definition saved_tasks :: "(string, Task) gomap \<Rightarrow> json" where
  "saved_tasks tasks = outbox_state_json \<lparr>obVersion = outboxStateVersion,
     obTasks = sort_key tkID (map_values tasks)\<rparr>"

definition Outbox_persist :: "InvestigationOutbox \<Rightarrow> (string, Task) gomap \<Rightarrow> world \<Rightarrow> error option \<times> world" where
  "Outbox_persist ob tasks w =
     (case write_file (ioPath ob) (saved_tasks tasks) w of
        (r, w') \<Rightarrow> (map_option (ErrWrap ''persist investigation Outbox: '') r, w'))"

text \<open>The end of every operation that changes the queue: persist, then install the map.\<close>

definition Outbox_install :: "(string, Task) gomap \<Rightarrow> 'a \<Rightarrow> io \<Rightarrow> (error + 'a) \<times> io" where
  "Outbox_install nextTasks result = (\<lambda>(ob, w).
     (case Outbox_persist ob nextTasks w of
        (Some err, w') \<Rightarrow> (Inl err, ob, w')
      | (None, w') \<Rightarrow> (Inr result, ob\<lparr>ioTasks := nextTasks\<rparr>, w')))"

definition new_task :: "string \<Rightarrow> string \<Rightarrow> u64 \<Rightarrow> gotime \<Rightarrow> Task" where
  "new_task tid cid revision now = zero_task\<lparr>tkID := tid, tkCaseID := cid, tkCaseRevision := revision,
     tkStatus := TaskPending, tkAvailableAt := UTC now, tkCreatedAt := UTC now, tkUpdatedAt := UTC now\<rparr>"

definition raise_task :: "u64 \<Rightarrow> gotime \<Rightarrow> Task \<Rightarrow> Task" where
  "raise_task revision now current = current\<lparr>tkCaseRevision := revision, tkUpdatedAt := UTC now\<rparr>"

definition EnsurePending :: "ctx \<Rightarrow> string \<Rightarrow> u64 \<Rightarrow> gotime \<Rightarrow> io \<Rightarrow> (error + (Task \<times> bool)) \<times> io" where
  "EnsurePending ctx cid revision now = (\<lambda>(ob, w).
     (case ctx of
        Some err \<Rightarrow> (Inl err, ob, w)
      | None \<Rightarrow>
          if cid = [] \<or> revision = 0 then
            (Inl (ErrNew ''ensure investigation task: Case ID and revision are required''), ob, w)
          else
            (let tid = taskID cid
             in case map_get (ioTasks ob) tid of
                  Some current \<Rightarrow>
                    if tkCaseID current \<noteq> cid then
                      (Inl (ErrNew ''ensure investigation task: task ID collision''), ob, w)
                    else if revision \<le> tkCaseRevision current then (Inr (current, False), ob, w)
                    else
                      (let current' = raise_task revision now current
                       in Outbox_install (map_set tid current' (cloneTasks (ioTasks ob))) (current', True) (ob, w))
                | None \<Rightarrow>
                    (let created = new_task tid cid revision now
                     in Outbox_install (map_set tid created (cloneTasks (ioTasks ob))) (created, True) (ob, w)))))"

definition eligible :: "gotime \<Rightarrow> Task \<Rightarrow> bool" where
  "eligible now task \<longleftrightarrow>
     tkStatus task = TaskPending \<and> \<not> After (tkAvailableAt task) now \<or>
     tkStatus task = TaskLeased \<and> \<not> After (tkLeaseUntil task) now"

text \<open>The order of \<open>sort.Slice\<close>: by availability, then by ID.\<close>

definition lease_order :: "Task \<Rightarrow> int \<times> string" where
  "lease_order task = (instant (tkAvailableAt task), tkID task)"

definition lease_task :: "string \<Rightarrow> string \<Rightarrow> gotime \<Rightarrow> int \<Rightarrow> Task \<Rightarrow> Task" where
  "lease_task owner token now duration task = task\<lparr>
     tkStatus := TaskLeased,
     tkAttempts := tkAttempts task + 1,
     tkLeaseOwner := owner,
     tkLeaseToken := token,
     tkLeaseUntil := Add (UTC now) duration,
     tkLeasedRevision := tkCaseRevision task,
     tkUpdatedAt := UTC now\<rparr>"

definition LeaseNext ::
  "error + nat list \<Rightarrow> ctx \<Rightarrow> string \<Rightarrow> gotime \<Rightarrow> int \<Rightarrow> io \<Rightarrow> (error + Task) \<times> io" where
  "LeaseNext rnd ctx owner0 now duration = (\<lambda>(ob, w).
     (case ctx of
        Some err \<Rightarrow> (Inl err, ob, w)
      | None \<Rightarrow>
          (let owner = TrimSpace owner0
           in if owner = [] \<or> duration \<le> 0 then
                (Inl (ErrNew ''lease investigation task: owner and positive duration are required''), ob, w)
              else
                (case sort_key lease_order (filter (eligible now) (map_values (ioTasks ob))) of
                   [] \<Rightarrow> (Inl ErrNoTask, ob, w)
                 | first # _ \<Rightarrow>
                     (case randomLeaseToken rnd of
                        Inl err \<Rightarrow> (Inl err, ob, w)
                      | Inr token \<Rightarrow>
                          (let leased = lease_task owner token now duration first
                           in Outbox_install (map_set (tkID leased) leased (cloneTasks (ioTasks ob))) leased (ob, w)))))))"

definition ownedLease :: "InvestigationOutbox \<Rightarrow> string \<Rightarrow> string \<Rightarrow> gotime \<Rightarrow> error + Task" where
  "ownedLease ob tid token now =
     (case map_get (ioTasks ob) tid of
        None \<Rightarrow> Inl ErrTaskNotFound
      | Some current \<Rightarrow>
          if tkStatus current \<noteq> TaskLeased \<or> token = [] \<or> tkLeaseToken current \<noteq> token \<or>
             \<not> After (tkLeaseUntil current) now
          then Inl ErrLeaseConflict else Inr current)"

definition requeue :: "gotime \<Rightarrow> Task \<Rightarrow> Task" where
  "requeue now current = (clearLease (current\<lparr>tkStatus := TaskPending, tkAvailableAt := UTC now\<rparr>))\<lparr>tkUpdatedAt := UTC now\<rparr>"

definition Complete :: "ctx \<Rightarrow> string \<Rightarrow> string \<Rightarrow> gotime \<Rightarrow> io \<Rightarrow> (error + unit) \<times> io" where
  "Complete ctx tid leaseToken now = (\<lambda>(ob, w).
     (case ctx of
        Some err \<Rightarrow> (Inl err, ob, w)
      | None \<Rightarrow>
          (case ownedLease ob tid leaseToken now of
             Inl err \<Rightarrow> (Inl err, ob, w)
           | Inr current \<Rightarrow>
               (let nextTasks = cloneTasks (ioTasks ob)
                in if tkCaseRevision current > tkLeasedRevision current
                   then Outbox_install (map_set tid (requeue now current) nextTasks) () (ob, w)
                   else Outbox_install (map_del tid nextTasks) () (ob, w)))))"

definition retry_task :: "gotime \<Rightarrow> gotime \<Rightarrow> string \<Rightarrow> Task \<Rightarrow> Task" where
  "retry_task now availableAt failure current =
     (clearLease (current\<lparr>tkStatus := TaskPending, tkAvailableAt := UTC availableAt,
        tkLastError := truncate (TrimSpace failure) 2048\<rparr>))\<lparr>tkUpdatedAt := UTC now\<rparr>"

definition Retry :: "ctx \<Rightarrow> string \<Rightarrow> string \<Rightarrow> gotime \<Rightarrow> gotime \<Rightarrow> string \<Rightarrow> io \<Rightarrow> (error + unit) \<times> io" where
  "Retry ctx tid leaseToken now availableAt failure = (\<lambda>(ob, w).
     (case ctx of
        Some err \<Rightarrow> (Inl err, ob, w)
      | None \<Rightarrow>
          (case ownedLease ob tid leaseToken now of
             Inl err \<Rightarrow> (Inl err, ob, w)
           | Inr current \<Rightarrow>
               Outbox_install (map_set tid (retry_task now availableAt failure current) (cloneTasks (ioTasks ob))) () (ob, w))))"

definition Outbox_List :: "ctx \<Rightarrow> io \<Rightarrow> error + Task list" where
  "Outbox_List ctx = (\<lambda>(ob, w).
     (case ctx of Some err \<Rightarrow> Inl err | None \<Rightarrow> Inr (sort_key tkID (map_values (ioTasks ob)))))"

subsection \<open>The life of one task\<close>

text \<open>
  What an operation may do to the task of one case. The clock readings that a step uses are not the
  zero time, and a lease ends after the zero time.
\<close>

inductive task_step :: "Task option \<Rightarrow> Task option \<Rightarrow> bool" where
  created: "cid \<noteq> [] \<Longrightarrow> revision \<noteq> 0 \<Longrightarrow> \<not> IsZero now \<Longrightarrow>
    task_step None (Some (new_task (taskID cid) cid revision now))"
| raised: "revision > tkCaseRevision t \<Longrightarrow> \<not> IsZero now \<Longrightarrow> task_step (Some t) (Some (raise_task revision now t))"
| leased: "eligible now t \<Longrightarrow> owner \<noteq> [] \<Longrightarrow> token \<noteq> [] \<Longrightarrow> \<not> IsZero now \<Longrightarrow> \<not> IsZero (Add now duration) \<Longrightarrow>
    task_step (Some t) (Some (lease_task owner token now duration t))"
| requeued: "tkStatus t = TaskLeased \<Longrightarrow> tkCaseRevision t > tkLeasedRevision t \<Longrightarrow> \<not> IsZero now \<Longrightarrow>
    After (tkLeaseUntil t) now \<Longrightarrow> task_step (Some t) (Some (requeue now t))"
| completed: "tkStatus t = TaskLeased \<Longrightarrow> tkCaseRevision t \<le> tkLeasedRevision t \<Longrightarrow> After (tkLeaseUntil t) now \<Longrightarrow>
    task_step (Some t) None"
| retried: "tkStatus t = TaskLeased \<Longrightarrow> After (tkLeaseUntil t) now \<Longrightarrow> \<not> IsZero now \<Longrightarrow> \<not> IsZero availableAt \<Longrightarrow>
    task_step (Some t) (Some (retry_task now availableAt failure t))"

inductive_cases task_step_NoneE: "task_step None x"
inductive_cases task_step_goneE: "task_step (Some t) None"
inductive_cases task_step_SomeE: "task_step (Some t) (Some t')"

lemmas task_defs = new_task_def raise_task_def lease_task_def requeue_def retry_task_def clearLease_def zero_task_def

lemma task_fields_kept [simp]:
  "tkID (raise_task revision now t) = tkID t" "tkCaseID (raise_task revision now t) = tkCaseID t"
  "tkCaseRevision (raise_task revision now t) = revision"
  "tkID (lease_task owner token now duration t) = tkID t" "tkCaseID (lease_task owner token now duration t) = tkCaseID t"
  "tkCaseRevision (lease_task owner token now duration t) = tkCaseRevision t"
  "tkID (requeue now t) = tkID t" "tkCaseID (requeue now t) = tkCaseID t"
  "tkCaseRevision (requeue now t) = tkCaseRevision t"
  "tkID (retry_task now availableAt failure t) = tkID t" "tkCaseID (retry_task now availableAt failure t) = tkCaseID t"
  "tkCaseRevision (retry_task now availableAt failure t) = tkCaseRevision t"
  "tkID (new_task tid cid revision now) = tid" "tkCaseID (new_task tid cid revision now) = cid"
  "tkCaseRevision (new_task tid cid revision now) = revision"
  by (simp_all add: task_defs)

lemma hex_encode_ne: "bs \<noteq> [] \<Longrightarrow> hex_encode bs \<noteq> []"
  using length_hex_encode [of bs] by (cases "hex_encode bs") auto

lemma taskID_ne [simp]: "taskID cid \<noteq> []"
  by (simp add: taskID_def Let_def)

lemma status_distinct [simp]: "TaskPending \<noteq> TaskLeased" "TaskLeased \<noteq> TaskPending"
  by (simp_all add: task_status)

definition leased_ok :: "Task \<Rightarrow> bool" where
  "leased_ok t \<longleftrightarrow> tkStatus t = TaskLeased \<and> tkLeaseToken t \<noteq> [] \<and> tkLeaseOwner t \<noteq> [] \<and> \<not> IsZero (tkLeaseUntil t) \<and>
     tkLeasedRevision t \<noteq> 0 \<and> tkLeasedRevision t \<le> tkCaseRevision t"

definition pending_ok :: "Task \<Rightarrow> bool" where
  "pending_ok t \<longleftrightarrow> tkStatus t = TaskPending \<and> tkLeaseToken t = [] \<and> tkLeaseOwner t = [] \<and> IsZero (tkLeaseUntil t) \<and>
     tkLeasedRevision t = 0"

lemma validateTask_iff:
  "validateTask t = None \<longleftrightarrow> tkCaseID t \<noteq> [] \<and> tkCaseRevision t \<noteq> 0 \<and> tkID t = taskID (tkCaseID t) \<and>
     \<not> IsZero (tkCreatedAt t) \<and> \<not> IsZero (tkUpdatedAt t) \<and> \<not> IsZero (tkAvailableAt t) \<and> (leased_ok t \<or> pending_ok t)"
proof -
  have "tkID t = taskID (tkCaseID t) \<Longrightarrow> tkID t \<noteq> []" by simp
  then show ?thesis
    by (auto simp: validateTask_def leased_ok_def pending_ok_def not_less)
qed

lemma task_step_valid:
  assumes "task_step x y" "\<And>t. x = Some t \<Longrightarrow> validateTask t = None" "y = Some t'"
  shows "validateTask t' = None"
  using assms(1)
proof (cases rule: task_step.cases)
  case (created cid revision now)
  then show ?thesis using assms(3) by (simp add: validateTask_iff leased_ok_def pending_ok_def task_defs)
next
  case (raised revision t now)
  then have "validateTask t = None" "tkCaseRevision t < revision" using assms(2) by auto
  moreover from this have "revision \<noteq> 0" by auto
  ultimately show ?thesis
    using raised assms(3) by (auto simp: validateTask_iff leased_ok_def pending_ok_def task_defs)
next
  case (leased now t owner token duration)
  then have "validateTask t = None" using assms(2) by auto
  then show ?thesis
    using leased assms(3) by (simp add: validateTask_iff leased_ok_def pending_ok_def task_defs Add_def IsZero_def)
next
  case (requeued t now)
  then have "validateTask t = None" using assms(2) by auto
  then show ?thesis
    using requeued assms(3) by (simp add: validateTask_iff leased_ok_def pending_ok_def task_defs)
next
  case (retried t now availableAt failure)
  then have "validateTask t = None" using assms(2) by auto
  then show ?thesis
    using retried assms(3) by (simp add: validateTask_iff leased_ok_def pending_ok_def task_defs)
qed (use assms(3) in simp)

lemma task_step_identity:
  "task_step (Some t) (Some t') \<Longrightarrow> tkID t' = tkID t \<and> tkCaseID t' = tkCaseID t \<and> tkCreatedAt t' = tkCreatedAt t \<and>
     tkCaseRevision t \<le> tkCaseRevision t'"
  by (erule task_step_SomeE) (auto simp: task_defs)

subsection \<open>Operations are steps\<close>

definition io_tasks :: "io \<Rightarrow> (string \<rightharpoonup> Task)" where
  "io_tasks = (\<lambda>(ob, w). map_get (ioTasks ob))"

definition io_inv :: "io \<Rightarrow> bool" where
  "io_inv s \<longleftrightarrow> (\<forall>tid t. io_tasks s tid = Some t \<longrightarrow> tkID t = tid \<and> validateTask t = None)"

lemma io_tasks_pair [simp]: "io_tasks (ob, w) = map_get (ioTasks ob)"
  by (simp add: io_tasks_def)

lemma io_inv_get: "io_inv (ob, w) \<Longrightarrow> map_get (ioTasks ob) tid = Some t \<Longrightarrow> tkID t = tid \<and> validateTask t = None"
  by (auto simp: io_inv_def)

lemma io_inv_keyed: "io_inv (ob, w) \<Longrightarrow> keyed_by tkID (ioTasks ob)"
  by (rule keyed_byI) (simp add: io_inv_def)

lemma cloneTasks_id [simp]: "cloneTasks m = m"
  by (simp add: cloneTasks_def map_copy_id)

lemma map_get_set [simp]: "map_get (map_set k v m) = (map_get m)(k \<mapsto> v)"
  by (auto simp: fun_eq_iff lookup_update)

lemma map_get_del [simp]: "map_get (map_del k m) = (map_get m)(k := None)"
  by (auto simp: fun_eq_iff)

lemma install_cases:
  assumes "Outbox_install m x (ob, w) = (r, ob', w')"
  obtains (failed) err where "r = Inl err" "ob' = ob" "Outbox_persist ob m w = (Some err, w')"
  | (saved) "r = Inr x" "ob' = ob\<lparr>ioTasks := m\<rparr>" "Outbox_persist ob m w = (None, w')"
  using assms by (auto simp: Outbox_install_def split: prod.splits option.splits)

lemma ensure_cases:
  assumes "EnsurePending ctx cid revision now (ob, w) = (r, ob', w')"
  obtains (refused) err where "r = Inl err" "ob' = ob" "w' = w"
  | (present) t where "r = Inr (t, False)" "ob' = ob" "w' = w" "map_get (ioTasks ob) (taskID cid) = Some t"
      "tkCaseID t = cid" "revision \<le> tkCaseRevision t"
  | (raised) t where "map_get (ioTasks ob) (taskID cid) = Some t" "tkCaseID t = cid" "tkCaseRevision t < revision"
      "Outbox_install (map_set (taskID cid) (raise_task revision now t) (ioTasks ob))
         (raise_task revision now t, True) (ob, w) = (r, ob', w')"
  | (created) "map_get (ioTasks ob) (taskID cid) = None" "cid \<noteq> []" "revision \<noteq> 0"
      "Outbox_install (map_set (taskID cid) (new_task (taskID cid) cid revision now) (ioTasks ob))
         (new_task (taskID cid) cid revision now, True) (ob, w) = (r, ob', w')"
  using assms
  by (auto simp: EnsurePending_def Let_def not_le split: option.splits if_splits)

lemma lease_cases:
  assumes "LeaseNext rnd ctx owner now duration (ob, w) = (r, ob', w')"
  obtains (refused) err where "r = Inl err" "ob' = ob" "w' = w"
  | (leased) t rest bs where "TrimSpace owner \<noteq> []" "0 < duration" "rnd = Inr bs"
      "sort_key lease_order (filter (eligible now) (map_values (ioTasks ob))) = t # rest"
      "Outbox_install (map_set (tkID t) (lease_task (TrimSpace owner) (hex_encode bs) now duration t) (ioTasks ob))
         (lease_task (TrimSpace owner) (hex_encode bs) now duration t) (ob, w) = (r, ob', w')"
  using assms
  by (auto simp: LeaseNext_def Let_def randomLeaseToken_def lease_task_def
      split: option.splits if_splits list.splits sum.splits)

lemma owned_iff:
  "ownedLease ob tid token now = Inr t \<longleftrightarrow>
     map_get (ioTasks ob) tid = Some t \<and> tkStatus t = TaskLeased \<and> token \<noteq> [] \<and> tkLeaseToken t = token \<and>
     After (tkLeaseUntil t) now"
  by (auto simp: ownedLease_def split: option.splits if_splits)

lemma complete_cases:
  assumes "Complete ctx tid token now (ob, w) = (r, ob', w')"
  obtains (refused) err where "r = Inl err" "ob' = ob" "w' = w"
  | (requeued) t where "ownedLease ob tid token now = Inr t" "tkLeasedRevision t < tkCaseRevision t"
      "Outbox_install (map_set tid (requeue now t) (ioTasks ob)) () (ob, w) = (r, ob', w')"
  | (completed) t where "ownedLease ob tid token now = Inr t" "tkCaseRevision t \<le> tkLeasedRevision t"
      "Outbox_install (map_del tid (ioTasks ob)) () (ob, w) = (r, ob', w')"
  using assms
  by (auto simp: Complete_def Let_def not_less split: option.splits if_splits sum.splits)

lemma retry_cases:
  assumes "Retry ctx tid token now availableAt failure (ob, w) = (r, ob', w')"
  obtains (refused) err where "r = Inl err" "ob' = ob" "w' = w"
  | (retried) t where "ownedLease ob tid token now = Inr t"
      "Outbox_install (map_set tid (retry_task now availableAt failure t) (ioTasks ob)) () (ob, w) = (r, ob', w')"
  using assms by (auto simp: Retry_def split: option.splits sum.splits)

text \<open>The queue after an operation: nothing changed, or one task made one step.\<close>

definition queue_step :: "(string \<rightharpoonup> Task) \<Rightarrow> (string \<rightharpoonup> Task) \<Rightarrow> bool" where
  "queue_step m m' \<longleftrightarrow> m' = m \<or> (\<exists>tid x. task_step (m tid) x \<and> m' = m(tid := x) \<and> (\<forall>t. x = Some t \<longrightarrow> tkID t = tid))"

lemma queue_stepI: "task_step (m tid) x \<Longrightarrow> (\<And>t. x = Some t \<Longrightarrow> tkID t = tid) \<Longrightarrow> queue_step m (m(tid := x))"
  by (auto simp: queue_step_def)

lemma ensure_step:
  assumes "io_inv (ob, w)" "EnsurePending ctx cid revision now (ob, w) = (r, ob', w')" "\<not> IsZero now"
  shows "queue_step (map_get (ioTasks ob)) (map_get (ioTasks ob'))"
  using assms(2)
proof (cases rule: ensure_cases)
  case (raised t)
  have "tkID t = taskID cid" using io_inv_get [OF assms(1) raised(1)] by simp
  then have "queue_step (map_get (ioTasks ob)) ((map_get (ioTasks ob))(taskID cid := Some (raise_task revision now t)))"
    using raised(1,3) assms(3) by (intro queue_stepI) (auto intro: task_step.raised)
  with raised(4) show ?thesis by (cases rule: install_cases) (auto simp: queue_step_def)
next
  case created
  have "queue_step (map_get (ioTasks ob))
      ((map_get (ioTasks ob))(taskID cid := Some (new_task (taskID cid) cid revision now)))"
    using created(1-3) assms(3) by (intro queue_stepI) (auto intro: task_step.created)
  with created(4) show ?thesis by (cases rule: install_cases) (auto simp: queue_step_def)
qed (auto simp: queue_step_def)

lemma lease_chosen:
  assumes "io_inv (ob, w)" "sort_key lease_order (filter (eligible now) (map_values (ioTasks ob))) = t # rest"
  shows "map_get (ioTasks ob) (tkID t) = Some t" "eligible now t"
    "\<And>u. map_get (ioTasks ob) (tkID u) = Some u \<Longrightarrow> eligible now u \<Longrightarrow> lease_order t \<le> lease_order u"
proof -
  have mem: "set (t # rest) = {u \<in> set (map_values (ioTasks ob)). eligible now u}"
    using arg_cong [OF assms(2), of set] by auto
  then show "eligible now t" by auto
  have "t \<in> set (map_values (ioTasks ob))" using mem by auto
  then show "map_get (ioTasks ob) (tkID t) = Some t"
    using io_inv_get [OF assms(1)] by (auto simp: map_values_iff)
  have sorted: "sorted (map lease_order (t # rest))"
    using sorted_sort_key [of lease_order "filter (eligible now) (map_values (ioTasks ob))"] assms(2) by simp
  show "lease_order t \<le> lease_order u" if "map_get (ioTasks ob) (tkID u) = Some u" "eligible now u" for u
  proof -
    have "u \<in> set (t # rest)" using that map_values_getI mem by fastforce
    then show ?thesis using sorted by auto
  qed
qed

lemma lease_step:
  assumes "io_inv (ob, w)" "LeaseNext rnd ctx owner now duration (ob, w) = (r, ob', w')"
    and "\<not> IsZero now" "\<not> IsZero (Add now duration)" "rnd \<noteq> Inr []"
  shows "queue_step (map_get (ioTasks ob)) (map_get (ioTasks ob'))"
  using assms(2)
proof (cases rule: lease_cases)
  case (leased t rest bs)
  have "bs \<noteq> []" using leased(3) assms(5) by auto
  have "queue_step (map_get (ioTasks ob))
      ((map_get (ioTasks ob))(tkID t := Some (lease_task (TrimSpace owner) (hex_encode bs) now duration t)))"
    using lease_chosen(1,2) [OF assms(1) leased(4)] leased(1) assms(3,4) hex_encode_ne [OF \<open>bs \<noteq> []\<close>]
    by (intro queue_stepI) (auto intro: task_step.leased)
  with leased(5) show ?thesis by (cases rule: install_cases) (auto simp: queue_step_def)
qed (simp add: queue_step_def)

lemma complete_step:
  assumes "io_inv (ob, w)" "Complete ctx tid token now (ob, w) = (r, ob', w')" "\<not> IsZero now"
  shows "queue_step (map_get (ioTasks ob)) (map_get (ioTasks ob'))"
  using assms(2)
proof (cases rule: complete_cases)
  case (requeued t)
  have t: "map_get (ioTasks ob) tid = Some t" "tkStatus t = TaskLeased" "After (tkLeaseUntil t) now"
    using requeued(1) by (auto simp: owned_iff)
  have "queue_step (map_get (ioTasks ob)) ((map_get (ioTasks ob))(tid := Some (requeue now t)))"
    using io_inv_get [OF assms(1) t(1)] t requeued(2) assms(3)
    by (intro queue_stepI) (auto intro: task_step.requeued)
  with requeued(3) show ?thesis by (cases rule: install_cases) (auto simp: queue_step_def)
next
  case (completed t)
  have t: "map_get (ioTasks ob) tid = Some t" "tkStatus t = TaskLeased" "After (tkLeaseUntil t) now"
    using completed(1) by (auto simp: owned_iff)
  have "queue_step (map_get (ioTasks ob)) ((map_get (ioTasks ob))(tid := None))"
    using t completed(2) by (intro queue_stepI) (auto intro: task_step.completed)
  with completed(3) show ?thesis by (cases rule: install_cases) (auto simp: queue_step_def)
qed (simp add: queue_step_def)

lemma retry_step:
  assumes "io_inv (ob, w)" "Retry ctx tid token now availableAt failure (ob, w) = (r, ob', w')"
    and "\<not> IsZero now" "\<not> IsZero availableAt"
  shows "queue_step (map_get (ioTasks ob)) (map_get (ioTasks ob'))"
  using assms(2)
proof (cases rule: retry_cases)
  case (retried t)
  have t: "map_get (ioTasks ob) tid = Some t" "tkStatus t = TaskLeased" "After (tkLeaseUntil t) now"
    using retried(1) by (auto simp: owned_iff)
  have "queue_step (map_get (ioTasks ob)) ((map_get (ioTasks ob))(tid := Some (retry_task now availableAt failure t)))"
    using io_inv_get [OF assms(1) t(1)] t assms(3,4)
    by (intro queue_stepI) (auto intro: task_step.retried)
  with retried(2) show ?thesis by (cases rule: install_cases) (auto simp: queue_step_def)
qed (simp add: queue_step_def)

lemma queue_step_inv:
  assumes "queue_step m m'" "\<forall>tid t. m tid = Some t \<longrightarrow> tkID t = tid \<and> validateTask t = None"
  shows "\<forall>tid t. m' tid = Some t \<longrightarrow> tkID t = tid \<and> validateTask t = None"
proof -
  from assms(1) consider "m' = m" | tid x where "task_step (m tid) x" "m' = m(tid := x)" "\<forall>t. x = Some t \<longrightarrow> tkID t = tid"
    by (auto simp: queue_step_def)
  then show ?thesis
  proof cases
    case 1
    then show ?thesis using assms(2) by simp
  next
    case (2 tid x)
    have "validateTask t = None" if "x = Some t" for t
      using task_step_valid [OF 2(1) _ that] assms(2) by blast
    then show ?thesis using 2 assms(2) by auto
  qed
qed


subsection \<open>Histories\<close>

datatype outbox_op =
    OpEnsure ctx string u64 gotime
  | OpLease "error + nat list" ctx string gotime int
  | OpComplete ctx string string gotime
  | OpRetry ctx string string gotime gotime string

fun exec :: "outbox_op \<Rightarrow> io \<Rightarrow> io" where
  "exec (OpEnsure ctx cid revision now) s = snd (EnsurePending ctx cid revision now s)"
| "exec (OpLease rnd ctx owner now duration) s = snd (LeaseNext rnd ctx owner now duration s)"
| "exec (OpComplete ctx tid token now) s = snd (Complete ctx tid token now s)"
| "exec (OpRetry ctx tid token now availableAt failure) s = snd (Retry ctx tid token now availableAt failure s)"

text \<open>The clock never shows the zero time and \<open>rand.Read\<close> fills its buffer.\<close>

fun op_ok :: "outbox_op \<Rightarrow> bool" where
  "op_ok (OpEnsure ctx cid revision now) \<longleftrightarrow> \<not> IsZero now"
| "op_ok (OpLease rnd ctx owner now duration) \<longleftrightarrow> \<not> IsZero now \<and> \<not> IsZero (Add now duration) \<and> rnd \<noteq> Inr []"
| "op_ok (OpComplete ctx tid token now) \<longleftrightarrow> \<not> IsZero now"
| "op_ok (OpRetry ctx tid token now availableAt failure) \<longleftrightarrow> \<not> IsZero now \<and> \<not> IsZero availableAt"

lemma exec_step:
  assumes "io_inv s" "op_ok op"
  shows "queue_step (io_tasks s) (io_tasks (exec op s))"
proof -
  obtain ob w ob' w' where s: "s = (ob, w)" "exec op s = (ob', w')" by (metis prod.exhaust)
  show ?thesis
  proof (cases op)
    case (OpEnsure ctx cid revision now)
    obtain r where "EnsurePending ctx cid revision now (ob, w) = (r, ob', w')"
      using s OpEnsure by (metis exec.simps(1) prod.exhaust snd_conv)
    then show ?thesis using ensure_step assms s OpEnsure by fastforce
  next
    case (OpLease rnd ctx owner now duration)
    obtain r where "LeaseNext rnd ctx owner now duration (ob, w) = (r, ob', w')"
      using s OpLease by (metis exec.simps(2) prod.exhaust snd_conv)
    then show ?thesis using lease_step assms s OpLease by fastforce
  next
    case (OpComplete ctx tid token now)
    obtain r where "Complete ctx tid token now (ob, w) = (r, ob', w')"
      using s OpComplete by (metis exec.simps(3) prod.exhaust snd_conv)
    then show ?thesis using complete_step assms s OpComplete by fastforce
  next
    case (OpRetry ctx tid token now availableAt failure)
    obtain r where "Retry ctx tid token now availableAt failure (ob, w) = (r, ob', w')"
      using s OpRetry by (metis exec.simps(4) prod.exhaust snd_conv)
    then show ?thesis using retry_step assms s OpRetry by fastforce
  qed
qed

lemma exec_inv:
  assumes "io_inv s" "op_ok op"
  shows "io_inv (exec op s)"
  using queue_step_inv [OF exec_step [OF assms]] assms(1) unfolding io_inv_def by blast

text \<open>The revision for which work is queued, and the revisions whose work a completion took off the queue.\<close>

definition scheduled :: "io \<Rightarrow> string \<Rightarrow> u64 option" where
  "scheduled s cid =
     (case io_tasks s (taskID cid) of
        Some t \<Rightarrow> if tkCaseID t = cid then Some (tkCaseRevision t) else None
      | None \<Rightarrow> None)"

definition completed_by :: "outbox_op \<Rightarrow> io \<Rightarrow> (string \<times> u64) option" where
  "completed_by op s =
     (case op of
        OpComplete ctx tid token now \<Rightarrow>
          (case (fst (Complete ctx tid token now s), ownedLease (fst s) tid token now) of
             (Inr _, Inr t) \<Rightarrow> Some (tkCaseID t, tkLeasedRevision t)
           | _ \<Rightarrow> None)
      | _ \<Rightarrow> None)"

fun run :: "outbox_op list \<Rightarrow> io \<Rightarrow> (string \<times> u64) list \<times> io" where
  "run [] s = ([], s)"
| "run (op # ops) s =
     (case run ops (exec op s) of
        (log, s') \<Rightarrow> ((case completed_by op s of None \<Rightarrow> log | Some x \<Rightarrow> x # log), s'))"

text \<open>One operation never takes scheduled work away except by completing it.\<close>

lemma step_keeps_work:
  assumes "queue_step m m'" "m (taskID cid) = Some t" "tkCaseID t = cid"
    and "\<forall>tid t. m tid = Some t \<longrightarrow> tkID t = tid \<and> validateTask t = None"
  obtains (kept) t' where "m' (taskID cid) = Some t'" "tkCaseID t' = cid" "tkCaseRevision t \<le> tkCaseRevision t'"
  | (gone) "m' (taskID cid) = None" "task_step (Some t) None"
proof -
  from assms(1) consider "m' = m" | tid x where "task_step (m tid) x" "m' = m(tid := x)"
    by (auto simp: queue_step_def)
  then show thesis
  proof cases
    case 1
    then show ?thesis using assms kept by simp
  next
    case (2 tid x)
    show ?thesis
    proof (cases "tid = taskID cid")
      case True
      show ?thesis
      proof (cases x)
        case None
        then show ?thesis using 2 True assms(2) gone by simp
      next
        case (Some t')
        then have "tkCaseID t' = tkCaseID t \<and> tkCaseRevision t \<le> tkCaseRevision t'"
          using 2(1) True assms(2) task_step_identity [of t t'] by simp
        then show ?thesis using 2 True Some kept assms(3) by simp
      qed
    next
      case False
      then show ?thesis using 2 assms kept by simp
    qed
  qed
qed

lemma only_complete_removes:
  assumes "io_inv s" "op_ok op" "io_tasks s tid = Some t" "io_tasks (exec op s) tid = None"
  shows "completed_by op s = Some (tkCaseID t, tkLeasedRevision t) \<and> tkCaseRevision t \<le> tkLeasedRevision t"
proof -
  obtain ob w where s: "s = (ob, w)" by fastforce
  have t: "map_get (ioTasks ob) tid = Some t" using assms(3) s by simp
  show ?thesis
  proof (cases op)
    case (OpComplete ctx tid' token now)
    obtain r ob' w' where c: "Complete ctx tid' token now (ob, w) = (r, ob', w')" by (metis prod.exhaust)
    then have gone: "map_get (ioTasks ob') tid = None" using assms(4) s OpComplete by simp
    show ?thesis
      using c
    proof (cases rule: complete_cases)
      case (refused err)
      then show ?thesis using gone t by simp
    next
      case (requeued u)
      from requeued(3) show ?thesis
        by (cases rule: install_cases) (use gone t in \<open>auto split: if_splits\<close>)
    next
      case (completed u)
      from completed(3) show ?thesis
      proof (cases rule: install_cases)
        case (failed err)
        then show ?thesis using gone t by simp
      next
        case saved
        then have "tid' = tid" using gone t by (auto split: if_splits)
        then have "u = t" using completed(1) t by (simp add: owned_iff)
        then show ?thesis
          using completed(1,2) c saved(1) s OpComplete by (simp add: completed_by_def)
      qed
    qed
  next
    case (OpEnsure ctx cid revision now)
    obtain r ob' w' where c: "EnsurePending ctx cid revision now (ob, w) = (r, ob', w')" by (metis prod.exhaust)
    then have gone: "map_get (ioTasks ob') tid = None" using assms(4) s OpEnsure by simp
    from c show ?thesis
      by (cases rule: ensure_cases) (use gone t in \<open>auto split: if_splits elim!: install_cases\<close>)
  next
    case (OpLease rnd ctx owner now duration)
    obtain r ob' w' where c: "LeaseNext rnd ctx owner now duration (ob, w) = (r, ob', w')" by (metis prod.exhaust)
    then have gone: "map_get (ioTasks ob') tid = None" using assms(4) s OpLease by simp
    from c show ?thesis
      by (cases rule: lease_cases) (use gone t in \<open>auto split: if_splits elim!: install_cases\<close>)
  next
    case (OpRetry ctx tid' token now availableAt failure)
    obtain r ob' w' where c: "Retry ctx tid' token now availableAt failure (ob, w) = (r, ob', w')" by (metis prod.exhaust)
    then have gone: "map_get (ioTasks ob') tid = None" using assms(4) s OpRetry by simp
    from c show ?thesis
      by (cases rule: retry_cases) (use gone t in \<open>auto split: if_splits elim!: install_cases\<close>)
  qed
qed

text \<open>
  At-least-once delivery: scheduled work stays scheduled, at the same or a later revision, until a
  completed lease covers it.
\<close>

lemma scheduled_iff: "scheduled s cid = Some r \<longleftrightarrow>
    (\<exists>t. io_tasks s (taskID cid) = Some t \<and> tkCaseID t = cid \<and> tkCaseRevision t = r)"
  by (auto simp: scheduled_def split: option.splits if_splits)

lemma exec_keeps_work:
  assumes "io_inv s" "op_ok op" "scheduled s cid = Some r"
  shows "(\<exists>r'. scheduled (exec op s) cid = Some r' \<and> r \<le> r') \<or> (\<exists>r'. completed_by op s = Some (cid, r') \<and> r \<le> r')"
proof -
  obtain t where t: "io_tasks s (taskID cid) = Some t" "tkCaseID t = cid" "tkCaseRevision t = r"
    using assms(3) by (auto simp: scheduled_iff)
  have inv: "\<forall>tid t. io_tasks s tid = Some t \<longrightarrow> tkID t = tid \<and> validateTask t = None"
    using assms(1) by (simp add: io_inv_def)
  show ?thesis
    using exec_step [OF assms(1,2)] t(1,2) inv
  proof (cases rule: step_keeps_work)
    case (kept t')
    then show ?thesis using t(3) by (auto simp: scheduled_iff)
  next
    case gone
    then show ?thesis using only_complete_removes [OF assms(1,2) t(1)] t by auto
  qed
qed

lemma run_keeps_work:
  assumes "io_inv s" "list_all op_ok ops" "scheduled s cid = Some r" "run ops s = (log, s')"
  shows "(\<exists>r'. scheduled s' cid = Some r' \<and> r \<le> r') \<or> (\<exists>r'. (cid, r') \<in> set log \<and> r \<le> r')"
  using assms
proof (induction ops arbitrary: s r log)
  case (Cons op ops)
  obtain log' where run: "run ops (exec op s) = (log', s')"
      "log = (case completed_by op s of None \<Rightarrow> log' | Some x \<Rightarrow> x # log')"
    using Cons.prems(4) by (auto split: prod.splits)
  have inv: "io_inv (exec op s)" using exec_inv Cons.prems(1,2) by simp
  consider (kept) r' where "scheduled (exec op s) cid = Some r'" "r \<le> r'"
    | (closed) r' where "completed_by op s = Some (cid, r')" "r \<le> r'"
    using exec_keeps_work [of s op cid r] Cons.prems by auto
  then show ?case
  proof cases
    case kept
    then show ?thesis
      using Cons.IH [OF inv _ kept(1) run(1)] Cons.prems(2) run(2) by (force split: option.splits)
  next
    case closed
    then show ?thesis using run(2) by auto
  qed
qed auto

lemma run_inv: "io_inv s \<Longrightarrow> list_all op_ok ops \<Longrightarrow> run ops s = (log, s') \<Longrightarrow> io_inv s'"
proof (induction ops arbitrary: s log)
  case (Cons op ops)
  obtain log' where "run ops (exec op s) = (log', s')" using Cons.prems(3) by (auto split: prod.splits)
  then show ?case using Cons.IH [of "exec op s" log'] exec_inv [of s op] Cons.prems(1,2) by simp
qed simp

subsection \<open>The interface that intake uses\<close>

text \<open>
  \<open>planned s cid\<close> is the revision for which the outbox holds work. Ensuring work never lowers it, and
  when there is enough work already nothing is written.
\<close>

locale task_outbox =
  fixes ensure :: "ctx \<Rightarrow> string \<Rightarrow> u64 \<Rightarrow> gotime \<Rightarrow> 's \<Rightarrow> (error + (Task \<times> bool)) \<times> 's"
    and planned :: "'s \<Rightarrow> string \<Rightarrow> u64 option"
    and inv :: "'s \<Rightarrow> bool"
  assumes ensure_inv: "inv s \<Longrightarrow> \<not> IsZero now \<Longrightarrow> ensure ctx cid revision now s = (r, s') \<Longrightarrow> inv s'"
    and ensure_failed: "inv s \<Longrightarrow> ensure ctx cid revision now s = (Inl err, s') \<Longrightarrow> planned s' = planned s"
    and ensure_ok: "inv s \<Longrightarrow> ensure ctx cid revision now s = (Inr (t, changed), s') \<Longrightarrow>
          planned s' = (planned s)(cid \<mapsto> tkCaseRevision t) \<and> revision \<le> tkCaseRevision t \<and>
          (\<forall>n. planned s cid = Some n \<longrightarrow> n \<le> tkCaseRevision t) \<and> (changed \<longleftrightarrow> planned s' \<noteq> planned s)"
    and ensure_quiet: "inv s \<Longrightarrow> planned s cid = Some n \<Longrightarrow> revision \<le> n \<Longrightarrow> revision \<noteq> 0 \<Longrightarrow> cid \<noteq> [] \<Longrightarrow>
          \<exists>t. ensure None cid revision now s = (Inr (t, False), s)"
begin

text \<open>\<open>covers s cid revision\<close>: there is work for this revision of the case or a later one.\<close>

definition covers :: "'s \<Rightarrow> string \<Rightarrow> u64 \<Rightarrow> bool" where
  "covers s cid revision \<longleftrightarrow> (\<exists>r. planned s cid = Some r \<and> revision \<le> r)"

lemma ensure_covers:
  "inv s \<Longrightarrow> ensure ctx cid revision now s = (Inr x, s') \<Longrightarrow> covers s' cid revision"
  using ensure_ok [of s ctx cid revision now "fst x" "snd x" s'] by (auto simp: covers_def)

lemma ensure_mono:
  assumes "inv s" "ensure ctx cid revision now s = (r, s')" "covers s c n"
  shows "covers s' c n"
proof (cases r)
  case (Inl err)
  then show ?thesis using assms ensure_failed [of s ctx cid revision now err s'] by (simp add: covers_def)
next
  case (Inr x)
  obtain t ch where x: "x = (t, ch)" by fastforce
  have "planned s' = (planned s)(cid \<mapsto> tkCaseRevision t)" "\<forall>r. planned s cid = Some r \<longrightarrow> r \<le> tkCaseRevision t"
    using ensure_ok [of s ctx cid revision now t ch s'] assms Inr x by auto
  then show ?thesis using assms(3) by (auto simp: covers_def)
qed

end

lemma scheduled_set:
  assumes "io_inv (ob, w)" "tkCaseID t = cid"
    and "\<And>u. map_get (ioTasks ob) (taskID cid) = Some u \<Longrightarrow> tkCaseID u = cid"
  shows "scheduled (ob\<lparr>ioTasks := map_set (taskID cid) t (ioTasks ob)\<rparr>, w') = (scheduled (ob, w))(cid \<mapsto> tkCaseRevision t)"
proof
  fix c
  show "scheduled (ob\<lparr>ioTasks := map_set (taskID cid) t (ioTasks ob)\<rparr>, w') c =
      ((scheduled (ob, w))(cid \<mapsto> tkCaseRevision t)) c"
    using assms(2,3) by (auto simp: scheduled_def split: option.splits)
qed

lemma scheduled_world: "scheduled (ob, w) = scheduled (ob, w')"
  by (simp add: scheduled_def fun_eq_iff)

lemma ensure_scheduled:
  assumes "io_inv (ob, w)" "EnsurePending ctx cid revision now (ob, w) = (Inr (t, changed), ob', w')"
  shows "scheduled (ob', w') = (scheduled (ob, w))(cid \<mapsto> tkCaseRevision t)" "revision \<le> tkCaseRevision t"
    "\<forall>r. scheduled (ob, w) cid = Some r \<longrightarrow> r \<le> tkCaseRevision t"
    "changed \<longleftrightarrow> scheduled (ob', w') \<noteq> scheduled (ob, w)"
proof -
  have "scheduled (ob', w') = (scheduled (ob, w))(cid \<mapsto> tkCaseRevision t) \<and> revision \<le> tkCaseRevision t \<and>
      (\<forall>r. scheduled (ob, w) cid = Some r \<longrightarrow> r \<le> tkCaseRevision t) \<and>
      (changed \<longleftrightarrow> scheduled (ob, w) cid \<noteq> Some (tkCaseRevision t))"
    using assms(2)
  proof (cases rule: ensure_cases)
    case (present u)
    then have "scheduled (ob, w) cid = Some (tkCaseRevision u)" by (simp add: scheduled_def)
    then show ?thesis using present(1-3,6) by (auto simp: fun_upd_idem)
  next
    case (raised u)
    have "scheduled (ob, w) cid = Some (tkCaseRevision u)" using raised(1,2) by (simp add: scheduled_def)
    moreover note scheduled_set [OF assms(1), of "raise_task revision now u" cid w']
    ultimately show ?thesis
      using raised by (auto elim!: install_cases)
  next
    case created
    have "scheduled (ob, w) cid = None" using created(1) by (simp add: scheduled_def)
    moreover note scheduled_set [OF assms(1), of "new_task (taskID cid) cid revision now" cid w']
    ultimately show ?thesis
      using created by (auto elim!: install_cases)
  qed simp
  then show "scheduled (ob', w') = (scheduled (ob, w))(cid \<mapsto> tkCaseRevision t)" "revision \<le> tkCaseRevision t"
    "\<forall>r. scheduled (ob, w) cid = Some r \<longrightarrow> r \<le> tkCaseRevision t" "changed \<longleftrightarrow> scheduled (ob', w') \<noteq> scheduled (ob, w)"
    by (auto simp: fun_eq_iff)
qed

interpretation lob: task_outbox EnsurePending scheduled io_inv
proof
  fix s s' :: io and now and ctx :: ctx and cid revision r t changed err
  obtain ob w ob' w' where s: "s = (ob, w)" "s' = (ob', w')" by fastforce
  show "io_inv s'" if "io_inv s" "\<not> IsZero now" "EnsurePending ctx cid revision now s = (r, s')" for r
    using exec_inv [of s "OpEnsure ctx cid revision now"] that by simp
  show "scheduled s' = scheduled s" if "io_inv s" "EnsurePending ctx cid revision now s = (Inl err, s')"
  proof -
    have "EnsurePending ctx cid revision now (ob, w) = (Inl err, ob', w')" using that s by simp
    then have "ob' = ob" by (cases rule: ensure_cases) (auto elim: install_cases)
    then show ?thesis using s scheduled_world by simp
  qed
  show "scheduled s' = (scheduled s)(cid \<mapsto> tkCaseRevision t) \<and> revision \<le> tkCaseRevision t \<and>
      (\<forall>r. scheduled s cid = Some r \<longrightarrow> r \<le> tkCaseRevision t) \<and> (changed \<longleftrightarrow> scheduled s' \<noteq> scheduled s)"
    if "io_inv s" "EnsurePending ctx cid revision now s = (Inr (t, changed), s')"
    using ensure_scheduled [of ob w ctx cid revision now t changed ob' w'] that s by blast
  show "\<exists>t. EnsurePending None cid revision now s = (Inr (t, False), s)"
    if "io_inv s" "scheduled s cid = Some q" "revision \<le> q" "revision \<noteq> 0" "cid \<noteq> []" for q
    using that s by (auto simp: scheduled_iff EnsurePending_def Let_def)
qed

subsection \<open>Opening what was saved\<close>

definition coerce_task :: "Task \<Rightarrow> Task" where
  "coerce_task t = t\<lparr>tkID := coerce (tkID t), tkCaseID := coerce (tkCaseID t), tkStatus := coerce (tkStatus t),
     tkLeaseOwner := coerce (tkLeaseOwner t), tkLeaseToken := coerce (tkLeaseToken t),
     tkLastError := coerce (tkLastError t)\<rparr>"

lemma dec_members_omit_number:
  "find_field fs name = Some (set_int 0 hi upd) \<Longrightarrow> upd 0 r = r \<Longrightarrow> uint n < hi \<Longrightarrow>
   dec_members fs (omitempty name (n \<noteq> 0) (JNumber (uint n)) @ ms) r = dec_members fs ms (upd (uint n) r)"
  by (cases "n = 0") (simp_all add: omitempty_def)

lemma dec_task_json: "dec_task (task_json t) = Inr (coerce_task t)"
  by (simp add: dec_task_def task_json_def dec_struct_def zero_task_def task_fields_def dec_rules
      dec_members_omit_number coerce_task_def)

lemma valid_taskID [simp]: "valid_string (taskID cid)"
proof -
  have "list_all (\<lambda>c. of_char c < (128::nat)) (hex_encode bs)" for bs
    by (auto simp: hex_encode_def list_all_iff hex_digit_ascii)
  then show ?thesis
    by (intro valid_string_ascii) (simp add: taskID_def Let_def list_all_append)
qed

lemma valid_task_status [simp]: "valid_string TaskPending" "valid_string TaskLeased"
  by (simp_all add: task_status valid_string_ascii)

lemma coerce_task_valid:
  assumes "validateTask t = None" "valid_string (tkCaseID t)"
  shows "validateTask (coerce_task t) = None" "tkID (coerce_task t) = tkID t" "tkCaseID (coerce_task t) = tkCaseID t"
    "tkStatus (coerce_task t) = tkStatus t" "tkCaseRevision (coerce_task t) = tkCaseRevision t"
  using assms by (auto simp: validateTask_iff coerce_task_def leased_ok_def pending_ok_def)

lemma load_tasks_ok:
  assumes "\<forall>t \<in> set ts. validateTask t = None" "distinct (map tkID ts)"
    and "\<forall>t \<in> set ts. map_get (ioTasks ob) (tkID t) = None"
  shows "\<exists>ob'. load_tasks ts ob = Inr ob' \<and> ioPath ob' = ioPath ob \<and>
    map_get (ioTasks ob') = map_get (ioTasks ob) ++ map_of (map (\<lambda>t. (tkID t, t)) ts)"
  using assms
proof (induction ts arbitrary: ob)
  case (Cons t ts)
  let ?ob = "ob\<lparr>ioTasks := map_set (tkID t) t (ioTasks ob)\<rparr>"
  have "\<forall>u \<in> set ts. map_get (ioTasks ?ob) (tkID u) = None"
    using Cons.prems(2,3) by (auto simp: image_iff)
  moreover have "\<forall>u \<in> set ts. validateTask u = None" "distinct (map tkID ts)" using Cons.prems by auto
  ultimately obtain ob' where ob': "load_tasks ts ?ob = Inr ob'" "ioPath ob' = ioPath ?ob"
      "map_get (ioTasks ob') = map_get (ioTasks ?ob) ++ map_of (map (\<lambda>t. (tkID t, t)) ts)"
    using Cons.IH [of ?ob] by blast
  have "map_of (map (\<lambda>t. (tkID t, t)) ts) (tkID t) = None"
    using Cons.prems(2) by (simp add: map_of_eq_None_iff image_image)
  then have "map_get (ioTasks ob') = map_get (ioTasks ob) ++ map_of (map (\<lambda>t. (tkID t, t)) (t # ts))"
    unfolding ob'(3) by (auto simp: fun_eq_iff map_add_def split: option.splits)
  moreover have "load_tasks (t # ts) ob = Inr ob'" using ob'(1) Cons.prems(1,3) by simp
  moreover have "ioPath ob' = ioPath ob" using ob'(2) by simp
  ultimately show ?case by blast
qed simp

definition outbox_path :: "string \<Rightarrow> path" where
  "outbox_path directory = (filepath_Clean directory, ''investigation-outbox.v1.json'')"

lemma outbox_path_temp [simp]: "\<not> is_temp (outbox_path d)"
  by (simp add: outbox_path_def is_temp_def)

lemma paths_differ [simp]: "outbox_path d \<noteq> cases_path d'" "cases_path d' \<noteq> outbox_path d"
  by (simp_all add: outbox_path_def cases_path_def)

definition valid_tasks :: "(string \<rightharpoonup> Task) \<Rightarrow> bool" where
  "valid_tasks m \<longleftrightarrow> (\<forall>tid t. m tid = Some t \<longrightarrow> valid_string (tkCaseID t))"

lemma dec_outbox_state:
  "dec_struct outbox_state_fields (outbox_state_json \<lparr>obVersion = outboxStateVersion, obTasks = ts\<rparr>) zero_outbox_state =
     Inr \<lparr>obVersion = outboxStateVersion, obTasks = map coerce_task ts\<rparr>"
proof -
  have "dec_list dec_task (map task_json ts) = Inr (map coerce_task ts)"
    by (rule dec_list_map) (rule dec_task_json)
  then show ?thesis
    by (simp add: outbox_state_json_def outbox_state_fields_def dec_struct_def zero_outbox_state_def dec_rules
        set_list_def outboxStateVersion_def)
qed

lemma map_of_coerced:
  fixes k :: "'v \<Rightarrow> 'k::linorder"
  assumes "keyed_by k m" "\<And>v. v \<in> set (map_values m) \<Longrightarrow> k (f v) = k v"
  shows "map_of (map (\<lambda>v. (k v, v)) (map f (sort_key k (map_values m)))) = map_option f \<circ> map_get m"
    "distinct (map k (map f (sort_key k (map_values m))))"
proof -
  let ?vs = "sort_key k (map_values m)"
  have keys: "map k (map f ?vs) = map k ?vs" using assms(2) by auto
  show dist: "distinct (map k (map f ?vs))"
    unfolding keys using listed_values(2) [OF assms(1), of "\<lambda>_. True"] by simp
  show "map_of (map (\<lambda>v. (k v, v)) (map f ?vs)) = map_option f \<circ> map_get m"
  proof (rule ext, rule option_eqI)
    fix key u
    show "map_of (map (\<lambda>v. (k v, v)) (map f ?vs)) key = Some u \<longleftrightarrow> (map_option f \<circ> map_get m) key = Some u"
      unfolding map_of_keyed [OF dist]
      using assms keyed_by_get [OF assms(1)] by (fastforce simp: map_values_iff)
  qed
qed

lemma open_saved_tasks:
  assumes "directory \<noteq> []" "io_inv (ob, w)" "valid_tasks (map_get (ioTasks ob))"
    and "d (outbox_path directory) = Some [Doc (saved_tasks (ioTasks ob))]"
  shows "\<exists>ob'. OpenInvestigationOutbox None None directory d = Inr ob' \<and> ioPath ob' = outbox_path directory \<and>
    map_get (ioTasks ob') = map_option coerce_task \<circ> map_get (ioTasks ob)"
proof -
  let ?ts = "map coerce_task (sort_key tkID (map_values (ioTasks ob)))"
  let ?ob = "\<lparr>ioPath = outbox_path directory, ioTasks = map_new\<rparr>"
  have mem: "validateTask t = None \<and> valid_string (tkCaseID t)" if "t \<in> set (map_values (ioTasks ob))" for t
    using that assms(2,3) by (auto simp: map_values_iff valid_tasks_def dest: io_inv_get)
  note facts = map_of_coerced [OF io_inv_keyed [OF assms(2)], of coerce_task]
  have id: "tkID (coerce_task t) = tkID t" if "t \<in> set (map_values (ioTasks ob))" for t
    using mem [OF that] coerce_task_valid(2) by blast
  have "\<forall>t \<in> set ?ts. validateTask t = None" using mem coerce_task_valid(1) by auto
  then obtain ob' where ob': "load_tasks ?ts ?ob = Inr ob'" "ioPath ob' = outbox_path directory"
      "map_get (ioTasks ob') = map_of (map (\<lambda>t. (tkID t, t)) ?ts)"
    using load_tasks_ok [of ?ts ?ob] facts(2) [OF id] by (auto simp del: map_map)
  have "readJSONFile None (outbox_path directory) outbox_state_fields zero_outbox_state d =
      Inr (Some \<lparr>obVersion = outboxStateVersion, obTasks = ?ts\<rparr>)"
    by (rule read_back, rule assms(4)) (simp add: saved_tasks_def dec_outbox_state)
  then have "OpenInvestigationOutbox None None directory d = Inr ob'"
    using ob'(1) assms(1)
    by (simp add: OpenInvestigationOutbox_def ensureDataDirectory_def Let_def outbox_path_def)
  then show ?thesis using ob' facts(1) [OF id] by auto
qed

end
