(* ===== verification/Intake.thy ===== *)
theory Intake
  imports Local_Outbox
begin

text \<open>
  \<open>internal/workflow/intake.go\<close>: an event is recorded in its case first and the investigation task
  is ensured afterwards; reconciliation closes the gap that a crash between the two writes leaves.

  The operations take the \<open>CaseService\<close> and \<open>Outbox\<close> methods they call as arguments. The locale
  \<open>intake\<close> joins the contracts \<open>case_store\<close> and \<open>task_outbox\<close>; \<open>work_for_all\<close> is the state that the
  workflow promises, work for every pending case at its current revision. \<open>lin\<close> interprets it on the
  two local stores.
\<close>

record ('s, 'o) IntakeService =
  isCases :: "'s option"
  isOutbox :: "'o option"
  isNow :: "gotime option"

definition WithIntakeClock :: "gotime option \<Rightarrow> ('s, 'o) IntakeService \<Rightarrow> ('s, 'o) IntakeService" where
  "WithIntakeClock now service = service\<lparr>isNow := now\<rparr>"

definition NewIntakeService ::
  "gotime \<Rightarrow> 's option \<Rightarrow> 'o option \<Rightarrow> (('s, 'o) IntakeService \<Rightarrow> ('s, 'o) IntakeService) list \<Rightarrow>
   error + ('s, 'o) IntakeService" where
  "NewIntakeService wall_clock cases outbox options =
     (if cases = None \<or> outbox = None then
        Inl (ErrNew ''create intake service: Case service and Outbox are required'')
      else (let service = fold (\<lambda>option service. option service) options
                  \<lparr>isCases = cases, isOutbox = outbox, isNow = Some wall_clock\<rparr>
            in if isNow service = None then Inl (ErrNew ''create intake service: clock is required'')
               else Inr service))"

text \<open>
  An error after the case was recorded comes with the case; one before has no case to return. So the
  result is the case and the flag if there are any, and the error if there is one.
\<close>

type_synonym intake_result = "(Case \<times> bool) option \<times> error option"

definition Intake_RecordEvent ::
  "(ctx \<Rightarrow> Event \<Rightarrow> 's \<Rightarrow> apply_result \<times> 's) \<Rightarrow>
   (ctx \<Rightarrow> string \<Rightarrow> u64 \<Rightarrow> gotime \<Rightarrow> 'o \<Rightarrow> (error + (Task \<times> bool)) \<times> 'o) \<Rightarrow>
   gotime \<Rightarrow> ctx \<Rightarrow> Event \<Rightarrow> 's \<times> 'o \<Rightarrow> intake_result \<times> ('s \<times> 'o)" where
  "Intake_RecordEvent recordEvent ensurePending now ctx event = (\<lambda>(s, q).
     (case recordEvent ctx event s of
        (Inl err, s') \<Rightarrow> ((None, Some err), s', q)
      | (Inr (stored, created), s') \<Rightarrow>
          (case ensurePending ctx (caseID stored) (caseRevision stored) (UTC now) q of
             (Inl err, q') \<Rightarrow>
               ((Some (stored, created),
                 Some (ErrWrap (''schedule Case '' @ caseID stored @ '' investigation: '') err)), s', q')
           | (Inr _, q') \<Rightarrow> ((Some (stored, created), None), s', q'))))"

definition Intake_Get :: "(ctx \<Rightarrow> string \<Rightarrow> 's \<Rightarrow> error + Case) \<Rightarrow> ctx \<Rightarrow> string \<Rightarrow> 's \<times> 'o \<Rightarrow> error + Case" where
  "Intake_Get get ctx cid = (\<lambda>(s, q). get ctx cid s)"

text \<open>The loop of \<open>ReconcilePending\<close>; every iteration reads the clock once.\<close>

fun reconcile_loop ::
  "(ctx \<Rightarrow> string \<Rightarrow> u64 \<Rightarrow> gotime \<Rightarrow> 'o \<Rightarrow> (error + (Task \<times> bool)) \<times> 'o) \<Rightarrow> (nat \<Rightarrow> gotime) \<Rightarrow> ctx \<Rightarrow>
   Case list \<Rightarrow> nat \<Rightarrow> 'o \<Rightarrow> (nat \<times> error option) \<times> 'o" where
  "reconcile_loop ensurePending clock ctx [] ensured q = ((ensured, None), q)"
| "reconcile_loop ensurePending clock ctx (stored # cases) ensured q =
     (case ensurePending ctx (caseID stored) (caseRevision stored) (UTC (clock (length cases))) q of
        (Inl err, q') \<Rightarrow>
          ((ensured, Some (ErrWrap (''reconcile Case '' @ caseID stored @ '' investigation: '') err)), q')
      | (Inr (_, changed), q') \<Rightarrow>
          reconcile_loop ensurePending clock ctx cases (if changed then ensured + 1 else ensured) q')"

definition ReconcilePending ::
  "(ctx \<Rightarrow> 's \<Rightarrow> error + Case list) \<Rightarrow>
   (ctx \<Rightarrow> string \<Rightarrow> u64 \<Rightarrow> gotime \<Rightarrow> 'o \<Rightarrow> (error + (Task \<times> bool)) \<times> 'o) \<Rightarrow>
   (nat \<Rightarrow> gotime) \<Rightarrow> ctx \<Rightarrow> 's \<times> 'o \<Rightarrow> (nat \<times> error option) \<times> ('s \<times> 'o)" where
  "ReconcilePending listPending ensurePending clock ctx = (\<lambda>(s, q).
     (case listPending ctx s of
        Inl err \<Rightarrow> ((0, Some (ErrWrap ''list pending investigation Cases: '' err)), s, q)
      | Inr cases \<Rightarrow> (case reconcile_loop ensurePending clock ctx cases 0 q of (r, q') \<Rightarrow> (r, s, q'))))"

subsection \<open>The workflow over any two stores that keep their contracts\<close>

locale intake = case_store apply_event get_case list_pending abs inv + task_outbox ensure planned q_inv
  for apply_event :: "ctx \<Rightarrow> Event \<Rightarrow> gotime \<Rightarrow> IDGenerator \<Rightarrow> 's \<Rightarrow> apply_result \<times> 's"
    and get_case :: "ctx \<Rightarrow> string \<Rightarrow> 's \<Rightarrow> error + Case"
    and list_pending :: "ctx \<Rightarrow> 's \<Rightarrow> error + Case list"
    and abs :: "'s \<Rightarrow> abs_store"
    and inv :: "'s \<Rightarrow> bool"
    and ensure :: "ctx \<Rightarrow> string \<Rightarrow> u64 \<Rightarrow> gotime \<Rightarrow> 'o \<Rightarrow> (error + (Task \<times> bool)) \<times> 'o"
    and planned :: "'o \<Rightarrow> string \<Rightarrow> u64 option"
    and q_inv :: "'o \<Rightarrow> bool"
begin

abbreviation intake_record where
  "intake_record now gen \<equiv> Intake_RecordEvent (Service_RecordEvent apply_event now gen) ensure"

abbreviation intake_reconcile where
  "intake_reconcile \<equiv> ReconcilePending list_pending ensure"

definition work_for_all :: "'s \<times> 'o \<Rightarrow> bool" where
  "work_for_all = (\<lambda>(s, q). \<forall>cid c. fst (abs s) cid = Some c \<longrightarrow>
     incStatus (caseIncident c) = StatusPendingInvestigation \<longrightarrow> covers q cid (caseRevision c))"

lemma intake_cases:
  assumes "intake_record now gen now' ctx event (s, q) = ((res, err), s', q')"
  obtains (rejected) e where "Service_RecordEvent apply_event now gen ctx event s = (Inl e, s')" "res = None" "err = Some e"
      "q' = q"
  | (unscheduled) c created e where "Service_RecordEvent apply_event now gen ctx event s = (Inr (c, created), s')"
      "ensure ctx (caseID c) (caseRevision c) (UTC now') q = (Inl e, q')" "res = Some (c, created)"
      "err = Some (ErrWrap (''schedule Case '' @ caseID c @ '' investigation: '') e)"
  | (accepted) c created t where "Service_RecordEvent apply_event now gen ctx event s = (Inr (c, created), s')"
      "ensure ctx (caseID c) (caseRevision c) (UTC now') q = (Inr t, q')" "res = Some (c, created)" "err = None"
  using assms unfolding Intake_RecordEvent_def by (auto split: sum.splits prod.splits)

lemma intake_inv:
  assumes "inv s" "q_inv q" "\<not> IsZero now'" "intake_record now gen now' ctx event (s, q) = (r, s', q')"
  shows "inv s' \<and> q_inv q'"
proof -
  obtain res err where "intake_record now gen now' ctx event (s, q) = ((res, err), s', q')"
    using assms(4) by (cases r) auto
  then show ?thesis
    using assms(1-3)
    by (cases rule: intake_cases) (auto intro: record_inv ensure_inv [where now = "UTC now'"])
qed

text \<open>An accepted event: the case holds it, and there is work for this revision of the case.\<close>

lemma intake_accepted:
  assumes "inv s" "q_inv q" "intake_record now gen now' ctx event (s, q) = ((Some (c, created), None), s', q')"
  shows "get_case None (caseID c) s' = Inr c" "covers q' (caseID c) (caseRevision c)"
    "\<exists>x \<in> set (incEvents (caseIncident c)). sameEvent x event"
  using assms(3)
proof (atomize(full), cases rule: intake_cases)
  case (accepted d created' t)
  then have d: "d = c" by simp
  show "get_case None (caseID c) s' = Inr c \<and> covers q' (caseID c) (caseRevision c) \<and>
      (\<exists>x \<in> set (incEvents (caseIncident c)). sameEvent x event)"
    using record_ok(1,6) [OF assms(1) accepted(1)] ensure_covers [OF assms(2) accepted(2)] d by simp
qed simp_all

lemma loop_works:
  assumes "q_inv q" "\<And>n. \<not> IsZero (clock n)" "reconcile_loop ensure clock ctx cs n q = ((m, err), q')"
  shows "q_inv q'" "\<And>c r. covers q c r \<Longrightarrow> covers q' c r"
    "err = None \<Longrightarrow> \<forall>c \<in> set cs. covers q' (caseID c) (caseRevision c)"
proof -
  have "q_inv q' \<and> (\<forall>c r. covers q c r \<longrightarrow> covers q' c r) \<and>
      (err = None \<longrightarrow> (\<forall>c \<in> set cs. covers q' (caseID c) (caseRevision c)))"
    using assms
  proof (induction cs arbitrary: n q)
    case (Cons c cs)
    obtain r q1 where e: "ensure ctx (caseID c) (caseRevision c) (UTC (clock (length cs))) q = (r, q1)" by fastforce
    have q1: "q_inv q1" "\<And>d k. covers q d k \<Longrightarrow> covers q1 d k"
      using ensure_inv [OF Cons.prems(1) _ e] ensure_mono [OF Cons.prems(1) e] Cons.prems(2) by auto
    show ?case
    proof (cases r)
      case (Inl x)
      then show ?thesis using Cons.prems(3) e q1 by auto
    next
      case (Inr x)
      obtain t ch where x: "x = (t, ch)" by fastforce
      have rest: "reconcile_loop ensure clock ctx cs (if ch then n + 1 else n) q1 = ((m, err), q')"
        using Cons.prems(3) e Inr x by simp
      have "covers q1 (caseID c) (caseRevision c)" using ensure_covers [OF Cons.prems(1)] e Inr by blast
      then show ?thesis using Cons.IH [OF q1(1) Cons.prems(2) rest] q1(2) by simp
    qed
  qed simp
  then show "q_inv q'" "\<And>c r. covers q c r \<Longrightarrow> covers q' c r"
    "err = None \<Longrightarrow> \<forall>c \<in> set cs. covers q' (caseID c) (caseRevision c)"
    by blast+
qed

text \<open>When there is work for every case already, the loop changes nothing and cannot fail.\<close>

lemma loop_quiet:
  assumes "q_inv q" "\<forall>c \<in> set cs. covers q (caseID c) (caseRevision c) \<and> caseRevision c \<noteq> 0 \<and> caseID c \<noteq> []"
  shows "reconcile_loop ensure clock None cs n q = ((n, None), q)"
  using assms(2)
proof (induction cs)
  case (Cons c cs)
  obtain r where "planned q (caseID c) = Some r" "caseRevision c \<le> r" using Cons.prems by (auto simp: covers_def)
  then obtain t where "ensure None (caseID c) (caseRevision c) (UTC (clock (length cs))) q = (Inr (t, False), q)"
    using ensure_quiet [OF assms(1), of "caseID c" r "caseRevision c" "UTC (clock (length cs))"] Cons.prems by auto
  then show ?case using Cons by simp
qed simp

text \<open>A reconciliation that reports no error leaves work for every pending case.\<close>

lemma reconcile_establishes:
  assumes "inv s" "q_inv q" "\<And>n. \<not> IsZero (clock n)" "intake_reconcile clock ctx (s, q) = ((n, None), s', q')"
  shows "s' = s" "q_inv q'" "work_for_all (s', q')"
proof -
  obtain cs where cs: "list_pending ctx s = Inr cs" "reconcile_loop ensure clock ctx cs 0 q = ((n, None), q')" "s' = s"
    using assms(4) unfolding ReconcilePending_def by (auto split: sum.splits prod.splits)
  have "ctx = None" using cs(1) list_cancelled by (cases ctx) auto
  then have mem: "c \<in> set cs \<longleftrightarrow> fst (abs s) (caseID c) = Some c \<and> incStatus (caseIncident c) = StatusPendingInvestigation" for c
    using list_law [OF assms(1)] cs(1) by auto
  note done1 = loop_works [OF assms(2,3) cs(2)]
  obtain cases opn where a: "abs s = (cases, opn)" by fastforce
  have ids: "caseID c = cid" if "cases cid = Some c" for cid c
    using store_inv_case [of cases opn cid c] inv_abs [OF assms(1)] a that by simp
  show "s' = s" by (rule cs(3))
  show "q_inv q'" by (rule done1(1))
  show "work_for_all (s', q')"
    using done1(3) mem ids a cs(3) by (fastforce simp: work_for_all_def)
qed

text \<open>An accepted event, and a rejected one, keep it.\<close>

lemma work_kept:
  assumes "inv s" "q_inv q" "work_for_all (s, q)" "intake_record now gen now' ctx event (s, q) = ((res, err), s', q')"
    and "err = None \<or> res = None"
  shows "work_for_all (s', q')"
  using assms(4)
proof (cases rule: intake_cases)
  case (rejected e)
  then have "abs s' = abs s" using record_failed [OF assms(1)] by blast
  then show ?thesis using assms(3) rejected by (simp add: work_for_all_def)
next
  case (unscheduled c created e)
  then show ?thesis using assms(5) by simp
next
  case (accepted c created t)
  have c: "covers q' (caseID c) (caseRevision c)" using ensure_covers [OF assms(2) accepted(2)] .
  have mono: "covers q d k \<Longrightarrow> covers q' d k" for d k using ensure_mono [OF assms(2) accepted(2)] .
  have other: "fst (abs s') cid = fst (abs s) cid" if "cid \<noteq> caseID c" for cid
    by (rule record_other [OF assms(1) accepted(1) that])
  have this_case: "fst (abs s') (caseID c) = Some c"
    using record_ok(1) [OF assms(1) accepted(1)] get_law [OF record_inv [OF assms(1) accepted(1)]]
    by (auto split: option.splits)
  show ?thesis
    unfolding work_for_all_def
  proof (clarsimp)
    fix cid d
    assume d: "fst (abs s') cid = Some d" "incStatus (caseIncident d) = StatusPendingInvestigation"
    show "covers q' cid (caseRevision d)"
    proof (cases "cid = caseID c")
      case True
      then show ?thesis using d(1) this_case c by simp
    next
      case False
      then show ?thesis using d other [OF False] assms(3) mono by (simp add: work_for_all_def)
    qed
  qed
qed

end

interpretation lin: intake CaseStore_ApplyEvent CaseStore_Get CaseStore_ListPendingInvestigation lcs_abs lcs_inv
  EnsurePending scheduled io_inv
  by unfold_locales

interpretation mit: intake MemoryStore_ApplyEvent MemoryStore_Get MemoryStore_ListPendingInvestigation mem_abs mem_inv
  EnsurePending scheduled io_inv
  by unfold_locales

end
