(* ===== verification/Http_Api.thy ===== *)
theory Http_Api
  imports Intake
begin

text \<open>
  \<open>api/v1alpha1/types.go\<close> and \<open>internal/transport/httpapi/handler.go\<close>: the versioned HTTP API.

  A request has a method, the segments of its cleaned path and a body, which is the sequence of JSON
  values in it with the offset at which each ends. \<open>MaxBytesReader\<close> cuts the body at the limit: what
  ends beyond it reads as the error of an oversized body. A response is the status, the content type
  and the JSON value, which is missing when the value cannot be encoded; the header is sent by then.

  The lemmas give the status of every branch, that a refused request never reaches the stores, that
  the strings of a decoded event are valid UTF-8, which is what makes the state files read back
  unchanged, and that every field of the event is the member of its name.
\<close>

subsection \<open>Wire types\<close>

record IncidentEvent =
  ieEventID :: string
  ieType :: string
  ieSource :: string
  ieOccurredAt :: gotime
  ieObservedAt :: gotime
  ieEnvironment :: string
  ieService :: string
  ieNode :: string
  ieWorkload :: string
  ieContainer :: string
  ieSeverity :: string
  ieDedupeKey :: string
  ieAttributes :: attributes

record IncidentSummary =
  isType :: string
  isStatus :: string
  isEnvironment :: string
  isService :: string
  isNode :: string
  isWorkload :: string
  isContainer :: string
  isSeverity :: string
  isFirstOccurredAt :: gotime
  isLastOccurredAt :: gotime
  isEventCount :: nat

record APICase =
  acID :: string
  acRevision :: u64
  acCreatedAt :: gotime
  acUpdatedAt :: gotime
  acIncident :: IncidentSummary

record EventAccepted =
  eaCreated :: bool
  eaCase :: APICase

record APIError =
  aeCode :: string
  aeMessage :: string

definition zero_incident_event :: IncidentEvent where
  "zero_incident_event = \<lparr>ieEventID = [], ieType = [], ieSource = [], ieOccurredAt = time_zero,
     ieObservedAt = time_zero, ieEnvironment = [], ieService = [], ieNode = [], ieWorkload = [],
     ieContainer = [], ieSeverity = [], ieDedupeKey = [], ieAttributes = None\<rparr>"

definition incident_event_fields :: "IncidentEvent fields" where
  "incident_event_fields =
     [(''event_id'', set_string (\<lambda>s e. e\<lparr>ieEventID := s\<rparr>)),
      (''type'', set_string (\<lambda>s e. e\<lparr>ieType := s\<rparr>)),
      (''source'', set_string (\<lambda>s e. e\<lparr>ieSource := s\<rparr>)),
      (''occurred_at'', set_time (\<lambda>t e. e\<lparr>ieOccurredAt := t\<rparr>)),
      (''observed_at'', set_time (\<lambda>t e. e\<lparr>ieObservedAt := t\<rparr>)),
      (''environment'', set_string (\<lambda>s e. e\<lparr>ieEnvironment := s\<rparr>)),
      (''service'', set_string (\<lambda>s e. e\<lparr>ieService := s\<rparr>)),
      (''node'', set_string (\<lambda>s e. e\<lparr>ieNode := s\<rparr>)),
      (''workload'', set_string (\<lambda>s e. e\<lparr>ieWorkload := s\<rparr>)),
      (''container'', set_string (\<lambda>s e. e\<lparr>ieContainer := s\<rparr>)),
      (''severity'', set_string (\<lambda>s e. e\<lparr>ieSeverity := s\<rparr>)),
      (''dedupe_key'', set_string (\<lambda>s e. e\<lparr>ieDedupeKey := s\<rparr>)),
      (''attributes'', set_strmap ieAttributes (\<lambda>m e. e\<lparr>ieAttributes := m\<rparr>))]"

definition summary_json :: "IncidentSummary \<Rightarrow> json" where
  "summary_json i = JObject (
     member ''type'' (enc_string (isType i)) @
     member ''status'' (enc_string (isStatus i)) @
     omitempty ''environment'' (isEnvironment i \<noteq> []) (enc_string (isEnvironment i)) @
     omitempty ''service'' (isService i \<noteq> []) (enc_string (isService i)) @
     omitempty ''node'' (isNode i \<noteq> []) (enc_string (isNode i)) @
     omitempty ''workload'' (isWorkload i \<noteq> []) (enc_string (isWorkload i)) @
     omitempty ''container'' (isContainer i \<noteq> []) (enc_string (isContainer i)) @
     omitempty ''severity'' (isSeverity i \<noteq> []) (enc_string (isSeverity i)) @
     member ''first_occurred_at'' (enc_time (isFirstOccurredAt i)) @
     member ''last_occurred_at'' (enc_time (isLastOccurredAt i)) @
     member ''event_count'' (JNumber (int (isEventCount i))))"

definition api_case_json :: "APICase \<Rightarrow> json" where
  "api_case_json c = JObject (
     member ''id'' (enc_string (acID c)) @
     member ''revision'' (JNumber (uint (acRevision c))) @
     member ''created_at'' (enc_time (acCreatedAt c)) @
     member ''updated_at'' (enc_time (acUpdatedAt c)) @
     member ''incident'' (summary_json (acIncident c)))"

definition accepted_json :: "EventAccepted \<Rightarrow> json" where
  "accepted_json a = JObject (member ''created'' (JBool (eaCreated a)) @ member ''case'' (api_case_json (eaCase a)))"

definition error_json :: "APIError \<Rightarrow> json" where
  "error_json e = JObject (member ''code'' (enc_string (aeCode e)) @ member ''message'' (enc_string (aeMessage e)))"

subsection \<open>Requests and responses\<close>

definition maxRequestBytes :: nat where
  "maxRequestBytes = 1048576"

record http_body =
  bdItems :: "(item \<times> nat) list"   \<comment> \<open>the values, and where each ends\<close>
  bdLength :: nat

record http_request =
  rqMethod :: string
  rqPath :: "string list"
  rqBody :: http_body
  rqContext :: ctx

record http_response =
  rsStatus :: nat
  rsContentType :: string
  rsBody :: "json option"

definition MaxBytesError :: error where
  "MaxBytesError = ErrLib ''http: request body too large''"

text \<open>What a decoder reads through \<open>MaxBytesReader\<close>.\<close>

definition MaxBytesReader :: "nat \<Rightarrow> http_body \<Rightarrow> stream" where
  "MaxBytesReader limit body =
     map fst (takeWhile (\<lambda>(i, e). e \<le> limit) (bdItems body)) @
     (if bdLength body \<le> limit then [] else [Garbage MaxBytesError])"

definition writeJSON :: "nat \<Rightarrow> json \<Rightarrow> http_response" where
  "writeJSON status value = \<lparr>rsStatus = status, rsContentType = ''application/json'',
     rsBody = (case Marshal value of Inl _ \<Rightarrow> None | Inr v \<Rightarrow> Some v)\<rparr>"

definition writeAPIError :: "nat \<Rightarrow> string \<Rightarrow> string \<Rightarrow> http_response" where
  "writeAPIError status code message = writeJSON status (error_json \<lparr>aeCode = code, aeMessage = message\<rparr>)"

definition friendlyDecodeError :: "error \<Rightarrow> string" where
  "friendlyDecodeError err =
     (if errors_Is err MaxBytesError then ''request body exceeds '' @ Itoa (int maxRequestBytes) @ '' bytes''
      else error_text err)"

definition ensureEOF :: "stream \<Rightarrow> error option" where
  "ensureEOF decoder =
     (case DecodeRaw decoder of
        Inl err \<Rightarrow> if errors_Is err EOF then None else Some (ErrWrap ''invalid trailing JSON: '' err)
      | Inr _ \<Rightarrow> Some (ErrNew ''request body must contain one JSON object''))"

definition toAPICase :: "Case \<Rightarrow> APICase" where
  "toAPICase stored =
     (let i = caseIncident stored
      in \<lparr>acID = caseID stored, acRevision = caseRevision stored, acCreatedAt = caseCreatedAt stored,
          acUpdatedAt = caseUpdatedAt stored,
          acIncident = \<lparr>isType = incType i, isStatus = incStatus i, isEnvironment = incEnvironment i,
            isService = incService i, isNode = incNode i, isWorkload = incWorkload i,
            isContainer = incContainer i, isSeverity = incSeverity i,
            isFirstOccurredAt = incFirstOccurredAt i, isLastOccurredAt = incLastOccurredAt i,
            isEventCount = length (incEvents i)\<rparr>\<rparr>)"

definition to_event :: "IncidentEvent \<Rightarrow> Event" where
  "to_event input = \<lparr>evID = ieEventID input, evType = ieType input, evSource = ieSource input,
     evOccurredAt = ieOccurredAt input, evObservedAt = ieObservedAt input, evEnvironment = ieEnvironment input,
     evService = ieService input, evNode = ieNode input, evWorkload = ieWorkload input,
     evContainer = ieContainer input, evSeverity = ieSeverity input, evDedupeKey = ieDedupeKey input,
     evAttributes = ieAttributes input\<rparr>"

subsection \<open>Handlers\<close>

text \<open>What the handler needs of the intake service.\<close>

type_synonym 's record_fun = "ctx \<Rightarrow> Event \<Rightarrow> 's \<Rightarrow> intake_result \<times> 's"
type_synonym 's get_fun = "ctx \<Rightarrow> string \<Rightarrow> 's \<Rightarrow> error + Case"

definition health :: http_response where
  "health = writeJSON 200 (JObject (member ''status'' (enc_string ''ok'')))"

definition acceptEvent :: "'s record_fun \<Rightarrow> http_request \<Rightarrow> 's \<Rightarrow> http_response \<times> 's" where
  "acceptEvent recordEvent request s =
     (case Decode incident_event_fields zero_incident_event (MaxBytesReader maxRequestBytes (rqBody request)) of
        Inl err \<Rightarrow> (writeAPIError 400 ''invalid_json'' (friendlyDecodeError err), s)
      | Inr (input, decoder) \<Rightarrow>
          (case ensureEOF decoder of
             Some err \<Rightarrow> (writeAPIError 400 ''invalid_json'' (error_text err), s)
           | None \<Rightarrow>
               (let event = to_event input
                in case Validate (Normalize event) of
                     Some err \<Rightarrow> (writeAPIError 400 ''invalid_event'' (error_text err), s)
                   | None \<Rightarrow>
                       (case recordEvent (rqContext request) event s of
                          ((result, Some err), s') \<Rightarrow>
                            if errors_Is err ErrEventIDConflict \<or> errors_Is err ErrEventScopeConflict
                            then (writeAPIError 409 ''event_conflict'' (error_text err), s')
                            else (writeAPIError 500 ''internal_error'' ''unable to record incident event'', s')
                        | ((result, None), s') \<Rightarrow>
                            (case result of
                               Some (stored, created) \<Rightarrow>
                                 (writeJSON 202 (accepted_json \<lparr>eaCreated = created, eaCase = toAPICase stored\<rparr>), s')
                             | None \<Rightarrow>
                                 (writeJSON 202 (accepted_json \<lparr>eaCreated = False, eaCase = toAPICase zero_case\<rparr>), s'))))))"

definition getCase :: "'s get_fun \<Rightarrow> http_request \<Rightarrow> string \<Rightarrow> 's \<Rightarrow> http_response" where
  "getCase get request pathValue s =
     (let cid = TrimSpace pathValue
      in case get (rqContext request) cid s of
           Inl err \<Rightarrow>
             if errors_Is err ErrNotFound then writeAPIError 404 ''case_not_found'' ''incident case not found''
             else writeAPIError 500 ''internal_error'' ''unable to read incident case''
         | Inr stored \<Rightarrow> writeJSON 200 (api_case_json (toAPICase stored)))"

text \<open>
  The routes that \<open>New\<close> registers. A pattern for GET also takes HEAD; a path that only matches under
  another method is answered with 405, an unknown path with 404, both by the multiplexer itself.
\<close>

datatype route = RouteHealth | RouteEvents | RouteCase string | RouteMethodNotAllowed | RouteNotFound

definition is_get :: "string \<Rightarrow> bool" where
  "is_get method \<longleftrightarrow> method = ''GET'' \<or> method = ''HEAD''"

definition mux_route :: "string \<Rightarrow> string list \<Rightarrow> route" where
  "mux_route method path =
     (if path = [''healthz''] then (if is_get method then RouteHealth else RouteMethodNotAllowed)
      else if path = [''api'', ''v1alpha1'', ''events''] then
        (if method = ''POST'' then RouteEvents else RouteMethodNotAllowed)
      else if length path = 4 \<and> take 3 path = [''api'', ''v1alpha1'', ''cases''] \<and> last path \<noteq> [] then
        (if is_get method then RouteCase (last path) else RouteMethodNotAllowed)
      else RouteNotFound)"

definition mux_error :: "nat \<Rightarrow> http_response" where
  "mux_error status = \<lparr>rsStatus = status, rsContentType = ''text/plain; charset=utf-8'', rsBody = None\<rparr>"

definition ServeHTTP :: "'s record_fun \<Rightarrow> 's get_fun \<Rightarrow> http_request \<Rightarrow> 's \<Rightarrow> http_response \<times> 's" where
  "ServeHTTP recordEvent get request s =
     (case mux_route (rqMethod request) (rqPath request) of
        RouteHealth \<Rightarrow> (health, s)
      | RouteEvents \<Rightarrow> acceptEvent recordEvent request s
      | RouteCase pathValue \<Rightarrow> (getCase get request pathValue s, s)
      | RouteMethodNotAllowed \<Rightarrow> (mux_error 405, s)
      | RouteNotFound \<Rightarrow> (mux_error 404, s))"

definition New_handler :: "'a option \<Rightarrow> error + 'a" where
  "New_handler cases =
     (case cases of None \<Rightarrow> Inl (ErrNew ''create HTTP API: case service is required'') | Some svc \<Rightarrow> Inr svc)"

subsection \<open>What each answer means\<close>

lemma status_fields [simp]:
  "rsStatus (writeJSON st v) = st" "rsStatus (writeAPIError st code msg) = st"
  by (simp_all add: writeJSON_def writeAPIError_def)

text \<open>The event that a request carries, when its body is one well-formed JSON object.\<close>

definition request_event :: "http_request \<Rightarrow> Event option" where
  "request_event request =
     (case Decode incident_event_fields zero_incident_event (MaxBytesReader maxRequestBytes (rqBody request)) of
        Inr (input, decoder) \<Rightarrow> if ensureEOF decoder = None then Some (to_event input) else None
      | Inl err \<Rightarrow> None)"

lemma accept_cases:
  assumes "acceptEvent recordEvent request s = (resp, s')"
  obtains (malformed) "request_event request = None" "rsStatus resp = 400" "s' = s"
  | (invalid) event where "request_event request = Some event" "Validate event \<noteq> None" "rsStatus resp = 400" "s' = s"
  | (conflict) event result err where "request_event request = Some event" "Validate event = None"
      "recordEvent (rqContext request) event s = ((result, Some err), s')"
      "errors_Is err ErrEventIDConflict \<or> errors_Is err ErrEventScopeConflict" "rsStatus resp = 409"
  | (failed) event result err where "request_event request = Some event" "Validate event = None"
      "recordEvent (rqContext request) event s = ((result, Some err), s')"
      "\<not> (errors_Is err ErrEventIDConflict \<or> errors_Is err ErrEventScopeConflict)" "rsStatus resp = 500"
  | (accepted) event result where "request_event request = Some event" "Validate event = None"
      "recordEvent (rqContext request) event s = ((result, None), s')" "rsStatus resp = 202"
      "\<And>c created. result = Some (c, created) \<Longrightarrow>
         resp = writeJSON 202 (accepted_json \<lparr>eaCreated = created, eaCase = toAPICase c\<rparr>)"
proof (cases "request_event request")
  case None
  then show ?thesis
    using assms malformed
    by (auto simp: acceptEvent_def request_event_def split: sum.splits option.splits if_splits prod.splits)
next
  case (Some event)
  then obtain input decoder where d:
    "Decode incident_event_fields zero_incident_event (MaxBytesReader maxRequestBytes (rqBody request)) = Inr (input, decoder)"
    "ensureEOF decoder = None" "event = to_event input"
    by (auto simp: request_event_def split: sum.splits if_splits)
  show ?thesis
  proof (cases "Validate event")
    case (Some err)
    then show ?thesis
      using assms d \<open>request_event request = Some event\<close> invalid by (auto simp: acceptEvent_def Let_def)
  next
    case None
    obtain result err s1 where r: "recordEvent (rqContext request) event s = ((result, err), s1)"
      by (metis prod.exhaust)
    show ?thesis
    proof (cases err)
      case e: None
      have resp: "s' = s1" "rsStatus resp = 202"
          "result = Some (c, created) \<Longrightarrow>
             resp = writeJSON 202 (accepted_json \<lparr>eaCreated = created, eaCase = toAPICase c\<rparr>)" for c created
        using assms d None r e by (auto simp: acceptEvent_def Let_def split: option.splits)
      show ?thesis
        by (rule accepted [OF \<open>request_event request = Some event\<close> None]) (use r e resp in auto)
    next
      case (Some e)
      then show ?thesis
        using assms d None r \<open>request_event request = Some event\<close> conflict failed
        by (auto simp: acceptEvent_def Let_def split: if_splits)
    qed
  qed
qed

subsection \<open>Decoded strings are valid UTF-8\<close>

text \<open>
  A tree that a decoder can deliver: it replaced invalid bytes while reading. Bytes that are no JSON
  are a syntax error or an unexpected end, never \<open>io.EOF\<close>, which is the end between two values.
\<close>

fun json_valid :: "json \<Rightarrow> bool" where
  "json_valid (JString s) = valid_string s"
| "json_valid (JTime s t) = valid_string s"
| "json_valid (JArray vs) = list_all json_valid vs"
| "json_valid (JObject ms) = list_all (\<lambda>(k, v). valid_string k \<and> json_valid v) ms"
| "json_valid _ = True"

definition body_valid :: "http_body \<Rightarrow> bool" where
  "body_valid b \<longleftrightarrow> list_all (\<lambda>(i, e). case i of Doc v \<Rightarrow> json_valid v | Garbage err \<Rightarrow> \<not> errors_Is err EOF) (bdItems b)"

definition keeps :: "('r \<Rightarrow> bool) \<Rightarrow> 'r setter \<Rightarrow> bool" where
  "keeps P f \<longleftrightarrow> (\<forall>v r r'. json_valid v \<longrightarrow> P r \<longrightarrow> f v r = Inr r' \<longrightarrow> P r')"

lemma keeps_string: "(\<And>s r. valid_string s \<Longrightarrow> P r \<Longrightarrow> P (upd s r)) \<Longrightarrow> keeps P (set_string upd)"
  by (auto simp: keeps_def set_string_def split: json.splits)

lemma keeps_time: "(\<And>t r. P r \<Longrightarrow> P (upd t r)) \<Longrightarrow> keeps P (set_time upd)"
  by (auto simp: keeps_def set_time_def split: json.splits)

lemma dec_strmap_valid:
  assumes "dec_strmap ms m = Inr m'" "list_all (\<lambda>(k, v). valid_string k \<and> json_valid v) ms"
    and "valid_attributes (Some m)"
  shows "valid_attributes (Some m')"
  using assms
proof (induction ms arbitrary: m)
  case (Cons kv ms)
  obtain k v where kv: "kv = (k, v)" by fastforce
  obtain s where s: "dec_string v = Inr s" "dec_strmap ms (map_set k s m) = Inr m'"
    using Cons.prems(1) kv by (auto split: sum.splits)
  have "valid_string s"
    using s(1) Cons.prems(2) kv by (auto simp: dec_string_def set_string_def split: json.splits)
  then have "valid_attributes (Some (map_set k s m))"
    using Cons.prems(2,3) kv set_AList_update [of k s "map_entries m"]
    by (auto simp: valid_attributes_def list_all_iff)
  then show ?case using Cons.IH [OF s(2)] Cons.prems(2) by simp
qed simp

lemma keeps_strmap:
  assumes "\<And>m r. valid_attributes m \<Longrightarrow> P r \<Longrightarrow> P (upd m r)" "\<And>r. P r \<Longrightarrow> valid_attributes (sel r)"
  shows "keeps P (set_strmap sel upd)"
  unfolding keeps_def
proof (intro allI impI)
  fix v r r'
  assume v: "json_valid v" and r: "P r" and f: "set_strmap sel upd v r = Inr r'"
  have start: "valid_attributes (Some (case sel r of None \<Rightarrow> map_new | Some m \<Rightarrow> m))"
    using assms(2) [OF r] by (auto simp: valid_attributes_def split: option.splits)
  show "P r'"
    using f v r assms(1) dec_strmap_valid [OF _ _ start]
    by (auto simp: set_strmap_def valid_attributes_def [of None] split: json.splits sum.splits)
qed

lemma find_field_in: "find_field fs key = Some f \<Longrightarrow> f \<in> snd ` set fs"
  by (force simp: find_field_def split: option.splits dest: map_of_SomeD find_SomeD)

lemma dec_members_keeps:
  assumes "\<forall>f \<in> snd ` set fs. keeps P f" "dec_members fs ms r = Inr r'" "P r"
    and "list_all (\<lambda>(k, v). valid_string k \<and> json_valid v) ms"
  shows "P r'"
  using assms(2-)
proof (induction ms arbitrary: r)
  case (Cons kv ms)
  obtain k v where kv: "kv = (k, v)" by fastforce
  obtain f r1 where f: "find_field fs k = Some f" "f v r = Inr r1" "dec_members fs ms r1 = Inr r'"
    using Cons.prems(1) kv by (auto split: option.splits sum.splits)
  have "keeps P f" using assms(1) find_field_in [OF f(1)] by blast
  then have "P r1" using f(2) Cons.prems(2,3) kv by (auto simp: keeps_def)
  then show ?case using Cons.IH [OF f(3)] Cons.prems(3) by simp
qed simp

definition valid_input :: "IncidentEvent \<Rightarrow> bool" where
  "valid_input i \<longleftrightarrow> valid_event (to_event i)"

lemma incident_fields_keep: "\<forall>f \<in> snd ` set incident_event_fields. keeps valid_input f"
  unfolding incident_event_fields_def
  by (auto simp: valid_input_def valid_event_def to_event_def intro!: keeps_string keeps_time keeps_strmap)

lemma request_event_valid:
  assumes "request_event request = Some event" "body_valid (rqBody request)"
  shows "valid_event event"
proof -
  let ?is = "MaxBytesReader maxRequestBytes (rqBody request)"
  obtain input decoder where d: "Decode incident_event_fields zero_incident_event ?is = Inr (input, decoder)"
      "event = to_event input"
    using assms(1) by (auto simp: request_event_def split: sum.splits if_splits)
  obtain v rest where v: "?is = Doc v # rest" "dec_struct incident_event_fields v zero_incident_event = Inr input"
    using d(1) by (auto simp: Decode_def split: list.splits item.splits sum.splits)
  have "Doc v \<in> fst ` set (bdItems (rqBody request))"
  proof -
    have "Doc v \<in> set ?is" using v(1) by simp
    then have "Doc v \<in> fst ` set (takeWhile (\<lambda>(i, e). e \<le> maxRequestBytes) (bdItems (rqBody request)))"
      by (auto simp: MaxBytesReader_def split: if_splits)
    then show ?thesis by (auto dest: set_takeWhileD)
  qed
  then have "json_valid v" using assms(2) by (force simp: body_valid_def list_all_iff)
  moreover have "valid_input zero_incident_event"
    by (simp add: valid_input_def valid_event_def to_event_def zero_incident_event_def valid_attributes_def)
  ultimately have "valid_input input"
    using v(2) dec_members_keeps [OF incident_fields_keep]
    by (auto simp: dec_struct_def split: json.splits)
  then show ?thesis using d(2) by (simp add: valid_input_def)
qed

subsection \<open>The fields of a body\<close>

text \<open>The members that the API documents, and what they say.\<close>

fun json_text :: "json \<Rightarrow> string option" where
  "json_text (JString s) = Some s"
| "json_text _ = None"

definition event_member :: "string \<times> json \<Rightarrow> bool" where
  "event_member = (\<lambda>(k, v). case v of
     JString s \<Rightarrow> k \<in> set [''event_id'', ''type'', ''source'', ''environment'', ''service'', ''node'', ''workload'',
       ''container'', ''severity'', ''dedupe_key'']
   | JTime s t \<Rightarrow> k \<in> set [''occurred_at'', ''observed_at'']
   | JObject kvs \<Rightarrow> k = ''attributes'' \<and> list_all (\<lambda>(k, v). json_text v \<noteq> None) kvs
   | _ \<Rightarrow> False)"

definition text_member :: "(string \<times> json) list \<Rightarrow> string \<Rightarrow> string \<Rightarrow> string" where
  "text_member ms k s = (case map_of ms k of Some (JString s') \<Rightarrow> s' | _ \<Rightarrow> s)"

definition time_member :: "(string \<times> json) list \<Rightarrow> string \<Rightarrow> gotime \<Rightarrow> gotime" where
  "time_member ms k t = (case map_of ms k of Some (JTime s t') \<Rightarrow> t' | _ \<Rightarrow> t)"

definition attributes_member :: "(string \<times> json) list \<Rightarrow> string \<Rightarrow> attributes \<Rightarrow> attributes" where
  "attributes_member ms k a = (case map_of ms k of
     Some (JObject kvs) \<Rightarrow> Some (fold (\<lambda>(k, v). map_set k (the (json_text v))) kvs map_new) | _ \<Rightarrow> a)"

lemma dec_strmap_texts:
  "list_all (\<lambda>(k, v). json_text v \<noteq> None) kvs \<Longrightarrow>
   dec_strmap kvs m = Inr (fold (\<lambda>(k, v). map_set k (the (json_text v))) kvs m)"
proof (induction kvs arbitrary: m)
  case (Cons kv kvs)
  obtain k v where kv: "kv = (k, v)" by fastforce
  then obtain s where "v = JString s" using Cons.prems by (cases v) auto
  then show ?case using Cons kv by (simp add: dec_string_def set_string_def)
qed simp

definition merged_event :: "(string \<times> json) list \<Rightarrow> IncidentEvent \<Rightarrow> IncidentEvent" where
  "merged_event ms e = \<lparr>ieEventID = text_member ms ''event_id'' (ieEventID e), ieType = text_member ms ''type'' (ieType e),
     ieSource = text_member ms ''source'' (ieSource e), ieOccurredAt = time_member ms ''occurred_at'' (ieOccurredAt e),
     ieObservedAt = time_member ms ''observed_at'' (ieObservedAt e),
     ieEnvironment = text_member ms ''environment'' (ieEnvironment e), ieService = text_member ms ''service'' (ieService e),
     ieNode = text_member ms ''node'' (ieNode e), ieWorkload = text_member ms ''workload'' (ieWorkload e),
     ieContainer = text_member ms ''container'' (ieContainer e), ieSeverity = text_member ms ''severity'' (ieSeverity e),
     ieDedupeKey = text_member ms ''dedupe_key'' (ieDedupeKey e),
     ieAttributes = attributes_member ms ''attributes'' (ieAttributes e)\<rparr>"

lemma event_member_cases:
  assumes "event_member (k, v)"
  obtains (string) s where "v = JString s" "k \<in> set [''event_id'', ''type'', ''source'', ''environment'', ''service'', ''node'',
      ''workload'', ''container'', ''severity'', ''dedupe_key'']"
  | (time) s t where "v = JTime s t" "k \<in> set [''occurred_at'', ''observed_at'']"
  | (attrs) kvs where "v = JObject kvs" "k = ''attributes''" "list_all (\<lambda>(k, v). json_text v \<noteq> None) kvs"
  using assms by (cases v) (auto simp: event_member_def)

lemmas member_defs = merged_event_def text_member_def time_member_def attributes_member_def

text \<open>One member sets one field; the others, which have other names, do not touch it.\<close>

lemma set_member:
  assumes "event_member (k, v)" "k = ''attributes'' \<Longrightarrow> ieAttributes e = None"
  shows "\<exists>setter. find_field incident_event_fields k = Some setter \<and> setter v e = Inr (merged_event [(k, v)] e)"
proof -
  have table: "find_field incident_event_fields ''event_id'' = Some (set_string (\<lambda>s e. e\<lparr>ieEventID := s\<rparr>))"
    "find_field incident_event_fields ''type'' = Some (set_string (\<lambda>s e. e\<lparr>ieType := s\<rparr>))"
    "find_field incident_event_fields ''source'' = Some (set_string (\<lambda>s e. e\<lparr>ieSource := s\<rparr>))"
    "find_field incident_event_fields ''environment'' = Some (set_string (\<lambda>s e. e\<lparr>ieEnvironment := s\<rparr>))"
    "find_field incident_event_fields ''service'' = Some (set_string (\<lambda>s e. e\<lparr>ieService := s\<rparr>))"
    "find_field incident_event_fields ''node'' = Some (set_string (\<lambda>s e. e\<lparr>ieNode := s\<rparr>))"
    "find_field incident_event_fields ''workload'' = Some (set_string (\<lambda>s e. e\<lparr>ieWorkload := s\<rparr>))"
    "find_field incident_event_fields ''container'' = Some (set_string (\<lambda>s e. e\<lparr>ieContainer := s\<rparr>))"
    "find_field incident_event_fields ''severity'' = Some (set_string (\<lambda>s e. e\<lparr>ieSeverity := s\<rparr>))"
    "find_field incident_event_fields ''dedupe_key'' = Some (set_string (\<lambda>s e. e\<lparr>ieDedupeKey := s\<rparr>))"
    "find_field incident_event_fields ''occurred_at'' = Some (set_time (\<lambda>t e. e\<lparr>ieOccurredAt := t\<rparr>))"
    "find_field incident_event_fields ''observed_at'' = Some (set_time (\<lambda>t e. e\<lparr>ieObservedAt := t\<rparr>))"
    "find_field incident_event_fields ''attributes'' = Some (set_strmap ieAttributes (\<lambda>m e. e\<lparr>ieAttributes := m\<rparr>))"
    by (simp_all add: find_field_def incident_event_fields_def)
  from assms(1) show ?thesis
  proof (cases rule: event_member_cases)
    case (string s)
    have "k = ''event_id'' \<or> k = ''type'' \<or> k = ''source'' \<or> k = ''environment'' \<or> k = ''service'' \<or> k = ''node'' \<or>
        k = ''workload'' \<or> k = ''container'' \<or> k = ''severity'' \<or> k = ''dedupe_key''"
      using string(2) by (simp only: list.set insert_iff empty_iff simp_thms)
    then show ?thesis unfolding string(1)
      by (elim disjE) (cases e; simp add: table set_string_def member_defs)+
  next
    case (time s t)
    have "k = ''occurred_at'' \<or> k = ''observed_at''" using time(2) by (simp only: list.set insert_iff empty_iff simp_thms)
    then show ?thesis unfolding time(1)
      by (elim disjE) (cases e; simp add: table set_time_def member_defs)+
  next
    case (attrs kvs)
    then show ?thesis using assms(2) by (cases e) (simp add: table set_strmap_def member_defs dec_strmap_texts)
  qed
qed

lemma member_Cons:
  assumes "k \<notin> fst ` set ms"
  shows "text_member ms n (text_member [(k, v)] n s) = text_member ((k, v) # ms) n s"
    "time_member ms n (time_member [(k, v)] n t) = time_member ((k, v) # ms) n t"
    "attributes_member ms n (attributes_member [(k, v)] n a) = attributes_member ((k, v) # ms) n a"
proof -
  have "map_of ms k = None" using assms by (simp add: map_of_eq_None_iff)
  then show "text_member ms n (text_member [(k, v)] n s) = text_member ((k, v) # ms) n s"
    "time_member ms n (time_member [(k, v)] n t) = time_member ((k, v) # ms) n t"
    "attributes_member ms n (attributes_member [(k, v)] n a) = attributes_member ((k, v) # ms) n a"
    by (cases "k = n"; simp add: text_member_def time_member_def attributes_member_def)+
qed

lemma merged_Cons:
  assumes "k \<notin> fst ` set ms"
  shows "merged_event ms (merged_event [(k, v)] e) = merged_event ((k, v) # ms) e"
  unfolding merged_event_def IncidentEvent.simps member_Cons [OF assms] ..

lemma merged_attributes: "event_member (k, v) \<Longrightarrow> k \<noteq> ''attributes'' \<Longrightarrow> ieAttributes (merged_event [(k, v)] e) = ieAttributes e"
  by (simp add: merged_event_def attributes_member_def)

lemma dec_event_members:
  "distinct (map fst ms) \<Longrightarrow> list_all event_member ms \<Longrightarrow> (''attributes'' \<in> fst ` set ms \<Longrightarrow> ieAttributes e = None) \<Longrightarrow>
   dec_members incident_event_fields ms e = Inr (merged_event ms e)"
proof (induction ms arbitrary: e)
  case Nil
  then show ?case by (cases e) (simp add: member_defs)
next
  case (Cons kv ms)
  obtain k v where kv: "kv = (k, v)" by fastforce
  have m: "event_member (k, v)" "k \<notin> fst ` set ms" using Cons.prems kv by auto
  obtain setter where setter: "find_field incident_event_fields k = Some setter" "setter v e = Inr (merged_event [(k, v)] e)"
    using set_member [OF m(1), of e] Cons.prems(3) kv by auto
  have "dec_members incident_event_fields ms (merged_event [(k, v)] e) = Inr (merged_event ms (merged_event [(k, v)] e))"
    by (rule Cons.IH) (use Cons.prems m kv merged_attributes [OF m(1), of e] in auto)
  then show ?case using setter merged_Cons [OF m(2)] kv by simp
qed

end
