(* ===== verification/Daemon.thy ===== *)
theory Daemon
  imports Http_Api
begin

text \<open>
  \<open>cmd/rootforged/main.go\<close>: the process that puts the stores, the service, the workflow and the HTTP
  handler together, and the background reconciliation.

  The state is the case store and the outbox, each with its view of the data directory: the two write
  different files, and a temporary file is created exclusively. \<open>daemon_step\<close> interleaves requests,
  reconciliation ticks and crashes, and a crash may fall between the two writes of one request.
  Flags, signals, timeouts and the listening socket are left out.
\<close>

type_synonym daemon = "(CaseStore \<times> world) \<times> io"

definition daemon_record :: "gotime \<Rightarrow> error + nat list \<Rightarrow> gotime \<Rightarrow> daemon record_fun" where
  "daemon_record now rnd now' =
     Intake_RecordEvent (Service_RecordEvent CaseStore_ApplyEvent now (randomCaseID rnd)) EnsurePending now'"

definition daemon_get :: "daemon get_fun" where
  "daemon_get = Intake_Get (Service_Get CaseStore_Get)"

definition daemon_reconcile :: "(nat \<Rightarrow> gotime) \<Rightarrow> ctx \<Rightarrow> daemon \<Rightarrow> (nat \<times> error option) \<times> daemon" where
  "daemon_reconcile =
     ReconcilePending (Service_ListPendingInvestigation CaseStore_ListPendingInvestigation) EnsurePending"

text \<open>One request: \<open>now\<close> and \<open>now'\<close> are the clock readings of the service and of the workflow.\<close>

definition daemon_serve ::
  "gotime \<Rightarrow> error + nat list \<Rightarrow> gotime \<Rightarrow> http_request \<Rightarrow> daemon \<Rightarrow> http_response \<times> daemon" where
  "daemon_serve now rnd now' = ServeHTTP (daemon_record now rnd now') daemon_get"

text \<open>The background loop: a tick reconciles and survives an error, cancellation ends it.\<close>

datatype wake = Cancelled | Tick ctx "nat \<Rightarrow> gotime"

fun reconcilePending :: "wake list \<Rightarrow> daemon \<Rightarrow> daemon" where
  "reconcilePending [] s = s"
| "reconcilePending (Cancelled # rest) s = s"
| "reconcilePending (Tick ctx clock # rest) s = reconcilePending rest (snd (daemon_reconcile clock ctx s))"

record start_env =
  seMkdirCases :: "error option"
  seOpenCases :: "error option"
  seMkdirOutbox :: "error option"
  seOpenOutbox :: "error option"
  seNow :: gotime
  seRandom :: "error + nat list"
  seClock :: "nat \<Rightarrow> gotime"
  seScriptCases :: "write_env list"
  seScriptOutbox :: "write_env list"

text \<open>The start of \<open>main\<close> up to the listening server: the running daemon with the number of reconciled tasks.\<close>

definition main_start :: "int \<Rightarrow> string \<Rightarrow> start_env \<Rightarrow> disk \<Rightarrow> disk \<Rightarrow> error + (nat \<times> daemon)" where
  "main_start reconcileInterval dataDirectory env dCases dOutbox =
     (if reconcileInterval \<le> 0 then Inl (ErrNew ''reconcile interval must be positive'')
      else case OpenCaseStore (seMkdirCases env) (seOpenCases env) dataDirectory dCases of
        Inl err \<Rightarrow> Inl (ErrWrap ''open Case storage: '' err)
      | Inr caseStore \<Rightarrow>
          (case OpenInvestigationOutbox (seMkdirOutbox env) (seOpenOutbox env) dataDirectory dOutbox of
             Inl err \<Rightarrow> Inl (ErrWrap ''open investigation Outbox: '' err)
           | Inr outbox \<Rightarrow>
               (case NewService (seNow env) (randomCaseID (seRandom env)) (Some caseStore) [] of
                  Inl err \<Rightarrow> Inl (ErrWrap ''configure case service: '' err)
                | Inr caseService \<Rightarrow>
                    (case NewIntakeService (seNow env) (Some caseService) (Some outbox) [] of
                       Inl err \<Rightarrow> Inl (ErrWrap ''configure intake workflow: '' err)
                     | Inr service \<Rightarrow>
                         (case daemon_reconcile (seClock env) None
                                 ((caseStore, \<lparr>wDisk = dCases, wScript = seScriptCases env\<rparr>),
                                  (outbox, \<lparr>wDisk = dOutbox, wScript = seScriptOutbox env\<rparr>)) of
                            ((reconciled, Some err), s) \<Rightarrow> Inl (ErrWrap ''reconcile pending investigations: '' err)
                          | ((reconciled, None), s) \<Rightarrow>
                              (case New_handler (Some s) of
                                 Inl err \<Rightarrow> Inl (ErrWrap ''configure HTTP API: '' err)
                               | Inr s' \<Rightarrow> Inr (reconciled, s')))))))"

lemma case_eq_facts:
  assumes "case_eq c d"
  shows "caseID c = caseID d" "caseRevision c = caseRevision d"
    "incStatus (caseIncident c) = incStatus (caseIncident d)"
    "list_all2 event_eq (incEvents (caseIncident c)) (incEvents (caseIncident d))"
proof -
  let ?strip = "\<lambda>c. c\<lparr>caseIncident := (caseIncident c)\<lparr>incEvents := []\<rparr>\<rparr>"
  have eq: "?strip c = ?strip d" using assms by (simp add: case_eq_def)
  show "caseID c = caseID d" using arg_cong [OF eq, of caseID] by simp
  show "caseRevision c = caseRevision d" using arg_cong [OF eq, of caseRevision] by simp
  show "incStatus (caseIncident c) = incStatus (caseIncident d)"
    using arg_cong [OF eq, of "\<lambda>c. incStatus (caseIncident c)"] by simp
  show "list_all2 event_eq (incEvents (caseIncident c)) (incEvents (caseIncident d))"
    using assms by (simp add: case_eq_def)
qed

subsection \<open>Durability of the outbox\<close>

definition task_eq :: "Task \<Rightarrow> Task \<Rightarrow> bool" where
  "task_eq t u \<longleftrightarrow> coerce_task t = coerce_task u"

lemma coerce_task_idem [simp]: "coerce_task (coerce_task t) = coerce_task t"
  by (simp add: coerce_task_def)

lemma task_eq_refl [simp]: "task_eq t t"
  by (simp add: task_eq_def)

definition ob_reopens :: "string \<Rightarrow> disk \<Rightarrow> (string \<rightharpoonup> Task) \<Rightarrow> bool" where
  "ob_reopens directory d tasks \<longleftrightarrow> (\<exists>ob. OpenInvestigationOutbox None None directory d = Inr ob \<and>
     ioPath ob = outbox_path directory \<and> valid_tasks (map_get (ioTasks ob)) \<and>
     (\<forall>tid. rel_option task_eq (map_get (ioTasks ob) tid) (tasks tid)))"

lemma ob_reopens_cong:
  assumes "d (outbox_path directory) = d' (outbox_path directory)"
  shows "ob_reopens directory d tasks = ob_reopens directory d' tasks"
proof -
  have "OpenInvestigationOutbox None None directory d = OpenInvestigationOutbox None None directory d'"
    using assms by (auto simp: OpenInvestigationOutbox_def ensureDataDirectory_def readJSONFile_def outbox_path_def Let_def
        split: option.splits sum.splits)
  then show ?thesis by (simp add: ob_reopens_def)
qed

lemma op_outcome:
  assumes "exec op (ob, w) = (ob', w')"
  obtains (same) "ob' = ob" "w' = w"
  | (failed) m err where "Outbox_persist ob m w = (Some err, w')" "ob' = ob"
  | (saved) m where "Outbox_persist ob m w = (None, w')" "ob' = ob\<lparr>ioTasks := m\<rparr>"
proof (cases op)
  case (OpEnsure ctx cid revision now)
  obtain r where "EnsurePending ctx cid revision now (ob, w) = (r, ob', w')"
    using assms OpEnsure by (metis exec.simps(1) prod.exhaust snd_conv)
  then show ?thesis by (cases rule: ensure_cases) (auto elim!: install_cases intro: same failed saved)
next
  case (OpLease rnd ctx owner now duration)
  obtain r where "LeaseNext rnd ctx owner now duration (ob, w) = (r, ob', w')"
    using assms OpLease by (metis exec.simps(2) prod.exhaust snd_conv)
  then show ?thesis by (cases rule: lease_cases) (auto elim!: install_cases intro: same failed saved)
next
  case (OpComplete ctx tid token now)
  obtain r where "Complete ctx tid token now (ob, w) = (r, ob', w')"
    using assms OpComplete by (metis exec.simps(3) prod.exhaust snd_conv)
  then show ?thesis by (cases rule: complete_cases) (auto elim!: install_cases intro: same failed saved)
next
  case (OpRetry ctx tid token now availableAt failure)
  obtain r where "Retry ctx tid token now availableAt failure (ob, w) = (r, ob', w')"
    using assms OpRetry by (metis exec.simps(4) prod.exhaust snd_conv)
  then show ?thesis by (cases rule: retry_cases) (auto elim!: install_cases intro: same failed saved)
qed

definition io_sync :: "string \<Rightarrow> io \<Rightarrow> bool" where
  "io_sync directory = (\<lambda>(ob, w). ioPath ob = outbox_path directory \<and>
     ob_reopens directory (wDisk w) (map_get (ioTasks ob)))"

lemma outbox_persist_disk:
  assumes "Outbox_persist ob m w = (r, w')" "ioPath ob = outbox_path directory"
  shows "r = None \<Longrightarrow> wDisk w' (outbox_path directory) = Some [Doc (saved_tasks m)]"
    "r \<noteq> None \<Longrightarrow> wDisk w' (outbox_path directory) = wDisk w (outbox_path directory)"
proof -
  obtain r0 where "write_file (outbox_path directory) (saved_tasks m) w = (r0, w')"
      "r = map_option (ErrWrap ''persist investigation Outbox: '') r0"
    using assms by (auto simp: Outbox_persist_def split: prod.splits)
  note this(2) write_file_cases [OF this(1) outbox_path_temp]
  then show "r = None \<Longrightarrow> wDisk w' (outbox_path directory) = Some [Doc (saved_tasks m)]"
    "r \<noteq> None \<Longrightarrow> wDisk w' (outbox_path directory) = wDisk w (outbox_path directory)"
    by (metis option.distinct(1) option.map_disc_iff)+
qed

lemma ob_reopens_saved:
  assumes "directory \<noteq> []" "io_inv (ob, w)" "valid_tasks (map_get (ioTasks ob))"
    and "d (outbox_path directory) = Some [Doc (saved_tasks (ioTasks ob))]"
  shows "ob_reopens directory d (map_get (ioTasks ob))"
proof -
  obtain ob' where ob': "OpenInvestigationOutbox None None directory d = Inr ob'" "ioPath ob' = outbox_path directory"
      "map_get (ioTasks ob') = map_option coerce_task \<circ> map_get (ioTasks ob)"
    using open_saved_tasks [where d = d and directory = directory, OF assms] by blast
  have "rel_option task_eq (map_option coerce_task x) x" for x
    by (cases x) (simp_all add: task_eq_def)
  moreover have "valid_tasks (map_get (ioTasks ob'))"
    using ob'(3) by (auto simp: valid_tasks_def coerce_task_def)
  ultimately show ?thesis using ob' by (simp add: ob_reopens_def)
qed

lemma exec_sync:
  assumes "directory \<noteq> []" "io_inv s" "op_ok op" "io_sync directory s" "valid_tasks (io_tasks (exec op s))"
  shows "io_sync directory (exec op s)"
proof -
  obtain ob w ob' w' where s: "s = (ob, w)" "exec op s = (ob', w')" by (metis prod.exhaust)
  have inv': "io_inv (ob', w')" using exec_inv [OF assms(2,3)] s by simp
  have path: "ioPath ob = outbox_path directory" and old: "ob_reopens directory (wDisk w) (map_get (ioTasks ob))"
    using assms(4) s by (auto simp: io_sync_def)
  have "exec op (ob, w) = (ob', w')" using s by simp
  then show ?thesis
  proof (cases rule: op_outcome)
    case same
    then show ?thesis using assms(4) s by simp
  next
    case (failed m err)
    have "wDisk w' (outbox_path directory) = wDisk w (outbox_path directory)"
      using outbox_persist_disk(2) [OF failed(1) path] by simp
    from ob_reopens_cong [of "wDisk w'" directory "wDisk w", OF this] show ?thesis
      using old path failed(2) s by (simp add: io_sync_def)
  next
    case (saved m)
    have "wDisk w' (outbox_path directory) = Some [Doc (saved_tasks (ioTasks ob'))]"
      using outbox_persist_disk(1) [OF saved(1) path] saved(2) by simp
    from ob_reopens_saved [where d = "wDisk w'" and directory = directory, OF assms(1) inv' _ this] show ?thesis
      using assms(5) path saved(2) s by (simp add: io_sync_def)
  qed
qed

text \<open>A task that is available at the zero time makes the file unreadable.\<close>

lemma load_tasks_refuses: "t \<in> set ts \<Longrightarrow> validateTask t \<noteq> None \<Longrightarrow> \<exists>err. load_tasks ts ob = Inl err"
  by (induction ts arbitrary: ob) (auto split: option.split)

lemma validateTask_zero: "IsZero (tkAvailableAt t) \<Longrightarrow> validateTask t \<noteq> None"
  by (simp add: validateTask_def)

lemma open_refuses_zero:
  assumes "directory \<noteq> []" "d (outbox_path directory) = Some [Doc (saved_tasks m)]"
    and "map_get m tid = Some t" "IsZero (tkAvailableAt t)"
  shows "\<exists>err. OpenInvestigationOutbox None None directory d = Inl err"
proof -
  let ?ts = "map coerce_task (sort_key tkID (map_values m))"
  have "t \<in> set (map_values m)" using assms(3) by (rule map_values_getI)
  then have "coerce_task t \<in> set ?ts" by simp
  moreover have "validateTask (coerce_task t) \<noteq> None"
    using assms(4) by (intro validateTask_zero) (simp add: coerce_task_def)
  ultimately obtain err where "load_tasks ?ts \<lparr>ioPath = outbox_path directory, ioTasks = map_new\<rparr> = Inl err"
    using load_tasks_refuses by blast
  moreover have "readJSONFile None (outbox_path directory) outbox_state_fields zero_outbox_state d =
      Inr (Some \<lparr>obVersion = outboxStateVersion, obTasks = ?ts\<rparr>)"
    by (rule read_back, rule assms(2)) (simp add: saved_tasks_def dec_outbox_state)
  ultimately show ?thesis
    using assms(1) by (simp add: OpenInvestigationOutbox_def ensureDataDirectory_def Let_def outbox_path_def)
qed

subsection \<open>Opening\<close>

text \<open>Every task that was loaded passed validation, whatever the file held.\<close>

lemma load_tasks_inv:
  assumes "load_tasks ts ob = Inr ob'" "io_inv (ob, w)"
  shows "io_inv (ob', w) \<and> ioPath ob' = ioPath ob"
  using assms
proof (induction ts arbitrary: ob)
  case (Cons t ts)
  let ?ob = "ob\<lparr>ioTasks := map_set (tkID t) t (ioTasks ob)\<rparr>"
  have t: "validateTask t = None" "load_tasks ts ?ob = Inr ob'"
    using Cons.prems(1) by (auto split: option.splits if_splits)
  have "io_inv (?ob, w)" using Cons.prems(2) t(1) by (auto simp: io_inv_def)
  then show ?case using Cons.IH [OF t(2)] by simp
qed simp

lemma open_outbox_inv:
  assumes "OpenInvestigationOutbox mk op directory d = Inr ob"
  shows "io_inv (ob, w)" "ioPath ob = outbox_path directory"
proof -
  let ?ob = "\<lparr>ioPath = outbox_path directory, ioTasks = map_new\<rparr>"
  have empty: "io_inv (?ob, w)" by (simp add: io_inv_def)
  have "ob = ?ob \<or> (\<exists>ts. load_tasks ts ?ob = Inr ob)"
    using assms
    by (auto simp: OpenInvestigationOutbox_def ensureDataDirectory_def outbox_path_def Let_def
        split: sum.splits option.splits if_splits)
  then show "io_inv (ob, w)" "ioPath ob = outbox_path directory"
    using empty load_tasks_inv [of _ ?ob ob w] by auto
qed

text \<open>An open that succeeds does so for the contents of the file, not for the outcomes of the system calls.\<close>

lemma open_cases_plain: "OpenCaseStore mk op directory d = Inr st \<Longrightarrow> OpenCaseStore None None directory d = Inr st"
  by (auto simp: OpenCaseStore_def ensureDataDirectory_def readJSONFile_def Let_def
      split: sum.splits option.splits if_splits)

lemma open_outbox_plain:
  "OpenInvestigationOutbox mk op directory d = Inr ob \<Longrightarrow> OpenInvestigationOutbox None None directory d = Inr ob"
  by (auto simp: OpenInvestigationOutbox_def ensureDataDirectory_def readJSONFile_def Let_def
      split: sum.splits option.splits if_splits)

subsection \<open>Steps of the running system\<close>

definition revisions_left :: "daemon \<Rightarrow> bool" where
  "revisions_left s \<longleftrightarrow> (\<forall>cid c. fst (lcs_abs (fst s)) cid = Some c \<longrightarrow> caseRevision c + 1 \<noteq> 0)"

definition disks :: "daemon \<Rightarrow> disk \<times> disk" where
  "disks s = (wDisk (snd (fst s)), wDisk (snd (snd s)))"

text \<open>
  \<open>restart\<close> is a crash between operations, \<open>gap\<close> one after the case was written and before the outbox.
  The clock never shows the zero time, and a case has not used up the revisions of its 64-bit counter.
\<close>

inductive daemon_step :: "string \<Rightarrow> daemon \<Rightarrow> daemon \<Rightarrow> bool" for directory where
  serve: "\<not> IsZero now \<Longrightarrow> \<not> IsZero now' \<Longrightarrow> body_valid (rqBody request) \<Longrightarrow> revisions_left s \<Longrightarrow>
    daemon_serve now rnd now' request s = (response, s') \<Longrightarrow> daemon_step directory s s'"
| tick: "(\<And>n. \<not> IsZero (clock n)) \<Longrightarrow> daemon_reconcile clock ctx s = (r, s') \<Longrightarrow> daemon_step directory s s'"
| restart: "(\<And>n. \<not> IsZero (seClock env n)) \<Longrightarrow>
    main_start interval directory env (fst (disks s)) (snd (disks s)) = Inr (n, s') \<Longrightarrow> daemon_step directory s s'"
| gap: "\<not> IsZero now \<Longrightarrow> valid_event event \<Longrightarrow> revisions_left s \<Longrightarrow>
    Service_RecordEvent CaseStore_ApplyEvent now (randomCaseID rnd) ctx event (fst s) = (r, sw) \<Longrightarrow>
    (\<And>n. \<not> IsZero (seClock env n)) \<Longrightarrow>
    main_start interval directory env (wDisk (snd sw)) (snd (disks s)) = Inr (n, s') \<Longrightarrow> daemon_step directory s s'"

definition cases_ok :: "string \<Rightarrow> CaseStore \<times> world \<Rightarrow> bool" where
  "cases_ok directory sw \<longleftrightarrow> lcs_inv sw \<and> csPath (fst sw) = cases_path directory \<and>
     reopens directory (wDisk (snd sw)) (lcs_abs sw) \<and> all_storable (fst (lcs_abs sw))"

definition outbox_ok :: "string \<Rightarrow> io \<Rightarrow> bool" where
  "outbox_ok directory q \<longleftrightarrow> io_inv q \<and> io_sync directory q \<and> valid_tasks (io_tasks q)"

definition daemon_inv :: "string \<Rightarrow> daemon \<Rightarrow> bool" where
  "daemon_inv directory s \<longleftrightarrow> cases_ok directory (fst s) \<and> outbox_ok directory (snd s)"

lemma valid_string_digits: "valid_string (''INC-'' @ format_compact t @ ''-'' @ hex_encode bs)"
proof -
  have pad: "list_all (\<lambda>c. of_char c < (128::nat)) (pad_digits k n)" for k n
    by (induction k n rule: pad_digits.induct) (auto simp: digit_def list_all_append nat_mod_distrib)
  have hex: "list_all (\<lambda>c. of_char c < (128::nat)) (hex_encode bs)"
    by (auto simp: hex_encode_def list_all_iff hex_digit_ascii)
  show ?thesis
    by (rule valid_string_ascii)
      (use pad hex in \<open>auto simp: format_compact_def list_all_append Let_def split: prod.splits\<close>)
qed

lemma randomCaseID_valid: "randomCaseID rnd now = Inr cid \<Longrightarrow> valid_string cid"
  using valid_string_digits by (auto simp: randomCaseID_def split: sum.splits)

lemma record_cases_ok:
  assumes "directory \<noteq> []" "cases_ok directory sw" "\<not> IsZero now" "valid_event event"
    and "\<forall>cid c. fst (lcs_abs sw) cid = Some c \<longrightarrow> caseRevision c + 1 \<noteq> 0"
    and "Service_RecordEvent CaseStore_ApplyEvent now (randomCaseID rnd) ctx event sw = (r, sw')"
  shows "cases_ok directory sw'"
proof (cases "Validate event")
  case (Some err)
  then show ?thesis using assms by (simp add: Service_RecordEvent_def Let_def)
next
  case None
  obtain s w s' w' where sw: "sw = (s, w)" "sw' = (s', w')" by fastforce
  define e where "e = (if IsZero (evObservedAt (Normalize event)) then (Normalize event)\<lparr>evObservedAt := UTC now\<rparr>
    else Normalize event)"
  have app: "CaseStore_ApplyEvent ctx e (UTC now) (randomCaseID rnd) (s, w) = (r, s', w')"
    using assms(6) None sw by (simp add: Service_RecordEvent_def Let_def e_def)
  have valid: "valid_event e"
    using valid_event_Normalize [OF assms(4)] by (auto simp: e_def valid_event_def)
  have old: "lcs_inv (s, w)" "csPath s = cases_path directory" "reopens directory (wDisk w) (lcs_abs (s, w))"
      "all_storable (map_get (csByID s))"
    using assms(2) sw by (auto simp: cases_ok_def lcs_abs_def)
  have inv': "lcs_inv (s', w')" using lcs.apply_inv [OF old(1) app] .
  have storable: "all_storable (map_get (csByID s'))"
  proof (cases ctx)
    case (Some err)
    then show ?thesis using app old(4) by (simp add: CaseStore_ApplyEvent_def)
  next
    case None
    have st: "store_inv (map_get (csByID s), map_get (csOpenByPrint s))"
      using old(1) by (simp add: lcs_inv_def lcs_abs_def)
    show ?thesis
      using old(1) app [unfolded None]
    proof (cases rule: CaseStore_cases)
      case saved
      then have spec: "apply_spec e (UTC now) (randomCaseID rnd) (map_get (csByID s), map_get (csOpenByPrint s)) =
          (r, map_get (csByID s'), map_get (csOpenByPrint s'))"
        by (simp add: lcs_abs_def)
      show ?thesis
        by (rule apply_spec_storable [OF st spec old(4) valid])
          (use assms(3,5) sw randomCaseID_valid in \<open>auto simp: lcs_abs_def\<close>)
    qed (use old(4) in simp_all)
  qed
  have "reopens directory (wDisk w') (lcs_abs (s', w')) \<and> csPath s' = cases_path directory"
    by (rule ApplyEvent_durable [OF assms(1) old(2,1,3) app storable])
  then show ?thesis using inv' storable sw by (simp add: cases_ok_def lcs_abs_def)
qed

lemma ensure_outbox_ok:
  assumes "directory \<noteq> []" "outbox_ok directory q" "\<not> IsZero now" "valid_string cid"
    and "EnsurePending ctx cid revision now q = (r, q')"
  shows "outbox_ok directory q'"
proof -
  let ?op = "OpEnsure ctx cid revision now"
  have q': "q' = exec ?op q" "op_ok ?op" using assms(3,5) by simp_all
  have inv: "io_inv q" "io_sync directory q" "valid_tasks (io_tasks q)" using assms(2) by (auto simp: outbox_ok_def)
  obtain ob w ob' w' where p: "q = (ob, w)" "q' = (ob', w')" by fastforce
  have "valid_tasks (map_get (ioTasks ob'))"
    using assms(5) [unfolded p]
    by (cases rule: ensure_cases) (use inv(3) assms(4) p in \<open>auto simp: valid_tasks_def elim!: install_cases split: if_splits\<close>)
  then have "valid_tasks (io_tasks (exec ?op q))" using p q'(1) by (metis io_tasks_pair)
  then show ?thesis
    using exec_inv [OF inv(1) q'(2)] exec_sync [OF assms(1) inv(1) q'(2) inv(2)] q'(1) by (simp add: outbox_ok_def)
qed

lemma loop_outbox_ok:
  assumes "directory \<noteq> []" "\<And>n. \<not> IsZero (clock n)" "outbox_ok directory q"
    and "\<forall>c \<in> set cs. valid_string (caseID c)" "reconcile_loop EnsurePending clock ctx cs n q = (r, q')"
  shows "outbox_ok directory q'"
  using assms(3-)
proof (induction cs arbitrary: n q)
  case (Cons c cs)
  obtain r1 q1 where e: "EnsurePending ctx (caseID c) (caseRevision c) (UTC (clock (length cs))) q = (r1, q1)"
    by (metis prod.exhaust)
  have ok: "outbox_ok directory q1"
    by (rule ensure_outbox_ok [OF assms(1) Cons.prems(1) _ _ e]) (use assms(2) Cons.prems(2) in auto)
  show ?case
  proof (cases r1)
    case (Inl err)
    then show ?thesis using ok e Cons.prems(3) by simp
  next
    case (Inr x)
    then show ?thesis using Cons.IH [OF ok] Cons.prems(2,3) e by (cases x) auto
  qed
qed simp

definition all_pending_scheduled :: "daemon \<Rightarrow> bool" where
  "all_pending_scheduled s \<longleftrightarrow> (\<forall>cid c. fst (lcs_abs (fst s)) cid = Some c \<longrightarrow>
     incStatus (caseIncident c) = StatusPendingInvestigation \<longrightarrow>
     (\<exists>r. scheduled (snd s) cid = Some r \<and> caseRevision c \<le> r))"

lemma all_pending_conv: "all_pending_scheduled s = lin.work_for_all s"
  by (simp add: all_pending_scheduled_def lin.work_for_all_def lob.covers_def split: prod.splits)

lemma reconcile_ok:
  assumes "directory \<noteq> []" "\<And>n. \<not> IsZero (clock n)" "daemon_inv directory s" "daemon_reconcile clock ctx s = ((n, err), s')"
  shows "daemon_inv directory s'" "fst s' = fst s" "err = None \<Longrightarrow> all_pending_scheduled s'"
proof -
  obtain sw q where s: "s = (sw, q)" by (metis prod.exhaust)
  have inv: "lcs_inv sw" "io_inv q" "outbox_ok directory q" "cases_ok directory sw"
    using assms(3) s by (auto simp: daemon_inv_def cases_ok_def outbox_ok_def)
  obtain sw' q' where s': "s' = (sw', q')" by (metis prod.exhaust)
  have rec: "ReconcilePending CaseStore_ListPendingInvestigation EnsurePending clock ctx (sw, q) = ((n, err), sw', q')"
    using assms(4) s s' by (simp add: daemon_reconcile_def Service_ListPendingInvestigation_def [abs_def])
  show same: "fst s' = fst s"
    using rec s s' unfolding ReconcilePending_def by (auto split: sum.splits prod.splits)
  have "outbox_ok directory q'"
  proof (cases "CaseStore_ListPendingInvestigation ctx sw")
    case (Inl e)
    then show ?thesis using rec inv(3) by (simp add: ReconcilePending_def)
  next
    case (Inr cs)
    then have "ctx = None" using lcs.list_cancelled by (cases ctx) auto
    then have "\<forall>c \<in> set cs. fst (lcs_abs sw) (caseID c) = Some c"
      using lcs.list_law [OF inv(1)] Inr by auto
    then have ids: "\<forall>c \<in> set cs. valid_string (caseID c)"
      using inv(4) by (auto simp: cases_ok_def all_storable_def storable_def valid_case_def)
    have "reconcile_loop EnsurePending clock ctx cs 0 q = ((n, err), q')"
      using rec Inr by (auto simp: ReconcilePending_def split: prod.splits)
    from loop_outbox_ok [OF assms(1,2) inv(3) ids this] show ?thesis .
  qed
  then show "daemon_inv directory s'" using same s s' inv(4) by (simp add: daemon_inv_def)
  show "all_pending_scheduled s'" if "err = None"
    using lin.reconcile_establishes(3) [OF inv(1,2) assms(2) rec [unfolded that]] s' by (simp add: all_pending_conv)
qed

text \<open>Starting on disks that reopen to a state gives that state, with work for every pending case.\<close>

lemma main_start_ok:
  assumes "directory \<noteq> []" "\<And>n. \<not> IsZero (seClock env n)" "reopens directory d1 (cases, opn)" "ob_reopens directory d2 tasks"
    and "main_start interval directory env d1 d2 = Inr (n, s')"
  shows "daemon_inv directory s'" "all_pending_scheduled s'"
    "\<forall>cid. rel_option case_eq (fst (lcs_abs (fst s')) cid) (cases cid)" "snd (lcs_abs (fst s')) = opn"
proof -
  obtain st ob where o: "OpenCaseStore (seMkdirCases env) (seOpenCases env) directory d1 = Inr st"
      "OpenInvestigationOutbox (seMkdirOutbox env) (seOpenOutbox env) directory d2 = Inr ob"
    and r: "daemon_reconcile (seClock env) None ((st, \<lparr>wDisk = d1, wScript = seScriptCases env\<rparr>),
        (ob, \<lparr>wDisk = d2, wScript = seScriptOutbox env\<rparr>)) = ((n, None), s')"
    using assms(5)
    by (auto simp: main_start_def NewService_def NewIntakeService_def New_handler_def Let_def
        split: if_splits sum.splits prod.splits option.splits)
  let ?sw = "(st, \<lparr>wDisk = d1, wScript = seScriptCases env\<rparr>)"
  let ?q = "(ob, \<lparr>wDisk = d2, wScript = seScriptOutbox env\<rparr>)"
  have st: "csPath st = cases_path directory" "store_inv (store_of st)" "all_storable (map_get (csByID st))"
      "\<forall>cid. rel_option case_eq (map_get (csByID st) cid) (cases cid)" "map_get (csOpenByPrint st) = opn"
    using assms(3) open_cases_plain [OF o(1)] by (auto simp: reopens_def)
  have "cases_ok directory ?sw"
    using st open_cases_plain [OF o(1)] by (simp add: cases_ok_def lcs_inv_def lcs_abs_def reopens_def option.rel_refl)
  moreover have "outbox_ok directory ?q"
    using assms(4) open_outbox_plain [OF o(2)] open_outbox_inv [OF o(2)]
    by (auto simp: outbox_ok_def io_sync_def ob_reopens_def option.rel_refl)
  ultimately have inv: "daemon_inv directory (?sw, ?q)" by (simp add: daemon_inv_def)
  note res = reconcile_ok [OF assms(1,2) inv r]
  show "daemon_inv directory s'" by (rule res(1))
  show "all_pending_scheduled s'" using res(3) by simp
  show "\<forall>cid. rel_option case_eq (fst (lcs_abs (fst s')) cid) (cases cid)" "snd (lcs_abs (fst s')) = opn"
    using st(4,5) res(2) by (simp_all add: lcs_abs_def)
qed

lemma serve_ok:
  assumes "directory \<noteq> []" "daemon_inv directory s" "\<not> IsZero now" "\<not> IsZero now'" "body_valid (rqBody request)"
    and "revisions_left s" "daemon_serve now rnd now' request s = (response, s')"
  shows "daemon_inv directory s'"
proof (cases "mux_route (rqMethod request) (rqPath request) = RouteEvents")
  case False
  then show ?thesis
    using assms(2,7) by (auto simp: daemon_serve_def ServeHTTP_def split: route.splits)
next
  case True
  obtain sw q where s: "s = (sw, q)" by (metis prod.exhaust)
  have acc: "acceptEvent (daemon_record now rnd now') request s = (response, s')"
    using assms(7) True by (simp add: daemon_serve_def ServeHTTP_def)
  have rec_ok: "daemon_inv directory s1"
    if ev: "request_event request = Some event" and rec: "daemon_record now rnd now' (rqContext request) event s = (res, s1)"
    for event res s1
  proof -
    have valid: "valid_event event" using request_event_valid [OF ev assms(5)] .
    obtain r sw1 where r: "Service_RecordEvent CaseStore_ApplyEvent now (randomCaseID rnd) (rqContext request) event sw = (r, sw1)"
      by (metis prod.exhaust)
    have c: "cases_ok directory sw1"
      by (rule record_cases_ok [OF assms(1) _ assms(3) valid _ r])
        (use assms(2,6) s in \<open>auto simp: daemon_inv_def revisions_left_def\<close>)
    have o: "outbox_ok directory q" using assms(2) s by (simp add: daemon_inv_def)
    have lcs: "lcs_inv sw" using assms(2) s by (simp add: daemon_inv_def cases_ok_def)
    show ?thesis
    proof (cases r)
      case (Inl e)
      then show ?thesis using rec r c o s by (auto simp: daemon_record_def Intake_RecordEvent_def daemon_inv_def)
    next
      case (Inr p)
      obtain k created where p: "p = (k, created)" by fastforce
      obtain r2 q2 where e: "EnsurePending (rqContext request) (caseID k) (caseRevision k) (UTC now') q = (r2, q2)"
        by (metis prod.exhaust)
      have "CaseStore_Get None (caseID k) sw1 = Inr k"
        using lcs.record_ok(1) [OF lcs] r Inr p by simp
      then have "fst (lcs_abs sw1) (caseID k) = Some k"
        using c lcs.get_law [of sw1 "caseID k"] by (auto simp: cases_ok_def split: option.splits)
      then have "valid_string (caseID k)"
        using c by (auto simp: cases_ok_def all_storable_def storable_def valid_case_def)
      then have "outbox_ok directory q2"
        using ensure_outbox_ok [OF assms(1) o _ _ e] assms(4) by simp
      moreover have "s1 = (sw1, q2)"
        using rec r Inr p e s by (auto simp: daemon_record_def Intake_RecordEvent_def split: sum.splits)
      ultimately show ?thesis using c by (simp add: daemon_inv_def)
    qed
  qed
  from acc show ?thesis
    by (cases rule: accept_cases) (use assms(2) rec_ok in auto)
qed

lemma daemon_step_inv:
  assumes "daemon_step directory s s'" "directory \<noteq> []" "daemon_inv directory s"
  shows "daemon_inv directory s'"
  using assms(1)
proof (cases rule: daemon_step.cases)
  case (serve now now' request rnd response)
  then show ?thesis using serve_ok [OF assms(2,3)] by blast
next
  case (tick clock ctx r)
  obtain n err where "r = (n, err)" by fastforce
  then show ?thesis using reconcile_ok(1) [OF assms(2) _ assms(3)] tick by blast
next
  case (restart env interval n)
  obtain cases opn where a: "lcs_abs (fst s) = (cases, opn)" by fastforce
  have "reopens directory (fst (disks s)) (cases, opn)" "ob_reopens directory (snd (disks s)) (io_tasks (snd s))"
    using assms(3) a by (auto simp: daemon_inv_def cases_ok_def outbox_ok_def io_sync_def disks_def io_tasks_def split: prod.splits)
  from main_start_ok(1) [OF assms(2) restart(1) this restart(2)] show ?thesis .
next
  case (gap now event rnd ctx r sw env interval n)
  have "cases_ok directory sw"
    by (rule record_cases_ok [OF assms(2) _ gap(1,2) _ gap(4)])
      (use assms(3) gap(3) in \<open>auto simp: daemon_inv_def revisions_left_def\<close>)
  then obtain cases opn where "reopens directory (wDisk (snd sw)) (cases, opn)"
    by (metis cases_ok_def prod.exhaust)
  moreover have "ob_reopens directory (snd (disks s)) (io_tasks (snd s))"
    using assms(3) by (auto simp: daemon_inv_def outbox_ok_def io_sync_def disks_def io_tasks_def split: prod.splits)
  ultimately show ?thesis using main_start_ok(1) [OF assms(2) gap(5) _ _ gap(6)] by blast
qed

lemma daemon_reachable_inv:
  assumes "(daemon_step directory)\<^sup>*\<^sup>* s s'" "directory \<noteq> []" "daemon_inv directory s"
  shows "daemon_inv directory s'"
  using assms(1,3) by (induction rule: rtranclp_induct) (use daemon_step_inv assms(2) in blast)+

text \<open>A first start in an empty directory.\<close>

lemma empty_reopens:
  assumes "directory \<noteq> []"
  shows "reopens directory Map.empty (Map.empty, Map.empty)" "ob_reopens directory Map.empty Map.empty"
  using assms
  by (simp_all add: reopens_def ob_reopens_def OpenCaseStore_def OpenInvestigationOutbox_def ensureDataDirectory_def
      readJSONFile_def cases_path_def outbox_path_def all_storable_def valid_tasks_def Let_def)

text \<open>
  A start on the disks of a state in which all pending work is scheduled succeeds and has nothing to
  reconcile, when the directory and the files can be opened.
\<close>

lemma rel_same_scheduled:
  assumes "\<forall>tid. rel_option task_eq (map_get (ioTasks ob) tid) (map_get (ioTasks ob') tid)"
    and "valid_tasks (map_get (ioTasks ob))" "valid_tasks (map_get (ioTasks ob'))"
  shows "scheduled (ob, w) = scheduled (ob', w')"
proof
  fix cid
  have "rel_option task_eq (map_get (ioTasks ob) (taskID cid)) (map_get (ioTasks ob') (taskID cid))" using assms(1) by blast
  then show "scheduled (ob, w) cid = scheduled (ob', w') cid"
  proof (cases rule: option.rel_cases)
    case (Some t u)
    have "valid_string (tkCaseID t)" "valid_string (tkCaseID u)" using assms(2,3) Some by (auto simp: valid_tasks_def)
    moreover have "coerce (tkCaseID t) = coerce (tkCaseID u)" "tkCaseRevision t = tkCaseRevision u"
      using arg_cong [OF Some(3) [unfolded task_eq_def], of tkCaseID]
        arg_cong [OF Some(3) [unfolded task_eq_def], of tkCaseRevision] by (simp_all add: coerce_task_def)
    ultimately show ?thesis using Some by (simp add: scheduled_def)
  qed (simp add: scheduled_def)
qed

lemma restart_succeeds:
  assumes "directory \<noteq> []" "daemon_inv directory s" "all_pending_scheduled s" "0 < interval"
    and "seMkdirCases env = None" "seOpenCases env = None" "seMkdirOutbox env = None" "seOpenOutbox env = None"
  shows "\<exists>s'. main_start interval directory env (fst (disks s)) (snd (disks s)) = Inr (0, s')"
proof -
  obtain st w ob wo where s: "s = ((st, w), (ob, wo))" by (metis prod.exhaust)
  have c: "reopens directory (wDisk w) (store_of st)" "ob_reopens directory (wDisk wo) (map_get (ioTasks ob))"
      "valid_tasks (map_get (ioTasks ob))"
    using assms(2) s by (auto simp: daemon_inv_def cases_ok_def outbox_ok_def io_sync_def lcs_abs_def)
  obtain st' where st': "OpenCaseStore None None directory (wDisk w) = Inr st'" "store_inv (store_of st')"
      "all_storable (map_get (csByID st'))" "\<forall>cid. rel_option case_eq (map_get (csByID st') cid) (map_get (csByID st) cid)"
    using c(1) by (auto simp: reopens_def)
  obtain ob' where ob': "OpenInvestigationOutbox None None directory (wDisk wo) = Inr ob'"
      "valid_tasks (map_get (ioTasks ob'))" "\<forall>tid. rel_option task_eq (map_get (ioTasks ob') tid) (map_get (ioTasks ob) tid)"
    using c(2) by (auto simp: ob_reopens_def)
  let ?sw = "(st', \<lparr>wDisk = wDisk w, wScript = seScriptCases env\<rparr>)"
  let ?q = "(ob', \<lparr>wDisk = wDisk wo, wScript = seScriptOutbox env\<rparr>)"
  have inv: "lcs_inv ?sw" "io_inv ?q" using st'(2) open_outbox_inv(1) [OF ob'(1)] by (auto simp: lcs_inv_def lcs_abs_def)
  have sched: "scheduled ?q = scheduled (ob, wo)" by (rule rel_same_scheduled [OF ob'(3,2) c(3)])
  obtain cs where cs: "CaseStore_ListPendingInvestigation None ?sw = Inr cs"
      "\<forall>x. x \<in> set cs \<longleftrightarrow> map_get (csByID st') (caseID x) = Some x \<and> incStatus (caseIncident x) = StatusPendingInvestigation"
    using lcs.list_law [OF inv(1)] by (auto simp: lcs_abs_def)
  have "lob.covers ?q (caseID x) (caseRevision x) \<and> caseRevision x \<noteq> 0 \<and> caseID x \<noteq> []" if "x \<in> set cs" for x
  proof -
    have x: "map_get (csByID st') (caseID x) = Some x" "incStatus (caseIncident x) = StatusPendingInvestigation"
      using cs(2) that by auto
    have "rel_option case_eq (Some x) (map_get (csByID st) (caseID x))" using st'(4) x(1) by metis
    then obtain y where y: "map_get (csByID st) (caseID x) = Some y" "case_eq x y" by (auto simp: option_rel_Some1)
    have same: "caseRevision y = caseRevision x" "incStatus (caseIncident y) = incStatus (caseIncident x)"
      using case_eq_facts [OF y(2)] by simp_all
    obtain r where "scheduled (ob, wo) (caseID x) = Some r" "caseRevision x \<le> r"
      using assms(3) y(1) same x(2) s unfolding all_pending_scheduled_def lcs_abs_def by fastforce
    moreover have "caseRevision x \<noteq> 0" using st'(3) x(1) by (auto simp: all_storable_def storable_def)
    moreover have "caseID x \<noteq> []" using store_inv_case [OF st'(2) x(1)] by (auto simp: case_inv_def)
    ultimately show ?thesis by (simp add: lob.covers_def sched)
  qed
  then have "reconcile_loop EnsurePending (seClock env) None cs 0 ?q = ((0, None), ?q)"
    using lin.loop_quiet [OF inv(2)] by blast
  then have "daemon_reconcile (seClock env) None (?sw, ?q) = ((0, None), ?sw, ?q)"
    using cs(1) by (simp add: daemon_reconcile_def ReconcilePending_def Service_ListPendingInvestigation_def)
  then show ?thesis
    using assms(4-8) st'(1) ob'(1) s
    by (simp add: main_start_def NewService_def NewIntakeService_def New_handler_def disks_def Let_def)
qed

end
