(* ===== verification/Samples.thy ===== *)
theory Samples
  imports Daemon
begin

text \<open>
  Concrete inputs on which the properties are exercised: a first start in an empty directory, a
  request that it accepts, and the store and outbox after it. Nothing here evaluates SHA-256: the
  fingerprint of the sample event stays a term.
\<close>

definition sample_now :: gotime where
  "sample_now = \<lparr>instant = 63000000000000000000, zone = 0\<rparr>"

definition sample_event :: Event where
  "sample_event = \<lparr>evID = ''e1'', evType = ''oom'', evSource = ''k8s'', evOccurredAt = sample_now,
     evObservedAt = sample_now, evEnvironment = ''prod'', evService = ''api'', evNode = [], evWorkload = [],
     evContainer = [], evSeverity = ''high'', evDedupeKey = [], evAttributes = None\<rparr>"

lemma sample_trim [simp]:
  "TrimSpace ''e1'' = ''e1''" "TrimSpace ''oom'' = ''oom''" "TrimSpace ''k8s'' = ''k8s''"
  "TrimSpace ''prod'' = ''prod''" "TrimSpace ''api'' = ''api''" "TrimSpace ''high'' = ''high''"
  "TrimSpace ''worker'' = ''worker''"
  by (rule TrimSpace_trimmed, simp add: trimmed_def bytes_of_def decodeLastRune_def IsSpace_def)+

lemma sample_lower [simp]: "ToLower ''oom'' = ''oom''" "ToLower ''high'' = ''high''"
  by (simp_all add: ToLower_ascii ascii_lower_def char_of_def bit_iff_odd)

lemma sample_normalized [simp]: "Normalize sample_event = sample_event"
  by (simp add: Normalize_def sample_event_def sample_now_def UTC_def IsZero_def)

lemma sample_valid [simp]: "Validate sample_event = None"
  by (simp add: Validate_def event_problems_def sample_event_def sample_now_def IsZero_def)

lemma sample_fields:
  "evID sample_event = ''e1''" "evSource sample_event = ''k8s''" "evType sample_event = ''oom''"
  "evEnvironment sample_event = ''prod''" "evService sample_event = ''api''" "evNode sample_event = []"
  "evWorkload sample_event = []" "evContainer sample_event = []"
  by (simp_all add: sample_event_def)

lemma sample_now_facts [simp]:
  "\<not> IsZero sample_now" "UTC sample_now = sample_now" "json_time_ok sample_now" "zone sample_now = 0"
  by (simp_all add: sample_now_def IsZero_def UTC_def json_time_ok_def Let_def)

lemma sample_valid_event [simp]: "valid_event sample_event"
  by (simp add: valid_event_def sample_event_def valid_string_ascii valid_attributes_def)

subsection \<open>A first start\<close>

definition sample_env :: start_env where
  "sample_env = \<lparr>seMkdirCases = None, seOpenCases = None, seMkdirOutbox = None, seOpenOutbox = None,
     seNow = sample_now, seRandom = Inr [1, 2], seClock = (\<lambda>_. sample_now), seScriptCases = [], seScriptOutbox = []\<rparr>"

definition empty_world :: world where
  "empty_world = \<lparr>wDisk = Map.empty, wScript = []\<rparr>"

definition sample_cases :: "CaseStore \<times> world" where
  "sample_cases = (\<lparr>csPath = cases_path ''data'', csByID = map_new, csOpenByPrint = map_new\<rparr>, empty_world)"

definition sample_outbox :: io where
  "sample_outbox = (\<lparr>ioPath = outbox_path ''data'', ioTasks = map_new\<rparr>, empty_world)"

definition sample_daemon :: daemon where
  "sample_daemon = (sample_cases, sample_outbox)"

lemma sample_start: "main_start 30 ''data'' sample_env Map.empty Map.empty = Inr (0, sample_daemon)"
  by (simp add: main_start_def OpenCaseStore_def OpenInvestigationOutbox_def ensureDataDirectory_def readJSONFile_def
      sample_env_def NewService_def NewIntakeService_def New_handler_def daemon_reconcile_def ReconcilePending_def
      Service_ListPendingInvestigation_def CaseStore_ListPendingInvestigation_def sample_daemon_def sample_cases_def
      sample_outbox_def empty_world_def cases_path_def outbox_path_def Let_def)

lemma sample_clock [simp]: "seClock sample_env n = sample_now"
  by (simp add: sample_env_def)

lemma sample_inv: "daemon_inv ''data'' sample_daemon"
  using main_start_ok(1) [OF _ _ empty_reopens(1) empty_reopens(2) sample_start] by simp

lemma sample_disks [simp]: "disks sample_daemon = (Map.empty, Map.empty)"
  by (simp add: disks_def sample_daemon_def sample_cases_def sample_outbox_def empty_world_def)

subsection \<open>The first event\<close>

definition sample_rnd :: "error + nat list" where
  "sample_rnd = Inr [1, 2]"

definition sample_id :: string where
  "sample_id = ''INC-'' @ format_compact sample_now @ ''-'' @ hex_encode [1, 2]"

definition sample_incident :: Incident where
  "sample_incident = \<lparr>incFingerprint = Fingerprint sample_event, incType = ''oom'',
     incStatus = StatusPendingInvestigation, incEnvironment = ''prod'', incService = ''api'', incNode = [],
     incWorkload = [], incContainer = [], incSeverity = ''high'', incFirstOccurredAt = sample_now,
     incLastOccurredAt = sample_now, incEvents = [sample_event]\<rparr>"

definition sample_case :: Case where
  "sample_case = \<lparr>caseID = sample_id, caseRevision = 1, caseCreatedAt = sample_now, caseUpdatedAt = sample_now,
     caseIncident = sample_incident\<rparr>"

lemma sample_New: "Incident_New sample_event = Inr sample_incident"
  by (simp add: Incident_New_def sample_incident_def Let_def) (simp add: sample_event_def)

lemma sample_id_facts [simp]: "randomCaseID sample_rnd sample_now = Inr sample_id" "sample_id \<noteq> []" "valid_string sample_id"
  using valid_string_digits [of sample_now "[1, 2]"] by (simp_all add: randomCaseID_def sample_rnd_def sample_id_def)

lemma sample_new_case: "new_case sample_id sample_incident sample_now = sample_case"
  by (simp add: new_case_def sample_case_def)

lemma sample_observed [simp]: "\<not> IsZero (evObservedAt sample_event)"
  by (simp add: sample_event_def)

definition sample_file :: json where
  "sample_file = case_state_json \<lparr>stVersion = caseStateVersion, stCases = [sample_case]\<rparr>"

lemma sample_file_ok [simp]: "json_ok sample_file"
proof -
  have [simp]: "json_ok (enc_string s)" "json_ok (enc_time t) = json_time_ok t" for s t
    by (simp_all add: enc_string_def enc_time_def)
  show ?thesis
    by (simp add: sample_file_def case_state_json_def case_json_def incident_json_def event_json_def sample_case_def
        sample_incident_def sample_event_def member_def omitempty_def attributes_present_def)
qed

definition sample_cases1 :: "CaseStore \<times> world" where
  "sample_cases1 = (\<lparr>csPath = cases_path ''data'', csByID = map_set sample_id sample_case map_new,
     csOpenByPrint = map_set (Fingerprint sample_event) sample_id map_new\<rparr>,
     \<lparr>wDisk = [cases_path ''data'' \<mapsto> [Doc sample_file]], wScript = []\<rparr>)"

lemma sample_saved: "saved_cases (map_set sample_id sample_case map_new) = sample_file"
  by (simp add: saved_cases_def sample_file_def map_values_def)

lemma sample_write:
  "CaseStore_persist \<lparr>csPath = cases_path ''data'', csByID = map_new, csOpenByPrint = map_new\<rparr>
     (map_set sample_id sample_case map_new) empty_world =
   (None, \<lparr>wDisk = [cases_path ''data'' \<mapsto> [Doc sample_file]], wScript = []\<rparr>)"
  by (simp add: CaseStore_persist_def sample_saved write_file_def writeJSONAtomic_def next_env_def CreateTemp_def
      all_ok_def Marshal_def empty_world_def temp_path_def cases_path_def fun_eq_iff)

lemma sample_apply:
  "CaseStore_ApplyEvent None sample_event sample_now (randomCaseID sample_rnd) sample_cases =
     (Inr (sample_case, True), sample_cases1)"
  by (simp add: CaseStore_ApplyEvent_def CaseStore_create_def CaseStore_install_def sample_cases_def sample_New
      sample_new_case sample_write sample_cases1_def Let_def)

lemma sample_record:
  "Service_RecordEvent CaseStore_ApplyEvent sample_now (randomCaseID sample_rnd) None sample_event sample_cases =
     (Inr (sample_case, True), sample_cases1)"
  by (simp add: Service_RecordEvent_def sample_apply Let_def)

definition sample_task :: Task where
  "sample_task = new_task (taskID sample_id) sample_id 1 sample_now"

definition sample_outbox_file :: json where
  "sample_outbox_file = outbox_state_json \<lparr>obVersion = outboxStateVersion, obTasks = [sample_task]\<rparr>"

lemma sample_outbox_file_ok [simp]: "json_ok sample_outbox_file"
proof -
  have [simp]: "json_ok (enc_string s)" "json_ok (enc_time t) = json_time_ok t" for s t
    by (simp_all add: enc_string_def enc_time_def)
  show ?thesis
    by (simp add: sample_outbox_file_def outbox_state_json_def task_json_def sample_task_def new_task_def zero_task_def
        member_def omitempty_def)
qed

definition sample_outbox1 :: io where
  "sample_outbox1 = (\<lparr>ioPath = outbox_path ''data'', ioTasks = map_set (taskID sample_id) sample_task map_new\<rparr>,
     \<lparr>wDisk = [outbox_path ''data'' \<mapsto> [Doc sample_outbox_file]], wScript = []\<rparr>)"

lemma sample_outbox_saved: "saved_tasks (map_set (taskID sample_id) sample_task map_new) = sample_outbox_file"
  by (simp add: saved_tasks_def sample_outbox_file_def map_values_def)

lemma sample_outbox_write:
  "Outbox_persist \<lparr>ioPath = outbox_path ''data'', ioTasks = map_new\<rparr>
     (map_set (taskID sample_id) sample_task map_new) empty_world =
   (None, \<lparr>wDisk = [outbox_path ''data'' \<mapsto> [Doc sample_outbox_file]], wScript = []\<rparr>)"
  by (simp add: Outbox_persist_def sample_outbox_saved write_file_def writeJSONAtomic_def next_env_def CreateTemp_def
      all_ok_def Marshal_def empty_world_def temp_path_def outbox_path_def fun_eq_iff)

lemma sample_ensure: "EnsurePending None sample_id 1 sample_now sample_outbox = (Inr (sample_task, True), sample_outbox1)"
  by (simp add: EnsurePending_def sample_outbox_def Let_def Outbox_install_def sample_task_def [symmetric]
      sample_outbox_write sample_outbox1_def)

subsection \<open>The request\<close>

definition sample_body :: json where
  "sample_body = JObject [(''event_id'', JString ''e1''), (''type'', JString ''oom''), (''source'', JString ''k8s''),
     (''occurred_at'', JTime ''1997-05-21T08:00:00Z'' sample_now), (''observed_at'', JTime ''1997-05-21T08:00:00Z'' sample_now),
     (''environment'', JString ''prod''), (''service'', JString ''api''), (''severity'', JString ''high'')]"

definition sample_request :: http_request where
  "sample_request = \<lparr>rqMethod = ''POST'', rqPath = [''api'', ''v1alpha1'', ''events''],
     rqBody = \<lparr>bdItems = [(Doc sample_body, 260)], bdLength = 261\<rparr>, rqContext = None\<rparr>"

lemma sample_request_event: "request_event sample_request = Some sample_event"
  by (simp add: request_event_def sample_request_def MaxBytesReader_def maxRequestBytes_def Decode_def sample_body_def
      dec_struct_def incident_event_fields_def find_field_def zero_incident_event_def set_string_def set_time_def
      ensureEOF_def DecodeRaw_def EOF_def to_event_def sample_event_def)

lemma sample_body_valid [simp]: "body_valid (rqBody sample_request)"
  by (simp add: body_valid_def sample_request_def sample_body_def valid_string_ascii)

lemma sample_daemon_record:
  "daemon_record sample_now sample_rnd sample_now None sample_event sample_daemon =
     ((Some (sample_case, True), None), (sample_cases1, sample_outbox1))"
proof -
  have "caseID sample_case = sample_id" "caseRevision sample_case = 1" by (simp_all add: sample_case_def)
  then show ?thesis
    by (simp add: daemon_record_def Intake_RecordEvent_def sample_daemon_def sample_record sample_ensure)
qed

definition sample_response :: http_response where
  "sample_response = fst (daemon_serve sample_now sample_rnd sample_now sample_request sample_daemon)"

lemma sample_serve:
  "daemon_serve sample_now sample_rnd sample_now sample_request sample_daemon =
     (sample_response, (sample_cases1, sample_outbox1))" "rsStatus sample_response = 202"
proof -
  let ?rec = "daemon_record sample_now sample_rnd sample_now"
  have serve: "daemon_serve sample_now sample_rnd sample_now sample_request sample_daemon =
      acceptEvent ?rec sample_request sample_daemon"
    by (simp add: daemon_serve_def ServeHTTP_def mux_route_def sample_request_def)
  obtain resp s' where r: "acceptEvent ?rec sample_request sample_daemon = (resp, s')" by (metis prod.exhaust)
  have ctx: "rqContext sample_request = None" by (simp add: sample_request_def)
  from r have "s' = (sample_cases1, sample_outbox1) \<and> rsStatus resp = 202"
    by (cases rule: accept_cases)
      (use sample_request_event sample_daemon_record ctx in auto)
  then show "daemon_serve sample_now sample_rnd sample_now sample_request sample_daemon =
      (sample_response, (sample_cases1, sample_outbox1))" "rsStatus sample_response = 202"
    using serve r by (simp_all add: sample_response_def)
qed

lemma sample_revisions_left [simp]: "revisions_left sample_daemon"
  by (simp add: revisions_left_def sample_daemon_def sample_cases_def lcs_abs_def)

lemma sample_inv1: "daemon_inv ''data'' (sample_cases1, sample_outbox1)"
  using serve_ok [OF _ sample_inv _ _ sample_body_valid sample_revisions_left sample_serve(1)] by simp

lemma sample_scheduled1: "all_pending_scheduled (sample_cases1, sample_outbox1)"
  by (auto simp: all_pending_scheduled_def lcs_abs_def sample_cases1_def sample_outbox1_def scheduled_def sample_case_def
      sample_task_def split: if_splits)

subsection \<open>A lease\<close>

definition sample_leased :: Task where
  "sample_leased = lease_task ''worker'' (hex_encode [9]) sample_now 60 sample_task"

definition sample_outbox2 :: io where
  "sample_outbox2 = (\<lparr>ioPath = outbox_path ''data'', ioTasks = map_set (taskID sample_id) sample_leased map_new\<rparr>, empty_world)"

lemma sample_json_ok [simp]: "json_ok (enc_string s)" "json_ok (enc_time t) = json_time_ok t"
  by (simp_all add: enc_string_def enc_time_def)

lemma sample_until [simp]: "json_time_ok (Add sample_now 60)"
  by (simp add: Add_def sample_now_def json_time_ok_def Let_def)

lemma outbox_write_ok:
  assumes "json_ok (saved_tasks m)" "wDisk w (temp_path (filepath_Clean ''data'') ''0'') = None" "wScript w = []"
  shows "fst (Outbox_persist \<lparr>ioPath = outbox_path ''data'', ioTasks = m0\<rparr> m w) = None"
  using assms
  by (simp add: Outbox_persist_def write_file_def writeJSONAtomic_def next_env_def CreateTemp_def all_ok_def Marshal_def
      outbox_path_def Let_def)

lemma sample_lease: "\<exists>t q. LeaseNext (Inr [9]) None ''worker'' sample_now 60 sample_outbox1 = (Inr t, q)"
proof -
  have elig: "eligible sample_now sample_task"
    by (simp add: eligible_def sample_task_def new_task_def After_def)
  let ?m = "map_set (taskID sample_id) sample_leased map_new"
  have "json_ok (saved_tasks ?m)"
    by (simp add: saved_tasks_def map_values_def outbox_state_json_def task_json_def sample_leased_def lease_task_def
        sample_task_def new_task_def zero_task_def member_def omitempty_def)
  then have w: "fst (Outbox_persist \<lparr>ioPath = outbox_path ''data'', ioTasks = map_set (taskID sample_id) sample_task map_new\<rparr> ?m
      \<lparr>wDisk = [outbox_path ''data'' \<mapsto> [Doc sample_outbox_file]], wScript = []\<rparr>) = None"
    by (intro outbox_write_ok) (simp_all add: temp_path_def outbox_path_def)
  have upd: "map_set (taskID sample_id) sample_leased (map_set (taskID sample_id) sample_task map_new) = ?m"
    by (simp add: alist_eq_iff)
  have id: "tkID sample_leased = taskID sample_id" by (simp add: sample_leased_def sample_task_def)
  show ?thesis
    using elig w upd id
    by (auto simp: LeaseNext_def sample_outbox1_def map_values_def randomLeaseToken_def Let_def
        sample_leased_def [symmetric] Outbox_install_def split: prod.splits option.splits)
qed

definition empty_outbox_world :: world where
  "empty_outbox_world = \<lparr>wDisk = [outbox_path ''data'' \<mapsto> [Doc (saved_tasks map_new)]], wScript = []\<rparr>"

lemma sample_complete:
  "Complete None (taskID sample_id) (tkLeaseToken sample_leased) sample_now sample_outbox2 =
     (Inr (), \<lparr>ioPath = outbox_path ''data'', ioTasks = map_new\<rparr>, empty_outbox_world)"
proof -
  have own: "ownedLease \<lparr>ioPath = outbox_path ''data'', ioTasks = map_set (taskID sample_id) sample_leased map_new\<rparr>
      (taskID sample_id) (tkLeaseToken sample_leased) sample_now = Inr sample_leased"
    using hex_encode_ne [of "[9]"]
    by (simp add: ownedLease_def sample_leased_def lease_task_def After_def Add_def)
  have del: "map_del (taskID sample_id) (map_set (taskID sample_id) sample_leased map_new) = map_new"
    by (simp add: alist_eq_iff)
  have ok: "json_ok (saved_tasks map_new)" by (simp add: saved_tasks_def outbox_state_json_def member_def)
  have "Outbox_persist \<lparr>ioPath = outbox_path ''data'', ioTasks = map_set (taskID sample_id) sample_leased map_new\<rparr>
      map_new empty_world = (None, empty_outbox_world)"
    using ok by (simp add: Outbox_persist_def write_file_def writeJSONAtomic_def next_env_def CreateTemp_def all_ok_def
        Marshal_def empty_world_def empty_outbox_world_def temp_path_def outbox_path_def fun_eq_iff)
  then show ?thesis
    using own del
    by (auto simp: Complete_def sample_outbox2_def Let_def Outbox_install_def sample_leased_def lease_task_def
        split: prod.splits option.splits)
qed

lemma sample_ensure_again:
  "\<exists>u changed s. EnsurePending None sample_id 1 sample_now
     (\<lparr>ioPath = outbox_path ''data'', ioTasks = map_new\<rparr>, empty_outbox_world) = (Inr (u, changed), s)"
proof -
  have "fst (Outbox_persist \<lparr>ioPath = outbox_path ''data'', ioTasks = map_new\<rparr>
      (map_set (taskID sample_id) sample_task map_new) empty_outbox_world) = None"
    by (rule outbox_write_ok) (simp_all add: sample_outbox_saved empty_outbox_world_def temp_path_def outbox_path_def)
  then show ?thesis
    by (auto simp: EnsurePending_def Let_def Outbox_install_def sample_task_def [symmetric] split: prod.splits option.splits)
qed

lemma sample_inv2: "io_inv sample_outbox2"
  by (auto simp: io_inv_def sample_outbox2_def sample_leased_def validateTask_iff leased_ok_def lease_task_def
      sample_task_def new_task_def hex_encode_ne Add_def IsZero_def sample_now_def split: if_splits)

subsection \<open>A start between the two writes\<close>

lemma single_entry:
  assumes "map_get m = [k \<mapsto> c]"
  shows "map_values m = [c]"
proof -
  have "(a, b) \<in> set (map_entries m) \<longleftrightarrow> a = k \<and> b = c" for a b
    using assms by (auto simp flip: map_get_entries split: if_splits)
  then have set: "set (map_entries m) = {(k, c)}" by auto
  have "length (map_entries m) = card (set (map_entries m))" by (simp add: distinct_card)
  then obtain x where "map_entries m = [x]" using set by (auto simp: length_Suc_conv)
  then show ?thesis using set by (simp add: map_values_def)
qed

lemma sample_restart:
  "\<exists>s'. main_start 30 ''data'' sample_env (wDisk (snd sample_cases1)) (snd (disks sample_daemon)) = Inr (1, s')"
proof -
  let ?d = "[cases_path ''data'' \<mapsto> [Doc sample_file]]"
  have "reopens ''data'' ?d (lcs_abs sample_cases1)"
    using sample_inv1 by (simp add: daemon_inv_def cases_ok_def sample_cases1_def)
  then obtain st where st: "OpenCaseStore None None ''data'' ?d = Inr st"
      "\<forall>cid. rel_option case_eq (map_get (csByID st) cid) (map_get (map_set sample_id sample_case map_new) cid)"
    by (auto simp: reopens_def lcs_abs_def sample_cases1_def)
  obtain c where c: "map_get (csByID st) sample_id = Some c" "case_eq c sample_case"
    using st(2) [rule_format, of sample_id] by (auto simp: option_rel_Some2)
  have "map_get (csByID st) = [sample_id \<mapsto> c]"
    using st(2) c(1) by (auto simp: fun_eq_iff lookup_update split: if_splits)
  then have v: "map_values (csByID st) = [c]" by (rule single_entry)
  have f: "caseID c = sample_id" "caseRevision c = 1" "incStatus (caseIncident c) = StatusPendingInvestigation"
    using case_eq_facts [OF c(2)] by (simp_all add: sample_case_def sample_incident_def)
  have "OpenInvestigationOutbox None None ''data'' Map.empty = Inr (fst sample_outbox)"
    by (simp add: OpenInvestigationOutbox_def ensureDataDirectory_def readJSONFile_def sample_outbox_def outbox_path_def Let_def)
  moreover have "sample_outbox = (fst sample_outbox, \<lparr>wDisk = Map.empty, wScript = []\<rparr>)"
    by (simp add: sample_outbox_def empty_world_def)
  ultimately show ?thesis
    using st(1) v f sample_ensure
    by (simp add: main_start_def sample_env_def NewService_def NewIntakeService_def New_handler_def daemon_reconcile_def
        ReconcilePending_def Service_ListPendingInvestigation_def CaseStore_ListPendingInvestigation_def sample_cases1_def Let_def)
qed

subsection \<open>A retry at the zero time\<close>

lemma sample_retry:
  "\<exists>ob w. Retry None (taskID sample_id) (tkLeaseToken sample_leased) sample_now time_zero [] sample_outbox2 = (Inr (), ob, w)"
proof -
  let ?ob = "\<lparr>ioPath = outbox_path ''data'', ioTasks = map_set (taskID sample_id) sample_leased map_new\<rparr>"
  let ?m = "map_set (taskID sample_id) (retry_task sample_now time_zero [] sample_leased) map_new"
  have own: "ownedLease ?ob (taskID sample_id) (tkLeaseToken sample_leased) sample_now = Inr sample_leased"
    using hex_encode_ne [of "[9]"] by (simp add: ownedLease_def sample_leased_def lease_task_def After_def Add_def)
  have upd: "map_set (taskID sample_id) (retry_task sample_now time_zero [] sample_leased)
      (map_set (taskID sample_id) sample_leased map_new) = ?m"
    by (simp add: alist_eq_iff)
  have zero: "json_time_ok time_zero" "json_time_ok (UTC time_zero)"
    by (simp_all add: json_time_ok_def time_zero_def UTC_def Let_def)
  have "json_ok (saved_tasks ?m)"
    by (simp add: saved_tasks_def map_values_def outbox_state_json_def task_json_def retry_task_def clearLease_def
        sample_leased_def lease_task_def sample_task_def new_task_def zero_task_def member_def omitempty_def zero)
  then have "fst (Outbox_persist ?ob ?m empty_world) = None"
    by (intro outbox_write_ok) (simp_all add: empty_world_def)
  then show ?thesis
    using own upd
    by (auto simp: Retry_def sample_outbox2_def Outbox_install_def split: prod.splits option.splits)
qed

end
