(* ===== verification/Hprof_Reader.thy ===== *)
theory Hprof_Reader
  imports Go_Runtime
begin

text \<open>
  The binary reader of the heap-dump analyzer (\<open>heapdump/hprofx/hprof.go\<close>, lines 16 to 102): the
  forward-only reader that counts its offset, its big-endian accessors, \<open>take\<close>, \<open>skip\<close> and
  \<open>readValue\<close>.

  The file is a list of bytes; a reader is the rest of the list that has not been consumed and the
  offset \<open>pos\<close>. A panic and a call of \<open>fatal\<close> end the process, so they are the error side of the
  result and no state is kept. Disk errors other than the end of the file are left out.

  The encoders \<open>be_bytes\<close>, \<open>enc_u1\<close> to \<open>enc_u8\<close> are the reference for what the reader decodes: each
  accessor returns the encoded value and moves exactly past it (the collection \<open>rd_simps\<close>). The
  locale \<open>record_loop\<close> is the contract of the bodies of the \<open>for d.pos < end\<close> loops.
\<close>

named_theorems rd_simps \<open>what a reader returns on encoded input\<close>
named_theorems rd_ends \<open>a read never runs out of fuel\<close>
named_theorems rd_consumes \<open>a successful read does not lengthen the rest of the input\<close>

subsection \<open>Failures and results\<close>

datatype failure =
    ReadPanic int int            \<comment> \<open>\<open>must\<close>: bytes wanted, offset\<close>
  | TakePanic int int            \<comment> \<open>\<open>take\<close>: bytes wanted, offset\<close>
  | SkipPanic int                \<comment> \<open>\<open>skip\<close>: offset reached\<close>
  | UnknownBasicType u8 int      \<comment> \<open>\<open>readValue\<close>: type code, offset\<close>
  | UnexpectedSubRecord u8 int   \<comment> \<open>tag, offset\<close>
  | IndexOutOfRange              \<comment> \<open>run-time panic of an index expression\<close>
  | MakeSliceOutOfRange          \<comment> \<open>run-time panic of \<open>make\<close> with a negative length\<close>
  | CannotOpen                   \<comment> \<open>\<open>fatal("cannot open ...")\<close>\<close>
  | UnsupportedIdSize int
  | NotHprof string
  | BadPattern string             \<comment> \<open>\<open>mustCompile\<close>\<close>
  | AgePatternWithoutGroup
  | NeedsClass string              \<comment> \<open>the command that needs \<open>-class\<close>\<close>
  | CannotWrite string
  | StackOverflow                \<comment> \<open>a recursion that does not end\<close>
  | OutOfFuel                    \<comment> \<open>never reached, see \<open>while_pos_unfold\<close>\<close>

type_synonym 'a outcome = "failure + 'a"

definition bind_ok :: "'a outcome \<Rightarrow> ('a \<Rightarrow> 'b outcome) \<Rightarrow> 'b outcome" where
  "bind_ok r f = (case r of Inl e \<Rightarrow> Inl e | Inr x \<Rightarrow> f x)"

lemma bind_ok_simps [simp]: "bind_ok (Inl e) f = Inl e" "bind_ok (Inr x) f = f x"
  by (simp_all add: bind_ok_def)

lemma bind_ok_Inr: "bind_ok r f = Inr y \<longleftrightarrow> (\<exists>x. r = Inr x \<and> f x = Inr y)"
  by (cases r) simp_all

lemma bind_ok_cong [fundef_cong]:
  "r = r' \<Longrightarrow> (\<And>x. r' = Inr x \<Longrightarrow> f x = f' x) \<Longrightarrow> bind_ok r f = bind_ok r' f'"
  by (cases r') simp_all

text \<open>An index expression: out of range it panics.\<close>

definition aget :: "'a list \<Rightarrow> int \<Rightarrow> 'a outcome" where
  "aget xs i = (if 0 \<le> i \<and> i < int (length xs) then Inr (xs ! nat i) else Inl IndexOutOfRange)"

definition aset :: "'a list \<Rightarrow> int \<Rightarrow> 'a \<Rightarrow> 'a list outcome" where
  "aset xs i v = (if 0 \<le> i \<and> i < int (length xs) then Inr (xs[nat i := v]) else Inl IndexOutOfRange)"

lemma aget_ok [simp]: "k < length xs \<Longrightarrow> aget xs (int k) = Inr (xs ! k)"
  by (simp add: aget_def)

lemma aset_ok [simp]: "k < length xs \<Longrightarrow> aset xs (int k) v = Inr (xs[k := v])"
  by (simp add: aset_def)

lemma aget_Suc [simp]: "Suc k < length xs \<Longrightarrow> aget xs (int k + 1) = Inr (xs ! Suc k)"
  "Suc k < length xs \<Longrightarrow> aget xs (1 + int k) = Inr (xs ! Suc k)"
  using aget_ok [of "Suc k" xs] by (simp_all add: add.commute)

lemma aset_Suc [simp]: "Suc k < length xs \<Longrightarrow> aset xs (int k + 1) v = Inr (xs[Suc k := v])"
  "Suc k < length xs \<Longrightarrow> aset xs (1 + int k) v = Inr (xs[Suc k := v])"
  using aset_ok [of "Suc k" xs v] by (simp_all add: add.commute)

text \<open>The conversion \<open>int32(x)\<close>.\<close>

definition int32 :: "int \<Rightarrow> int" where
  "int32 x = (x + 2 ^ 31) mod 2 ^ 32 - 2 ^ 31"

lemma int32_id: "- (2 ^ 31) \<le> x \<Longrightarrow> x < 2 ^ 31 \<Longrightarrow> int32 x = x"
  by (simp add: int32_def)

lemma int32_bounds: "- (2 ^ 31) \<le> int32 x" "int32 x < 2 ^ 31"
proof -
  have "0 \<le> (x + 2 ^ 31) mod 2 ^ 32" and "(x + 2 ^ 31) mod 2 ^ 32 < (2 ^ 32 :: int)"
    by simp_all
  then show "- (2 ^ 31) \<le> int32 x" and "int32 x < 2 ^ 31"
    by (simp_all add: int32_def)
qed

subsection \<open>Record tags and basic types\<close>

definition tagString :: u8 where "tagString = 0x01"
definition tagLoadClass :: u8 where "tagLoadClass = 0x02"
definition tagStackFrame :: u8 where "tagStackFrame = 0x04"
definition tagStackTrace :: u8 where "tagStackTrace = 0x05"
definition tagHeapDump :: u8 where "tagHeapDump = 0x0C"
definition tagHeapSeg :: u8 where "tagHeapSeg = 0x1C"
definition subClassDump :: u8 where "subClassDump = 0x20"
definition subInstance :: u8 where "subInstance = 0x21"
definition subObjArray :: u8 where "subObjArray = 0x22"
definition subPrimArray :: u8 where "subPrimArray = 0x23"
definition subHeapInfo :: u8 where "subHeapInfo = 0xFE"

lemmas tag_defs = tagString_def tagLoadClass_def tagStackFrame_def tagStackTrace_def
  tagHeapDump_def tagHeapSeg_def subClassDump_def subInstance_def subObjArray_def
  subPrimArray_def subHeapInfo_def

definition typeSize :: "int list" where
  "typeSize = [0, 0, 8, 0, 1, 2, 4, 8, 1, 2, 4, 8]"

definition typeName :: "string list" where
  "typeName = ['''', '''', ''object'', '''', ''boolean'', ''char'', ''float'', ''double'', ''byte'',
     ''short'', ''int'', ''long'']"

text \<open>\<open>typeSize[t]\<close> for a byte \<open>t\<close>.\<close>

definition type_size :: "u8 \<Rightarrow> int outcome" where
  "type_size t = aget typeSize (uint t)"

lemma type_size_ok: "t < 12 \<Longrightarrow> type_size t = Inr (typeSize ! unat t)"
  by (simp add: type_size_def aget_def typeSize_def word_less_def)

lemma type_size_nonneg: "type_size t = Inr w \<Longrightarrow> 0 \<le> w \<and> w \<le> 8"
proof -
  assume "type_size t = Inr w"
  then have "w \<in> set typeSize"
    using of_nat_less_iff [of "unat t" "length typeSize", where ?'a = int]
    by (auto simp: type_size_def aget_def split: if_splits)
  then show "0 \<le> w \<and> w \<le> 8"
    by (auto simp: typeSize_def)
qed

subsection \<open>The reader\<close>

record reader =
  input :: "u8 list"
  pos :: int

type_synonym 'a rd = "reader \<Rightarrow> ('a \<times> reader) outcome"

definition rret :: "'a \<Rightarrow> 'a rd" where
  "rret x d = Inr (x, d)"

definition rbind :: "'a rd \<Rightarrow> ('a \<Rightarrow> 'b rd) \<Rightarrow> 'b rd" where
  "rbind m f d = (case m d of Inl e \<Rightarrow> Inl e | Inr (x, d') \<Rightarrow> f x d')"

definition rlift :: "'a outcome \<Rightarrow> 'a rd" where
  "rlift r d = (case r of Inl e \<Rightarrow> Inl e | Inr x \<Rightarrow> Inr (x, d))"

lemma rret_apply [simp]: "rret x d = Inr (x, d)"
  by (simp add: rret_def)

lemma rlift_apply [simp]: "rlift (Inr x) d = Inr (x, d)" "rlift (Inl e) d = Inl e"
  by (simp_all add: rlift_def)

lemma rbind_ok: "m d = Inr (x, d') \<Longrightarrow> rbind m f d = f x d'"
  by (simp add: rbind_def)

lemma rbind_Inr: "rbind m f d = Inr r \<longleftrightarrow> (\<exists>x d'. m d = Inr (x, d') \<and> f x d' = Inr r)"
  by (auto simp: rbind_def split: sum.splits)

text \<open>Run a reader \<open>n\<close> times and collect what it returns.\<close>

fun rtimes :: "nat \<Rightarrow> 'a rd \<Rightarrow> 'a list rd" where
  "rtimes 0 m = rret []"
| "rtimes (Suc n) m = rbind m (\<lambda>x. rbind (rtimes n m) (\<lambda>xs. rret (x # xs)))"

text \<open>\<open>binary.BigEndian\<close>.\<close>

definition be_nat :: "u8 list \<Rightarrow> nat" where
  "be_nat bs = foldl (\<lambda>acc b. acc * 256 + unat b) 0 bs"

definition be_word :: "u8 list \<Rightarrow> 'w::len word" where
  "be_word bs = word_of_nat (be_nat bs)"

definition must :: "nat \<Rightarrow> u8 list rd" where
  "must n d =
     (if n \<le> length (input d)
      then Inr (take n (input d), d\<lparr>input := drop n (input d), pos := pos d + int n\<rparr>)
      else Inl (ReadPanic (int n) (pos d)))"

definition reader_u1 :: "u8 rd" where
  "reader_u1 = rbind (must 1) (\<lambda>b. rret (hd b))"

definition reader_u2 :: "u16 rd" where
  "reader_u2 = rbind (must 2) (\<lambda>b. rret (be_word b))"

definition reader_u4 :: "u32 rd" where
  "reader_u4 = rbind (must 4) (\<lambda>b. rret (be_word b))"

definition reader_i4 :: "int rd" where
  "reader_i4 = rbind (must 4) (\<lambda>b. rret (sint (be_word b :: u32)))"

definition reader_u8 :: "u64 rd" where
  "reader_u8 = rbind (must 8) (\<lambda>b. rret (be_word b))"

definition reader_id :: "u64 rd" where
  "reader_id = reader_u8"

definition reader_take :: "int \<Rightarrow> u8 list rd" where
  "reader_take n d =
     (if n < 0 then Inl MakeSliceOutOfRange
      else if n \<le> int (length (input d))
      then Inr (take (nat n) (input d), d\<lparr>input := drop (nat n) (input d), pos := pos d + n\<rparr>)
      else Inl (TakePanic n (pos d)))"

text \<open>
  \<open>bufio.Reader.Discard\<close>: the number of bytes discarded, and whether that was fewer than asked.
  \<open>skip\<close> discards in chunks of at most 1 MiB.
\<close>

definition Discard :: "int \<Rightarrow> reader \<Rightarrow> int \<times> bool \<times> u8 list" where
  "Discard chunk d =
     (let k = min chunk (int (length (input d)))
      in (k, k < chunk, drop (nat k) (input d)))"

function reader_skip :: "int \<Rightarrow> reader \<Rightarrow> (unit \<times> reader) outcome" where
  "reader_skip n d =
     (if n > 0
      then let chunk = (if n > 2 ^ 20 then 2 ^ 20 else n);
               (k, err, rest) = Discard chunk d;
               d' = d\<lparr>input := rest, pos := pos d + k\<rparr>
           in if err then Inl (SkipPanic (pos d')) else reader_skip (n - k) d'
      else Inr ((), d))"
  by pat_completeness auto
termination
  by (relation "measure (\<lambda>(n, d). nat n)") (auto simp: Discard_def Let_def split: if_splits)

declare reader_skip.simps [simp del]

definition readValue :: "u8 \<Rightarrow> u64 rd" where
  "readValue t d =
     (if t = 2 then reader_id d
      else if t = 4 \<or> t = 8 then rbind reader_u1 (\<lambda>v. rret (ucast v)) d
      else if t = 5 \<or> t = 9 then rbind reader_u2 (\<lambda>v. rret (ucast v)) d
      else if t = 6 \<or> t = 10 then rbind reader_u4 (\<lambda>v. rret (ucast v)) d
      else if t = 7 \<or> t = 11 then reader_u8 d
      else Inl (UnknownBasicType t (pos d)))"

subsection \<open>Loops over the input\<close>

text \<open>
  The loop \<open>for d.pos < limit { body }\<close>. Every body starts with \<open>d.u1()\<close> and so consumes input or
  panics: one more round than there are bytes left is always enough fuel.
\<close>

fun loop_fuel ::
    "nat \<Rightarrow> int \<Rightarrow> ('s \<Rightarrow> 's rd) \<Rightarrow> 's \<Rightarrow> 's rd" where
  "loop_fuel 0 limit body s d = (if pos d < limit then Inl OutOfFuel else Inr (s, d))"
| "loop_fuel (Suc n) limit body s d =
     (if pos d < limit
      then case body s d of Inl e \<Rightarrow> Inl e | Inr (s', d') \<Rightarrow> loop_fuel n limit body s' d'
      else Inr (s, d))"

definition while_pos :: "int \<Rightarrow> ('s \<Rightarrow> 's rd) \<Rightarrow> 's \<Rightarrow> 's rd" where
  "while_pos limit body s d = loop_fuel (Suc (length (input d))) limit body s d"


subsection \<open>Reading consumes input\<close>

text \<open>
  \<open>consumes k m\<close>: when \<open>m\<close> succeeds, it has read at least \<open>k\<close> bytes from the front of the input
  and has advanced the offset by what it read.
\<close>

definition consumes :: "nat \<Rightarrow> 'a rd \<Rightarrow> bool" where
  "consumes k m \<longleftrightarrow> (\<forall>d x d'. m d = Inr (x, d') \<longrightarrow>
     (\<exists>n \<ge> k. n \<le> length (input d) \<and> d' = \<lparr>input = drop n (input d), pos = pos d + int n\<rparr>))"

lemma consumesI:
  assumes "\<And>d x d'. m d = Inr (x, d') \<Longrightarrow>
    \<exists>n \<ge> k. n \<le> length (input d) \<and> d' = \<lparr>input = drop n (input d), pos = pos d + int n\<rparr>"
  shows "consumes k m"
  using assms unfolding consumes_def by blast

lemma consumesD:
  assumes "consumes k m" and "m d = Inr (x, d')"
  obtains n where "k \<le> n" and "n \<le> length (input d)"
    and "d' = \<lparr>input = drop n (input d), pos = pos d + int n\<rparr>"
  using assms unfolding consumes_def by blast

lemma consumes_mono: "consumes k m \<Longrightarrow> j \<le> k \<Longrightarrow> consumes j m"
  unfolding consumes_def by (meson order_trans)

lemma consumes_rret [rd_consumes]: "consumes 0 (rret x)"
  by (rule consumesI) (auto intro: exI [of _ 0])

lemma consumes_rlift [rd_consumes]: "consumes 0 (rlift r)"
  by (rule consumesI) (auto simp: rlift_def split: sum.splits intro: exI [of _ 0])

lemma consumes_rbind:
  assumes "consumes j m" and "\<And>x. consumes k (f x)"
  shows "consumes (j + k) (rbind m f)"
proof (rule consumesI)
  fix d y d'' assume "rbind m f d = Inr (y, d'')"
  then obtain x d' where x: "m d = Inr (x, d')" and y: "f x d' = Inr (y, d'')"
    by (auto simp: rbind_Inr)
  obtain n where n: "j \<le> n" "n \<le> length (input d)" "d' = \<lparr>input = drop n (input d), pos = pos d + int n\<rparr>"
    using consumesD [OF assms(1) x] .
  obtain n' where n': "k \<le> n'" "n' \<le> length (input d')"
      "d'' = \<lparr>input = drop n' (input d'), pos = pos d' + int n'\<rparr>"
    using consumesD [OF assms(2) y] .
  have "j + k \<le> n + n'" and "n + n' \<le> length (input d)"
    using n n' by auto
  moreover have "d'' = \<lparr>input = drop (n + n') (input d), pos = pos d + int (n + n')\<rparr>"
    using n n' by (simp add: add.commute)
  ultimately show "\<exists>n \<ge> j + k. n \<le> length (input d) \<and>
      d'' = \<lparr>input = drop n (input d), pos = pos d + int n\<rparr>"
    by blast
qed

text \<open>The two weak forms that suffice for the loops: at least the first read counts, or nothing.\<close>

lemma consumes_rbind_first: "consumes k m \<Longrightarrow> (\<And>x. consumes 0 (f x)) \<Longrightarrow> consumes k (rbind m f)"
  using consumes_rbind [of k m 0 f] by simp

lemma consumes_rbind_0 [rd_consumes]:
  "consumes 0 m \<Longrightarrow> (\<And>x. consumes 0 (f x)) \<Longrightarrow> consumes 0 (rbind m f)"
  by (rule consumes_rbind_first)

lemma consumes_if [rd_consumes]:
  "consumes k m \<Longrightarrow> consumes k m' \<Longrightarrow> consumes k (if b then m else m')"
  by simp

lemma consumes_rtimes [rd_consumes]: "consumes 0 m \<Longrightarrow> consumes 0 (rtimes n m)"
  by (induction n) (auto intro!: rd_consumes)

lemma consumes_must: "consumes n (must n)"
  by (rule consumesI) (auto simp: must_def split: if_splits)

lemma consumes_u1: "consumes 1 reader_u1"
  unfolding reader_u1_def by (intro consumes_rbind_first consumes_must rd_consumes)

lemma consumes_must_0 [rd_consumes]: "consumes 0 (must n)"
  by (rule consumes_mono [OF consumes_must]) simp

lemma consumes_readers [rd_consumes]:
  "consumes 0 reader_u1" "consumes 0 reader_u2" "consumes 0 reader_u4" "consumes 0 reader_i4"
  "consumes 0 reader_u8" "consumes 0 reader_id"
  by (auto simp: reader_u1_def reader_u2_def reader_u4_def reader_i4_def reader_u8_def reader_id_def
      intro!: rd_consumes)

lemma consumes_take [rd_consumes]: "consumes 0 (reader_take n)"
  by (rule consumesI) (auto simp: reader_take_def split: if_splits intro!: exI [of _ "nat n"])

text \<open>The chunked loop of \<open>skip\<close> drops \<open>n\<close> bytes, or panics at the end of the file.\<close>

lemma reader_skip_eq:
  "reader_skip n d =
     (if n \<le> 0 then Inr ((), d)
      else if n \<le> int (length (input d))
      then Inr ((), d\<lparr>input := drop (nat n) (input d), pos := pos d + n\<rparr>)
      else Inl (SkipPanic (pos d + int (length (input d)))))"
proof (induction n d rule: reader_skip.induct)
  case (1 n d)
  define chunk :: int where "chunk = (if n > 2 ^ 20 then 2 ^ 20 else n)"
  show ?case
  proof (cases "n > 0")
    case False
    then show ?thesis by (simp add: reader_skip.simps)
  next
    case pos: True
    then have chunk: "0 < chunk" "chunk \<le> n" by (simp_all add: chunk_def)
    have unfold: "reader_skip n d = (case Discard chunk d of (k, err, rest) \<Rightarrow>
        let d' = d\<lparr>input := rest, pos := pos d + k\<rparr>
        in if err then Inl (SkipPanic (pos d')) else reader_skip (n - k) d')"
      unfolding reader_skip.simps [of n d] chunk_def using pos by (simp add: Let_def)
    show ?thesis
    proof (cases "chunk \<le> int (length (input d))")
      case False
      then have "Discard chunk d = (int (length (input d)), True, [])"
        by (simp add: Discard_def)
      then show ?thesis
        using pos chunk False by (simp add: unfold)
    next
      case True
      then have disc: "Discard chunk d = (chunk, False, drop (nat chunk) (input d))"
        by (simp add: Discard_def min_absorb1)
      let ?d = "d\<lparr>input := drop (nat chunk) (input d), pos := pos d + chunk\<rparr>"
      have step: "reader_skip n d = reader_skip (n - chunk) ?d"
        by (simp add: unfold disc)
      have drop_drop': "n - chunk > 0 \<Longrightarrow> drop (nat (n - chunk)) (drop (nat chunk) (input d)) = drop (nat n) (input d)"
        using chunk by (simp add: nat_diff_distrib)
      have IH: "reader_skip (n - chunk) ?d =
          (if n - chunk \<le> 0 then Inr ((), ?d)
           else if n - chunk \<le> int (length (input ?d))
           then Inr ((), ?d\<lparr>input := drop (nat (n - chunk)) (input ?d), pos := pos ?d + (n - chunk)\<rparr>)
           else Inl (SkipPanic (pos ?d + int (length (input ?d)))))"
        using 1 [OF pos chunk_def disc [symmetric] refl refl refl] by simp
      show ?thesis
        unfolding step IH using pos chunk True drop_drop' by (auto simp: of_nat_diff)
    qed
  qed
qed

lemma consumes_skip [rd_consumes]: "consumes 0 (reader_skip n)"
  by (rule consumesI) (auto simp: reader_skip_eq split: if_splits intro: exI [of _ 0] exI [of _ "nat n"])

lemma consumes_readValue [rd_consumes]: "consumes 0 (readValue t)"
proof -
  have "readValue t = (if t = 2 then reader_id
      else if t = 4 \<or> t = 8 then rbind reader_u1 (\<lambda>v. rret (ucast v))
      else if t = 5 \<or> t = 9 then rbind reader_u2 (\<lambda>v. rret (ucast v))
      else if t = 6 \<or> t = 10 then rbind reader_u4 (\<lambda>v. rret (ucast v))
      else if t = 7 \<or> t = 11 then reader_u8
      else (\<lambda>d. Inl (UnknownBasicType t (pos d))))"
    by (rule ext) (simp add: readValue_def)
  moreover have "consumes 0 (\<lambda>d. Inl (UnknownBasicType t (pos d)))"
    by (rule consumesI) simp
  ultimately show ?thesis
    by (auto intro!: rd_consumes)
qed

subsection \<open>Reads that end\<close>

definition ends :: "'a rd \<Rightarrow> bool" where
  "ends m \<longleftrightarrow> (\<forall>d. m d \<noteq> Inl OutOfFuel)"

lemma ends_rret [rd_ends]: "ends (rret x)"
  by (simp add: ends_def)

lemma ends_rlift [rd_ends]: "r \<noteq> Inl OutOfFuel \<Longrightarrow> ends (rlift r)"
  by (auto simp: ends_def rlift_def split: sum.splits)

lemma ends_rbind [rd_ends]: "ends m \<Longrightarrow> (\<And>x. ends (f x)) \<Longrightarrow> ends (rbind m f)"
  by (auto simp: ends_def rbind_def split: sum.splits)

lemma ends_if [rd_ends]: "ends m \<Longrightarrow> ends m' \<Longrightarrow> ends (if b then m else m')"
  by simp

lemma ends_case_prod [rd_ends]: "(\<And>a b. ends (f a b)) \<Longrightarrow> ends (case_prod f x)"
  by (cases x) simp

lemma ends_rtimes [rd_ends]: "ends m \<Longrightarrow> ends (rtimes n m)"
  by (induction n) (auto intro!: rd_ends)

lemma ends_must [rd_ends]: "ends (must n)"
  by (simp add: ends_def must_def)

lemma ends_readers [rd_ends]:
  "ends reader_u1" "ends reader_u2" "ends reader_u4" "ends reader_i4" "ends reader_u8" "ends reader_id"
  "ends (reader_take n)" "ends (reader_skip n)"
  by (auto simp: reader_u1_def reader_u2_def reader_u4_def reader_i4_def reader_u8_def reader_id_def
      intro!: rd_ends) (simp_all add: ends_def reader_take_def reader_skip_eq)

lemma ends_readValue [rd_ends]: "ends (readValue t)"
  using ends_readers(1-6) ends_rbind ends_rret
  unfolding readValue_def ends_def by (auto simp: rbind_def split: sum.splits)

lemma type_size_ends [rd_ends]: "type_size t \<noteq> Inl OutOfFuel"
  by (simp add: type_size_def aget_def)

subsection \<open>Encoded values\<close>

fun be_bytes :: "nat \<Rightarrow> nat \<Rightarrow> u8 list" where
  "be_bytes 0 n = []"
| "be_bytes (Suc k) n = be_bytes k (n div 256) @ [word_of_nat n]"

definition enc_u1 :: "u8 \<Rightarrow> u8 list" where "enc_u1 b = [b]"
definition enc_u2 :: "u16 \<Rightarrow> u8 list" where "enc_u2 w = be_bytes 2 (unat w)"
definition enc_u4 :: "u32 \<Rightarrow> u8 list" where "enc_u4 w = be_bytes 4 (unat w)"
definition enc_u8 :: "u64 \<Rightarrow> u8 list" where "enc_u8 w = be_bytes 8 (unat w)"

lemma length_be_bytes [simp]: "length (be_bytes k n) = k"
  by (induction k arbitrary: n) simp_all

lemma be_nat_Nil [simp]: "be_nat [] = 0"
  by (simp add: be_nat_def)

lemma be_nat_snoc [simp]: "be_nat (bs @ [b]) = be_nat bs * 256 + unat b"
  by (simp add: be_nat_def)

lemma be_nat_be_bytes: "be_nat (be_bytes k n) = n mod 256 ^ k"
proof (induction k arbitrary: n)
  case (Suc k)
  have "n mod (256 * 256 ^ k) = 256 * (n div 256 mod 256 ^ k) + n mod 256"
    by (simp add: mod_mult2_eq)
  with Suc show ?case
    by (simp add: unat_of_nat take_bit_eq_mod)
qed simp

lemma be_nat_bound: "be_nat bs < 256 ^ length bs"
proof (induction bs rule: rev_induct)
  case (snoc b bs)
  have "unat b < 256"
    using unsigned_less [of b, where ?'a = nat] by simp
  moreover have "Suc (be_nat bs) * 256 \<le> 256 ^ length bs * 256"
    using snoc by (intro mult_le_mono1) simp
  ultimately show ?case by simp
qed simp

lemma length_enc [simp]:
  "length (enc_u1 b) = 1" "length (enc_u2 w2) = 2" "length (enc_u4 w4) = 4" "length (enc_u8 w8) = 8"
  by (simp_all add: enc_u1_def enc_u2_def enc_u4_def enc_u8_def)

lemma be_word_enc [simp]: "be_word (enc_u2 w2) = w2" "be_word (enc_u4 w4) = w4" "be_word (enc_u8 w8) = w8"
  using unsigned_less [of w2, where ?'a = nat] unsigned_less [of w4, where ?'a = nat]
    unsigned_less [of w8, where ?'a = nat]
  by (simp_all add: be_word_def enc_u2_def enc_u4_def enc_u8_def be_nat_be_bytes)

lemma must_enc [rd_simps]:
  "length bs = n \<Longrightarrow> must n \<lparr>input = bs @ rest, pos = p\<rparr> = Inr (bs, \<lparr>input = rest, pos = p + int n\<rparr>)"
  by (auto simp: must_def)

lemma read_enc [rd_simps]:
  "reader_u1 \<lparr>input = enc_u1 b @ rest, pos = p\<rparr> = Inr (b, \<lparr>input = rest, pos = p + 1\<rparr>)"
  "reader_u2 \<lparr>input = enc_u2 w2 @ rest, pos = p\<rparr> = Inr (w2, \<lparr>input = rest, pos = p + 2\<rparr>)"
  "reader_u4 \<lparr>input = enc_u4 w4 @ rest, pos = p\<rparr> = Inr (w4, \<lparr>input = rest, pos = p + 4\<rparr>)"
  "reader_i4 \<lparr>input = enc_u4 w4 @ rest, pos = p\<rparr> = Inr (sint w4, \<lparr>input = rest, pos = p + 4\<rparr>)"
  "reader_u8 \<lparr>input = enc_u8 w8 @ rest, pos = p\<rparr> = Inr (w8, \<lparr>input = rest, pos = p + 8\<rparr>)"
  "reader_id \<lparr>input = enc_u8 w8 @ rest, pos = p\<rparr> = Inr (w8, \<lparr>input = rest, pos = p + 8\<rparr>)"
  by (simp_all add: reader_u1_def reader_u2_def reader_u4_def reader_i4_def reader_u8_def
      reader_id_def rbind_def must_enc) (simp add: enc_u1_def)

lemma take_enc [rd_simps]:
  "n = int (length bs) \<Longrightarrow>
   reader_take n \<lparr>input = bs @ rest, pos = p\<rparr> = Inr (bs, \<lparr>input = rest, pos = p + n\<rparr>)"
  by (simp add: reader_take_def)

lemma skip_enc [rd_simps]:
  "n = int (length bs) \<Longrightarrow>
   reader_skip n \<lparr>input = bs @ rest, pos = p\<rparr> = Inr ((), \<lparr>input = rest, pos = p + n\<rparr>)"
  by (simp add: reader_skip_eq)

lemma rtimes_enc:
  assumes "\<And>x rest p. x \<in> set xs \<Longrightarrow>
    m \<lparr>input = enc x @ rest, pos = p\<rparr> = Inr (f x, \<lparr>input = rest, pos = p + int (length (enc x))\<rparr>)"
  shows "rtimes (length xs) m \<lparr>input = concat (map enc xs) @ rest, pos = p\<rparr> =
    Inr (map f xs, \<lparr>input = rest, pos = p + int (length (concat (map enc xs)))\<rparr>)"
  using assms by (induction xs arbitrary: p) (simp_all add: rbind_def algebra_simps)

text \<open>A value of a basic type is stored in \<open>typeSize\<close> bytes.\<close>

definition valid_type :: "u8 \<Rightarrow> bool" where
  "valid_type t \<longleftrightarrow> t = 2 \<or> (4 \<le> t \<and> t \<le> 11)"

definition enc_value :: "u8 \<Rightarrow> u64 \<Rightarrow> u8 list" where
  "enc_value t v = be_bytes (nat (typeSize ! unat t)) (unat v)"

definition value_fits :: "u8 \<Rightarrow> u64 \<Rightarrow> bool" where
  "value_fits t v \<longleftrightarrow> unat v < 256 ^ nat (typeSize ! unat t)"

lemma valid_type_cases:
  assumes "valid_type t"
  obtains "t = 2" | "t = 4" | "t = 5" | "t = 6" | "t = 7" | "t = 8" | "t = 9" | "t = 10" | "t = 11"
proof -
  have "t = 2 \<or> t = 4 \<or> t = 5 \<or> t = 6 \<or> t = 7 \<or> t = 8 \<or> t = 9 \<or> t = 10 \<or> t = 11"
  proof (cases "t = 2")
    case False
    then have "4 \<le> unat t" "unat t \<le> 11"
      using assms by (simp_all add: valid_type_def word_le_nat_alt)
    then have "unat t \<in> {4, 5, 6, 7, 8, 9, 10, 11}" by auto
    then show ?thesis by (auto simp: word_unat_eq_iff)
  qed simp
  then show ?thesis using that by blast
qed

lemma readValue_enc [rd_simps]:
  assumes "valid_type t" and "value_fits t v"
  shows "readValue t \<lparr>input = enc_value t v @ rest, pos = p\<rparr> =
    Inr (v, \<lparr>input = rest, pos = p + int (length (enc_value t v))\<rparr>)"
proof -
  have small: "unat v < 2 ^ LENGTH('b) \<Longrightarrow> ucast (ucast v :: 'b::len word) = v"
    using unsigned_less [of v, where ?'a = nat]
    by (simp add: word_unat_eq_iff unsigned_ucast_eq unsigned_take_bit_eq take_bit_nat_eq_self)
  have "unat v < 256 \<Longrightarrow> ucast (ucast v :: u8) = v" "unat v < 65536 \<Longrightarrow> ucast (ucast v :: u16) = v"
    "unat v < 4294967296 \<Longrightarrow> ucast (ucast v :: u32) = v"
    by (rule small, simp)+
  note small = this
  from assms(1) show ?thesis
    by (cases rule: valid_type_cases)
       (use assms(2) in \<open>simp_all add: readValue_def enc_value_def value_fits_def typeSize_def rbind_def
         reader_u1_def reader_u2_def reader_u4_def reader_u8_def reader_id_def must_def be_word_def
         be_nat_be_bytes small\<close>)
qed

subsection \<open>Loops end\<close>

text \<open>
  The contract of a loop body: it consumes at least one byte. Then the loop never runs out of fuel
  and unfolds as the Go statement does.
\<close>

locale record_loop =
  fixes body :: "'s \<Rightarrow> 's rd"
  assumes body_consumes: "consumes 1 (body s)"
begin

lemma body_shrinks: "body s d = Inr (s', d') \<Longrightarrow> length (input d') < length (input d)"
  by (erule consumesD [OF body_consumes]) auto

lemma fuel_irrelevant:
  "length (input d) < n \<Longrightarrow> length (input d) < n' \<Longrightarrow>
   loop_fuel n limit body s d = loop_fuel n' limit body s d"
proof (induction n arbitrary: n' s d)
  case (Suc n)
  then obtain k where k: "n' = Suc k" by (cases n') auto
  have "loop_fuel n limit body s' d' = loop_fuel k limit body s' d'"
    if "body s d = Inr (s', d')" for s' d'
    using Suc.prems body_shrinks [OF that] k by (intro Suc.IH) simp_all
  then show ?case
    by (auto simp: k split: sum.splits)
qed simp

lemma while_pos_unfold:
  "while_pos limit body s d =
     (if pos d < limit then rbind (body s) (while_pos limit body) d else Inr (s, d))"
proof -
  have "loop_fuel (length (input d)) limit body s' d' = while_pos limit body s' d'"
    if "body s d = Inr (s', d')" for s' d'
    unfolding while_pos_def using body_shrinks [OF that] by (intro fuel_irrelevant) simp_all
  then show ?thesis
    by (simp add: while_pos_def [of _ _ s d] rbind_def split: sum.splits prod.splits)
qed

lemma while_pos_stop: "\<not> pos d < limit \<Longrightarrow> while_pos limit body s d = Inr (s, d)"
  by (simp add: while_pos_unfold)

lemma while_pos_step:
  "pos d < limit \<Longrightarrow> body s d = Inr (s', d') \<Longrightarrow> while_pos limit body s d = while_pos limit body s' d'"
  by (simp add: while_pos_unfold [of _ s d] rbind_def)

lemma loop_fuel_ends:
  "length (input d) < n \<Longrightarrow> (\<And>s d. body s d \<noteq> Inl OutOfFuel) \<Longrightarrow>
   loop_fuel n limit body s d \<noteq> Inl OutOfFuel"
proof (induction n arbitrary: s d)
  case (Suc n)
  have "loop_fuel n limit body s' d' \<noteq> Inl OutOfFuel" if "body s d = Inr (s', d')" for s' d'
    using Suc body_shrinks [OF that] by simp
  with Suc.prems(2) [of s d] show ?case
    by (auto split: sum.splits)
qed simp

lemma while_pos_ends:
  "(\<And>s d. body s d \<noteq> Inl OutOfFuel) \<Longrightarrow> while_pos limit body s d \<noteq> Inl OutOfFuel"
  unfolding while_pos_def by (rule loop_fuel_ends) auto

lemma ends_while_pos: "(\<And>s. ends (body s)) \<Longrightarrow> ends (while_pos limit body s)"
  using while_pos_ends by (simp add: ends_def)

lemma consumes_loop_fuel: "consumes 0 (loop_fuel n limit body s)"
proof (induction n arbitrary: s)
  case 0
  show ?case by (rule consumesI) (auto split: if_splits intro: exI [of _ 0])
next
  case (Suc n)
  have rec: "consumes 0 (rbind (body s) (loop_fuel n limit body))"
    by (rule consumes_rbind_0 [OF consumes_mono [OF body_consumes] Suc]) simp
  show ?case
  proof (rule consumesI)
    fix d x d' assume *: "loop_fuel (Suc n) limit body s d = Inr (x, d')"
    show "\<exists>n \<ge> 0. n \<le> length (input d) \<and> d' = \<lparr>input = drop n (input d), pos = pos d + int n\<rparr>"
    proof (cases "pos d < limit")
      case True
      then have "rbind (body s) (loop_fuel n limit body) d = Inr (x, d')"
        using * by (simp add: rbind_def)
      from consumesD [OF rec this] show ?thesis by blast
    next
      case False
      then show ?thesis using * by (auto intro: exI [of _ 0])
    qed
  qed
qed

lemma consumes_while_pos: "consumes 0 (while_pos limit body s)"
proof (rule consumesI)
  fix d x d' assume *: "while_pos limit body s d = Inr (x, d')"
  show "\<exists>n \<ge> 0. n \<le> length (input d) \<and> d' = \<lparr>input = drop n (input d), pos = pos d + int n\<rparr>"
    using consumesD [OF consumes_loop_fuel * [unfolded while_pos_def]] by blast
qed

end


text \<open>
  The contract of a body that decodes one item of a format: on the bytes of an item it makes the
  step of that item and stops right behind it. Then the loop over the bytes of a list of items makes
  the steps of the items, in order. A step may depend on the offset at which the item starts, and the
  body may rely on an invariant of the state that every step keeps.
\<close>

primrec run_items :: "('x \<Rightarrow> u8 list) \<Rightarrow> (int \<Rightarrow> 'x \<Rightarrow> 's \<Rightarrow> 's) \<Rightarrow> int \<Rightarrow> 'x list \<Rightarrow> 's \<Rightarrow> 's" where
  "run_items enc step p [] s = s"
| "run_items enc step p (x # xs) s = run_items enc step (p + int (length (enc x))) xs (step p x s)"

locale record_codec = record_loop body for body :: "'s \<Rightarrow> 's rd" +
  fixes enc :: "'x \<Rightarrow> u8 list"
    and ok :: "'x \<Rightarrow> bool"
    and step :: "int \<Rightarrow> 'x \<Rightarrow> 's \<Rightarrow> 's"
    and inv :: "'s \<Rightarrow> bool"
  assumes enc_nonempty: "enc x \<noteq> []"
    and step_inv: "inv s \<Longrightarrow> ok x \<Longrightarrow> inv (step p x s)"
    and body_enc: "inv s \<Longrightarrow> ok x \<Longrightarrow> body s \<lparr>input = enc x @ rest, pos = p\<rparr> =
      Inr (step p x s, \<lparr>input = rest, pos = p + int (length (enc x))\<rparr>)"
begin

lemma run_items_inv: "inv s \<Longrightarrow> list_all ok xs \<Longrightarrow> inv (run_items enc step p xs s)"
  by (induction xs arbitrary: p s) (simp_all add: step_inv)

lemma while_pos_enc:
  "inv s \<Longrightarrow> list_all ok xs \<Longrightarrow> limit = p + int (length (concat (map enc xs))) \<Longrightarrow>
   while_pos limit body s \<lparr>input = concat (map enc xs) @ rest, pos = p\<rparr> =
     Inr (run_items enc step p xs s, \<lparr>input = rest, pos = limit\<rparr>)"
proof (induction xs arbitrary: s p)
  case Nil
  then show ?case by (simp add: while_pos_stop)
next
  case (Cons x xs)
  have "0 < length (enc x)" using enc_nonempty by simp
  moreover have "limit = p + int (length (enc x)) + int (length (concat (map enc xs)))"
    using Cons.prems(3) by simp
  ultimately have less: "p < limit" by linarith
  have body: "body s \<lparr>input = enc x @ concat (map enc xs) @ rest, pos = p\<rparr> =
      Inr (step p x s, \<lparr>input = concat (map enc xs) @ rest, pos = p + int (length (enc x))\<rparr>)"
    using Cons.prems(1,2) by (intro body_enc) simp_all
  have "while_pos limit body s \<lparr>input = concat (map enc (x # xs)) @ rest, pos = p\<rparr> =
      while_pos limit body (step p x s) \<lparr>input = concat (map enc xs) @ rest, pos = p + int (length (enc x))\<rparr>"
    using while_pos_step [OF _ body] less by simp
  also have "\<dots> = Inr (run_items enc step (p + int (length (enc x))) xs (step p x s), \<lparr>input = rest, pos = limit\<rparr>)"
    using Cons.prems by (intro Cons.IH step_inv) simp_all
  finally show ?case by simp
qed

end

lemma run_items_fold: "run_items enc (\<lambda>p x. f x) p xs s = fold f xs s"
  by (induction xs arbitrary: p s) simp_all

lemma run_items_append:
  "run_items enc step p (xs @ ys) s =
   run_items enc step (p + int (length (concat (map enc xs)))) ys (run_items enc step p xs s)"
  by (induction xs arbitrary: p s) (simp_all add: add.assoc)

lemma run_items_invariant:
  "P s \<Longrightarrow> (\<And>x p s. x \<in> set xs \<Longrightarrow> P s \<Longrightarrow> P (step p x s)) \<Longrightarrow> P (run_items enc step p xs s)"
  by (induction xs arbitrary: p s) simp_all

end
