(* ===== verification/Hprof_Meta.thy ===== *)
theory Hprof_Meta
  imports Hprof_Reader
begin

text \<open>
  The metadata pass of the heap-dump analyzer (\<open>heapdump/hprofx/hprof.go\<close>, lines 104 to 467): the
  header, GC roots, class dumps, the record loop of \<open>LoadMeta\<close> and the flattening of field layouts.

  Class records live in the map \<open>Classes\<close>. The Go map holds pointers, but every update goes through
  the map and no other pointer is kept across one, so the map of values behaves alike. A nil slice
  and an empty slice differ only for \<open>layout\<close>, which is an option.
\<close>

subsection \<open>Formatting\<close>

fun radix :: "nat \<Rightarrow> nat \<Rightarrow> string" where
  "radix b n = (if b < 2 \<or> n < b then [hex_digit n] else radix b (n div b) @ [hex_digit (n mod b)])"

declare radix.simps [simp del]

text \<open>The verbs \<open>%d\<close> and \<open>%x\<close>.\<close>

definition fmt_d :: "int \<Rightarrow> string" where
  "fmt_d n = (if n < 0 then ''-'' @ radix 10 (nat (- n)) else radix 10 (nat n))"

definition fmt_x :: "u64 \<Rightarrow> string" where
  "fmt_x w = radix 16 (unat w)"

subsection \<open>Metadata\<close>

record fieldDesc =
  f_name :: string
  f_typ :: u8

record classInfo =
  ci_id :: u64
  ci_name :: string
  ci_super :: u64
  ci_instSize :: int
  ci_fields :: "fieldDesc list"
  ci_statics :: "u64 list"
  ci_layout :: "fieldDesc list option"

record ThreadRef =
  ObjID :: u64
  Serial :: u32
  StackSerial :: u32

type_synonym classes = "(u64, classInfo) gomap"

record Meta =
  Path :: string
  FileSize :: int
  Timestamp :: u64
  IDSize :: int
  Strings :: "(u64, string) gomap"
  Classes :: classes
  BySer :: "(u32, string) gomap"
  Frames :: "(u64, string) gomap"
  Traces :: "(u32, u64 list) gomap"
  Threads :: "ThreadRef list"
  RootIDs :: "u64 list"
  RootKinds :: "(string, int) gomap"

text \<open>Reading a missing key of a map of strings gives the empty string.\<close>

definition map_str :: "('k, string) gomap \<Rightarrow> 'k \<Rightarrow> string" where
  "map_str m k = (case map_get m k of None \<Rightarrow> '''' | Some s \<Rightarrow> s)"

definition map_incr :: "'k \<Rightarrow> ('k, int) gomap \<Rightarrow> ('k, int) gomap" where
  "map_incr k m = map_set k ((case map_get m k of None \<Rightarrow> 0 | Some n \<Rightarrow> n) + 1) m"

definition new_class :: "u64 \<Rightarrow> classInfo" where
  "new_class cid = \<lparr>ci_id = cid, ci_name = '''', ci_super = 0, ci_instSize = 0, ci_fields = [],
     ci_statics = [], ci_layout = None\<rparr>"

text \<open>The bytes of a file as a Go string.\<close>

definition bytes_string :: "u8 list \<Rightarrow> string" where
  "bytes_string bs = map (\<lambda>b. char_of (unat b)) bs"

subsection \<open>The header\<close>

function header_loop :: "u8 list \<Rightarrow> u8 list rd" where
  "header_loop hdr d =
     (case reader_u1 d of Inl e \<Rightarrow> Inl e
      | Inr (c, d') \<Rightarrow> if c = 0 then Inr (hdr, d') else header_loop (hdr @ [c]) d')"
  by pat_completeness auto
termination
  by (relation "measure (\<lambda>(hdr, d). length (input d))") (auto elim!: consumesD [OF consumes_u1])

declare header_loop.simps [simp del]

text \<open>
  \<open>openDump\<close>: the reader past the header, the size of the file and the time stamp of the header
  (the global \<open>lastTimestamp\<close>). A file that cannot be opened is \<open>None\<close>.
\<close>

definition openDump :: "u8 list option \<Rightarrow> (reader \<times> int \<times> u64) outcome" where
  "openDump file =
     (case file of None \<Rightarrow> Inl CannotOpen
      | Some bs \<Rightarrow>
          map_sum (\<lambda>e. e) (\<lambda>(ts, d). (d, int (length bs), ts))
            (rbind (header_loop []) (\<lambda>hdr.
             rbind reader_u4 (\<lambda>idSize.
             if uint idSize \<noteq> 8 then rlift (Inl (UnsupportedIdSize (uint idSize)))
             else rbind reader_u8 (\<lambda>ts.
               if take 12 (bytes_string hdr) \<noteq> ''JAVA PROFILE'' then rlift (Inl (NotHprof (bytes_string hdr)))
               else rret ts))) \<lparr>input = bs, pos = 0\<rparr>))"

definition dumpTimestamp :: "u8 list option \<Rightarrow> u64 outcome" where
  "dumpTimestamp file = bind_ok (openDump file) (\<lambda>(d, fsize, ts). Inr ts)"

subsection \<open>Sub-records\<close>

definition skipRoot :: "u8 \<Rightarrow> (u64 \<times> bool) rd" where
  "skipRoot tag =
     (if tag = 0xFF then rbind reader_id (\<lambda>v. rret (v, True))
      else if tag = 0x01 then rbind reader_id (\<lambda>v. rbind reader_id (\<lambda>_. rret (v, True)))
      else if tag = 0x02 \<or> tag = 0x03 \<or> tag = 0x08
      then rbind reader_id (\<lambda>v. rbind reader_u4 (\<lambda>_. rbind reader_u4 (\<lambda>_. rret (v, True))))
      else if tag = 0x04 \<or> tag = 0x06
      then rbind reader_id (\<lambda>v. rbind reader_u4 (\<lambda>_. rret (v, True)))
      else if tag = 0x05 \<or> tag = 0x07 then rbind reader_id (\<lambda>v. rret (v, True))
      else if tag = subHeapInfo then rbind reader_u4 (\<lambda>_. rbind reader_id (\<lambda>_. rret (0, True)))
      else rret (0, False))"

definition rootTagName :: "u8 \<Rightarrow> string" where
  "rootTagName tag =
     (case map_of [(0xFF, ''unknown''), (0x01, ''jni_global''), (0x02, ''jni_local''),
        (0x03, ''java_frame''), (0x04, ''native_stack''), (0x05, ''sticky_class''),
        (0x06, ''thread_block''), (0x07, ''monitor_used''), (0x08, ''thread_object'')] tag of
        None \<Rightarrow> '''' | Some n \<Rightarrow> n)"

text \<open>One entry of the constant pool, of the static fields and of the instance fields.\<close>

definition read_constant :: "u64 rd" where
  "read_constant = rbind reader_u2 (\<lambda>_. rbind reader_u1 readValue)"

definition read_static :: "(u8 \<times> u64) rd" where
  "read_static = rbind reader_id (\<lambda>_. rbind reader_u1 (\<lambda>t. rbind (readValue t) (\<lambda>v. rret (t, v))))"

definition read_field :: "(u64, string) gomap \<Rightarrow> fieldDesc rd" where
  "read_field strings = rbind reader_id (\<lambda>nameID. rbind reader_u1 (\<lambda>t.
     rret \<lparr>f_name = map_str strings nameID, f_typ = t\<rparr>))"

definition object_statics :: "(u8 \<times> u64) list \<Rightarrow> u64 list" where
  "object_statics sts = map snd (filter (\<lambda>(t, v). t = 2 \<and> v \<noteq> 0) sts)"

text \<open>The update of the class record at the end of \<open>readClassDump\<close>.\<close>

definition record_class ::
    "u64 \<Rightarrow> u64 \<Rightarrow> int \<Rightarrow> u64 list \<Rightarrow> fieldDesc list \<Rightarrow> Meta \<Rightarrow> classInfo \<times> Meta" where
  "record_class cid super instSize statics flds m =
     (let old = (case map_get (Classes m) cid of None \<Rightarrow> new_class cid | Some ci \<Rightarrow> ci);
          ci1 = old\<lparr>ci_super := super, ci_instSize := instSize, ci_statics := statics\<rparr>;
          ci = (if ci_layout ci1 = None then ci1\<lparr>ci_fields := flds\<rparr> else ci1)
      in (ci, m\<lparr>Classes := map_set cid ci (Classes m)\<rparr>))"

definition readClassDump :: "Meta \<Rightarrow> (classInfo \<times> Meta) rd" where
  "readClassDump m =
     rbind reader_id (\<lambda>cid.
     rbind reader_u4 (\<lambda>_.
     rbind reader_id (\<lambda>super.
     rbind reader_id (\<lambda>_.
     rbind reader_id (\<lambda>_.
     rbind reader_id (\<lambda>_.
     rbind reader_id (\<lambda>_.
     rbind reader_id (\<lambda>_.
     rbind reader_u4 (\<lambda>instSize.
     rbind reader_u2 (\<lambda>cpCount.
     rbind (rtimes (unat cpCount) read_constant) (\<lambda>_.
     rbind reader_u2 (\<lambda>staticCount.
     rbind (rtimes (unat staticCount) read_static) (\<lambda>sts.
     rbind reader_u2 (\<lambda>fieldCount.
     rbind (rtimes (unat fieldCount) (read_field (Strings m))) (\<lambda>flds.
     rret (record_class cid super (sint instSize) (object_statics sts) flds m))))))))))))))))"

definition skipObjectBody :: "u8 \<Rightarrow> unit rd" where
  "skipObjectBody sub =
     (if sub = subInstance
      then rbind reader_id (\<lambda>_. rbind reader_u4 (\<lambda>_. rbind reader_id (\<lambda>_.
           rbind reader_u4 (\<lambda>n. reader_skip (uint n)))))
      else if sub = subObjArray
      then rbind reader_id (\<lambda>_. rbind reader_u4 (\<lambda>_. rbind reader_u4 (\<lambda>n. rbind reader_id (\<lambda>_.
           reader_skip (uint n * 8)))))
      else if sub = subPrimArray
      then rbind reader_id (\<lambda>_. rbind reader_u4 (\<lambda>_. rbind reader_u4 (\<lambda>n. rbind reader_u1 (\<lambda>t.
           rbind (rlift (type_size t)) (\<lambda>w. reader_skip (uint n * w))))))
      else (\<lambda>d. Inl (UnexpectedSubRecord sub (pos d))))"

subsection \<open>Names\<close>

definition primDescriptor :: "char \<Rightarrow> string option" where
  "primDescriptor = map_of [(CHR ''B'', ''byte''), (CHR ''C'', ''char''), (CHR ''D'', ''double''),
     (CHR ''F'', ''float''), (CHR ''I'', ''int''), (CHR ''J'', ''long''), (CHR ''S'', ''short''),
     (CHR ''Z'', ''boolean'')]"

definition TrimSuffix :: "string \<Rightarrow> string \<Rightarrow> string" where
  "TrimSuffix s suf = (if suffix suf s then take (length s - length suf) s else s)"

definition normalizeClassName :: "string \<Rightarrow> string" where
  "normalizeClassName s0 =
     (let s = map (\<lambda>c. if c = CHR ''/'' then CHR ''.'' else c) s0 in
      if \<not> prefix ''['' s then s
      else let dims = length (takeWhile (\<lambda>c. c = CHR ''['') s);
               elem = drop dims s
           in case elem of
                [] \<Rightarrow> s
              | e # es \<Rightarrow>
                  if e = CHR ''L'' then TrimSuffix es '';'' @ concat (replicate dims ''[]'')
                  else case primDescriptor e of
                         None \<Rightarrow> s
                       | Some prim \<Rightarrow> prim @ concat (replicate dims ''[]''))"

definition argsOf :: "string \<Rightarrow> string" where
  "argsOf sig =
     (let i = length (takeWhile (\<lambda>c. c \<noteq> CHR '')'') sig)
      in if i < length sig then take (i + 1) sig else '''')"

definition lineLabel :: "int \<Rightarrow> string" where
  "lineLabel line =
     (if line = -1 then ''unknown''
      else if line = -2 then ''compiled''
      else if line = -3 then ''native''
      else fmt_d line)"

definition className :: "Meta \<Rightarrow> u64 \<Rightarrow> string" where
  "className m cid =
     (case map_get (Classes m) cid of
        Some ci \<Rightarrow> if ci_name ci \<noteq> '''' then ci_name ci else ''<class 0x'' @ fmt_x cid @ ''>''
      | None \<Rightarrow> ''<class 0x'' @ fmt_x cid @ ''>'')"

subsection \<open>The record loop\<close>

definition load_string :: "int \<Rightarrow> Meta \<Rightarrow> Meta rd" where
  "load_string len m =
     rbind reader_id (\<lambda>sid. rbind (reader_take (len - 8)) (\<lambda>b.
     rret (m\<lparr>Strings := map_set sid (bytes_string b) (Strings m)\<rparr>)))"

definition name_class :: "u64 \<Rightarrow> string \<Rightarrow> classes \<Rightarrow> classes" where
  "name_class cid nm cs =
     (case map_get cs cid of
        Some ci \<Rightarrow> map_set cid (ci\<lparr>ci_name := nm\<rparr>) cs
      | None \<Rightarrow> map_set cid ((new_class cid)\<lparr>ci_name := nm\<rparr>) cs)"

definition load_class :: "Meta \<Rightarrow> Meta rd" where
  "load_class m =
     rbind reader_u4 (\<lambda>serial. rbind reader_id (\<lambda>cid. rbind reader_u4 (\<lambda>_. rbind reader_id (\<lambda>nameID.
     let nm = normalizeClassName (map_str (Strings m) nameID)
     in rret (m\<lparr>BySer := map_set serial nm (BySer m), Classes := name_class cid nm (Classes m)\<rparr>)))))"

definition load_frame :: "Meta \<Rightarrow> Meta rd" where
  "load_frame m =
     rbind reader_id (\<lambda>fid. rbind reader_id (\<lambda>meth. rbind reader_id (\<lambda>sig. rbind reader_id (\<lambda>source.
     rbind reader_u4 (\<lambda>classSer. rbind reader_i4 (\<lambda>line.
     let str = map_str (Strings m);
         txt = map_str (BySer m) classSer @ ''.'' @ str meth @ argsOf (str sig) @ '' ('' @ str source
                 @ '':'' @ lineLabel line @ '')''
     in rret (m\<lparr>Frames := map_set fid txt (Frames m)\<rparr>)))))))"

definition load_trace :: "Meta \<Rightarrow> Meta rd" where
  "load_trace m =
     rbind reader_u4 (\<lambda>serial. rbind reader_u4 (\<lambda>_. rbind reader_u4 (\<lambda>n.
     rbind (rtimes (unat n) reader_id) (\<lambda>fs.
     rret (m\<lparr>Traces := map_set serial fs (Traces m)\<rparr>)))))"

definition count_root :: "string \<Rightarrow> u64 option \<Rightarrow> Meta \<Rightarrow> Meta" where
  "count_root kind rid m = m\<lparr>RootKinds := map_incr kind (RootKinds m),
     RootIDs := RootIDs m @ (case rid of None \<Rightarrow> [] | Some r \<Rightarrow> [r])\<rparr>"

text \<open>One round of the inner loop over a heap dump segment.\<close>

definition meta_sub :: "Meta \<Rightarrow> Meta rd" where
  "meta_sub m =
     rbind reader_u1 (\<lambda>sub.
     if sub = 0x08
     then rbind reader_id (\<lambda>oid. rbind reader_u4 (\<lambda>serial. rbind reader_u4 (\<lambda>stack.
          rret (count_root ''thread_object'' (Some oid)
            (m\<lparr>Threads := Threads m @ [\<lparr>ObjID = oid, Serial = serial, StackSerial = stack\<rparr>]\<rparr>)))))
     else rbind (skipRoot sub) (\<lambda>(rid, ok).
          if ok then rret (count_root (rootTagName sub) (if rid \<noteq> 0 then Some rid else None) m)
          else if sub = subClassDump then rbind (readClassDump m) (\<lambda>(ci, m'). rret m')
          else rbind (skipObjectBody sub) (\<lambda>_. rret m)))"

definition rpos :: "int rd" where
  "rpos d = Inr (pos d, d)"

text \<open>One round of the loop over the top-level records.\<close>

definition meta_record :: "Meta \<Rightarrow> Meta rd" where
  "meta_record m =
     rbind reader_u1 (\<lambda>tag. rbind reader_u4 (\<lambda>_. rbind reader_u4 (\<lambda>length.
     if tag = tagString then load_string (uint length) m
     else if tag = tagLoadClass then load_class m
     else if tag = tagStackFrame then load_frame m
     else if tag = tagStackTrace then load_trace m
     else if tag = tagHeapDump \<or> tag = tagHeapSeg
     then rbind rpos (\<lambda>p. while_pos (p + uint length) meta_sub m)
     else rbind (reader_skip (uint length)) (\<lambda>_. rret m))))"

subsection \<open>Field layouts\<close>

text \<open>
  The recursive closure \<open>build\<close> of \<open>buildLayouts\<close>, with the classes and the set \<open>seen\<close> passed
  along. A class on a cycle of superclasses finds itself in \<open>seen\<close> and adds nothing.
\<close>

function build :: "classes \<Rightarrow> u64 list \<Rightarrow> u64 \<Rightarrow> fieldDesc list \<times> classes \<times> u64 list" where
  "build cs seen cid =
     (case map_get cs cid of
        None \<Rightarrow> ([], cs, seen)
      | Some ci \<Rightarrow>
          (case ci_layout ci of
             Some l \<Rightarrow> (l, cs, seen)
           | None \<Rightarrow>
               if cid \<in> set seen then ([], cs, seen)
               else let (rest, cs', seen') =
                          (if ci_super ci \<noteq> 0 then build cs (cid # seen) (ci_super ci)
                           else ([], cs, cid # seen));
                        out = ci_fields ci @ rest
                    in (out, map_set cid (ci\<lparr>ci_layout := Some out\<rparr>) cs', seen')))"
  by pat_completeness auto
termination
proof (relation "measure (\<lambda>(cs, seen, cid). card (fst ` set (map_entries cs) - set seen))", goal_cases)
  case (2 cs seen cid ci)
  then have "cid \<in> fst ` set (map_entries cs) - set seen"
    by (force simp: map_get_entries)
  then have "card (fst ` set (map_entries cs) - set (cid # seen)) < card (fst ` set (map_entries cs) - set seen)"
    by (intro psubset_card_mono) auto
  then show ?case by simp
qed simp

declare build.simps [simp del]

definition buildLayouts :: "Meta \<Rightarrow> Meta" where
  "buildLayouts m =
     (let (cs, seen) = fold (\<lambda>cid (cs, seen). snd (build cs seen cid)) (map fst (map_entries (Classes m)))
                         (Classes m, [])
      in m\<lparr>Classes := cs\<rparr>)"

definition new_meta :: "string \<Rightarrow> int \<Rightarrow> Meta" where
  "new_meta path fsize = \<lparr>Path = path, FileSize = fsize, Timestamp = 0, IDSize = 8,
     Strings = map_new, Classes = map_new, BySer = map_new, Frames = map_new, Traces = map_new,
     Threads = [], RootIDs = [], RootKinds = map_new\<rparr>"

definition LoadMeta :: "string \<Rightarrow> u8 list option \<Rightarrow> Meta outcome" where
  "LoadMeta path file =
     bind_ok (openDump file) (\<lambda>(d, fsize, ts).
     bind_ok (while_pos fsize meta_record (new_meta path fsize) d) (\<lambda>(m, d').
     Inr (buildLayouts m)))"


subsection \<open>The loops end\<close>

lemma consumes_skipRoot [rd_consumes]: "consumes 0 (skipRoot tag)"
  unfolding skipRoot_def by (intro rd_consumes)

lemma consumes_read_field [rd_consumes]: "consumes 0 (read_field strings)"
  unfolding read_field_def by (intro rd_consumes)

lemma consumes_readClassDump [rd_consumes]: "consumes 0 (readClassDump m)"
  unfolding readClassDump_def read_constant_def read_static_def by (intro rd_consumes)

lemma consumes_panic [rd_consumes]: "consumes k (\<lambda>d. Inl (e d))"
  by (rule consumesI) simp

lemma consumes_skipObjectBody [rd_consumes]: "consumes 0 (skipObjectBody sub)"
  unfolding skipObjectBody_def by (intro rd_consumes)

lemma consumes_rpos [rd_consumes]: "consumes 0 rpos"
  by (rule consumesI) (auto simp: rpos_def intro: exI [of _ 0])

lemma consumes_case_prod [rd_consumes]: "(\<And>a b. consumes k (f a b)) \<Longrightarrow> consumes k (case_prod f x)"
  by (cases x) simp

lemma consumes_meta_sub: "consumes 1 (meta_sub m)"
  unfolding meta_sub_def by (intro consumes_rbind_first consumes_u1 rd_consumes)

interpretation subs: record_loop meta_sub
  by unfold_locales (rule consumes_meta_sub)

lemma consumes_loads [rd_consumes]:
  "consumes 0 (load_string len m)" "consumes 0 (load_class m)" "consumes 0 (load_frame m)"
  "consumes 0 (load_trace m)"
  unfolding load_string_def load_class_def load_frame_def load_trace_def Let_def
  by (intro rd_consumes)+

lemma consumes_meta_record: "consumes 1 (meta_record m)"
  unfolding meta_record_def
  by (intro consumes_rbind_first consumes_u1 rd_consumes subs.consumes_while_pos)

interpretation recs: record_loop meta_record
  by unfold_locales (rule consumes_meta_record)


lemma ends_panic [rd_ends]: "(\<And>d. e d \<noteq> OutOfFuel) \<Longrightarrow> ends (\<lambda>d. Inl (e d))"
  by (simp add: ends_def)

lemma ends_meta_readers [rd_ends]:
  "ends (skipRoot tag)" "ends (read_field strings)" "ends (readClassDump m)" "ends rpos" "ends (skipObjectBody sub)"
  "ends (load_string len m)" "ends (load_class m)" "ends (load_frame m)" "ends (load_trace m)"
proof -
  show field: "ends (read_field strings)" for strings
    unfolding read_field_def by (intro rd_ends)
  show "ends (skipRoot tag)" "ends (load_string len m)" "ends (load_class m)" "ends (load_frame m)" "ends (load_trace m)"
    unfolding skipRoot_def load_string_def load_class_def load_frame_def load_trace_def Let_def by (intro rd_ends)+
  show "ends (readClassDump m)"
    unfolding readClassDump_def read_constant_def read_static_def by (intro rd_ends field)
  show "ends rpos" by (simp add: ends_def rpos_def)
  show "ends (skipObjectBody sub)"
    unfolding skipObjectBody_def by (intro rd_ends) simp
qed

lemma ends_meta_sub: "ends (meta_sub m)"
  unfolding meta_sub_def by (intro rd_ends)

lemma ends_meta_record: "ends (meta_record m)"
  unfolding meta_record_def by (intro rd_ends subs.ends_while_pos ends_meta_sub)

lemma ends_header_loop [rd_ends]: "ends (header_loop hdr)"
proof -
  have "header_loop hdr d \<noteq> Inl OutOfFuel" for d
  proof (induction hdr d rule: header_loop.induct)
    case (1 hdr d)
    have "reader_u1 d \<noteq> Inl OutOfFuel" using ends_readers(1) by (simp add: ends_def)
    with 1 show ?case by (subst header_loop.simps) (auto split: sum.splits)
  qed
  then show ?thesis by (simp add: ends_def)
qed

lemma openDump_ends: "openDump file \<noteq> Inl OutOfFuel"
proof (cases "file")
  case (Some bs)
  have "ends (rbind (header_loop []) (\<lambda>hdr. rbind reader_u4 (\<lambda>idSize.
      if uint idSize \<noteq> 8 then rlift (Inl (UnsupportedIdSize (uint idSize)))
      else rbind reader_u8 (\<lambda>ts.
        if take 12 (bytes_string hdr) \<noteq> ''JAVA PROFILE'' then rlift (Inl (NotHprof (bytes_string hdr)))
        else rret ts))))"
    by (intro rd_ends) simp_all
  then show ?thesis
    unfolding openDump_def Some ends_def by (auto simp: map_sum_def split: sum.splits)
qed (simp add: openDump_def)

subsection \<open>Layouts are own fields, then inherited ones\<close>

definition lay :: "classes \<Rightarrow> u64 \<Rightarrow> fieldDesc list" where
  "lay cs c = (case map_get cs c of None \<Rightarrow> [] | Some ci \<Rightarrow> (case ci_layout ci of None \<Rightarrow> [] | Some l \<Rightarrow> l))"

definition laid :: "classes \<Rightarrow> u64 \<Rightarrow> bool" where
  "laid cs c = (case map_get cs c of None \<Rightarrow> True | Some ci \<Rightarrow> ci_layout ci \<noteq> None)"

definition inherited :: "classes \<Rightarrow> classInfo \<Rightarrow> fieldDesc list" where
  "inherited cs ci = (if ci_super ci = 0 then [] else lay cs (ci_super ci))"

text \<open>Every layout that has been set is the class's fields and then the layout of its superclass.\<close>

definition layouts_sound :: "classes \<Rightarrow> bool" where
  "layouts_sound cs \<longleftrightarrow> (\<forall>c ci l. map_get cs c = Some ci \<longrightarrow> ci_layout ci = Some l \<longrightarrow>
     l = ci_fields ci @ inherited cs ci \<and> (ci_super ci \<noteq> 0 \<longrightarrow> laid cs (ci_super ci)))"

definition same_class :: "classInfo \<Rightarrow> classInfo \<Rightarrow> bool" where
  "same_class ci ci' \<longleftrightarrow> ci'\<lparr>ci_layout := None\<rparr> = ci\<lparr>ci_layout := None\<rparr> \<and>
     (ci_layout ci \<noteq> None \<longrightarrow> ci' = ci)"

definition layouts_grow :: "classes \<Rightarrow> classes \<Rightarrow> bool" where
  "layouts_grow cs cs' \<longleftrightarrow> (\<forall>c. rel_option same_class (map_get cs c) (map_get cs' c))"

text \<open>A ranking of the classes under which every superclass is lower: there is no cycle.\<close>

definition ranked :: "(u64 \<Rightarrow> nat) \<Rightarrow> classes \<Rightarrow> bool" where
  "ranked r cs \<longleftrightarrow> (\<forall>c ci. map_get cs c = Some ci \<longrightarrow> ci_super ci \<noteq> 0 \<longrightarrow> r (ci_super ci) < r c)"

lemma same_class_refl [simp]: "same_class ci ci"
  by (simp add: same_class_def)

lemma same_class_trans: "same_class a b \<Longrightarrow> same_class b c \<Longrightarrow> same_class a c"
  by (auto simp: same_class_def)

lemma same_class_fields:
  "same_class ci ci' \<Longrightarrow> ci_super ci' = ci_super ci \<and> ci_fields ci' = ci_fields ci \<and>
     ci_name ci' = ci_name ci \<and> ci_statics ci' = ci_statics ci \<and> ci_id ci' = ci_id ci"
  by (cases ci; cases ci') (auto simp: same_class_def)

lemma layouts_grow_refl [simp]: "layouts_grow cs cs"
  by (simp add: layouts_grow_def option.rel_refl)

lemma layouts_grow_trans:
  assumes "layouts_grow a b" and "layouts_grow b c"
  shows "layouts_grow a c"
  unfolding layouts_grow_def
proof
  fix k
  from assms have "rel_option same_class (map_get a k) (map_get b k)" "rel_option same_class (map_get b k) (map_get c k)"
    by (simp_all add: layouts_grow_def)
  then show "rel_option same_class (map_get a k) (map_get c k)"
    by (cases "map_get a k"; cases "map_get b k"; cases "map_get c k") (auto intro: same_class_trans)
qed

lemma layouts_growD:
  assumes "layouts_grow cs cs'" and "map_get cs c = Some ci"
  obtains ci' where "map_get cs' c = Some ci'" and "same_class ci ci'"
  using assms unfolding layouts_grow_def by (metis option_rel_Some1)

lemma layouts_growD':
  assumes "layouts_grow cs cs'" and "map_get cs' c = Some ci'"
  obtains ci where "map_get cs c = Some ci" and "same_class ci ci'"
  using assms unfolding layouts_grow_def by (metis option_rel_Some2)

lemma ranked_grow: "layouts_grow cs cs' \<Longrightarrow> ranked r cs \<Longrightarrow> ranked r cs'"
  unfolding ranked_def
proof (intro allI impI)
  fix c ci' assume grow: "layouts_grow cs cs'" and "map_get cs' c = Some ci'" and super: "ci_super ci' \<noteq> 0"
    and rank: "\<forall>c ci. map_get cs c = Some ci \<longrightarrow> ci_super ci \<noteq> 0 \<longrightarrow> r (ci_super ci) < r c"
  obtain ci where ci: "map_get cs c = Some ci" "same_class ci ci'"
    using layouts_growD' [OF grow \<open>map_get cs' c = Some ci'\<close>] .
  have "ci_super ci' = ci_super ci" using same_class_fields [OF ci(2)] by blast
  with super rank ci(1) show "r (ci_super ci') < r c" by simp
qed

lemma laid_grow: "layouts_grow cs cs' \<Longrightarrow> laid cs c \<Longrightarrow> laid cs' c"
proof (cases "map_get cs' c")
  case (Some ci')
  assume grow: "layouts_grow cs cs'" and laid: "laid cs c"
  obtain ci where ci: "map_get cs c = Some ci" "same_class ci ci'"
    using layouts_growD' [OF grow Some] .
  with laid have "ci_layout ci \<noteq> None" by (simp add: laid_def)
  with ci Some show ?thesis by (simp add: laid_def same_class_def)
qed (simp add: laid_def)

text \<open>Setting the layout of one class to what it should be.\<close>

lemma set_layout_sound:
  assumes rank: "ranked r cs" and sound: "layouts_sound cs"
    and get: "map_get cs cid = Some ci" and laid: "ci_super ci \<noteq> 0 \<Longrightarrow> laid cs (ci_super ci)"
    and l: "l = ci_fields ci @ inherited cs ci"
  defines "cs' \<equiv> map_set cid (ci\<lparr>ci_layout := Some l\<rparr>) cs"
  shows "layouts_sound cs'" and "layouts_grow cs cs'" and "laid cs' cid" and "lay cs' cid = l"
proof -
  have get': "map_get cs' c = (if c = cid then Some (ci\<lparr>ci_layout := Some l\<rparr>) else map_get cs c)" for c
    by (simp add: cs'_def lookup_update)
  then show "laid cs' cid" and "lay cs' cid = l"
    by (simp_all add: laid_def lay_def)
  have old: "ci\<lparr>ci_layout := Some l\<rparr> = ci" if "ci_layout ci \<noteq> None"
  proof -
    from that obtain l' where l': "ci_layout ci = Some l'" by blast
    then have "l' = l" using sound get l by (simp add: layouts_sound_def)
    with l' show ?thesis by simp
  qed
  show grow: "layouts_grow cs cs'"
    using get old by (auto simp: layouts_grow_def get' same_class_def intro: option.rel_refl)
  have lay': "lay cs' c = lay cs c" if "laid cs c" for c
  proof (cases "c = cid")
    case True
    with that get have "ci_layout ci \<noteq> None" by (simp add: laid_def)
    from old [OF this] True get get' show ?thesis by (simp add: lay_def)
  qed (simp add: lay_def get')
  show "layouts_sound cs'"
    unfolding layouts_sound_def
  proof (intro allI impI)
    fix c di l' assume c: "map_get cs' c = Some di" and l': "ci_layout di = Some l'"
    show "l' = ci_fields di @ inherited cs' di \<and> (ci_super di \<noteq> 0 \<longrightarrow> laid cs' (ci_super di))"
    proof (cases "c = cid")
      case True
      then have di: "di = ci\<lparr>ci_layout := Some l\<rparr>" using c by (simp add: get')
      then have "l' = l" using l' by auto
      with di show ?thesis
        using l laid laid_grow [OF grow] lay' by (simp add: inherited_def)
    next
      case False
      then have "map_get cs c = Some di" using c by (simp add: get')
      then have "l' = ci_fields di @ inherited cs di" "ci_super di \<noteq> 0 \<longrightarrow> laid cs (ci_super di)"
        using sound l' by (simp_all add: layouts_sound_def)
      then show ?thesis
        using laid_grow [OF grow] lay' by (simp add: inherited_def)
    qed
  qed
qed

lemma build_sound:
  assumes "ranked r cs" and "layouts_sound cs" and "\<And>c. c \<in> set seen \<Longrightarrow> laid cs c \<or> r cid < r c"
    and "build cs seen cid = (l, cs', seen')"
  shows "layouts_sound cs' \<and> layouts_grow cs cs' \<and> laid cs' cid \<and> l = lay cs' cid \<and>
    (\<forall>c \<in> set seen'. laid cs' c \<or> c \<in> set seen)"
  using assms
proof (induction cs seen cid arbitrary: l cs' seen' rule: build.induct)
  case (1 cs seen cid)
  show ?case
  proof (cases "map_get cs cid")
    case None
    then show ?thesis
      using 1 by (simp add: build.simps [of cs] laid_def lay_def)
  next
    case (Some ci)
    show ?thesis
    proof (cases "ci_layout ci")
      case (Some l0)
      with \<open>map_get cs cid = Some ci\<close> 1 show ?thesis
        by (simp add: build.simps [of cs] laid_def lay_def)
    next
      case None
      with Some have "\<not> laid cs cid" by (simp add: laid_def)
      with 1(4) have fresh: "cid \<notin> set seen" by blast
      define inner where "inner = (if ci_super ci \<noteq> 0 then build cs (cid # seen) (ci_super ci) else ([], cs, cid # seen))"
      obtain rest cs1 seen1 where inner': "inner = (rest, cs1, seen1)" by (metis prod_cases3)
      have res: "l = ci_fields ci @ rest" "cs' = map_set cid (ci\<lparr>ci_layout := Some (ci_fields ci @ rest)\<rparr>) cs1" "seen' = seen1"
        using 1(5) Some None fresh inner'
        by (auto simp: build.simps [of cs seen] inner_def [symmetric] Let_def)
      have IH: "layouts_sound cs1 \<and> layouts_grow cs cs1 \<and> rest = inherited cs1 ci \<and>
          (ci_super ci \<noteq> 0 \<longrightarrow> laid cs1 (ci_super ci)) \<and> (\<forall>c \<in> set seen1. laid cs1 c \<or> c \<in> set (cid # seen))"
      proof (cases "ci_super ci = 0")
        case True
        then show ?thesis using inner' 1(3) by (auto simp: inner_def inherited_def)
      next
        case False
        have less: "r (ci_super ci) < r cid" using 1(2) Some False by (simp add: ranked_def)
        then have stack: "laid cs c \<or> r (ci_super ci) < r c" if "c \<in> set (cid # seen)" for c
          using that 1(4) [of c] by auto
        have b: "build cs (cid # seen) (ci_super ci) = (rest, cs1, seen1)" using inner' False by (simp add: inner_def)
        from 1(1) [OF Some None fresh False 1(2,3) stack b] False show ?thesis
          by (simp add: inherited_def)
      qed
      obtain ci1 where ci1: "map_get cs1 cid = Some ci1" "same_class ci ci1"
        using IH Some by (blast elim: layouts_growD)
      have rank1: "ranked r cs1" using IH 1(2) ranked_grow by blast
      have upd: "ci\<lparr>ci_layout := x\<rparr> = ci1\<lparr>ci_layout := x\<rparr>" for x
        using ci1(2) by (cases ci; cases ci1) (simp add: same_class_def)
      have l: "l = ci_fields ci1 @ inherited cs1 ci1"
        using res(1) IH same_class_fields [OF ci1(2)] by (simp add: inherited_def)
      have cs': "cs' = map_set cid (ci1\<lparr>ci_layout := Some l\<rparr>) cs1"
        using res(1,2) by (simp add: upd)
      have sup: "ci_super ci1 \<noteq> 0 \<Longrightarrow> laid cs1 (ci_super ci1)"
        using IH same_class_fields [OF ci1(2)] by simp
      note set = set_layout_sound [OF rank1 _ ci1(1) sup l, folded cs']
      have "layouts_sound cs1" using IH by blast
      note set' = set [OF this]
      have "\<forall>c \<in> set seen'. laid cs' c \<or> c \<in> set seen"
        using IH res(3) set'(3) laid_grow [OF set'(2)] by auto
      with set' IH show ?thesis using layouts_grow_trans by blast
    qed
  qed
qed

lemma layouts_sound_fresh:
  "(\<And>c ci. map_get cs c = Some ci \<Longrightarrow> ci_layout ci = None) \<Longrightarrow> layouts_sound cs"
  by (simp add: layouts_sound_def)

lemma fold_build_sound:
  assumes "ranked r cs" and "layouts_sound cs" and "\<And>c. c \<in> set seen \<Longrightarrow> laid cs c"
    and "fold (\<lambda>cid (cs, seen). snd (build cs seen cid)) ks (cs, seen) = (cs', seen')"
  shows "layouts_sound cs' \<and> layouts_grow cs cs' \<and> (\<forall>k \<in> set ks. laid cs' k)"
  using assms
proof (induction ks arbitrary: cs seen)
  case (Cons k ks)
  obtain l cs1 seen1 where b: "build cs seen k = (l, cs1, seen1)" by (metis prod_cases3)
  have one: "layouts_sound cs1" "layouts_grow cs cs1" "laid cs1 k"
      and seen1: "\<And>c. c \<in> set seen1 \<Longrightarrow> laid cs1 c \<or> c \<in> set seen"
    using build_sound [OF Cons.prems(1,2) _ b] Cons.prems(3) by simp_all
  have stack: "laid cs1 c" if "c \<in> set seen1" for c
    using seen1 [OF that] Cons.prems(3) laid_grow [OF one(2)] by blast
  have "layouts_sound cs' \<and> layouts_grow cs1 cs' \<and> (\<forall>k \<in> set ks. laid cs' k)"
    using Cons.prems(4) b one stack by (intro Cons.IH ranked_grow [OF one(2) Cons.prems(1)]) simp_all
  moreover from this have "laid cs' k" using laid_grow [OF _ one(3)] by blast
  ultimately show ?case
    using layouts_grow_trans [OF one(2)] by simp
qed simp

theorem buildLayouts_sound:
  assumes "ranked r (Classes m)" and "layouts_sound (Classes m)"
  shows "layouts_sound (Classes (buildLayouts m))" and "layouts_grow (Classes m) (Classes (buildLayouts m))"
    and "laid (Classes (buildLayouts m)) cid"
proof -
  obtain cs seen where f: "fold (\<lambda>cid (cs, seen). snd (build cs seen cid))
      (map fst (map_entries (Classes m))) (Classes m, []) = (cs, seen)"
    by (metis prod.exhaust)
  then have cs: "Classes (buildLayouts m) = cs" by (simp add: buildLayouts_def)
  from fold_build_sound [OF assms _ f]
  have res: "layouts_sound cs" "layouts_grow (Classes m) cs" "\<forall>k \<in> fst ` set (map_entries (Classes m)). laid cs k"
    by simp_all
  then show "layouts_sound (Classes (buildLayouts m))" "layouts_grow (Classes m) (Classes (buildLayouts m))"
    by (simp_all add: cs)
  show "laid (Classes (buildLayouts m)) cid"
  proof (cases "map_get (Classes m) cid")
    case None
    then have "map_get cs cid = None" using res(2) by (auto simp: layouts_grow_def dest: spec [of _ cid])
    then show ?thesis by (simp add: cs laid_def)
  next
    case (Some ci)
    then have "cid \<in> fst ` set (map_entries (Classes m))" by (force simp: map_get_entries)
    with res(3) show ?thesis by (auto simp: cs)
  qed
qed


subsection \<open>Every class gets a layout\<close>

text \<open>
  Also when superclasses form a cycle: \<open>S\<close> are the classes whose layout is being built. A property
  of all declared fields carries over to the layouts.
\<close>

definition fields_all :: "(fieldDesc \<Rightarrow> bool) \<Rightarrow> classes \<Rightarrow> bool" where
  "fields_all P cs \<longleftrightarrow> (\<forall>c ci. map_get cs c = Some ci \<longrightarrow>
     list_all P (ci_fields ci) \<and> (\<forall>l. ci_layout ci = Some l \<longrightarrow> list_all P l))"

lemma fields_all_set:
  "fields_all P cs \<Longrightarrow> list_all P (ci_fields ci) \<Longrightarrow> (\<And>l. ci_layout ci = Some l \<Longrightarrow> list_all P l) \<Longrightarrow>
   fields_all P (map_set c ci cs)"
  by (auto simp: fields_all_def lookup_update split: if_splits)

lemma fields_all_lay: "fields_all P cs \<Longrightarrow> list_all P (lay cs c)"
  by (auto simp: fields_all_def lay_def split: option.splits)

lemma laid_set:
  "laid (map_set c ci cs) k \<longleftrightarrow> (if k = c then ci_layout ci \<noteq> None else laid cs k)"
  by (simp add: laid_def lookup_update)

lemma build_laid:
  assumes "build cs seen cid = (l, cs', seen')" and "fields_all P cs"
    and "\<And>c. c \<in> set seen \<Longrightarrow> laid cs c \<or> c \<in> S"
  shows "(\<forall>c. laid cs c \<longrightarrow> laid cs' c) \<and> (\<forall>c \<in> set (cid # seen'). laid cs' c \<or> c \<in> S) \<and>
    fields_all P cs' \<and> list_all P l \<and> (\<forall>c. map_get cs' c = None \<longleftrightarrow> map_get cs c = None)"
  using assms
proof (induction cs seen cid arbitrary: l cs' seen' S rule: build.induct)
  case (1 cs seen cid)
  show ?case
  proof (cases "map_get cs cid")
    case None
    then show ?thesis using 1 by (auto simp: build.simps [of cs] laid_def)
  next
    case (Some ci)
    show ?thesis
    proof (cases "ci_layout ci")
      case (Some l0)
      with \<open>map_get cs cid = Some ci\<close> 1 show ?thesis
        by (auto simp: build.simps [of cs] laid_def fields_all_def)
    next
      case None
      show ?thesis
      proof (cases "cid \<in> set seen")
        case True
        have "\<not> laid cs cid" using None Some by (simp add: laid_def)
        then have "cid \<in> S" using 1(4) [OF True] by blast
        with True None Some 1(2-) show ?thesis
          by (simp add: build.simps [of cs])
      next
        case fresh: False
        define inner where "inner = (if ci_super ci \<noteq> 0 then build cs (cid # seen) (ci_super ci) else ([], cs, cid # seen))"
        obtain rest cs1 seen1 where inner': "inner = (rest, cs1, seen1)" by (metis prod_cases3)
        have res: "l = ci_fields ci @ rest" "cs' = map_set cid (ci\<lparr>ci_layout := Some l\<rparr>) cs1" "seen' = seen1"
          using 1(2) Some None fresh inner'
          by (auto simp: build.simps [of cs seen] inner_def [symmetric] Let_def)
        have IH: "(\<forall>c. laid cs c \<longrightarrow> laid cs1 c) \<and> (\<forall>c \<in> set seen1. laid cs1 c \<or> c \<in> insert cid S) \<and>
            fields_all P cs1 \<and> list_all P rest \<and> (\<forall>c. map_get cs1 c = None \<longleftrightarrow> map_get cs c = None)"
        proof (cases "ci_super ci = 0")
          case True
          have "\<forall>c \<in> set seen. laid cs c \<or> c \<in> S" using 1(4) by blast
          with True show ?thesis using inner' 1(3) by (auto simp: inner_def)
        next
          case False
          then have b: "build cs (cid # seen) (ci_super ci) = (rest, cs1, seen1)" using inner' by (simp add: inner_def)
          have "laid cs c \<or> c \<in> insert cid S" if "c \<in> set (cid # seen)" for c
            using that 1(4) by auto
          from 1(1) [OF Some None fresh False b 1(3) this] show ?thesis by simp
        qed
        have "list_all P (ci_fields ci)" using 1(3) Some by (simp add: fields_all_def)
        then have "list_all P l" using IH res(1) by simp
        moreover have "fields_all P cs'"
          unfolding res(2) using IH \<open>list_all P (ci_fields ci)\<close> \<open>list_all P l\<close> by (intro fields_all_set) auto
        ultimately show ?thesis
          using IH res(2,3) Some by (auto simp: laid_set lookup_update)
      qed
    qed
  qed
qed

lemma fold_build_laid:
  assumes "fold (\<lambda>cid (cs, seen). snd (build cs seen cid)) ks (cs, seen) = (cs', seen')"
    and "fields_all P cs" and "\<And>c. c \<in> set seen \<Longrightarrow> laid cs c"
  shows "(\<forall>c. laid cs c \<longrightarrow> laid cs' c) \<and> (\<forall>c \<in> set ks. laid cs' c) \<and> fields_all P cs' \<and>
    (\<forall>c. map_get cs' c = None \<longleftrightarrow> map_get cs c = None)"
  using assms
proof (induction ks arbitrary: cs seen)
  case (Cons k ks)
  obtain l cs1 seen1 where b: "build cs seen k = (l, cs1, seen1)" by (metis prod_cases3)
  note one = build_laid [OF b Cons.prems(2), where S = "{}"]
  have "(\<forall>c. laid cs1 c \<longrightarrow> laid cs' c) \<and> (\<forall>c \<in> set ks. laid cs' c) \<and> fields_all P cs' \<and>
      (\<forall>c. map_get cs' c = None \<longleftrightarrow> map_get cs1 c = None)"
    using Cons.prems(1,3) b one by (intro Cons.IH) auto
  with one Cons.prems(3) show ?case by simp
qed simp

theorem buildLayouts_laid:
  assumes "fields_all P (Classes m)"
  shows "laid (Classes (buildLayouts m)) cid" and "fields_all P (Classes (buildLayouts m))"
    and "map_get (Classes (buildLayouts m)) cid = None \<longleftrightarrow> map_get (Classes m) cid = None"
proof -
  obtain cs seen where f: "fold (\<lambda>cid (cs, seen). snd (build cs seen cid))
      (map fst (map_entries (Classes m))) (Classes m, []) = (cs, seen)"
    by (metis prod.exhaust)
  then have cs: "Classes (buildLayouts m) = cs" by (simp add: buildLayouts_def)
  from fold_build_laid [OF f assms] have res: "fields_all P cs" "\<And>c. map_get cs c = None \<longleftrightarrow> map_get (Classes m) c = None"
      "\<And>k. k \<in> fst ` set (map_entries (Classes m)) \<Longrightarrow> laid cs k"
    by auto
  then show "fields_all P (Classes (buildLayouts m))"
    and "map_get (Classes (buildLayouts m)) cid = None \<longleftrightarrow> map_get (Classes m) cid = None"
    by (simp_all add: cs)
  show "laid (Classes (buildLayouts m)) cid"
  proof (cases "map_get (Classes m) cid")
    case None
    then have "map_get cs cid = None" using res(2) [of cid] by blast
    then show ?thesis by (simp add: cs laid_def)
  next
    case (Some ci)
    then have "cid \<in> fst ` set (map_entries (Classes m))" by (force simp: map_get_entries)
    with res(3) show ?thesis by (simp add: cs)
  qed
qed

text \<open>A second run changes nothing: all classes have their layout.\<close>

lemma buildLayouts_done:
  assumes "\<And>c. laid (Classes m) c"
  shows "buildLayouts m = m"
proof -
  have b: "snd (build (Classes m) seen c) = (Classes m, seen)" for seen c
    using assms [of c] by (subst build.simps) (auto simp: laid_def split: option.splits)
  have "fold (\<lambda>cid (cs, seen). snd (build cs seen cid)) ks (Classes m, seen) = (Classes m, seen)" for ks seen
    by (induction ks) (simp_all add: b)
  then show ?thesis by (simp add: buildLayouts_def)
qed

lemma buildLayouts_frame [simp]:
  "Strings (buildLayouts m) = Strings m" "RootIDs (buildLayouts m) = RootIDs m"
  "Threads (buildLayouts m) = Threads m" "Traces (buildLayouts m) = Traces m"
  "Frames (buildLayouts m) = Frames m" "RootKinds (buildLayouts m) = RootKinds m"
  by (simp_all add: buildLayouts_def split_beta)


text \<open>Class records are stored under their own id.\<close>

lemma build_keyed:
  "keyed_by ci_id cs \<Longrightarrow> keyed_by ci_id (fst (snd (build cs seen cid)))"
proof (induction cs seen cid rule: build.induct)
  case (1 cs seen cid)
  show ?case
  proof (cases "map_get cs cid")
    case None
    with 1 show ?thesis by (simp add: build.simps [of cs])
  next
    case (Some ci)
    show ?thesis
    proof (cases "ci_layout ci = None \<and> cid \<notin> set seen")
      case True
      have key: "ci_id ci = cid" using 1(2) Some by (rule keyed_by_get)
      show ?thesis
      proof (cases "ci_super ci = 0")
        case super: True
        with True Some key 1(2) show ?thesis
          by (simp add: build.simps [of cs seen cid] keyed_by_set Let_def)
      next
        case False
        have "keyed_by ci_id (fst (snd (build cs (cid # seen) (ci_super ci))))"
          using 1(1) [OF Some] True False 1(2) by simp
        with True Some key False show ?thesis
          by (simp add: build.simps [of cs seen cid] keyed_by_set split_beta Let_def)
      qed
    next
      case False
      with Some 1(2) show ?thesis
        by (subst build.simps) (auto split: option.splits)
    qed
  qed
qed

lemma buildLayouts_keyed: "keyed_by ci_id (Classes m) \<Longrightarrow> keyed_by ci_id (Classes (buildLayouts m))"
proof -
  have "keyed_by ci_id cs \<Longrightarrow>
      keyed_by ci_id (fst (fold (\<lambda>cid (cs, seen). snd (build cs seen cid)) ks (cs, seen)))" for ks cs seen
  proof (induction ks arbitrary: cs seen)
    case (Cons k ks)
    obtain cs1 seen1 where b: "snd (build cs seen k) = (cs1, seen1)" by fastforce
    then have "keyed_by ci_id cs1" using build_keyed [OF Cons.prems, of seen k] by simp
    from Cons.IH [OF this] b show ?case by simp
  qed simp
  then show "keyed_by ci_id (Classes m) \<Longrightarrow> ?thesis"
    by (simp add: buildLayouts_def split_beta)
qed

end
