(* ===== verification/Hprof_Format.thy ===== *)
theory Hprof_Format
  imports Hprof_Meta
begin

text \<open>
  The HPROF format as data: the records of a heap dump, their encoding as bytes, and what each
  record means for the metadata. The main lemma \<open>LoadMeta_dump\<close> says that \<open>LoadMeta\<close> reads every
  well-formed dump without a panic and ends in the meaning of its records. The encoders are the
  specification side; the decoders are the translated program.
\<close>

subsection \<open>Abstract dumps\<close>

record class_dump =
  cd_id :: u64
  cd_trace :: u32
  cd_super :: u64
  cd_loader :: u64
  cd_signers :: u64
  cd_domain :: u64
  cd_reserved1 :: u64
  cd_reserved2 :: u64
  cd_instSize :: u32
  cd_consts :: "(u16 \<times> u8 \<times> u64) list"
  cd_statics :: "(u64 \<times> u8 \<times> u64) list"
  cd_fields :: "(u64 \<times> u8) list"

datatype subrec =
    SRoot u8 u64 "u8 list"                \<comment> \<open>tag, object, the fields that are skipped\<close>
  | SHeapInfo u32 u64
  | SThread u64 u32 u32                   \<comment> \<open>object, thread serial, stack trace serial\<close>
  | SClass class_dump
  | SInstance u64 u32 u64 "u8 list"       \<comment> \<open>object, trace, class, field bytes\<close>
  | SObjArray u64 u32 u64 "u64 list"      \<comment> \<open>object, trace, array class, elements\<close>
  | SPrimArray u64 u32 u8 "u64 list"      \<comment> \<open>object, trace, element type, elements\<close>

datatype hprof_record =
    RString u32 u64 "u8 list"
  | RLoadClass u32 u32 u64 u32 u64        \<comment> \<open>time, serial, class, trace, name\<close>
  | RFrame u32 u64 u64 u64 u64 u32 u32    \<comment> \<open>time, frame, method, signature, source, class serial, line\<close>
  | RTrace u32 u32 u32 "u64 list"         \<comment> \<open>time, serial, thread serial, frames\<close>
  | RHeap u32 bool "subrec list"          \<comment> \<open>a segment (\<open>True\<close>) or a whole dump\<close>
  | ROther u32 u8 "u8 list"

subsection \<open>Encoding\<close>

definition enc_const :: "u16 \<times> u8 \<times> u64 \<Rightarrow> u8 list" where
  "enc_const = (\<lambda>(i, t, v). enc_u2 i @ enc_u1 t @ enc_value t v)"

definition enc_static :: "u64 \<times> u8 \<times> u64 \<Rightarrow> u8 list" where
  "enc_static = (\<lambda>(n, t, v). enc_u8 n @ enc_u1 t @ enc_value t v)"

definition enc_field :: "u64 \<times> u8 \<Rightarrow> u8 list" where
  "enc_field = (\<lambda>(n, t). enc_u8 n @ enc_u1 t)"

definition enc_class :: "class_dump \<Rightarrow> u8 list" where
  "enc_class c = enc_u8 (cd_id c) @ enc_u4 (cd_trace c) @ enc_u8 (cd_super c) @ enc_u8 (cd_loader c)
     @ enc_u8 (cd_signers c) @ enc_u8 (cd_domain c) @ enc_u8 (cd_reserved1 c) @ enc_u8 (cd_reserved2 c)
     @ enc_u4 (cd_instSize c)
     @ enc_u2 (word_of_nat (length (cd_consts c))) @ concat (map enc_const (cd_consts c))
     @ enc_u2 (word_of_nat (length (cd_statics c))) @ concat (map enc_static (cd_statics c))
     @ enc_u2 (word_of_nat (length (cd_fields c))) @ concat (map enc_field (cd_fields c))"

definition prim_body :: "u8 \<Rightarrow> u64 list \<Rightarrow> u8 list" where
  "prim_body t vs = concat (map (enc_value t) vs)"

fun sub_body :: "subrec \<Rightarrow> u8 list" where
  "sub_body (SRoot tag oid extra) = enc_u8 oid @ extra"
| "sub_body (SHeapInfo h n) = enc_u4 h @ enc_u8 n"
| "sub_body (SThread oid serial stack) = enc_u8 oid @ enc_u4 serial @ enc_u4 stack"
| "sub_body (SClass c) = enc_class c"
| "sub_body (SInstance oid tr cid body) = enc_u8 oid @ enc_u4 tr @ enc_u8 cid @ enc_u4 (word_of_nat (length body)) @ body"
| "sub_body (SObjArray oid tr cid es) = enc_u8 oid @ enc_u4 tr @ enc_u4 (word_of_nat (length es)) @ enc_u8 cid @ concat (map enc_u8 es)"
| "sub_body (SPrimArray oid tr t vs) = enc_u8 oid @ enc_u4 tr @ enc_u4 (word_of_nat (length vs)) @ enc_u1 t @ prim_body t vs"

fun sub_tag :: "subrec \<Rightarrow> u8" where
  "sub_tag (SRoot tag oid extra) = tag"
| "sub_tag (SHeapInfo h n) = subHeapInfo"
| "sub_tag (SThread oid serial stack) = 0x08"
| "sub_tag (SClass c) = subClassDump"
| "sub_tag (SInstance oid tr cid body) = subInstance"
| "sub_tag (SObjArray oid tr cid es) = subObjArray"
| "sub_tag (SPrimArray oid tr t vs) = subPrimArray"

definition enc_sub :: "subrec \<Rightarrow> u8 list" where
  "enc_sub x = enc_u1 (sub_tag x) @ sub_body x"

fun rec_tag :: "hprof_record \<Rightarrow> u8" where
  "rec_tag (RString t sid bs) = tagString"
| "rec_tag (RLoadClass t serial cid tr nm) = tagLoadClass"
| "rec_tag (RFrame t fid meth sig source ser line) = tagStackFrame"
| "rec_tag (RTrace t serial thread fs) = tagStackTrace"
| "rec_tag (RHeap t seg subs) = (if seg then tagHeapSeg else tagHeapDump)"
| "rec_tag (ROther t tag bs) = tag"

fun rec_time :: "hprof_record \<Rightarrow> u32" where
  "rec_time (RString t sid bs) = t"
| "rec_time (RLoadClass t serial cid tr nm) = t"
| "rec_time (RFrame t fid meth sig source ser line) = t"
| "rec_time (RTrace t serial thread fs) = t"
| "rec_time (RHeap t seg subs) = t"
| "rec_time (ROther t tag bs) = t"

fun rec_body :: "hprof_record \<Rightarrow> u8 list" where
  "rec_body (RString t sid bs) = enc_u8 sid @ bs"
| "rec_body (RLoadClass t serial cid tr nm) = enc_u4 serial @ enc_u8 cid @ enc_u4 tr @ enc_u8 nm"
| "rec_body (RFrame t fid meth sig source ser line) =
     enc_u8 fid @ enc_u8 meth @ enc_u8 sig @ enc_u8 source @ enc_u4 ser @ enc_u4 line"
| "rec_body (RTrace t serial thread fs) =
     enc_u4 serial @ enc_u4 thread @ enc_u4 (word_of_nat (length fs)) @ concat (map enc_u8 fs)"
| "rec_body (RHeap t seg subs) = concat (map enc_sub subs)"
| "rec_body (ROther t tag bs) = bs"

definition rec_head :: "hprof_record \<Rightarrow> u8 list" where
  "rec_head r = enc_u1 (rec_tag r) @ enc_u4 (rec_time r) @ enc_u4 (word_of_nat (length (rec_body r)))"

definition enc_record :: "hprof_record \<Rightarrow> u8 list" where
  "enc_record r = rec_head r @ rec_body r"

definition enc_header :: "u8 list \<Rightarrow> u64 \<Rightarrow> u8 list" where
  "enc_header hdr ts = hdr @ enc_u1 0 @ enc_u4 8 @ enc_u8 ts"

definition enc_dump :: "u8 list \<Rightarrow> u64 \<Rightarrow> hprof_record list \<Rightarrow> u8 list" where
  "enc_dump hdr ts rs = enc_header hdr ts @ concat (map enc_record rs)"

subsection \<open>Well-formed dumps\<close>

definition root_extra :: "u8 \<Rightarrow> nat option" where
  "root_extra = map_of [(0xFF, 0), (0x01, 8), (0x02, 8), (0x03, 8), (0x04, 4), (0x05, 0), (0x06, 4), (0x07, 0)]"

definition typed_value :: "u8 \<Rightarrow> u64 \<Rightarrow> bool" where
  "typed_value t v \<longleftrightarrow> valid_type t \<and> value_fits t v"

definition class_ok :: "class_dump \<Rightarrow> bool" where
  "class_ok c \<longleftrightarrow>
     length (cd_consts c) < 2 ^ 16 \<and> list_all (\<lambda>(i, t, v). typed_value t v) (cd_consts c) \<and>
     length (cd_statics c) < 2 ^ 16 \<and> list_all (\<lambda>(n, t, v). typed_value t v) (cd_statics c) \<and>
     length (cd_fields c) < 2 ^ 16 \<and> list_all (\<lambda>(n, t). valid_type t) (cd_fields c)"

fun sub_ok :: "subrec \<Rightarrow> bool" where
  "sub_ok (SRoot tag oid extra) \<longleftrightarrow> root_extra tag = Some (length extra)"
| "sub_ok (SHeapInfo h n) \<longleftrightarrow> True"
| "sub_ok (SThread oid serial stack) \<longleftrightarrow> True"
| "sub_ok (SClass c) \<longleftrightarrow> class_ok c"
| "sub_ok (SInstance oid tr cid body) \<longleftrightarrow> length body < 2 ^ 32"
| "sub_ok (SObjArray oid tr cid es) \<longleftrightarrow> length es < 2 ^ 32"
| "sub_ok (SPrimArray oid tr t vs) \<longleftrightarrow> length vs < 2 ^ 32 \<and> valid_type t \<and> list_all (value_fits t) vs"

fun rec_shape_ok :: "hprof_record \<Rightarrow> bool" where
  "rec_shape_ok (RTrace t serial thread fs) \<longleftrightarrow> length fs < 2 ^ 32"
| "rec_shape_ok (RHeap t seg subs) \<longleftrightarrow> list_all sub_ok subs"
| "rec_shape_ok (ROther t tag bs) \<longleftrightarrow>
     tag \<notin> set [tagString, tagLoadClass, tagStackFrame, tagStackTrace, tagHeapDump, tagHeapSeg]"
| "rec_shape_ok _ \<longleftrightarrow> True"

definition rec_ok :: "hprof_record \<Rightarrow> bool" where
  "rec_ok r \<longleftrightarrow> rec_shape_ok r \<and> length (rec_body r) < 2 ^ 32"

definition header_ok :: "u8 list \<Rightarrow> bool" where
  "header_ok hdr \<longleftrightarrow> 0 \<notin> set hdr \<and> take 12 (bytes_string hdr) = ''JAVA PROFILE''"

definition dump_ok :: "u8 list \<Rightarrow> hprof_record list \<Rightarrow> bool" where
  "dump_ok hdr rs \<longleftrightarrow> header_ok hdr \<and> list_all rec_ok rs"

subsection \<open>Meaning\<close>

definition class_step :: "class_dump \<Rightarrow> Meta \<Rightarrow> classInfo \<times> Meta" where
  "class_step c m = record_class (cd_id c) (cd_super c) (sint (cd_instSize c))
     (object_statics (map snd (cd_statics c)))
     (map (\<lambda>(n, t). \<lparr>f_name = map_str (Strings m) n, f_typ = t\<rparr>) (cd_fields c)) m"

fun sub_step :: "subrec \<Rightarrow> Meta \<Rightarrow> Meta" where
  "sub_step (SRoot tag oid extra) m = count_root (rootTagName tag) (if oid \<noteq> 0 then Some oid else None) m"
| "sub_step (SHeapInfo h n) m = count_root '''' None m"
| "sub_step (SThread oid serial stack) m =
     count_root ''thread_object'' (Some oid)
       (m\<lparr>Threads := Threads m @ [\<lparr>ObjID = oid, Serial = serial, StackSerial = stack\<rparr>]\<rparr>)"
| "sub_step (SClass c) m = snd (class_step c m)"
| "sub_step _ m = m"

fun record_step :: "hprof_record \<Rightarrow> Meta \<Rightarrow> Meta" where
  "record_step (RString t sid bs) m = m\<lparr>Strings := map_set sid (bytes_string bs) (Strings m)\<rparr>"
| "record_step (RLoadClass t serial cid tr nm) m =
     (let n = normalizeClassName (map_str (Strings m) nm)
      in m\<lparr>BySer := map_set serial n (BySer m), Classes := name_class cid n (Classes m)\<rparr>)"
| "record_step (RFrame t fid meth sig source ser line) m =
     (let str = map_str (Strings m)
      in m\<lparr>Frames := map_set fid
             (map_str (BySer m) ser @ ''.'' @ str meth @ argsOf (str sig) @ '' ('' @ str source
                @ '':'' @ lineLabel (sint line) @ '')'') (Frames m)\<rparr>)"
| "record_step (RTrace t serial thread fs) m = m\<lparr>Traces := map_set serial fs (Traces m)\<rparr>"
| "record_step (RHeap t seg subs) m = fold sub_step subs m"
| "record_step (ROther t tag bs) m = m"

subsection \<open>Reading back\<close>

lemmas reading = rbind_def rd_simps

lemma rret_pair [simp]: "(case rret x d of Inl e \<Rightarrow> f e | Inr (y, d') \<Rightarrow> g y d') = g x d"
  by simp

lemma unat_word_of_nat16 [simp]: "n < 2 ^ 16 \<Longrightarrow> unat (word_of_nat n :: u16) = n"
  by (simp add: unat_of_nat take_bit_nat_eq_self)

lemma unat_word_of_nat32 [simp]: "n < 2 ^ 32 \<Longrightarrow> unat (word_of_nat n :: u32) = n"
  by (simp add: unat_of_nat take_bit_nat_eq_self)

lemma uint_word_of_nat32 [simp]: "n < 2 ^ 32 \<Longrightarrow> uint (word_of_nat n :: u32) = int n"
  by (metis unat_word_of_nat32 of_nat_unat)

lemma read_constant_enc:
  assumes "(\<lambda>(i, t, v). typed_value t v) x"
  shows "read_constant \<lparr>input = enc_const x @ rest, pos = p\<rparr> =
    Inr (snd (snd x), \<lparr>input = rest, pos = p + int (length (enc_const x))\<rparr>)"
  using assms by (auto simp: read_constant_def enc_const_def typed_value_def reading split: prod.splits)

lemma read_static_enc:
  assumes "(\<lambda>(n, t, v). typed_value t v) x"
  shows "read_static \<lparr>input = enc_static x @ rest, pos = p\<rparr> =
    Inr (snd x, \<lparr>input = rest, pos = p + int (length (enc_static x))\<rparr>)"
  using assms by (auto simp: read_static_def enc_static_def typed_value_def reading split: prod.splits)

lemma read_field_enc:
  "read_field strings \<lparr>input = enc_field x @ rest, pos = p\<rparr> =
    Inr ((\<lambda>(n, t). \<lparr>f_name = map_str strings n, f_typ = t\<rparr>) x,
      \<lparr>input = rest, pos = p + int (length (enc_field x))\<rparr>)"
  by (auto simp: read_field_def enc_field_def reading split: prod.splits)

lemma rtimes_enc_n:
  assumes "n = length xs" and "\<And>x rest p. x \<in> set xs \<Longrightarrow>
    m \<lparr>input = enc x @ rest, pos = p\<rparr> = Inr (f x, \<lparr>input = rest, pos = p + int (length (enc x))\<rparr>)"
  shows "rtimes n m \<lparr>input = concat (map enc xs) @ rest, pos = p\<rparr> =
    Inr (map f xs, \<lparr>input = rest, pos = p + int (length (concat (map enc xs)))\<rparr>)"
  unfolding assms(1) by (rule rtimes_enc [OF assms(2)])

lemma readClassDump_enc:
  assumes "class_ok c"
  shows "readClassDump m \<lparr>input = enc_class c @ rest, pos = p\<rparr> =
    Inr (class_step c m, \<lparr>input = rest, pos = p + int (length (enc_class c))\<rparr>)"
proof -
  have pool: "rtimes (length (cd_consts c)) read_constant
      \<lparr>input = concat (map enc_const (cd_consts c)) @ rest, pos = p\<rparr> =
      Inr (map (\<lambda>x. snd (snd x)) (cd_consts c),
        \<lparr>input = rest, pos = p + int (length (concat (map enc_const (cd_consts c))))\<rparr>)" for rest p
    using assms by (intro rtimes_enc read_constant_enc) (auto simp: class_ok_def list_all_iff)
  have statics: "rtimes (length (cd_statics c)) read_static
      \<lparr>input = concat (map enc_static (cd_statics c)) @ rest, pos = p\<rparr> =
      Inr (map snd (cd_statics c),
        \<lparr>input = rest, pos = p + int (length (concat (map enc_static (cd_statics c))))\<rparr>)" for rest p
    using assms by (intro rtimes_enc read_static_enc) (auto simp: class_ok_def list_all_iff)
  have flds: "rtimes (length (cd_fields c)) (read_field (Strings m))
      \<lparr>input = concat (map enc_field (cd_fields c)) @ rest, pos = p\<rparr> =
      Inr (map (\<lambda>(n, t). \<lparr>f_name = map_str (Strings m) n, f_typ = t\<rparr>) (cd_fields c),
        \<lparr>input = rest, pos = p + int (length (concat (map enc_field (cd_fields c))))\<rparr>)" for rest p
    by (intro rtimes_enc read_field_enc)
  show ?thesis
    using assms by (simp add: readClassDump_def enc_class_def class_step_def class_ok_def reading
        pool statics flds del: length_concat)
qed


lemma read_raw:
  "4 \<le> length xs \<Longrightarrow> reader_u4 \<lparr>input = xs, pos = p\<rparr> = Inr (be_word (take 4 xs), \<lparr>input = drop 4 xs, pos = p + 4\<rparr>)"
  "8 \<le> length xs \<Longrightarrow> reader_id \<lparr>input = xs, pos = p\<rparr> = Inr (be_word (take 8 xs), \<lparr>input = drop 8 xs, pos = p + 8\<rparr>)"
  by (simp_all add: reader_u4_def reader_id_def reader_u8_def must_def rbind_def)

lemma skipRoot_enc:
  assumes "root_extra tag = Some (length extra)"
  shows "skipRoot tag \<lparr>input = enc_u8 oid @ extra @ rest, pos = p\<rparr> =
    Inr ((oid, True), \<lparr>input = rest, pos = p + 8 + int (length extra)\<rparr>)"
  using assms by (auto simp: root_extra_def skipRoot_def subHeapInfo_def reading read_raw(1) [of "_ @ _"]
      read_raw(1) [of "drop _ _ @ _"] read_raw(2) [of "_ @ _"] split: if_splits)

lemma root_tags:
  assumes "root_extra tag = Some n"
  shows "tag \<noteq> 0x08"
  using assms by (auto simp: root_extra_def split: if_splits)

lemma skipRoot_object:
  "tag \<in> {subClassDump, subInstance, subObjArray, subPrimArray} \<Longrightarrow> skipRoot tag d = Inr ((0, False), d)"
  by (auto simp: skipRoot_def tag_defs)

lemma length_enc_u8s [simp]: "length (concat (map enc_u8 es)) = 8 * length es"
  by (induction es) simp_all

lemma length_prim_body: "valid_type t \<Longrightarrow> int (length (prim_body t vs)) = int (length vs) * (typeSize ! unat t)"
proof -
  assume "valid_type t"
  then have "0 \<le> typeSize ! unat t"
    by (cases rule: valid_type_cases) (simp_all add: typeSize_def)
  then show ?thesis
    by (induction vs) (simp_all add: prim_body_def enc_value_def algebra_simps)
qed

lemma type_size_valid: "valid_type t \<Longrightarrow> type_size t = Inr (typeSize ! unat t)"
  by (erule valid_type_cases) (simp_all add: type_size_def aget_def typeSize_def)

lemma skipObjectBody_enc:
  assumes "sub_ok x" and "sub_tag x \<in> {subInstance, subObjArray, subPrimArray}"
  shows "skipObjectBody (sub_tag x) \<lparr>input = sub_body x @ rest, pos = p\<rparr> =
    Inr ((), \<lparr>input = rest, pos = p + int (length (sub_body x))\<rparr>)"
proof (cases x)
  case (SRoot tag oid extra)
  then show ?thesis
    using assms by (auto simp: root_extra_def tag_defs split: if_splits)
next
  case (SPrimArray oid tr t vs)
  then show ?thesis
    using assms length_prim_body [of t vs]
    by (simp add: skipObjectBody_def reading type_size_valid tag_defs)
qed (use assms in \<open>simp_all add: skipObjectBody_def reading tag_defs\<close>)

lemma meta_sub_enc:
  assumes "sub_ok x"
  shows "meta_sub m \<lparr>input = enc_sub x @ rest, pos = p\<rparr> =
    Inr (sub_step x m, \<lparr>input = rest, pos = p + int (length (enc_sub x))\<rparr>)"
proof -
  have obj: "meta_sub m \<lparr>input = enc_sub x @ rest, pos = p\<rparr> =
      Inr (m, \<lparr>input = rest, pos = p + int (length (enc_sub x))\<rparr>)"
    if "sub_tag x \<in> {subInstance, subObjArray, subPrimArray}"
    using that assms skipObjectBody_enc [OF assms that]
    by (auto simp: meta_sub_def enc_sub_def reading skipRoot_object tag_defs)
  show ?thesis
  proof (cases x)
    case (SRoot tag oid extra)
    then show ?thesis
      using assms root_tags [of tag] skipRoot_enc [of tag extra]
      by (simp add: meta_sub_def enc_sub_def reading)
  next
    case (SClass c)
    then show ?thesis
      using assms readClassDump_enc [of c]
      by (simp add: meta_sub_def enc_sub_def reading skipRoot_object tag_defs split: prod.splits)
  next
    case (SHeapInfo h n)
    then show ?thesis
      by (simp add: meta_sub_def enc_sub_def skipRoot_def reading tag_defs rootTagName_def)
  next
    case (SThread oid serial stack)
    then show ?thesis
      by (simp add: meta_sub_def enc_sub_def reading)
  qed (use obj in simp_all)
qed


lemma enc_sub_nonempty: "enc_sub x \<noteq> []"
  by (simp add: enc_sub_def enc_u1_def)

interpretation subs: record_codec meta_sub enc_sub sub_ok "\<lambda>p. sub_step" "\<lambda>m. True"
  by unfold_locales (simp_all add: enc_sub_nonempty meta_sub_enc)

lemma rec_head_read:
  "rbind reader_u1 (\<lambda>tag. rbind reader_u4 (\<lambda>t. rbind reader_u4 (\<lambda>n. f tag t n)))
     \<lparr>input = rec_head r @ rest, pos = p\<rparr> =
   f (rec_tag r) (rec_time r) (word_of_nat (length (rec_body r))) \<lparr>input = rest, pos = p + 9\<rparr>"
  by (simp add: rec_head_def reading add.commute)

lemma length_rec_head [simp]: "length (rec_head r) = 9"
  by (simp add: rec_head_def)

lemma meta_record_enc:
  assumes ok: "rec_ok r"
  shows "meta_record m \<lparr>input = enc_record r @ rest, pos = p\<rparr> =
    Inr (record_step r m, \<lparr>input = rest, pos = p + int (length (enc_record r))\<rparr>)"
proof -
  have len: "uint (word_of_nat (length (rec_body r)) :: u32) = int (length (rec_body r))"
    using ok by (simp add: rec_ok_def)
  have "meta_record m \<lparr>input = enc_record r @ rest, pos = p\<rparr> =
      (let tag = rec_tag r; n = int (length (rec_body r))
       in if tag = tagString then load_string n m
          else if tag = tagLoadClass then load_class m
          else if tag = tagStackFrame then load_frame m
          else if tag = tagStackTrace then load_trace m
          else if tag = tagHeapDump \<or> tag = tagHeapSeg
          then rbind rpos (\<lambda>p. while_pos (p + n) meta_sub m)
          else rbind (reader_skip n) (\<lambda>_. rret m)) \<lparr>input = rec_body r @ rest, pos = p + 9\<rparr>"
    unfolding meta_record_def enc_record_def append_assoc rec_head_read len Let_def ..
  note dispatch = this
  have size: "length (enc_record r) = 9 + length (rec_body r)"
    by (simp add: enc_record_def)
  show ?thesis
  proof (cases r)
    case (RString t sid bs)
    then show ?thesis
      unfolding dispatch size by (simp add: load_string_def reading tag_defs)
  next
    case (RLoadClass t serial cid tr nm)
    then show ?thesis
      unfolding dispatch size by (simp add: load_class_def reading tag_defs Let_def)
  next
    case (RFrame t fid meth sig source ser line)
    then show ?thesis
      unfolding dispatch size by (simp add: load_frame_def reading tag_defs Let_def)
  next
    case (RTrace t serial thread fs)
    have "rtimes (length fs) reader_id \<lparr>input = concat (map enc_u8 fs) @ rest, pos = q\<rparr> =
        Inr (map (\<lambda>x. x) fs, \<lparr>input = rest, pos = q + int (length (concat (map enc_u8 fs)))\<rparr>)" for q
      by (rule rtimes_enc) (simp add: reading)
    with RTrace ok show ?thesis
      unfolding dispatch size by (simp add: load_trace_def reading tag_defs rec_ok_def)
  next
    case (RHeap t seg subs)
    then have "list_all sub_ok subs" using ok by (simp add: rec_ok_def)
    from subs.while_pos_enc [OF TrueI this refl, of "p + 9" m rest] RHeap show ?thesis
      unfolding dispatch size
      by (simp add: rpos_def reading tag_defs run_items_fold add.assoc del: length_concat)
  next
    case (ROther t tag bs)
    then show ?thesis
      unfolding dispatch size using ok by (simp add: reading rec_ok_def)
  qed
qed

lemma enc_record_nonempty: "enc_record r \<noteq> []"
  by (simp add: enc_record_def rec_head_def enc_u1_def)

interpretation recs: record_codec meta_record enc_record rec_ok "\<lambda>p. record_step" "\<lambda>m. True"
  by unfold_locales (simp_all add: enc_record_nonempty meta_record_enc)

lemma header_loop_enc:
  "0 \<notin> set hdr \<Longrightarrow> header_loop acc \<lparr>input = hdr @ enc_u1 0 @ rest, pos = p\<rparr> =
     Inr (acc @ hdr, \<lparr>input = rest, pos = p + int (length hdr) + 1\<rparr>)"
proof (induction hdr arbitrary: acc p)
  case Nil
  then show ?case by (subst header_loop.simps) (simp add: rd_simps)
next
  case (Cons c hdr)
  have "reader_u1 \<lparr>input = enc_u1 c @ hdr @ enc_u1 0 @ rest, pos = p\<rparr> =
      Inr (c, \<lparr>input = hdr @ enc_u1 0 @ rest, pos = p + 1\<rparr>)"
    by (rule read_enc)
  then have "header_loop acc \<lparr>input = (c # hdr) @ enc_u1 0 @ rest, pos = p\<rparr> =
      header_loop (acc @ [c]) \<lparr>input = hdr @ enc_u1 0 @ rest, pos = p + 1\<rparr>"
    using Cons.prems by (subst header_loop.simps) (auto simp: enc_u1_def)
  with Cons show ?case by simp
qed

lemma openDump_enc:
  assumes "header_ok hdr"
  shows "openDump (Some (enc_header hdr ts @ body)) =
    Inr (\<lparr>input = body, pos = int (length (enc_header hdr ts))\<rparr>, int (length (enc_header hdr ts @ body)), ts)"
  using assms header_loop_enc [of hdr "[]" "enc_u4 8 @ enc_u8 ts @ body" 0]
  by (simp add: openDump_def enc_header_def header_ok_def reading)

text \<open>What the metadata pass computes from the records of a dump.\<close>

definition dump_meta :: "string \<Rightarrow> u8 list \<Rightarrow> u64 \<Rightarrow> hprof_record list \<Rightarrow> Meta" where
  "dump_meta path hdr ts rs =
     buildLayouts (fold record_step rs (new_meta path (int (length (enc_dump hdr ts rs)))))"

lemma LoadMeta_dump:
  assumes "dump_ok hdr rs"
  shows "LoadMeta path (Some (enc_dump hdr ts rs)) = Inr (dump_meta path hdr ts rs)"
proof -
  have "header_ok hdr" "list_all rec_ok rs"
    using assms by (simp_all add: dump_ok_def)
  from openDump_enc [OF this(1)] recs.while_pos_enc [OF TrueI this(2) refl, where rest = "[]"]
  show ?thesis
    by (simp add: LoadMeta_def enc_dump_def dump_meta_def run_items_fold del: length_concat)
qed

end
