(* ===== verification/Hprof_Graph.thy ===== *)
theory Hprof_Graph
  imports Hprof_Format
begin

text \<open>
  The object graph of the heap-dump analyzer (\<open>heapdump/hprofx/graph.go\<close>): the object index with its
  binary search, the two passes of \<open>BuildGraph\<close> and the compressed adjacency of \<open>buildCSR\<close>.

  Node numbers, offsets and sizes are integers; the conversions to \<open>int32\<close> are written where the
  code has them. An index or slice expression out of range is a panic. The dump is the same list of
  bytes in every pass. \<open>sort.Slice\<close> leaves the order of equal keys open, and \<open>sort_key\<close> is one of
  the admitted orders; the lemmas on \<open>Lookup\<close> assume distinct object ids, where the order is unique.
\<close>

subsection \<open>State\<close>

datatype kind = kindClass | kindInstance | kindObjArray | kindPrimArray

record Graph =
  M :: Meta
  IDs :: "u64 list"
  ClassOf :: "u64 list"
  Size :: "int list"
  Kind :: "kind list"
  Offset :: "int list"
  sortedIDs :: "u64 list"
  sortedIdx :: "int list"
  FStart :: "int list"
  FAdj :: "int list"
  RStart :: "int list"
  RAdj :: "int list"
  Roots :: "int list"
  RootSet :: "(int, bool) gomap"
  Unreach :: int

definition new_graph :: "Meta \<Rightarrow> Graph" where
  "new_graph m = \<lparr>M = m, IDs = [], ClassOf = [], Size = [], Kind = [], Offset = [], sortedIDs = [],
     sortedIdx = [], FStart = [], FAdj = [], RStart = [], RAdj = [], Roots = [], RootSet = map_new,
     Unreach = 0\<rparr>"

definition Graph_N :: "Graph \<Rightarrow> nat" where
  "Graph_N g = length (IDs g)"

text \<open>A slice expression \<open>xs[lo:hi]\<close>.\<close>

definition aslice :: "'a list \<Rightarrow> int \<Rightarrow> int \<Rightarrow> 'a list outcome" where
  "aslice xs lo hi =
     (if 0 \<le> lo \<and> lo \<le> hi \<and> hi \<le> int (length xs) then Inr (take (nat (hi - lo)) (drop (nat lo) xs))
      else Inl IndexOutOfRange)"

text \<open>A \<open>for\<close> loop over a slice whose body may panic.\<close>

fun for_each :: "('x \<Rightarrow> 's \<Rightarrow> 's outcome) \<Rightarrow> 'x list \<Rightarrow> 's \<Rightarrow> 's outcome" where
  "for_each f [] s = Inr s"
| "for_each f (x # xs) s = bind_ok (f x s) (for_each f xs)"

lemma for_each_append: "for_each f (xs @ ys) s = bind_ok (for_each f xs s) (for_each f ys)"
proof (induction xs arbitrary: s)
  case (Cons x xs)
  then show ?case by (cases "f x s") simp_all
qed simp

subsection \<open>Lookup\<close>

text \<open>\<open>sort.Search\<close>: the least index of a range at which a monotone predicate holds.\<close>

function search_loop :: "(nat \<Rightarrow> bool) \<Rightarrow> nat \<Rightarrow> nat \<Rightarrow> nat" where
  "search_loop f i j =
     (if i < j
      then let h = (i + j) div 2 in if \<not> f h then search_loop f (h + 1) j else search_loop f i h
      else i)"
  by pat_completeness auto
termination
  by (relation "measure (\<lambda>(f, i, j). j - i)") auto

declare search_loop.simps [simp del]

definition sort_Search :: "nat \<Rightarrow> (nat \<Rightarrow> bool) \<Rightarrow> nat" where
  "sort_Search n f = search_loop f 0 n"

definition Lookup :: "Graph \<Rightarrow> u64 \<Rightarrow> int" where
  "Lookup g oid =
     (let i = sort_Search (length (sortedIDs g)) (\<lambda>i. sortedIDs g ! i \<ge> oid)
      in if i < length (sortedIDs g) \<and> sortedIDs g ! i = oid then sortedIdx g ! i else -1)"

definition Graph_Name :: "Graph \<Rightarrow> int \<Rightarrow> string outcome" where
  "Graph_Name g i =
     bind_ok (aget (Kind g) i) (\<lambda>k. bind_ok (aget (ClassOf g) i) (\<lambda>c.
     case k of
       kindPrimArray \<Rightarrow> bind_ok (aget typeName (uint c)) (\<lambda>n. Inr (n @ ''[]''))
     | kindClass \<Rightarrow> Inr (''class '' @ className (M g) c)
     | _ \<Rightarrow> Inr (className (M g) c)))"

definition Graph_Label :: "Graph \<Rightarrow> int \<Rightarrow> string outcome" where
  "Graph_Label g i =
     bind_ok (Graph_Name g i) (\<lambda>n. bind_ok (aget (IDs g) i) (\<lambda>oid. Inr (n @ '' @0x'' @ fmt_x oid)))"

definition Graph_add :: "u64 \<Rightarrow> u64 \<Rightarrow> int \<Rightarrow> kind \<Rightarrow> int \<Rightarrow> Graph \<Rightarrow> Graph" where
  "Graph_add oid cls sz kind off g = g\<lparr>IDs := IDs g @ [oid], ClassOf := ClassOf g @ [cls],
     Size := Size g @ [sz], Kind := Kind g @ [kind], Offset := Offset g @ [off]\<rparr>"

subsection \<open>Pass A: objects\<close>

definition index_sub :: "Graph \<Rightarrow> Graph rd" where
  "index_sub g =
     rbind reader_u1 (\<lambda>sub.
     rbind (skipRoot sub) (\<lambda>(rid, ok).
     if ok then rret g
     else rbind rpos (\<lambda>off.
       if sub = subClassDump
       then rbind (readClassDump (M g)) (\<lambda>(ci, m).
            rret (Graph_add (ci_id ci) (ci_id ci) 0 kindClass off (g\<lparr>M := m\<rparr>)))
       else if sub = subInstance
       then rbind reader_id (\<lambda>oid. rbind reader_u4 (\<lambda>_. rbind reader_id (\<lambda>cid. rbind reader_u4 (\<lambda>n.
            rbind (reader_skip (uint n)) (\<lambda>_.
            rret (Graph_add oid cid (int32 (16 + uint n)) kindInstance off g))))))
       else if sub = subObjArray
       then rbind reader_id (\<lambda>oid. rbind reader_u4 (\<lambda>_. rbind reader_u4 (\<lambda>n. rbind reader_id (\<lambda>acid.
            rbind (reader_skip (uint n * 8)) (\<lambda>_.
            rret (Graph_add oid acid (int32 (16 + uint n * 8)) kindObjArray off g))))))
       else if sub = subPrimArray
       then rbind reader_id (\<lambda>oid. rbind reader_u4 (\<lambda>_. rbind reader_u4 (\<lambda>n. rbind reader_u1 (\<lambda>t.
            rbind (rlift (type_size t)) (\<lambda>w.
            rbind (reader_skip (uint n * w)) (\<lambda>_.
            rret (Graph_add oid (ucast t) (int32 (16 + uint n * w)) kindPrimArray off g)))))))
       else (\<lambda>d. Inl (UnexpectedSubRecord sub (pos d))))))"

text \<open>One round of the top-level loop, shared by the two passes: only heap segments are entered.\<close>

definition heap_record :: "('s \<Rightarrow> 's rd) \<Rightarrow> 's \<Rightarrow> 's rd" where
  "heap_record body s =
     rbind reader_u1 (\<lambda>tag. rbind reader_u4 (\<lambda>_. rbind reader_u4 (\<lambda>length.
     if tag \<noteq> tagHeapDump \<and> tag \<noteq> tagHeapSeg then rbind (reader_skip (uint length)) (\<lambda>_. rret s)
     else rbind rpos (\<lambda>p. while_pos (p + uint length) body s))))"

definition index_objects :: "Meta \<Rightarrow> u8 list option \<Rightarrow> Graph outcome" where
  "index_objects m file =
     bind_ok (openDump file) (\<lambda>(d, fsize, ts).
     bind_ok (while_pos fsize (heap_record index_sub) (new_graph m) d) (\<lambda>(g, d').
     Inr (g\<lparr>M := buildLayouts (M g)\<rparr>)))"

text \<open>
  \<open>sort.Slice\<close> does not promise an order of equal keys; the model takes the stable one. The theorems are
  about dumps with distinct object ids, which have a single sorted order.
\<close>

definition sort_index :: "Graph \<Rightarrow> Graph" where
  "sort_index g =
     (let idx = sort_key (\<lambda>i. IDs g ! nat i) (map (\<lambda>i. int32 (int i)) [0..<Graph_N g])
      in g\<lparr>sortedIdx := idx, sortedIDs := map (\<lambda>p. IDs g ! nat p) idx\<rparr>)"

subsection \<open>Pass B: references\<close>

type_synonym edge_state = "Graph \<times> int list \<times> int list"

definition emit :: "int \<Rightarrow> u64 \<Rightarrow> edge_state \<Rightarrow> edge_state" where
  "emit source target = (\<lambda>(g, src, dst).
     if target = 0 then (g, src, dst)
     else let j = Lookup g target
          in if j \<ge> 0 then (g, src @ [source], dst @ [j]) else (g, src, dst))"

text \<open>The object references of an instance body, following the layout of its class.\<close>

fun instance_refs :: "fieldDesc list \<Rightarrow> u8 list \<Rightarrow> int \<Rightarrow> u64 list outcome" where
  "instance_refs [] body off = Inr []"
| "instance_refs (f # fs) body off =
     bind_ok (type_size (f_typ f)) (\<lambda>w.
     if off + w > int (length body) then Inr []
     else bind_ok (instance_refs fs body (off + w)) (\<lambda>rest.
          Inr (if f_typ f = 2 then be_word (take 8 (drop (nat off) body)) # rest else rest)))"

definition array_refs :: "nat \<Rightarrow> u8 list \<Rightarrow> u64 list" where
  "array_refs n body = map (\<lambda>i. be_word (take 8 (drop (i * 8) body))) [0..<n]"

definition edge_sub :: "edge_state \<Rightarrow> edge_state rd" where
  "edge_sub = (\<lambda>(g, src, dst).
     rbind reader_u1 (\<lambda>sub.
     rbind (skipRoot sub) (\<lambda>(rid, ok).
     if ok then rret (g, src, dst)
     else if sub = subClassDump
     then rbind (readClassDump (M g)) (\<lambda>(ci, m).
          let g' = g\<lparr>M := m\<rparr>; me = Lookup g' (ci_id ci)
          in rret (fold (emit me) (ci_statics ci) (g', src, dst)))
     else if sub = subInstance
     then rbind reader_id (\<lambda>oid. rbind reader_u4 (\<lambda>_. rbind reader_id (\<lambda>cid. rbind reader_u4 (\<lambda>sz.
          rbind (reader_take (uint sz)) (\<lambda>body.
          let me = Lookup g oid
          in case map_get (Classes (M g)) cid of
               None \<Rightarrow> rret (g, src, dst)
             | Some ci \<Rightarrow>
                 rbind (rlift (instance_refs (case ci_layout ci of None \<Rightarrow> [] | Some l \<Rightarrow> l) body 0)) (\<lambda>refs.
                 rret (fold (emit me) refs (g, src, dst))))))))
     else if sub = subObjArray
     then rbind reader_id (\<lambda>oid. rbind reader_u4 (\<lambda>_. rbind reader_u4 (\<lambda>count. rbind reader_id (\<lambda>_.
          rbind (reader_take (uint count * 8)) (\<lambda>body.
          rret (fold (emit (Lookup g oid)) (array_refs (unat count) body) (g, src, dst)))))))
     else if sub = subPrimArray
     then rbind reader_id (\<lambda>_. rbind reader_u4 (\<lambda>_. rbind reader_u4 (\<lambda>cnt. rbind reader_u1 (\<lambda>t.
          rbind (rlift (type_size t)) (\<lambda>w.
          rbind (reader_skip (uint cnt * w)) (\<lambda>_. rret (g, src, dst)))))))
     else rret (g, src, dst))))"

definition read_edges :: "Graph \<Rightarrow> u8 list option \<Rightarrow> edge_state outcome" where
  "read_edges g file =
     bind_ok (openDump file) (\<lambda>(d, fsize, ts).
     bind_ok (while_pos fsize (heap_record edge_sub) (g, [], []) d) (\<lambda>(s, d'). Inr s))"

subsection \<open>Compressed adjacency\<close>

definition count_start :: "int \<Rightarrow> int list \<Rightarrow> int list outcome" where
  "count_start f start = bind_ok (aget start (int32 (f + 1))) (\<lambda>c. aset start (int32 (f + 1)) (int32 (c + 1)))"

definition sum_start :: "int \<Rightarrow> int list \<Rightarrow> int list outcome" where
  "sum_start i start = bind_ok (aget start i) (\<lambda>a. bind_ok (aget start (i + 1)) (\<lambda>b.
     aset start (i + 1) (int32 (b + a))))"

definition place_edge :: "int list \<Rightarrow> int list \<Rightarrow> int list \<Rightarrow> int \<Rightarrow> int list \<times> int list
    \<Rightarrow> (int list \<times> int list) outcome" where
  "place_edge start src dst k = (\<lambda>(adj, fill).
     bind_ok (aget src k) (\<lambda>f. bind_ok (aget start f) (\<lambda>s. bind_ok (aget fill f) (\<lambda>c.
     bind_ok (aget dst k) (\<lambda>t. bind_ok (aset adj (int32 (s + c)) t) (\<lambda>adj'.
     bind_ok (aset fill f (int32 (c + 1))) (\<lambda>fill'. Inr (adj', fill'))))))))"

definition buildCSR :: "nat \<Rightarrow> int list \<Rightarrow> int list \<Rightarrow> (int list \<times> int list) outcome" where
  "buildCSR n src dst =
     bind_ok (for_each count_start src (replicate (n + 1) 0)) (\<lambda>start0.
     bind_ok (for_each sum_start (map int [0..<n]) start0) (\<lambda>start.
     bind_ok (for_each (place_edge start src dst) (map int [0..<length src])
                (replicate (length dst) 0, replicate n 0)) (\<lambda>(adj, fill).
     Inr (start, adj))))"

definition Refs :: "Graph \<Rightarrow> int \<Rightarrow> int list outcome" where
  "Refs g i = bind_ok (aget (FStart g) i) (\<lambda>lo. bind_ok (aget (FStart g) (i + 1)) (\<lambda>hi.
     aslice (FAdj g) lo hi))"

definition Referrers :: "Graph \<Rightarrow> int \<Rightarrow> int list outcome" where
  "Referrers g i = bind_ok (aget (RStart g) i) (\<lambda>lo. bind_ok (aget (RStart g) (i + 1)) (\<lambda>hi.
     aslice (RAdj g) lo hi))"

subsection \<open>Roots and the whole graph\<close>

definition in_RootSet :: "Graph \<Rightarrow> int \<Rightarrow> bool" where
  "in_RootSet g i \<longleftrightarrow> map_get (RootSet g) i = Some True"

definition add_root :: "u64 \<Rightarrow> Graph \<Rightarrow> Graph" where
  "add_root rid g =
     (let j = Lookup g rid
      in if j \<ge> 0 \<and> \<not> in_RootSet g j
         then g\<lparr>RootSet := map_set j True (RootSet g), Roots := Roots g @ [j]\<rparr> else g)"

definition collect_roots :: "Graph \<Rightarrow> Graph" where
  "collect_roots g =
     (let g' = fold add_root (RootIDs (M g)) (g\<lparr>RootSet := map_new\<rparr>)
      in g'\<lparr>Roots := sort (Roots g')\<rparr>)"

definition BuildGraph :: "Meta \<Rightarrow> u8 list option \<Rightarrow> bool \<Rightarrow> Graph outcome" where
  "BuildGraph m file withEdges =
     bind_ok (index_objects m file) (\<lambda>g0.
     let g1 = sort_index g0
     in if \<not> withEdges then Inr g1
        else bind_ok (read_edges g1 file) (\<lambda>(g2, src, dst).
             bind_ok (buildCSR (Graph_N g2) src dst) (\<lambda>(fs, fa).
             bind_ok (buildCSR (Graph_N g2) dst src) (\<lambda>(rs, ra).
             Inr (collect_roots (g2\<lparr>FStart := fs, FAdj := fa, RStart := rs, RAdj := ra\<rparr>))))))"

text \<open>\<open>readAt\<close>: the bytes at an offset, or nil when the file ends before.\<close>

definition readAt :: "u8 list \<Rightarrow> int \<Rightarrow> int \<Rightarrow> u8 list option" where
  "readAt file off n =
     (if 0 \<le> off \<and> (n = 0 \<or> off + n \<le> int (length file)) then Some (take (nat n) (drop (nat off) file)) else None)"


subsection \<open>Lookup finds the object\<close>

lemma search_loop_spec:
  assumes "\<And>a b. a \<le> b \<Longrightarrow> b < n \<Longrightarrow> f a \<Longrightarrow> f b"
    and "i \<le> j" and "j \<le> n" and "\<And>k. k < i \<Longrightarrow> \<not> f k" and "j < n \<Longrightarrow> f j"
  shows "search_loop f i j \<le> n \<and> (\<forall>k < search_loop f i j. \<not> f k) \<and>
    (search_loop f i j < n \<longrightarrow> f (search_loop f i j))"
  using assms
proof (induction f i j rule: search_loop.induct)
  case (1 f i j)
  define h where "h = (i + j) div 2"
  show ?case
  proof (cases "i < j")
    case False
    then have "search_loop f i j = i" by (simp add: search_loop.simps [of f i j])
    with False 1(4-) show ?thesis by simp
  next
    case True
    then have h: "i \<le> h" "h < j" by (simp_all add: h_def)
    show ?thesis
    proof (cases "f h")
      case fh: True
      then have step: "search_loop f i j = search_loop f i h"
        using True by (simp add: search_loop.simps [of f i j] h_def [symmetric] Let_def)
      from h 1(4-) fh show ?thesis
        unfolding step using True 1(3) by (intro 1(2) [OF True h_def]) simp_all
    next
      case fh: False
      then have step: "search_loop f i j = search_loop f (h + 1) j"
        using True by (simp add: search_loop.simps [of f i j] h_def [symmetric] Let_def)
      have "\<not> f k" if "k < h + 1" for k
        using that fh 1(3) [of k h] h 1(5) by auto
      with h fh 1(3-) show ?thesis
        unfolding step using True by (intro 1(1) [OF True h_def]) simp_all
    qed
  qed
qed

text \<open>The index is sorted and lists every node once.\<close>

definition indexed :: "Graph \<Rightarrow> bool" where
  "indexed g \<longleftrightarrow> sortedIDs g = map (\<lambda>p. IDs g ! nat p) (sortedIdx g) \<and> sorted (sortedIDs g) \<and>
     mset (sortedIdx g) = mset (map int [0..<Graph_N g])"

lemma Lookup_cases:
  assumes "indexed g"
  obtains k where "Lookup g oid = int k" and "k < Graph_N g" and "IDs g ! k = oid"
  | "Lookup g oid = -1" and "oid \<notin> set (IDs g)"
proof -
  let ?n = "length (sortedIDs g)"
  define r where "r = sort_Search ?n (\<lambda>i. sortedIDs g ! i \<ge> oid)"
  have srt: "sorted (sortedIDs g)" and ids: "sortedIDs g = map (\<lambda>p. IDs g ! nat p) (sortedIdx g)"
    using assms unfolding indexed_def by blast+
  have "set (sortedIdx g) = set (map int [0..<Graph_N g])"
    using assms unfolding indexed_def by (metis mset_eq_setD)
  then have perm: "set (sortedIdx g) = int ` {0..<Graph_N g}"
    by simp
  have mono: "sortedIDs g ! a \<ge> oid \<Longrightarrow> sortedIDs g ! b \<ge> oid" if "a \<le> b" "b < ?n" for a b
    using sorted_nth_mono [OF srt that] by (rule order_trans [rotated])
  have "r \<le> ?n \<and> (\<forall>k < r. \<not> sortedIDs g ! k \<ge> oid) \<and> (r < ?n \<longrightarrow> sortedIDs g ! r \<ge> oid)"
    unfolding r_def sort_Search_def by (rule search_loop_spec) (use mono in auto)
  then have below: "\<And>k. k < r \<Longrightarrow> sortedIDs g ! k < oid" and at: "r < ?n \<Longrightarrow> oid \<le> sortedIDs g ! r"
    by auto
  show thesis
  proof (cases "r < ?n \<and> sortedIDs g ! r = oid")
    case True
    then have "sortedIdx g ! r \<in> int ` {0..<Graph_N g}"
      using perm ids by (metis length_map nth_mem)
    then obtain k where k: "sortedIdx g ! r = int k" "k < Graph_N g" by auto
    then have "IDs g ! k = oid" using True ids by auto
    moreover have "Lookup g oid = int k" using True k by (simp add: Lookup_def r_def [symmetric] Let_def)
    ultimately show ?thesis using that(1) k(2) by blast
  next
    case False
    have "oid \<notin> set (sortedIDs g)"
    proof
      assume "oid \<in> set (sortedIDs g)"
      then obtain k where k: "k < ?n" "sortedIDs g ! k = oid" by (auto simp: in_set_conv_nth)
      then have "r \<le> k" using below by (metis not_le less_irrefl)
      then have "sortedIDs g ! r \<le> oid" and "r < ?n" using k sorted_nth_mono [OF srt] by (force, simp)
      with at False show False by auto
    qed
    moreover have "set (sortedIDs g) = set (IDs g)"
      unfolding ids using perm by (auto simp: Graph_N_def image_image in_set_conv_nth)
    moreover have "Lookup g oid = -1" using False by (auto simp: Lookup_def r_def [symmetric] Let_def)
    ultimately show ?thesis using that(2) by simp
  qed
qed

lemma Lookup_unique:
  assumes "indexed g" and "distinct (IDs g)" and "k < Graph_N g"
  shows "Lookup g (IDs g ! k) = int k"
  using assms by (cases rule: Lookup_cases [OF assms(1), of "IDs g ! k"])
    (auto simp: Graph_N_def nth_eq_iff_index_eq)

lemma Lookup_nonneg: "indexed g \<Longrightarrow> Lookup g oid \<ge> 0 \<longleftrightarrow> oid \<in> set (IDs g)"
  by (cases rule: Lookup_cases [of g oid]) (auto simp: Graph_N_def)

lemma Lookup_range: "indexed g \<Longrightarrow> Lookup g oid < int (Graph_N g)"
  by (cases rule: Lookup_cases [of g oid]) auto

lemma sort_index_indexed:
  assumes "Graph_N g \<le> 2 ^ 31"
  shows "indexed (sort_index g)"
proof -
  have eq: "map (\<lambda>i. int32 (int i)) [0..<Graph_N g] = map int [0..<Graph_N g]"
    using assms by (auto intro!: int32_id)
  show ?thesis
    unfolding indexed_def sort_index_def eq by (simp add: Let_def Graph_N_def)
qed


subsection \<open>Compressed adjacency lists the edges\<close>

text \<open>
  \<open>targets i es\<close> are the targets of the edges from \<open>i\<close>, in the order of the edge list, and
  \<open>below fs i\<close> is the number of edges from nodes before \<open>i\<close>.
\<close>

definition targets :: "nat \<Rightarrow> (nat \<times> nat) list \<Rightarrow> nat list" where
  "targets i es = map snd (filter (\<lambda>e. fst e = i) es)"

definition below :: "nat list \<Rightarrow> nat \<Rightarrow> nat" where
  "below fs i = length (filter (\<lambda>f. f < i) fs)"

lemma below_0 [simp]: "below fs 0 = 0"
  by (simp add: below_def)

lemma below_Suc: "below fs (Suc i) = below fs i + count_list fs i"
  by (induction fs) (auto simp: below_def)

lemma below_mono: "i \<le> j \<Longrightarrow> below fs i \<le> below fs j"
  by (induction fs) (auto simp: below_def)

lemma below_le: "below fs i \<le> length fs"
  by (simp add: below_def)

lemma below_all: "(\<And>f. f \<in> set fs \<Longrightarrow> f < n) \<Longrightarrow> below fs n = length fs"
  by (simp add: below_def)

lemma count_list_length: "count_list xs x \<le> length xs"
  by (induction xs) auto

lemma count_list_take: "count_list (take k xs) x \<le> count_list xs x"
  by (metis append_take_drop_id count_list_append le_add1)

lemma count_list_take_less: "k < length xs \<Longrightarrow> count_list (take k xs) (xs ! k) < count_list xs (xs ! k)"
  using count_list_take [of "Suc k" xs "xs ! k"] by (simp add: take_Suc_conv_app_nth)

lemma length_targets: "length fs = length ts \<Longrightarrow> length (targets i (zip fs ts)) = count_list fs i"
  by (induction fs ts rule: list_induct2) (auto simp: targets_def)

lemma map_upt_update: "f < n \<Longrightarrow> (map g [0..<n])[f := v] = map (g(f := v)) [0..<n]"
  by (rule nth_equalityI) auto

lemma int32_nat: "n < 2 ^ 31 \<Longrightarrow> int32 (int n) = int n"
  by (rule int32_id) (simp_all add: order_trans [of _ 0])

lemma count_phase:
  assumes "\<And>f. f \<in> set fs \<Longrightarrow> f < n" and "n < 2 ^ 31" and "length fs < 2 ^ 31"
  shows "for_each count_start (map int fs) (replicate (n + 1) 0) =
    Inr (map (\<lambda>i. if i = 0 then 0 else int (count_list fs (i - 1))) [0..<n + 1])"
  using assms
proof (induction fs rule: rev_induct)
  case Nil
  have "map (\<lambda>i. if i = 0 then 0 else int (count_list [] (i - 1))) [0..<n + 1] = map (\<lambda>i. 0) [0..<n + 1]"
    by (rule map_cong) simp_all
  then show ?case by (simp add: map_replicate_const del: upt_Suc)
next
  case (snoc f fs)
  have f: "f < n" using snoc.prems(1) by simp
  have "count_list fs f < 2 ^ 31"
    using count_list_length [of fs f] snoc.prems(3) by simp
  then have c: "int32 (int (count_list fs f) + 1) = int (count_list fs f) + 1"
    using count_list_length [of fs f] snoc.prems(3) int32_nat [of "Suc (count_list fs f)"]
    by (simp add: add.commute)
  have i: "int32 (int f + 1) = int (Suc f)"
    using f snoc.prems(2) int32_nat [of "Suc f"] by (simp add: add.commute)
  let ?g = "\<lambda>i. if i = 0 then 0 else int (count_list fs (i - 1))"
  have IH: "for_each count_start (map int fs) (replicate (n + 1) 0) = Inr (map ?g [0..<n + 1])"
    using snoc by simp
  have "count_start (int f) (map ?g [0..<n + 1]) = Inr ((map ?g [0..<n + 1])[Suc f := int (count_list fs f) + 1])"
    using f c aget_ok [of "Suc f" "map ?g [0..<n + 1]"] aset_ok [of "Suc f" "map ?g [0..<n + 1]"]
    unfolding count_start_def i by (simp del: upt_Suc of_nat_Suc)
  then have "for_each count_start (map int (fs @ [f])) (replicate (n + 1) 0) =
      Inr ((map ?g [0..<n + 1])[Suc f := int (count_list fs f) + 1])"
    unfolding map_append for_each_append IH by (simp del: upt_Suc)
  also have "(map ?g [0..<n + 1])[Suc f := int (count_list fs f) + 1] =
      map (\<lambda>i. if i = 0 then 0 else int (count_list (fs @ [f]) (i - 1))) [0..<n + 1]"
    using f by (subst map_upt_update) (auto intro!: map_cong simp del: upt_Suc)
  finally show ?case .
qed

lemma sum_phase:
  assumes "k \<le> n" and "length fs < 2 ^ 31"
  shows "for_each sum_start (map int [0..<k]) (map (\<lambda>i. if i = 0 then 0 else int (count_list fs (i - 1))) [0..<n + 1]) =
    Inr (map (\<lambda>i. if i \<le> k then int (below fs i) else int (count_list fs (i - 1))) [0..<n + 1])"
  using assms(1)
proof (induction k)
  case 0
  show ?case by (auto intro!: map_cong)
next
  case (Suc k)
  let ?g = "\<lambda>i. if i \<le> k then int (below fs i) else int (count_list fs (i - 1))"
  have "below fs (Suc k) < 2 ^ 31"
    using below_le [of fs "Suc k"] assms(2) by simp
  from int32_nat [OF this] have w: "int32 (int (count_list fs k) + int (below fs k)) = int (below fs (Suc k))"
    by (simp add: below_Suc add.commute)
  have step: "sum_start (int k) (map ?g [0..<n + 1]) =
      Inr ((map ?g [0..<n + 1])[Suc k := int (below fs (Suc k))])"
    using Suc.prems w by (simp add: sum_start_def del: upt_Suc)
  have "(map ?g [0..<n + 1])[Suc k := int (below fs (Suc k))] =
      map (\<lambda>i. if i \<le> Suc k then int (below fs i) else int (count_list fs (i - 1))) [0..<n + 1]"
    using Suc.prems by (subst map_upt_update) (auto intro!: map_cong simp: le_Suc_eq simp del: upt_Suc)
  with Suc step show ?case
    by (simp add: for_each_append)
qed

text \<open>After \<open>k\<close> edges, the block of every node holds the targets of its edges among them.\<close>

definition placed :: "nat list \<Rightarrow> nat list \<Rightarrow> nat \<Rightarrow> int list \<Rightarrow> bool" where
  "placed fs ts k adj \<longleftrightarrow> length adj = length ts \<and>
     (\<forall>f j. j < count_list (take k fs) f \<longrightarrow>
        adj ! (below fs f + j) = int (targets f (zip (take k fs) (take k ts)) ! j))"

lemma block_disjoint:
  assumes "f \<noteq> f'" and "j < count_list fs f" and "j' < count_list fs f'"
  shows "below fs f + j \<noteq> below fs f' + j'"
proof (cases f f' rule: linorder_cases)
  case less
  then have "below fs (Suc f) \<le> below fs f'" by (intro below_mono) simp
  with assms show ?thesis by (simp add: below_Suc)
next
  case greater
  then have "below fs (Suc f') \<le> below fs f" by (intro below_mono) simp
  with assms show ?thesis by (simp add: below_Suc)
qed (use assms in simp)

lemma placed_step:
  assumes "placed fs ts k adj" and "k < length fs" and "length fs = length ts"
  defines "f \<equiv> fs ! k"
  shows "placed fs ts (Suc k) (adj[below fs f + count_list (take k fs) f := int (ts ! k)])"
  unfolding placed_def
proof (intro conjI allI impI)
  let ?c = "count_list (take k fs) f"
  show "length (adj[below fs f + ?c := int (ts ! k)]) = length ts"
    using assms(1) by (simp add: placed_def)
  fix f' j assume j: "j < count_list (take (Suc k) fs) f'"
  have pos: "below fs f + ?c < length adj"
    using count_list_take_less [OF assms(2)] below_le [of fs "Suc f"] assms(1,3)
    by (simp add: f_def placed_def below_Suc)
  have tg: "targets f' (zip (take (Suc k) fs) (take (Suc k) ts)) =
      targets f' (zip (take k fs) (take k ts)) @ (if f = f' then [ts ! k] else [])"
    using assms(2,3) by (simp add: take_Suc_conv_app_nth targets_def f_def)
  have len: "length (targets f' (zip (take k fs) (take k ts))) = count_list (take k fs) f'"
    using assms(2,3) by (intro length_targets) simp
  show "adj[below fs f + ?c := int (ts ! k)] ! (below fs f' + j) =
      int (targets f' (zip (take (Suc k) fs) (take (Suc k) ts)) ! j)"
  proof (cases "f = f' \<and> j = ?c")
    case True
    then show ?thesis using pos len tg by (simp add: nth_append)
  next
    case False
    then have j': "j < count_list (take k fs) f'"
      using j assms(2) by (auto simp: take_Suc_conv_app_nth f_def split: if_splits)
    have "below fs f' + j \<noteq> below fs f + ?c"
    proof (cases "f = f'")
      case f': False
      have "j < count_list fs f'" using j' count_list_take [of k fs f'] by simp
      with f' count_list_take_less [OF assms(2)] show ?thesis
        unfolding f_def by (metis block_disjoint)
    qed (use False in simp)
    with j' assms(1) len tg show ?thesis
      by (simp add: placed_def nth_append)
  qed
qed

lemma place_phase:
  assumes fs: "\<And>f. f \<in> set fs \<Longrightarrow> f < n" and len: "length fs = length ts" and small: "length fs < 2 ^ 31"
    and "k \<le> length fs"
  shows "\<exists>adj. for_each (place_edge (map (\<lambda>i. int (below fs i)) [0..<n + 1]) (map int fs) (map int ts))
      (map int [0..<k]) (replicate (length ts) 0, replicate n 0) =
    Inr (adj, map (\<lambda>f. int (count_list (take k fs) f)) [0..<n]) \<and> placed fs ts k adj"
  using assms(4)
proof (induction k)
  case 0
  have "replicate n (0::int) = map (\<lambda>f. 0) [0..<n]" by (auto intro: nth_equalityI)
  then show ?case by (simp add: placed_def)
next
  case (Suc k)
  define f where "f = fs ! k"
  define c where "c = count_list (take k fs) f"
  obtain adj where IH: "for_each (place_edge (map (\<lambda>i. int (below fs i)) [0..<n + 1]) (map int fs) (map int ts))
      (map int [0..<k]) (replicate (length ts) 0, replicate n 0) =
      Inr (adj, map (\<lambda>f. int (count_list (take k fs) f)) [0..<n])" and adj: "placed fs ts k adj"
    using Suc by force
  have k: "k < length fs" "k < length ts" using Suc.prems len by simp_all
  have f: "f < n" using fs k by (simp add: f_def)
  have pos: "below fs f + c < length fs"
    using count_list_take_less [OF k(1)] below_le [of fs "Suc f"] by (simp add: f_def c_def below_Suc)
  have w: "int32 (int (below fs f) + int c) = int (below fs f + c)" "int32 (int c + 1) = int (Suc c)"
    using pos small int32_nat [of "below fs f + c"] int32_nat [of "Suc c"]
    by (simp_all add: add.commute)
  have "place_edge (map (\<lambda>i. int (below fs i)) [0..<n + 1]) (map int fs) (map int ts) (int k)
      (adj, map (\<lambda>f. int (count_list (take k fs) f)) [0..<n]) =
    Inr (adj[below fs f + c := int (ts ! k)], (map (\<lambda>f. int (count_list (take k fs) f)) [0..<n])[f := int (Suc c)])"
    using k f pos adj len w
    by (simp add: place_edge_def f_def [symmetric] c_def [symmetric] placed_def aget_ok [of f] aset_ok [of f]
        aset_ok [of "below fs f + c"] del: upt_Suc of_nat_add of_nat_Suc)
  moreover have "(map (\<lambda>f. int (count_list (take k fs) f)) [0..<n])[f := int (Suc c)] =
      map (\<lambda>f. int (count_list (take (Suc k) fs) f)) [0..<n]"
    using f k by (subst map_upt_update) (auto simp: take_Suc_conv_app_nth f_def c_def)
  ultimately show ?case
    using IH placed_step [OF adj k(1) len] by (simp add: for_each_append f_def c_def)
qed

theorem buildCSR_correct:
  assumes fs: "\<And>f. f \<in> set fs \<Longrightarrow> f < n" and len: "length fs = length ts"
    and n: "n < 2 ^ 31" and small: "length fs < 2 ^ 31"
  obtains start adj where "buildCSR n (map int fs) (map int ts) = Inr (start, adj)"
    and "length start = n + 1"
    and "\<And>i. i < n \<Longrightarrow> bind_ok (aget start (int i)) (\<lambda>lo. bind_ok (aget start (int i + 1)) (\<lambda>hi.
      aslice adj lo hi)) = Inr (map int (targets i (zip fs ts)))"
proof -
  let ?start = "map (\<lambda>i. int (below fs i)) [0..<n + 1]"
  have sum: "map (\<lambda>i. if i \<le> n then int (below fs i) else int (count_list fs (i - 1))) [0..<n + 1] = ?start"
    by (rule map_cong) auto
  obtain adj where adj: "for_each (place_edge ?start (map int fs) (map int ts))
      (map int [0..<length fs]) (replicate (length ts) 0, replicate n 0) =
      Inr (adj, map (\<lambda>f. int (count_list fs f)) [0..<n])" "placed fs ts (length fs) adj"
    using place_phase [OF fs len small order_refl] by auto
  have csr: "buildCSR n (map int fs) (map int ts) = Inr (?start, adj)"
    using count_phase [OF fs n small] sum_phase [OF order_refl small, of n, unfolded sum] adj(1)
    by (simp add: buildCSR_def del: upt_Suc)
  have slices: "bind_ok (aget ?start (int i)) (\<lambda>lo. bind_ok (aget ?start (int i + 1)) (\<lambda>hi. aslice adj lo hi)) =
      Inr (map int (targets i (zip fs ts)))" if i: "i < n" for i
  proof -
    have hi: "below fs (Suc i) \<le> length adj"
      using below_le [of fs "Suc i"] adj(2) len by (simp add: placed_def)
    have "take (count_list fs i) (drop (below fs i) adj) = map int (targets i (zip fs ts))"
    proof (rule nth_equalityI)
      show "length (take (count_list fs i) (drop (below fs i) adj)) = length (map int (targets i (zip fs ts)))"
        using hi len by (simp add: length_targets below_Suc)
    next
      fix j assume "j < length (take (count_list fs i) (drop (below fs i) adj))"
      then show "take (count_list fs i) (drop (below fs i) adj) ! j = map int (targets i (zip fs ts)) ! j"
        using adj(2) len below_le [of fs i] by (simp add: placed_def length_targets)
    qed
    with i hi show ?thesis
      using aget_ok [of "Suc i" ?start] aget_ok [of i ?start]
      by (simp add: aslice_def below_Suc nat_add_distrib del: upt_Suc)
  qed
  show ?thesis by (rule that [OF csr _ slices]) simp_all
qed

end
