(* ===== verification/Hprof_Objects.thy ===== *)
theory Hprof_Objects
  imports Hprof_Graph
begin

text \<open>
  \<open>BuildGraph\<close> on well-formed dumps: every object record becomes one node, in file order, with the
  offset at which it can be read again, and the adjacency lists are exactly the references that the
  records contain.

  Both passes over the file are loops whose bodies meet the contract \<open>record_codec\<close>; the locale
  \<open>heap_codec\<close> lifts a body for sub-records to the loop over the top-level records.
\<close>

subsection \<open>Loops over the heap segments\<close>

text \<open>The items of a list with the offsets at which they start.\<close>

primrec place :: "('x \<Rightarrow> u8 list) \<Rightarrow> int \<Rightarrow> 'x list \<Rightarrow> (int \<times> 'x) list" where
  "place enc p [] = []"
| "place enc p (x # xs) = (p, x) # place enc (p + int (length (enc x))) xs"

lemma run_items_place: "run_items enc step p xs s = fold (\<lambda>(p, x). step p x) (place enc p xs) s"
  by (induction xs arbitrary: p s) simp_all

lemma place_snd [simp]: "map snd (place enc p xs) = xs"
  by (induction xs arbitrary: p) simp_all

lemma place_drop:
  "(q, x) \<in> set (place enc p xs) \<Longrightarrow> 0 \<le> p \<Longrightarrow>
   \<exists>a b. concat (map enc xs) = a @ enc x @ b \<and> q = p + int (length a)"
proof (induction xs arbitrary: p)
  case (Cons y ys)
  show ?case
  proof (cases "(q, x) = (p, y)")
    case True
    then show ?thesis by (intro exI [of _ "[]"] exI [of _ "concat (map enc ys)"]) simp
  next
    case False
    then have "(q, x) \<in> set (place enc (p + int (length (enc y))) ys)" using Cons.prems by auto
    from Cons.IH [OF this] Cons.prems(2) obtain a b
      where "concat (map enc ys) = a @ enc x @ b" "q = p + int (length (enc y)) + int (length a)" by auto
    then show ?thesis by (intro exI [of _ "enc y @ a"] exI [of _ b]) simp
  qed
qed simp

fun record_subs :: "int \<times> hprof_record \<Rightarrow> (int \<times> subrec) list" where
  "record_subs (p, RHeap t seg subs) = place enc_sub (p + 9) subs"
| "record_subs (p, r) = []"

text \<open>All sub-records of a dump, with their offsets.\<close>

definition dump_subs :: "int \<Rightarrow> hprof_record list \<Rightarrow> (int \<times> subrec) list" where
  "dump_subs p rs = concat (map record_subs (place enc_record p rs))"

definition heap_step :: "(int \<Rightarrow> subrec \<Rightarrow> 's \<Rightarrow> 's) \<Rightarrow> int \<Rightarrow> hprof_record \<Rightarrow> 's \<Rightarrow> 's" where
  "heap_step step p r s = fold (\<lambda>(p, x). step p x) (record_subs (p, r)) s"

lemma run_heap_step: "run_items enc_record (heap_step step) p rs s = fold (\<lambda>(p, x). step p x) (dump_subs p rs) s"
  by (induction rs arbitrary: p s) (simp_all add: dump_subs_def heap_step_def)

locale heap_codec = record_codec body enc_sub sub_ok step inv
  for body :: "'s \<Rightarrow> 's rd" and step :: "int \<Rightarrow> subrec \<Rightarrow> 's \<Rightarrow> 's" and inv :: "'s \<Rightarrow> bool"
begin

lemma heap_step_inv: "inv s \<Longrightarrow> rec_ok r \<Longrightarrow> inv (heap_step step p r s)"
  using run_items_inv by (cases r) (auto simp: heap_step_def rec_ok_def simp flip: run_items_place)

lemma consumes_heap_record: "consumes 1 (heap_record body s)"
  unfolding heap_record_def
  by (intro consumes_rbind_first consumes_u1 rd_consumes consumes_while_pos)

lemma heap_record_enc:
  assumes inv: "inv s" and ok: "rec_ok r"
  shows "heap_record body s \<lparr>input = enc_record r @ rest, pos = p\<rparr> =
    Inr (heap_step step p r s, \<lparr>input = rest, pos = p + int (length (enc_record r))\<rparr>)"
proof -
  have len: "uint (word_of_nat (length (rec_body r)) :: u32) = int (length (rec_body r))"
    using ok by (simp add: rec_ok_def)
  have dispatch: "heap_record body s \<lparr>input = enc_record r @ rest, pos = p\<rparr> =
      (if rec_tag r \<noteq> tagHeapDump \<and> rec_tag r \<noteq> tagHeapSeg
       then rbind (reader_skip (int (length (rec_body r)))) (\<lambda>_. rret s)
       else rbind rpos (\<lambda>p. while_pos (p + int (length (rec_body r))) body s))
        \<lparr>input = rec_body r @ rest, pos = p + 9\<rparr>"
    unfolding heap_record_def enc_record_def append_assoc rec_head_read len ..
  have size: "length (enc_record r) = 9 + length (rec_body r)"
    by (simp add: enc_record_def)
  have skipped: ?thesis if "rec_tag r \<noteq> tagHeapDump \<and> rec_tag r \<noteq> tagHeapSeg"
  proof -
    have "record_subs (p, r) = []" using that by (cases r) (auto split: if_splits)
    with that show ?thesis
      unfolding dispatch size by (simp add: reading heap_step_def)
  qed
  show ?thesis
  proof (cases r)
    case (RHeap t seg subs)
    then have "list_all sub_ok subs" using ok by (simp add: rec_ok_def)
    from while_pos_enc [OF inv this refl, of "p + 9" rest] RHeap show ?thesis
      unfolding dispatch size
      by (simp add: rpos_def reading run_items_place heap_step_def add.assoc del: length_concat)
  qed (use skipped ok in \<open>auto simp: rec_ok_def tag_defs\<close>)
qed

end

sublocale heap_codec \<subseteq> heap: record_codec "heap_record body" enc_record rec_ok "heap_step step" inv
  by unfold_locales (rule consumes_heap_record enc_record_nonempty heap_step_inv heap_record_enc, assumption?, assumption?)+

context heap_codec
begin

lemma read_dump:
  assumes "dump_ok hdr rs" and "inv s"
  shows "bind_ok (openDump (Some (enc_dump hdr ts rs))) (\<lambda>(d, fsize, ts). while_pos fsize (heap_record body) s d) =
    Inr (fold (\<lambda>(p, x). step p x) (dump_subs (int (length (enc_header hdr ts))) rs) s,
      \<lparr>input = [], pos = int (length (enc_dump hdr ts rs))\<rparr>)"
proof -
  have "header_ok hdr" "list_all rec_ok rs"
    using assms by (simp_all add: dump_ok_def)
  from openDump_enc [OF this(1), of ts "concat (map enc_record rs)"] heap.while_pos_enc [OF assms(2) this(2) refl, where rest = "[]"]
  show ?thesis
    by (simp add: enc_dump_def run_heap_step del: length_concat)
qed

end

subsection \<open>Pass A\<close>

fun is_object :: "subrec \<Rightarrow> bool" where
  "is_object (SRoot tag oid extra) = False"
| "is_object (SHeapInfo h n) = False"
| "is_object (SThread oid serial stack) = False"
| "is_object _ = True"

fun index_step :: "int \<Rightarrow> subrec \<Rightarrow> Graph \<Rightarrow> Graph" where
  "index_step p (SClass c) g =
     (let (ci, m) = class_step c (M g) in Graph_add (ci_id ci) (ci_id ci) 0 kindClass (p + 1) (g\<lparr>M := m\<rparr>))"
| "index_step p (SInstance oid tr cid body) g =
     Graph_add oid cid (int32 (16 + int (length body))) kindInstance (p + 1) g"
| "index_step p (SObjArray oid tr cid es) g =
     Graph_add oid cid (int32 (16 + int (length es) * 8)) kindObjArray (p + 1) g"
| "index_step p (SPrimArray oid tr t vs) g =
     Graph_add oid (ucast t) (int32 (16 + int (length vs) * typeSize ! unat t)) kindPrimArray (p + 1) g"
| "index_step p _ g = g"

lemma consumes_index_sub: "consumes 1 (index_sub g)"
  unfolding index_sub_def by (intro consumes_rbind_first consumes_u1 rd_consumes)

lemma index_sub_enc:
  assumes "sub_ok x"
  shows "index_sub g \<lparr>input = enc_sub x @ rest, pos = p\<rparr> =
    Inr (index_step p x g, \<lparr>input = rest, pos = p + int (length (enc_sub x))\<rparr>)"
proof (cases x)
  case (SRoot tag oid extra)
  then show ?thesis
    using assms skipRoot_enc [of tag extra] by (simp add: index_sub_def enc_sub_def reading)
next
  case (SHeapInfo h n)
  then show ?thesis
    by (simp add: index_sub_def enc_sub_def skipRoot_def reading tag_defs)
next
  case (SThread oid serial stack)
  then show ?thesis
    by (simp add: index_sub_def enc_sub_def skipRoot_def reading)
next
  case (SClass c)
  then show ?thesis
    using assms readClassDump_enc [of c]
    by (simp add: index_sub_def enc_sub_def reading skipRoot_object rpos_def tag_defs split: prod.splits)
next
  case (SPrimArray oid tr t vs)
  then show ?thesis
    using assms length_prim_body [of t vs]
    by (simp add: index_sub_def enc_sub_def reading skipRoot_object rpos_def type_size_valid tag_defs)
qed (use assms in \<open>simp_all add: index_sub_def enc_sub_def reading skipRoot_object rpos_def tag_defs\<close>)

interpretation pass_a: heap_codec index_sub index_step "\<lambda>g. True"
  by unfold_locales (rule TrueI consumes_index_sub enc_sub_nonempty index_sub_enc, assumption?)+


text \<open>The node that an object record becomes.\<close>

fun obj_id :: "subrec \<Rightarrow> u64" where
  "obj_id (SClass c) = cd_id c"
| "obj_id (SInstance oid tr cid body) = oid"
| "obj_id (SObjArray oid tr cid es) = oid"
| "obj_id (SPrimArray oid tr t vs) = oid"
| "obj_id _ = 0"

fun obj_class :: "subrec \<Rightarrow> u64" where
  "obj_class (SClass c) = cd_id c"
| "obj_class (SInstance oid tr cid body) = cid"
| "obj_class (SObjArray oid tr cid es) = cid"
| "obj_class (SPrimArray oid tr t vs) = ucast t"
| "obj_class _ = 0"

fun obj_size :: "subrec \<Rightarrow> int" where
  "obj_size (SInstance oid tr cid body) = 16 + int (length body)"
| "obj_size (SObjArray oid tr cid es) = 16 + int (length es) * 8"
| "obj_size (SPrimArray oid tr t vs) = 16 + int (length vs) * typeSize ! unat t"
| "obj_size _ = 0"

fun obj_kind :: "subrec \<Rightarrow> kind" where
  "obj_kind (SInstance oid tr cid body) = kindInstance"
| "obj_kind (SObjArray oid tr cid es) = kindObjArray"
| "obj_kind (SPrimArray oid tr t vs) = kindPrimArray"
| "obj_kind _ = kindClass"

fun class_meta :: "subrec \<Rightarrow> Meta \<Rightarrow> Meta" where
  "class_meta (SClass c) m = snd (class_step c m)"
| "class_meta _ m = m"

definition keyed_classes :: "Meta \<Rightarrow> bool" where
  "keyed_classes m \<longleftrightarrow> keyed_by ci_id (Classes m)"

lemma class_step_id: "keyed_classes m \<Longrightarrow> ci_id (fst (class_step c m)) = cd_id c"
  by (auto simp: class_step_def record_class_def keyed_classes_def Let_def new_class_def
      dest: keyed_by_get split: option.splits)

lemma keyed_class_meta: "keyed_classes m \<Longrightarrow> keyed_classes (class_meta x m)"
proof (cases x)
  case (SClass c)
  assume "keyed_classes m"
  with class_step_id [OF this, of c] SClass show ?thesis
    by (auto simp: keyed_classes_def class_step_def record_class_def Let_def intro!: keyed_by_set)
qed simp_all

lemma class_meta_lay [simp]: "lay (Classes (class_meta x m)) = lay (Classes m)"
proof (cases x)
  case (SClass c)
  then show ?thesis
    by (auto simp: fun_eq_iff lay_def class_step_def record_class_def Let_def lookup_update new_class_def
        split: option.splits)
qed simp_all

lemma class_meta_names [simp]: "className (class_meta x m) = className m"
proof (cases x)
  case (SClass c)
  then show ?thesis
    by (auto simp: fun_eq_iff className_def class_step_def record_class_def Let_def lookup_update new_class_def
        split: option.splits)
qed simp_all

lemma class_meta_roots [simp]: "RootIDs (class_meta x m) = RootIDs m"
  by (cases x) (simp_all add: class_step_def record_class_def Let_def)

definition dump_objects :: "(int \<times> subrec) list \<Rightarrow> (int \<times> subrec) list" where
  "dump_objects ps = filter (\<lambda>(p, x). is_object x) ps"

definition add_object :: "int \<times> subrec \<Rightarrow> Graph \<Rightarrow> Graph" where
  "add_object = (\<lambda>(p, x). Graph_add (obj_id x) (obj_class x) (int32 (obj_size x)) (obj_kind x) (p + 1))"

lemma int32_0 [simp]: "int32 0 = 0"
  by (simp add: int32_def)

lemma index_step_eq:
  assumes "keyed_classes (M g)"
  shows "index_step p x g =
    (if is_object x then add_object (p, x) (g\<lparr>M := class_meta x (M g)\<rparr>) else g)"
proof (cases x)
  case (SClass c)
  then show ?thesis
    using class_step_id [OF assms, of c]
    by (simp add: add_object_def split_beta)
qed (simp_all add: add_object_def Graph_add_def)

lemma class_meta_other: "\<not> is_object x \<Longrightarrow> class_meta x m = m"
  by (cases x) simp_all

text \<open>Pass A appends one node for each object and re-reads the class dumps.\<close>

lemma index_fold:
  assumes "keyed_classes (M g)"
  shows "fold (\<lambda>(p, x). index_step p x) ps g =
    g\<lparr>M := fold (\<lambda>(p, x). class_meta x) ps (M g),
      IDs := IDs g @ map (\<lambda>(p, x). obj_id x) (dump_objects ps),
      ClassOf := ClassOf g @ map (\<lambda>(p, x). obj_class x) (dump_objects ps),
      Size := Size g @ map (\<lambda>(p, x). int32 (obj_size x)) (dump_objects ps),
      Kind := Kind g @ map (\<lambda>(p, x). obj_kind x) (dump_objects ps),
      Offset := Offset g @ map (\<lambda>(p, x). p + 1) (dump_objects ps)\<rparr>"
  using assms
proof (induction ps arbitrary: g)
  case Nil
  then show ?case by (simp add: dump_objects_def)
next
  case (Cons px ps)
  obtain p x where px: "px = (p, x)" by fastforce
  show ?case
  proof (cases "is_object x")
    case True
    have "keyed_classes (M (add_object (p, x) (g\<lparr>M := class_meta x (M g)\<rparr>)))"
      using Cons.prems by (simp add: add_object_def Graph_add_def keyed_class_meta)
    from Cons.IH [OF this] True Cons.prems show ?thesis
      by (simp add: px index_step_eq add_object_def Graph_add_def dump_objects_def)
  next
    case False
    with Cons show ?thesis
      by (simp add: px index_step_eq dump_objects_def class_meta_other)
  qed
qed


subsection \<open>Pass B\<close>

text \<open>The references of an instance body: the reference definition reads the fields one by one.\<close>

fun layout_refs :: "fieldDesc list \<Rightarrow> u8 list \<Rightarrow> u64 list" where
  "layout_refs [] body = []"
| "layout_refs (f # fs) body =
     (let w = nat (typeSize ! unat (f_typ f))
      in if w > length body then []
         else (if f_typ f = 2 then [be_word (take w body)] else []) @ layout_refs fs (drop w body))"

definition typed_field :: "fieldDesc \<Rightarrow> bool" where
  "typed_field f \<longleftrightarrow> valid_type (f_typ f)"

lemma typed_field_size:
  assumes "typed_field f"
  obtains w where "type_size (f_typ f) = Inr (int w)" and "nat (typeSize ! unat (f_typ f)) = w" and "f_typ f = 2 \<Longrightarrow> w = 8"
  using assms unfolding typed_field_def
  by (cases rule: valid_type_cases) (auto simp: type_size_def aget_def typeSize_def)

lemma instance_refs_eq:
  "list_all typed_field fs \<Longrightarrow> off \<le> length body \<Longrightarrow>
   instance_refs fs body (int off) = Inr (layout_refs fs (drop off body))"
proof (induction fs arbitrary: off)
  case (Cons f fs)
  from Cons.prems obtain w where w: "type_size (f_typ f) = Inr (int w)" "nat (typeSize ! unat (f_typ f)) = w"
      "f_typ f = 2 \<Longrightarrow> w = 8"
    by (auto elim: typed_field_size)
  show ?case
  proof (cases "off + w > length body")
    case True
    then have "w > length (drop off body)" using Cons.prems by simp
    with True w(1,2) show ?thesis by simp
  next
    case False
    then have "instance_refs fs body (int (off + w)) = Inr (layout_refs fs (drop (off + w) body))"
      using Cons by (intro Cons.IH) simp_all
    then have "instance_refs fs body (int off + int w) = Inr (layout_refs fs (drop w (drop off body)))"
      by (simp add: add.commute)
    with False w show ?thesis by simp
  qed
qed simp

text \<open>The object ids that a record refers to, with the field layouts of its class.\<close>

fun obj_refs :: "(u64 \<Rightarrow> fieldDesc list) \<Rightarrow> subrec \<Rightarrow> u64 list" where
  "obj_refs L (SClass c) = object_statics (map snd (cd_statics c))"
| "obj_refs L (SInstance oid tr cid body) = layout_refs (L cid) body"
| "obj_refs L (SObjArray oid tr cid es) = es"
| "obj_refs L _ = []"

definition obj_edges :: "Graph \<Rightarrow> (u64 \<Rightarrow> fieldDesc list) \<Rightarrow> subrec \<Rightarrow> (int \<times> int) list" where
  "obj_edges g L x = map (\<lambda>t. (Lookup g (obj_id x), Lookup g t))
     (filter (\<lambda>t. t \<noteq> 0 \<and> Lookup g t \<ge> 0) (obj_refs L x))"

definition edge_step :: "int \<Rightarrow> subrec \<Rightarrow> edge_state \<Rightarrow> edge_state" where
  "edge_step p x = (\<lambda>(g, src, dst).
     (g\<lparr>M := class_meta x (M g)\<rparr>,
      src @ map fst (obj_edges g (lay (Classes (M g))) x),
      dst @ map snd (obj_edges g (lay (Classes (M g))) x)))"

definition edge_inv :: "edge_state \<Rightarrow> bool" where
  "edge_inv = (\<lambda>(g, src, dst). keyed_classes (M g) \<and> fields_all typed_field (Classes (M g)))"

lemma fold_emit:
  "fold (emit me) ts (g, src, dst) =
   (g, src @ map (\<lambda>t. me) (filter (\<lambda>t. t \<noteq> 0 \<and> Lookup g t \<ge> 0) ts),
       dst @ map (Lookup g) (filter (\<lambda>t. t \<noteq> 0 \<and> Lookup g t \<ge> 0) ts))"
  by (induction ts arbitrary: src dst) (simp_all add: emit_def Let_def)

lemma Lookup_M [simp]: "Lookup (g\<lparr>M := m\<rparr>) = Lookup g"
  by (simp add: fun_eq_iff Lookup_def Let_def)

lemma fields_all_class_meta:
  assumes "fields_all typed_field (Classes m)" and "sub_ok x"
  shows "fields_all typed_field (Classes (class_meta x m))"
proof (cases x)
  case (SClass c)
  let ?old = "case map_get (Classes m) (cd_id c) of None \<Rightarrow> new_class (cd_id c) | Some ci \<Rightarrow> ci"
  have old: "list_all typed_field (ci_fields ?old)" "\<And>l. ci_layout ?old = Some l \<Longrightarrow> list_all typed_field l"
    using assms(1) by (auto simp: fields_all_def new_class_def split: option.splits)
  have "list_all typed_field (map (\<lambda>(n, t). \<lparr>f_name = map_str (Strings m) n, f_typ = t\<rparr>) (cd_fields c))"
    using assms(2) SClass by (auto simp: class_ok_def list_all_iff typed_field_def)
  with old assms(1) SClass show ?thesis
    by (auto simp: class_step_def record_class_def Let_def intro!: fields_all_set)
qed (use assms in simp_all)

lemma edge_step_inv: "edge_inv s \<Longrightarrow> sub_ok x \<Longrightarrow> edge_inv (edge_step p x s)"
  by (auto simp: edge_inv_def edge_step_def keyed_class_meta fields_all_class_meta)

lemma consumes_edge_sub: "consumes 1 (edge_sub s)"
proof -
  obtain g src dst where s: "s = (g, src, dst)" by (metis prod_cases3)
  have opt: "consumes 0 a \<Longrightarrow> (\<And>y. consumes 0 (b y)) \<Longrightarrow> consumes 0 (case z of None \<Rightarrow> a | Some y \<Rightarrow> b y)"
    for a b and z :: "classInfo option"
    by (cases z) simp_all
  show ?thesis
    unfolding edge_sub_def s prod.case Let_def by (intro consumes_rbind_first consumes_u1 rd_consumes opt)
qed

lemma array_refs_enc: "array_refs (length es) (concat (map enc_u8 es)) = es"
proof (rule nth_equalityI)
  fix i assume "i < length (array_refs (length es) (concat (map enc_u8 es)))"
  then have i: "i < length es" by (simp add: array_refs_def)
  have split: "concat (map enc_u8 es) = concat (map enc_u8 (take i es)) @ enc_u8 (es ! i) @ concat (map enc_u8 (drop (Suc i) es))"
    using i by (metis append.assoc concat_append concat.simps(2) id_take_nth_drop list.simps(9) map_append)
  have "length (concat (map enc_u8 (take i es))) = i * 8" using i by simp
  then have "take 8 (drop (i * 8) (concat (map enc_u8 es))) = enc_u8 (es ! i)"
    unfolding split by simp
  then show "array_refs (length es) (concat (map enc_u8 es)) ! i = es ! i"
    using i by (simp add: array_refs_def)
qed (simp add: array_refs_def)


lemma edge_sub_enc:
  assumes inv: "edge_inv s" and ok: "sub_ok x"
  shows "edge_sub s \<lparr>input = enc_sub x @ rest, pos = p\<rparr> =
    Inr (edge_step p x s, \<lparr>input = rest, pos = p + int (length (enc_sub x))\<rparr>)"
proof -
  obtain g src dst where s: "s = (g, src, dst)" by (metis prod_cases3)
  have keyed: "keyed_classes (M g)" and typed: "fields_all typed_field (Classes (M g))"
    using inv by (simp_all add: s edge_inv_def)
  note defs = s edge_sub_def edge_step_def enc_sub_def obj_edges_def
  show ?thesis
  proof (cases x)
    case (SRoot tag oid extra)
    then show ?thesis
      using ok skipRoot_enc [of tag extra] by (simp add: defs reading)
  next
    case (SHeapInfo h n)
    then show ?thesis
      by (simp add: defs skipRoot_def reading tag_defs)
  next
    case (SThread oid serial stack)
    then show ?thesis
      by (simp add: defs skipRoot_def reading)
  next
    case (SClass c)
    have "ci_statics (fst (class_step c (M g))) = object_statics (map snd (cd_statics c))"
      by (simp add: class_step_def record_class_def Let_def)
    with SClass class_step_id [OF keyed, of c] ok readClassDump_enc [of c] show ?thesis
      by (simp add: defs reading skipRoot_object tag_defs split_beta Let_def fold_emit comp_def)
  next
    case (SInstance oid tr cid body)
    have "instance_refs (lay (Classes (M g)) cid) body 0 = Inr (layout_refs (lay (Classes (M g)) cid) body)"
      using instance_refs_eq [OF fields_all_lay [OF typed], of 0 body cid] by simp
    then show ?thesis
      using SInstance ok
      by (auto simp: defs reading skipRoot_object tag_defs Let_def fold_emit comp_def lay_def
          split: option.splits)
  next
    case (SObjArray oid tr cid es)
    then show ?thesis
      using ok array_refs_enc [of es]
      by (simp add: defs reading skipRoot_object tag_defs fold_emit comp_def)
  next
    case (SPrimArray oid tr t vs)
    then show ?thesis
      using ok length_prim_body [of t vs]
      by (simp add: defs reading skipRoot_object type_size_valid tag_defs)
  qed
qed

interpretation pass_b: heap_codec edge_sub edge_step edge_inv
  by unfold_locales
    (rule consumes_edge_sub enc_sub_nonempty edge_step_inv edge_sub_enc, assumption?, assumption?)+

lemma obj_edges_M [simp]: "obj_edges (g\<lparr>M := m\<rparr>) = obj_edges g"
  by (simp add: fun_eq_iff obj_edges_def)

text \<open>Pass B collects the references of all records, in file order.\<close>

lemma edge_fold:
  "fold (\<lambda>(p, x). edge_step p x) ps (g, src, dst) =
   (g\<lparr>M := fold (\<lambda>(p, x). class_meta x) ps (M g)\<rparr>,
    src @ map fst (concat (map (\<lambda>(p, x). obj_edges g (lay (Classes (M g))) x) ps)),
    dst @ map snd (concat (map (\<lambda>(p, x). obj_edges g (lay (Classes (M g))) x) ps)))"
proof (induction ps arbitrary: g src dst)
  case (Cons px ps)
  obtain p x where px: "px = (p, x)" by fastforce
  have "edge_step p x (g, src, dst) = (g\<lparr>M := class_meta x (M g)\<rparr>,
      src @ map fst (obj_edges g (lay (Classes (M g))) x), dst @ map snd (obj_edges g (lay (Classes (M g))) x))"
    by (simp add: edge_step_def)
  then show ?case
    by (simp add: px Cons)
qed simp

subsection \<open>The metadata of a dump\<close>

definition meta_inv :: "Meta \<Rightarrow> bool" where
  "meta_inv m \<longleftrightarrow> keyed_classes m \<and> fields_all typed_field (Classes m)"

definition has_class :: "u64 \<Rightarrow> Meta \<Rightarrow> bool" where
  "has_class cid m \<longleftrightarrow> map_get (Classes m) cid \<noteq> None"

lemma sub_step_Classes: "Classes (sub_step x m) = Classes (class_meta x m)"
  by (cases x) (simp_all add: count_root_def)

lemma class_meta_Classes: "Classes m = Classes m' \<Longrightarrow> keyed_classes m = keyed_classes m'"
  by (simp add: keyed_classes_def)

lemma meta_inv_sub: "meta_inv m \<Longrightarrow> sub_ok x \<Longrightarrow> meta_inv (sub_step x m)"
  using keyed_class_meta [of m x] fields_all_class_meta [of m x]
  by (simp add: meta_inv_def keyed_classes_def sub_step_Classes)

lemma meta_inv_subs: "meta_inv m \<Longrightarrow> list_all sub_ok xs \<Longrightarrow> meta_inv (fold sub_step xs m)"
  by (induction xs arbitrary: m) (simp_all add: meta_inv_sub)

lemma meta_inv_name_class:
  assumes "meta_inv m"
  shows "meta_inv (m\<lparr>BySer := b, Classes := name_class cid n (Classes m)\<rparr>)"
  using assms
  by (auto simp: meta_inv_def keyed_classes_def name_class_def new_class_def fields_all_def lookup_update
      dest: keyed_by_get intro!: keyed_by_set split: option.splits)

lemma meta_inv_record: "meta_inv m \<Longrightarrow> rec_ok r \<Longrightarrow> meta_inv (record_step r m)"
proof (cases r)
  case (RHeap t seg subs)
  assume "meta_inv m" "rec_ok r"
  with RHeap meta_inv_subs show ?thesis by (simp add: rec_ok_def)
qed (simp_all add: Let_def meta_inv_name_class, simp_all add: meta_inv_def keyed_classes_def)

lemma meta_inv_records: "meta_inv m \<Longrightarrow> list_all rec_ok rs \<Longrightarrow> meta_inv (fold record_step rs m)"
  by (induction rs arbitrary: m) (simp_all add: meta_inv_record)

lemma meta_inv_new: "meta_inv (new_meta path n)"
  by (simp add: meta_inv_def keyed_classes_def fields_all_def new_meta_def)

lemma has_class_meta: "has_class cid m \<Longrightarrow> has_class cid (class_meta x m)"
  by (cases x) (auto simp: has_class_def class_step_def record_class_def Let_def lookup_update)

lemma has_class_self: "has_class (cd_id c) (class_meta (SClass c) m)"
  by (simp add: has_class_def class_step_def record_class_def Let_def lookup_update)

lemma has_class_sub: "has_class cid m \<Longrightarrow> has_class cid (sub_step x m)"
  using has_class_meta [of cid m x] by (simp add: has_class_def sub_step_Classes)

lemma has_class_subs: "has_class cid m \<Longrightarrow> has_class cid (fold sub_step xs m)"
  by (induction xs arbitrary: m) (simp_all add: has_class_sub)

lemma has_class_record: "has_class cid m \<Longrightarrow> has_class cid (record_step r m)"
proof (cases r)
  case (RLoadClass t serial k tr nm)
  assume "has_class cid m"
  with RLoadClass show ?thesis
    by (auto simp: has_class_def name_class_def Let_def lookup_update split: option.splits)
qed (simp_all add: has_class_subs, simp_all add: has_class_def Let_def)

lemma has_class_records: "has_class cid m \<Longrightarrow> has_class cid (fold record_step rs m)"
  by (induction rs arbitrary: m) (simp_all add: has_class_record)

lemma has_class_dumped:
  "SClass c \<in> set xs \<Longrightarrow> has_class (cd_id c) (fold sub_step xs m)"
proof (induction xs arbitrary: m)
  case (Cons x xs)
  show ?case
  proof (cases "x = SClass c")
    case True
    then have "has_class (cd_id c) (sub_step x m)"
      using has_class_self [of c m] by simp
    then show ?thesis by (simp add: has_class_subs)
  qed (use Cons in simp)
qed simp

lemma has_class_loaded:
  "(p, SClass c) \<in> set (dump_subs q rs) \<Longrightarrow> has_class (cd_id c) (fold record_step rs m)"
proof (induction rs arbitrary: q m)
  case (Cons r rs)
  then consider "(p, SClass c) \<in> set (record_subs (q, r))" | "(p, SClass c) \<in> set (dump_subs (q + int (length (enc_record r))) rs)"
    by (auto simp: dump_subs_def)
  then show ?case
  proof cases
    case 1
    then obtain t seg subs where r: "r = RHeap t seg subs" by (cases r) auto
    have "SClass c \<in> snd ` set (place enc_sub (q + 9) subs)" using 1 r by force
    then have "SClass c \<in> set subs" by (metis list.set_map place_snd)
    with r show ?thesis by (simp add: has_class_records has_class_dumped)
  qed (simp add: Cons.IH)
qed (simp add: dump_subs_def)


subsection \<open>The graph of a dump\<close>

fun heap_subs :: "hprof_record \<Rightarrow> subrec list" where
  "heap_subs (RHeap t seg subs) = subs"
| "heap_subs r = []"

text \<open>The objects of a dump in file order, and the node number of an object id.\<close>

definition dump_nodes :: "hprof_record list \<Rightarrow> subrec list" where
  "dump_nodes rs = filter is_object (concat (map heap_subs rs))"

definition node_at :: "u64 list \<Rightarrow> u64 \<Rightarrow> nat" where
  "node_at ids t = length (takeWhile (\<lambda>u. u \<noteq> t) ids)"

definition node_edges :: "u64 list \<Rightarrow> (u64 \<Rightarrow> fieldDesc list) \<Rightarrow> subrec \<Rightarrow> (nat \<times> nat) list" where
  "node_edges ids L x = map (\<lambda>t. (node_at ids (obj_id x), node_at ids t))
     (filter (\<lambda>t. t \<noteq> 0 \<and> t \<in> set ids) (obj_refs L x))"

definition dump_edges :: "(u64 \<Rightarrow> fieldDesc list) \<Rightarrow> hprof_record list \<Rightarrow> (nat \<times> nat) list" where
  "dump_edges L rs = concat (map (node_edges (map obj_id (dump_nodes rs)) L) (dump_nodes rs))"

lemma dump_subs_snd: "map snd (dump_subs p rs) = concat (map heap_subs rs)"
proof (induction rs arbitrary: p)
  case (Cons r rs)
  have "map snd (record_subs (p, r)) = heap_subs r" by (cases r) simp_all
  with Cons show ?case by (simp add: dump_subs_def)
qed (simp add: dump_subs_def)

lemma dump_objects_snd: "map snd (dump_objects (dump_subs p rs)) = dump_nodes rs"
  unfolding dump_nodes_def dump_subs_snd [of p, symmetric] filter_map dump_objects_def
  by (simp add: comp_def case_prod_unfold)

lemma dump_objects_map: "map (\<lambda>(p, x). f x) (dump_objects (dump_subs p rs)) = map f (dump_nodes rs)"
  by (simp add: case_prod_unfold comp_def flip: dump_objects_snd [of p])

lemma node_at_nth: "distinct ids \<Longrightarrow> i < length ids \<Longrightarrow> node_at ids (ids ! i) = i"
proof -
  assume d: "distinct ids" and i: "i < length ids"
  have "takeWhile (\<lambda>u. u \<noteq> ids ! i) ids = take i ids"
    using d i by (intro takeWhile_eq_take_P_nth) (auto simp: nth_eq_iff_index_eq)
  with i show ?thesis by (simp add: node_at_def)
qed

lemma node_at_less: "t \<in> set ids \<Longrightarrow> node_at ids t < length ids"
  unfolding node_at_def by (metis (mono_tags) length_takeWhile_le nless_le takeWhile_eq_all_conv takeWhile_eq_take take_all_iff)

lemma Lookup_node_at:
  assumes "indexed g" and "distinct (IDs g)" and "t \<in> set (IDs g)"
  shows "Lookup g t = int (node_at (IDs g) t)"
proof -
  obtain k where k: "k < length (IDs g)" "IDs g ! k = t" using assms(3) by (auto simp: in_set_conv_nth)
  then have "Lookup g t = int k" using Lookup_unique [OF assms(1,2), of k] by (simp add: Graph_N_def)
  with k node_at_nth [OF assms(2) k(1)] show ?thesis by simp
qed

lemma obj_edges_nodes:
  assumes "indexed g" and "distinct (IDs g)" and "obj_id x \<in> set (IDs g)"
  shows "obj_edges g L x = map (map_prod int int) (node_edges (IDs g) L x)"
proof -
  have "filter (\<lambda>t. t \<noteq> 0 \<and> Lookup g t \<ge> 0) (obj_refs L x) = filter (\<lambda>t. t \<noteq> 0 \<and> t \<in> set (IDs g)) (obj_refs L x)"
    by (simp add: Lookup_nonneg [OF assms(1)])
  then show ?thesis
    by (simp add: obj_edges_def node_edges_def Lookup_node_at [OF assms(1,2)] assms(3))
qed

lemma obj_refs_other: "\<not> is_object x \<Longrightarrow> obj_refs L x = []"
  by (cases x) simp_all

lemma concat_filter_Nil: "(\<And>x. \<not> P x \<Longrightarrow> f x = []) \<Longrightarrow> concat (map f xs) = concat (map f (filter P xs))"
  by (induction xs) auto

lemma dump_obj_edges:
  assumes "indexed g" and "distinct (IDs g)" and ids: "IDs g = map obj_id (dump_nodes rs)"
  shows "concat (map (\<lambda>(p, x). obj_edges g L x) (dump_subs p rs)) = map (map_prod int int) (dump_edges L rs)"
proof -
  have "concat (map (\<lambda>(p, x). obj_edges g L x) (dump_subs p rs)) =
      concat (map (obj_edges g L) (concat (map heap_subs rs)))"
    by (simp add: case_prod_unfold comp_def flip: dump_subs_snd [of p])
  also have "\<dots> = concat (map (obj_edges g L) (dump_nodes rs))"
    unfolding dump_nodes_def by (rule concat_filter_Nil) (simp add: obj_edges_def obj_refs_other)
  also have "map (obj_edges g L) (dump_nodes rs) =
      map (\<lambda>x. map (map_prod int int) (node_edges (IDs g) L x)) (dump_nodes rs)"
    using assms by (intro map_cong refl obj_edges_nodes) auto
  finally show ?thesis
    by (simp add: dump_edges_def ids map_concat comp_def)
qed

lemma dump_edges_range:
  assumes "(a, b) \<in> set (dump_edges L rs)"
  shows "a < length (dump_nodes rs) \<and> b < length (dump_nodes rs)"
proof -
  have "node_at (map obj_id (dump_nodes rs)) t < length (dump_nodes rs)" if "t \<in> set (map obj_id (dump_nodes rs))" for t
    using node_at_less [OF that] by simp
  then show ?thesis using assms by (auto simp: dump_edges_def node_edges_def)
qed

text \<open>The targets of a node are the references of its record that lead to objects of the dump.\<close>

lemma targets_dump_edges:
  assumes "distinct (map obj_id (dump_nodes rs))" and i: "i < length (dump_nodes rs)"
  shows "targets i (dump_edges L rs) =
    map (node_at (map obj_id (dump_nodes rs)))
      (filter (\<lambda>t. t \<noteq> 0 \<and> t \<in> set (map obj_id (dump_nodes rs))) (obj_refs L (dump_nodes rs ! i)))"
proof -
  let ?ns = "dump_nodes rs" and ?ids = "map obj_id (dump_nodes rs)"
  let ?f = "\<lambda>k. node_edges ?ids L (?ns ! k)"
  have fst_f: "fst e = k" if "k < length ?ns" "e \<in> set (?f k)" for k e
    using that node_at_nth [OF assms(1), of k] by (auto simp: node_edges_def)
  have "filter (\<lambda>e. fst e = i) (?f k) = (if k = i then ?f i else [])" if "k < length ?ns" for k
    using fst_f [OF that] by (auto intro!: filter_False filter_True)
  then have one: "map (\<lambda>k. filter (\<lambda>e. fst e = i) (?f k)) [0..<length ?ns] = map (\<lambda>k. if k = i then ?f i else []) [0..<length ?ns]"
    by (intro map_cong) simp_all
  have pick: "concat (map (\<lambda>k. if k = i then z else []) [0..<n]) = (if i < n then z else [])" for z :: "(nat \<times> nat) list" and n
    by (induction n) auto
  have "map (node_edges ?ids L) ?ns = map ?f [0..<length ?ns]"
    by (rule nth_equalityI) simp_all
  then have "filter (\<lambda>e. fst e = i) (dump_edges L rs) =
      concat (map (\<lambda>k. filter (\<lambda>e. fst e = i) (?f k)) [0..<length ?ns])"
    by (simp add: dump_edges_def filter_concat comp_def)
  also have "\<dots> = ?f i"
    unfolding one pick using i by simp
  finally show ?thesis by (simp add: targets_def node_edges_def comp_def)
qed


text \<open>
  \<open>adjacency g es\<close>: the adjacency lists of the graph are those of the edge list \<open>es\<close>, forward and
  backward. \<open>rooted g roots\<close>: its roots are the nodes \<open>roots\<close>, sorted and without repetition.
\<close>

definition adjacency :: "Graph \<Rightarrow> (nat \<times> nat) list \<Rightarrow> bool" where
  "adjacency g es \<longleftrightarrow>
     (\<forall>(a, b) \<in> set es. a < Graph_N g \<and> b < Graph_N g) \<and>
     (\<forall>i < Graph_N g. Refs g (int i) = Inr (map int (targets i es)) \<and>
        Referrers g (int i) = Inr (map int (targets i (map prod.swap es))))"

definition rooted :: "Graph \<Rightarrow> nat list \<Rightarrow> bool" where
  "rooted g roots \<longleftrightarrow> Roots g = map int roots \<and> sorted roots \<and> distinct roots \<and>
     (\<forall>r \<in> set roots. r < Graph_N g) \<and> (\<forall>i. in_RootSet g i \<longleftrightarrow> i \<in> set (Roots g))"

lemma add_root_frame:
  "Lookup (add_root r g) = Lookup g" "IDs (add_root r g) = IDs g" "M (add_root r g) = M g"
  "Refs (add_root r g) = Refs g" "Referrers (add_root r g) = Referrers g"
  "Size (add_root r g) = Size g" "Kind (add_root r g) = Kind g" "ClassOf (add_root r g) = ClassOf g"
  "Offset (add_root r g) = Offset g" "sortedIDs (add_root r g) = sortedIDs g"
  "sortedIdx (add_root r g) = sortedIdx g" "Unreach (add_root r g) = Unreach g"
  by (simp_all add: add_root_def Let_def Lookup_def Refs_def Referrers_def fun_eq_iff)

lemma add_roots_frame:
  "Lookup (fold add_root rs g) = Lookup g" "IDs (fold add_root rs g) = IDs g" "M (fold add_root rs g) = M g"
  "Refs (fold add_root rs g) = Refs g" "Referrers (fold add_root rs g) = Referrers g"
  "Size (fold add_root rs g) = Size g" "Kind (fold add_root rs g) = Kind g"
  "ClassOf (fold add_root rs g) = ClassOf g" "Offset (fold add_root rs g) = Offset g"
  "sortedIDs (fold add_root rs g) = sortedIDs g" "sortedIdx (fold add_root rs g) = sortedIdx g"
  "Unreach (fold add_root rs g) = Unreach g"
  by (induction rs arbitrary: g) (simp_all add: add_root_frame)

lemma add_roots:
  assumes "distinct (Roots g)" and "\<And>i. in_RootSet g i \<longleftrightarrow> i \<in> set (Roots g)"
  shows "distinct (Roots (fold add_root rs g)) \<and>
    (\<forall>i. in_RootSet (fold add_root rs g) i \<longleftrightarrow> i \<in> set (Roots (fold add_root rs g))) \<and>
    set (Roots (fold add_root rs g)) = set (Roots g) \<union> {i. 0 \<le> i \<and> i \<in> Lookup g ` set rs}"
  using assms
proof (induction rs arbitrary: g)
  case (Cons r rs)
  have d: "distinct (Roots (add_root r g))" and "set (Roots (add_root r g)) = set (Roots g) \<union> {i. 0 \<le> i \<and> i = Lookup g r}"
    using Cons.prems by (auto simp: add_root_def Let_def)
  moreover have "in_RootSet (add_root r g) i \<longleftrightarrow> i \<in> set (Roots (add_root r g))" for i
    using Cons.prems(2) by (auto simp: add_root_def Let_def in_RootSet_def lookup_update)
  ultimately show ?case
    using Cons.IH [of "add_root r g"] by (auto simp: add_root_frame)
qed auto

lemma collect_roots_rooted:
  assumes "indexed g" and "distinct (IDs g)" and "Roots g = []"
  defines "roots \<equiv> sort (remdups (map (node_at (IDs g)) (filter (\<lambda>r. r \<in> set (IDs g)) (RootIDs (M g)))))"
  shows "rooted (collect_roots g) roots"
proof -
  let ?g = "fold add_root (RootIDs (M g)) (g\<lparr>RootSet := map_new\<rparr>)"
  have Lk: "Lookup (g\<lparr>RootSet := map_new\<rparr>) = Lookup g" by (simp add: fun_eq_iff Lookup_def Let_def)
  have res: "distinct (Roots ?g)" "\<And>i. in_RootSet ?g i \<longleftrightarrow> i \<in> set (Roots ?g)"
    "set (Roots ?g) = {i. 0 \<le> i \<and> i \<in> Lookup g ` set (RootIDs (M g))}"
    using add_roots [of "g\<lparr>RootSet := map_new\<rparr>" "RootIDs (M g)"] assms(3) by (auto simp: in_RootSet_def Lk)
  have "i \<in> set (Roots ?g) \<longleftrightarrow> i \<in> set (map int roots)" for i
    unfolding res(3) roots_def
    using Lookup_nonneg [OF assms(1)] Lookup_node_at [OF assms(1,2)] by (force simp: image_iff)
  then have set: "set (Roots ?g) = set (map int roots)" by blast
  have sd: "sorted roots" "distinct roots" by (simp_all add: roots_def)
  then have "distinct (map int roots)" "sorted (map int roots)"
    by (simp_all add: distinct_map sorted_map)
  with set res(1) have "sort (Roots ?g) = map int roots"
    by (metis distinct_sort set_sort sorted_distinct_set_unique sorted_sort)
  then have "Roots (collect_roots g) = map int roots"
    by (simp add: collect_roots_def Let_def)
  moreover have "in_RootSet (collect_roots g) i \<longleftrightarrow> i \<in> set (map int roots)" for i
    using res(2) [of i] unfolding set by (simp add: collect_roots_def Let_def in_RootSet_def)
  moreover have "r < Graph_N (collect_roots g)" if "r \<in> set roots" for r
    using that node_at_less [of _ "IDs g"]
    by (auto simp: roots_def Graph_N_def collect_roots_def Let_def add_roots_frame)
  ultimately show ?thesis
    using sd by (simp add: rooted_def)
qed


lemma Refs_roots [simp]:
  "Refs (g\<lparr>Roots := x\<rparr>) = Refs g" "Referrers (g\<lparr>Roots := x\<rparr>) = Referrers g"
  "Refs (g\<lparr>RootSet := y\<rparr>) = Refs g" "Referrers (g\<lparr>RootSet := y\<rparr>) = Referrers g"
  by (simp_all add: fun_eq_iff Refs_def Referrers_def)

lemma collect_roots_frame:
  "IDs (collect_roots g) = IDs g" "Refs (collect_roots g) = Refs g" "Referrers (collect_roots g) = Referrers g"
  "Size (collect_roots g) = Size g" "M (collect_roots g) = M g" "Kind (collect_roots g) = Kind g"
  "ClassOf (collect_roots g) = ClassOf g" "Offset (collect_roots g) = Offset g"
  "sortedIDs (collect_roots g) = sortedIDs g" "sortedIdx (collect_roots g) = sortedIdx g"
  "Unreach (collect_roots g) = Unreach g"
  by (simp_all add: collect_roots_def Let_def add_roots_frame)

lemma adjacency_csr:
  assumes range: "\<And>a b. (a, b) \<in> set es \<Longrightarrow> a < n \<and> b < n" and n: "n < 2 ^ 31" and small: "length es < 2 ^ 31"
  obtains fs fa rs ra where
    "buildCSR n (map (int \<circ> fst) es) (map (int \<circ> snd) es) = Inr (fs, fa)"
    and "buildCSR n (map (int \<circ> snd) es) (map (int \<circ> fst) es) = Inr (rs, ra)"
    and "\<And>g. Graph_N g = n \<Longrightarrow> FStart g = fs \<Longrightarrow> FAdj g = fa \<Longrightarrow> RStart g = rs \<Longrightarrow> RAdj g = ra \<Longrightarrow> adjacency g es"
proof -
  have swap: "zip (map snd es) (map fst es) = map prod.swap es"
    by (simp add: prod.swap_def zip_map_map zip_same_conv_map comp_def)
  have fst: "\<And>a. a \<in> set (map fst es) \<Longrightarrow> a < n" and snd: "\<And>b. b \<in> set (map snd es) \<Longrightarrow> b < n"
    and len: "length (map fst es) = length (map snd es)" "length (map snd es) = length (map fst es)"
    and small': "length (map fst es) < 2 ^ 31" "length (map snd es) < 2 ^ 31"
    using range small by auto
  obtain fs fa where f: "buildCSR n (map int (map fst es)) (map int (map snd es)) = Inr (fs, fa)" "length fs = n + 1"
    "\<And>i. i < n \<Longrightarrow> bind_ok (aget fs (int i)) (\<lambda>lo. bind_ok (aget fs (int i + 1)) (\<lambda>hi. aslice fa lo hi)) =
        Inr (map int (targets i (zip (map fst es) (map snd es))))"
    using buildCSR_correct [OF fst len(1) n small'(1)] by blast
  obtain rs ra where r: "buildCSR n (map int (map snd es)) (map int (map fst es)) = Inr (rs, ra)" "length rs = n + 1"
    "\<And>i. i < n \<Longrightarrow> bind_ok (aget rs (int i)) (\<lambda>lo. bind_ok (aget rs (int i + 1)) (\<lambda>hi. aslice ra lo hi)) =
        Inr (map int (targets i (zip (map snd es) (map fst es))))"
    using buildCSR_correct [OF snd len(2) n small'(2)] by blast
  show ?thesis
  proof (rule that)
    show "buildCSR n (map (int \<circ> fst) es) (map (int \<circ> snd) es) = Inr (fs, fa)"
      "buildCSR n (map (int \<circ> snd) es) (map (int \<circ> fst) es) = Inr (rs, ra)"
      using f(1) r(1) by simp_all
    fix g assume "Graph_N g = n" "FStart g = fs" "FAdj g = fa" "RStart g = rs" "RAdj g = ra"
    then show "adjacency g es"
      using f(3) r(3) range by (auto simp: adjacency_def Refs_def Referrers_def swap zip_map_fst_snd)
  qed
qed

text \<open>The main lemma on \<open>BuildGraph\<close>.\<close>

lemma class_metas_laid:
  assumes "\<And>c. laid (Classes m) c" and "\<And>p c. (p, SClass c) \<in> set ps \<Longrightarrow> has_class (cd_id c) m"
  shows "laid (Classes (fold (\<lambda>(p, x). class_meta x) ps m)) c"
  using assms
proof (induction ps arbitrary: m)
  case (Cons px ps)
  obtain p x where px: "px = (p, x)" by fastforce
  have "laid (Classes (class_meta x m)) k" for k
  proof (cases x)
    case (SClass c)
    then obtain ci where ci: "map_get (Classes m) (cd_id c) = Some ci"
      using Cons.prems(2) px by (auto simp: has_class_def)
    then have "ci_layout ci \<noteq> None" using Cons.prems(1) [of "cd_id c"] by (simp add: laid_def)
    with SClass ci Cons.prems(1) [of k] show ?thesis
      by (auto simp: class_step_def record_class_def Let_def laid_set)
  qed (use Cons.prems(1) in simp_all)
  moreover have "has_class (cd_id c') (class_meta x m)" if "(q, SClass c') \<in> set ps" for q c'
    using Cons.prems(2) [of q c'] that by (intro has_class_meta) simp
  ultimately have "laid (Classes (fold (\<lambda>(p, x). class_meta x) ps (class_meta x m))) c"
    by (rule Cons.IH)
  then show ?case by (simp add: px)
qed simp

lemma class_metas_frame:
  "lay (Classes (fold (\<lambda>(p, x). class_meta x) ps m)) = lay (Classes m)"
  "RootIDs (fold (\<lambda>(p, x). class_meta x) ps m) = RootIDs m"
  "className (fold (\<lambda>(p, x). class_meta x) ps m) = className m"
  by (induction ps arbitrary: m) (simp_all add: split_beta)

lemma class_metas_inv:
  "meta_inv m \<Longrightarrow> (\<And>p x. (p, x) \<in> set ps \<Longrightarrow> sub_ok x) \<Longrightarrow> meta_inv (fold (\<lambda>(p, x). class_meta x) ps m)"
proof (induction ps arbitrary: m)
  case (Cons px ps)
  obtain p x where px: "px = (p, x)" by fastforce
  have "sub_ok x" using Cons.prems(2) [of p x] px by simp
  then have "meta_inv (class_meta x m)"
    using Cons.prems(1) keyed_class_meta fields_all_class_meta by (simp add: meta_inv_def)
  moreover have "sub_ok y" if "(q, y) \<in> set ps" for q y
    using Cons.prems(2) [of q y] that by simp
  ultimately have "meta_inv (fold (\<lambda>(p, x). class_meta x) ps (class_meta x m))"
    by (rule Cons.IH)
  then show ?case by (simp add: px)
qed simp


lemma indexed_cong:
  "sortedIDs g = sortedIDs g' \<Longrightarrow> sortedIdx g = sortedIdx g' \<Longrightarrow> IDs g = IDs g' \<Longrightarrow> indexed g = indexed g'"
  by (simp only: indexed_def Graph_N_def)

lemma dump_subs_ok:
  assumes "list_all rec_ok rs" and "(p, x) \<in> set (dump_subs q rs)"
  shows "sub_ok x"
proof -
  have "x \<in> snd ` set (dump_subs q rs)" using assms(2) by force
  then have "x \<in> set (concat (map heap_subs rs))"
    by (metis dump_subs_snd list.set_map)
  then obtain r where r: "r \<in> set rs" "x \<in> set (heap_subs r)" by auto
  then have "rec_ok r" using assms(1) by (auto simp: list_all_iff)
  with r(2) show ?thesis
    by (cases r rule: hprof_record.exhaust) (auto simp: list_all_iff rec_ok_def)
qed

lemma dump_meta_facts:
  assumes "dump_ok hdr rs" and m: "m = dump_meta path hdr ts rs"
  shows "meta_inv m" and "laid (Classes m) c" and "(p, SClass cd) \<in> set (dump_subs q rs) \<Longrightarrow> has_class (cd_id cd) m"
proof -
  let ?m0 = "fold record_step rs (new_meta path (int (length (enc_dump hdr ts rs))))"
  have inv0: "meta_inv ?m0"
    using assms(1) by (intro meta_inv_records meta_inv_new) (simp add: dump_ok_def)
  have mb: "m = buildLayouts ?m0" by (simp add: m dump_meta_def)
  have typed: "fields_all typed_field (Classes ?m0)" using inv0 by (simp add: meta_inv_def)
  show "meta_inv m"
    unfolding mb meta_inv_def keyed_classes_def using inv0 buildLayouts_keyed buildLayouts_laid(2) [OF typed]
    by (simp add: meta_inv_def keyed_classes_def)
  show "laid (Classes m) c"
    unfolding mb by (rule buildLayouts_laid(1) [OF typed])
  show "has_class (cd_id cd) m" if "(p, SClass cd) \<in> set (dump_subs q rs)"
    using has_class_loaded [OF that, of "new_meta path (int (length (enc_dump hdr ts rs)))"]
      buildLayouts_laid(3) [OF typed, of "cd_id cd"] by (simp add: has_class_def mb)
qed

text \<open>What the two passes rely on: a class dump of the file has a record with a layout, and layouts are typed.\<close>

definition dump_ready :: "Meta \<Rightarrow> hprof_record list \<Rightarrow> bool" where
  "dump_ready m rs \<longleftrightarrow> meta_inv m \<and> (\<forall>c. laid (Classes m) c) \<and>
     (\<forall>p q cd. (p, SClass cd) \<in> set (dump_subs q rs) \<longrightarrow> has_class (cd_id cd) m)"

lemma dump_meta_ready: "dump_ok hdr rs \<Longrightarrow> m = dump_meta path hdr ts rs \<Longrightarrow> dump_ready m rs"
  unfolding dump_ready_def by (intro conjI allI impI) (rule dump_meta_facts; assumption)+

lemma dump_ready_time [simp]: "dump_ready (m\<lparr>Timestamp := t\<rparr>) rs = dump_ready m rs"
  by (simp add: dump_ready_def meta_inv_def keyed_classes_def has_class_def)

text \<open>The state between the passes: one node per object, not yet linked.\<close>

definition indexed_dump :: "Meta \<Rightarrow> (int \<times> subrec) list \<Rightarrow> hprof_record list \<Rightarrow> Graph" where
  "indexed_dump m ps rs = (new_graph m)\<lparr>M := fold (\<lambda>(p, x). class_meta x) ps m,
     IDs := map obj_id (dump_nodes rs), ClassOf := map obj_class (dump_nodes rs),
     Size := map (\<lambda>x. int32 (obj_size x)) (dump_nodes rs), Kind := map obj_kind (dump_nodes rs),
     Offset := map (\<lambda>(p, x). p + 1) (dump_objects ps)\<rparr>"

lemma index_objects_dump:
  assumes ok: "dump_ok hdr rs" and m: "dump_ready m rs"
    and ps: "ps = dump_subs (int (length (enc_header hdr ts))) rs"
  shows "index_objects m (Some (enc_dump hdr ts rs)) = Inr (indexed_dump m ps rs)"
proof -
  have facts: "meta_inv m" "\<And>c. laid (Classes m) c" "\<And>p q cd. (p, SClass cd) \<in> set (dump_subs q rs) \<Longrightarrow> has_class (cd_id cd) m"
    using m unfolding dump_ready_def by blast+
  have "keyed_classes (M (new_graph m))"
    using facts(1) by (simp add: meta_inv_def new_graph_def)
  from index_fold [OF this, of ps] have fold: "fold (\<lambda>(p, x). index_step p x) ps (new_graph m) = indexed_dump m ps rs"
    by (simp add: indexed_dump_def new_graph_def ps dump_objects_map)
  have "laid (Classes (fold (\<lambda>(p, x). class_meta x) ps m)) c" for c
    by (rule class_metas_laid [OF facts(2)]) (simp add: ps facts(3))
  then have "buildLayouts (M (indexed_dump m ps rs)) = M (indexed_dump m ps rs)"
    by (simp add: indexed_dump_def buildLayouts_done)
  then have "(indexed_dump m ps rs)\<lparr>M := buildLayouts (M (indexed_dump m ps rs))\<rparr> = indexed_dump m ps rs"
    by simp
  with pass_a.read_dump [OF ok TrueI, of ts "new_graph m"] show ?thesis
    by (auto simp: index_objects_def bind_ok_Inr fold ps [symmetric])
qed

lemma read_edges_dump:
  assumes ok: "dump_ok hdr rs" and inv: "meta_inv (M g)"
    and ps: "ps = dump_subs (int (length (enc_header hdr ts))) rs"
    and ind: "indexed g" and ids: "IDs g = map obj_id (dump_nodes rs)" "distinct (IDs g)"
  shows "read_edges g (Some (enc_dump hdr ts rs)) =
    Inr (g\<lparr>M := fold (\<lambda>(p, x). class_meta x) ps (M g)\<rparr>,
      map (int \<circ> fst) (dump_edges (lay (Classes (M g))) rs), map (int \<circ> snd) (dump_edges (lay (Classes (M g))) rs))"
proof -
  have "edge_inv (g, [], [])" using inv by (simp add: edge_inv_def meta_inv_def)
  from pass_b.read_dump [OF ok this, of ts] show ?thesis
    by (auto simp: read_edges_def bind_ok_Inr edge_fold ps dump_obj_edges [OF ind ids(2,1)] comp_def)
qed

lemma sorted_index_dump:
  assumes n: "length (dump_nodes rs) < 2 ^ 31" and g_def: "g = sort_index (indexed_dump m ps rs)"
  shows "IDs g = map obj_id (dump_nodes rs)" "ClassOf g = map obj_class (dump_nodes rs)"
    "Size g = map (\<lambda>x. int32 (obj_size x)) (dump_nodes rs)" "Kind g = map obj_kind (dump_nodes rs)"
    "Offset g = map (\<lambda>(p, x). p + 1) (dump_objects ps)" "M g = fold (\<lambda>(p, x). class_meta x) ps m" "Roots g = []"
    "indexed g"
proof -
  show "indexed g"
    unfolding g_def using n by (intro sort_index_indexed) (simp add: indexed_dump_def Graph_N_def)
qed (simp_all add: g_def sort_index_def indexed_dump_def Let_def new_graph_def)

lemma BuildGraph_ready:
  fixes ts :: u64
  assumes ok: "dump_ok hdr rs" and ids: "distinct (map obj_id (dump_nodes rs))"
    and n: "length (dump_nodes rs) < 2 ^ 31"
    and m: "dump_ready m rs" and L: "L = lay (Classes m)"
    and edges: "length (dump_edges L rs) < 2 ^ 31"
  obtains g where "BuildGraph m (Some (enc_dump hdr ts rs)) True = Inr g"
    and "IDs g = map obj_id (dump_nodes rs)" and "ClassOf g = map obj_class (dump_nodes rs)"
    and "Size g = map (\<lambda>x. int32 (obj_size x)) (dump_nodes rs)" and "Kind g = map obj_kind (dump_nodes rs)"
    and "Offset g = map (\<lambda>(p, x). p + 1) (dump_objects (dump_subs (int (length (enc_header hdr ts))) rs))"
    and "indexed g" and "adjacency g (dump_edges L rs)"
    and "rooted g (sort (remdups (map (node_at (IDs g)) (filter (\<lambda>r. r \<in> set (IDs g)) (RootIDs m)))))"
    and "lay (Classes (M g)) = L" and "meta_inv (M g)" and "className (M g) = className m"
proof -
  define ps where ps: "ps = dump_subs (int (length (enc_header hdr ts))) rs"
  define g1 where "g1 = sort_index (indexed_dump m ps rs)"
  note sorted = sorted_index_dump [OF n g1_def]
  note g1 = sorted(1,6,7) and ind = sorted(8)
  have ids1: "distinct (IDs g1)" using ids g1(1) by simp
  have lay1: "lay (Classes (M g1)) = L"
    by (simp add: g1 L class_metas_frame)
  have recs: "list_all rec_ok rs" using ok by (simp add: dump_ok_def)
  have inv1: "meta_inv (M g1)"
    unfolding g1 ps using m dump_subs_ok [OF recs] by (intro class_metas_inv) (auto simp: dump_ready_def)
  let ?es = "dump_edges L rs"
  define g2 where "g2 = g1\<lparr>M := fold (\<lambda>(p, x). class_meta x) ps (M g1)\<rparr>"
  obtain fs fa bs ba where csr: "buildCSR (length (dump_nodes rs)) (map (int \<circ> fst) ?es) (map (int \<circ> snd) ?es) = Inr (fs, fa)"
      "buildCSR (length (dump_nodes rs)) (map (int \<circ> snd) ?es) (map (int \<circ> fst) ?es) = Inr (bs, ba)"
    and adj: "\<And>g. Graph_N g = length (dump_nodes rs) \<Longrightarrow> FStart g = fs \<Longrightarrow> FAdj g = fa \<Longrightarrow> RStart g = bs \<Longrightarrow>
      RAdj g = ba \<Longrightarrow> adjacency g ?es"
    using adjacency_csr [of ?es, OF dump_edges_range [where L = L] n edges] by blast
  define g3 where "g3 = g2\<lparr>FStart := fs, FAdj := fa, RStart := bs, RAdj := ba\<rparr>"
  have n2: "Graph_N g2 = length (dump_nodes rs)" using g1(1) by (simp add: g2_def Graph_N_def)
  have B: "BuildGraph m (Some (enc_dump hdr ts rs)) True = Inr (collect_roots g3)"
    using index_objects_dump [OF ok m ps] read_edges_dump [OF ok inv1 ps ind g1(1) ids1] csr
    by (simp add: BuildGraph_def g1_def [symmetric] lay1 g2_def [symmetric] g3_def [symmetric] n2)
  have g3: "IDs g3 = map obj_id (dump_nodes rs)" "RootIDs (M g3) = RootIDs m" "Roots g3 = []" "lay (Classes (M g3)) = L"
    "className (M g3) = className m"
    using lay1 g1 by (simp_all add: g3_def g2_def class_metas_frame)
  have ind3: "indexed g3" "indexed (collect_roots g3)"
    using ind indexed_cong [of g3 g1] indexed_cong [of "collect_roots g3" g3]
    by (simp_all add: collect_roots_frame) (simp_all add: g3_def g2_def)
  have rest: "ClassOf g3 = map obj_class (dump_nodes rs)" "Size g3 = map (\<lambda>x. int32 (obj_size x)) (dump_nodes rs)"
    "Kind g3 = map obj_kind (dump_nodes rs)" "Offset g3 = map (\<lambda>(p, x). p + 1) (dump_objects ps)"
    using sorted by (simp_all add: g3_def g2_def)
  have "meta_inv (M g2)"
    unfolding g2_def ps using inv1 dump_subs_ok [OF recs] by (simp add: class_metas_inv)
  then have inv3: "meta_inv (M g3)" by (simp add: g3_def)
  have "adjacency (collect_roots g3) ?es"
    using adj [of g3] g3(1)
    by (simp add: adjacency_def Graph_N_def collect_roots_frame) (simp add: g3_def)
  then show ?thesis
    using that [OF B] collect_roots_rooted [OF ind3(1) _ g3(3)] ids g3 rest ind3 inv3
    by (simp add: collect_roots_frame ps)
qed

lemma BuildGraph_index:
  fixes ts :: u64
  assumes ok: "dump_ok hdr rs" and n: "length (dump_nodes rs) < 2 ^ 31" and m: "dump_ready m rs"
  obtains g where "BuildGraph m (Some (enc_dump hdr ts rs)) False = Inr g"
    and "IDs g = map obj_id (dump_nodes rs)" and "ClassOf g = map obj_class (dump_nodes rs)"
    and "Size g = map (\<lambda>x. int32 (obj_size x)) (dump_nodes rs)" and "Kind g = map obj_kind (dump_nodes rs)"
    and "Offset g = map (\<lambda>(p, x). p + 1) (dump_objects (dump_subs (int (length (enc_header hdr ts))) rs))"
    and "indexed g" and "lay (Classes (M g)) = lay (Classes m)" and "meta_inv (M g)" and "className (M g) = className m"
proof -
  let ?ps = "dump_subs (int (length (enc_header hdr ts))) rs"
  note sorted = sorted_index_dump [OF n refl, of m ?ps]
  have "list_all rec_ok rs" using ok by (simp add: dump_ok_def)
  then have "meta_inv (fold (\<lambda>(p, x). class_meta x) ?ps m)"
    using m dump_subs_ok by (intro class_metas_inv) (auto simp: dump_ready_def)
  then show ?thesis
    using that [of "sort_index (indexed_dump m ?ps rs)"] sorted index_objects_dump [OF ok m refl]
    by (simp add: BuildGraph_def class_metas_frame)
qed

theorem BuildGraph_dump:
  fixes path :: string and ts :: u64
  assumes ok: "dump_ok hdr rs" and ids: "distinct (map obj_id (dump_nodes rs))"
    and n: "length (dump_nodes rs) < 2 ^ 31"
    and m: "m = dump_meta path hdr ts rs" and L: "L = lay (Classes m)"
    and edges: "length (dump_edges L rs) < 2 ^ 31"
  obtains g where "BuildGraph m (Some (enc_dump hdr ts rs)) True = Inr g"
    and "IDs g = map obj_id (dump_nodes rs)" and "ClassOf g = map obj_class (dump_nodes rs)"
    and "Size g = map (\<lambda>x. int32 (obj_size x)) (dump_nodes rs)" and "Kind g = map obj_kind (dump_nodes rs)"
    and "Offset g = map (\<lambda>(p, x). p + 1) (dump_objects (dump_subs (int (length (enc_header hdr ts))) rs))"
    and "indexed g" and "adjacency g (dump_edges L rs)"
    and "rooted g (sort (remdups (map (node_at (IDs g)) (filter (\<lambda>r. r \<in> set (IDs g)) (RootIDs m)))))"
    and "lay (Classes (M g)) = L"
  using BuildGraph_ready [OF ok ids n dump_meta_ready [OF ok m] L edges] that by blast


subsection \<open>Offsets\<close>

text \<open>Every sub-record stands at its offset in the file.\<close>

lemma dump_subs_at:
  assumes "(p, x) \<in> set (dump_subs (int (length (enc_header hdr ts))) rs)"
  obtains a b where "enc_dump hdr ts rs = a @ enc_sub x @ b" and "p = int (length a)"
proof -
  obtain q r where qr: "(q, r) \<in> set (place enc_record (int (length (enc_header hdr ts))) rs)" "(p, x) \<in> set (record_subs (q, r))"
    using assms by (auto simp: dump_subs_def)
  obtain t seg subs where r: "r = RHeap t seg subs" using qr(2) by (cases r) auto
  obtain a b where a: "concat (map enc_record rs) = a @ enc_record r @ b" "q = int (length (enc_header hdr ts)) + int (length a)"
    using place_drop [OF qr(1)] by auto
  obtain c e where c: "concat (map enc_sub subs) = c @ enc_sub x @ e" "p = q + 9 + int (length c)"
    using place_drop [of p x enc_sub "q + 9" subs] qr(2) r a(2) by auto
  have "enc_dump hdr ts rs = (enc_header hdr ts @ a @ rec_head r @ c) @ enc_sub x @ e @ b"
    by (simp add: enc_dump_def a(1) enc_record_def r c(1))
  moreover have "p = int (length (enc_header hdr ts @ a @ rec_head r @ c))"
    by (simp add: c(2) a(2))
  ultimately show thesis by (rule that)
qed

lemma dump_subs_readAt:
  assumes "(p, x) \<in> set (dump_subs (int (length (enc_header hdr ts))) rs)"
  shows "readAt (enc_dump hdr ts rs) (p + 1) (int (length (sub_body x))) = Some (sub_body x)"
proof -
  obtain a b where fl: "enc_dump hdr ts rs = a @ enc_sub x @ b" and p: "p = int (length a)"
    using dump_subs_at [OF assms] .
  have "nat (p + 1) = length (a @ [sub_tag x])" by (simp add: p nat_add_distrib)
  moreover have "enc_dump hdr ts rs = (a @ [sub_tag x]) @ sub_body x @ b"
    by (simp add: fl enc_sub_def enc_u1_def)
  ultimately have "take (length (sub_body x)) (drop (nat (p + 1)) (enc_dump hdr ts rs)) = sub_body x"
    by (metis append_eq_conv_conj)
  then show ?thesis
    by (simp add: readAt_def p) (simp add: fl enc_sub_def)
qed

subsection \<open>Totality\<close>

text \<open>No loop of the two passes runs out of fuel, whatever the bytes of the file are.\<close>

lemma ends_index_sub: "ends (index_sub g)"
  unfolding index_sub_def by (intro rd_ends) simp

lemma instance_refs_ends: "instance_refs fs body off \<noteq> Inl OutOfFuel"
proof (induction fs arbitrary: off)
  case (Cons f fs)
  show ?case
    using Cons type_size_ends [of "f_typ f"] by (auto simp: bind_ok_def split: sum.splits)
qed simp

lemma ends_edge_sub: "ends (edge_sub s)"
proof -
  obtain g src dst where s: "s = (g, src, dst)" by (metis prod_cases3)
  have opt: "ends a \<Longrightarrow> (\<And>y. ends (b y)) \<Longrightarrow> ends (case z of None \<Rightarrow> a | Some y \<Rightarrow> b y)"
    for a b and z :: "classInfo option"
    by (cases z) simp_all
  show ?thesis
    unfolding edge_sub_def s prod.case Let_def by (intro rd_ends opt instance_refs_ends)
qed

context heap_codec
begin

lemma ends_heap_record: "(\<And>s. ends (body s)) \<Longrightarrow> ends (heap_record body s)"
  unfolding heap_record_def by (intro rd_ends ends_while_pos)

lemma read_file_ends:
  "(\<And>s. ends (body s)) \<Longrightarrow> while_pos limit (heap_record body) s d \<noteq> Inl OutOfFuel"
  using heap.ends_while_pos [OF ends_heap_record] by (simp add: ends_def)

end

lemma bind_ok_ends: "r \<noteq> Inl OutOfFuel \<Longrightarrow> (\<And>x. f x \<noteq> Inl OutOfFuel) \<Longrightarrow> bind_ok r f \<noteq> Inl OutOfFuel"
  by (cases r) auto

lemma for_each_ends: "(\<And>x s. f x s \<noteq> Inl OutOfFuel) \<Longrightarrow> for_each f xs s \<noteq> Inl OutOfFuel"
  by (induction xs arbitrary: s) (simp_all add: bind_ok_ends)

lemma aget_ends: "aget xs i \<noteq> Inl OutOfFuel" and aset_ends: "aset xs i v \<noteq> Inl OutOfFuel"
  by (simp_all add: aget_def aset_def)

lemma buildCSR_ends: "buildCSR n src dst \<noteq> Inl OutOfFuel"
proof -
  have "count_start f s \<noteq> Inl OutOfFuel" "sum_start i s \<noteq> Inl OutOfFuel" for f i s
    unfolding count_start_def sum_start_def by (intro bind_ok_ends aget_ends aset_ends)+
  moreover have "place_edge st a b k s \<noteq> Inl OutOfFuel" for st a b k s
    unfolding place_edge_def by (cases s, simp only: prod.case, intro bind_ok_ends aget_ends aset_ends) simp
  ultimately show ?thesis
    unfolding buildCSR_def by (intro bind_ok_ends for_each_ends) (simp_all add: split_beta)
qed

lemma LoadMeta_ends: "LoadMeta path fl \<noteq> Inl OutOfFuel"
proof -
  have "while_pos n meta_record m d \<noteq> Inl OutOfFuel" for n m d
    using recs.ends_while_pos [OF ends_meta_record] by (simp add: ends_def)
  then show ?thesis
    unfolding LoadMeta_def case_prod_unfold by (intro bind_ok_ends openDump_ends) simp_all
qed

lemma BuildGraph_ends: "BuildGraph m fl withEdges \<noteq> Inl OutOfFuel"
proof -
  have "index_objects m fl \<noteq> Inl OutOfFuel"
    unfolding index_objects_def case_prod_unfold
    by (intro bind_ok_ends openDump_ends pass_a.read_file_ends ends_index_sub) simp
  moreover have "read_edges g fl \<noteq> Inl OutOfFuel" for g
    unfolding read_edges_def case_prod_unfold
    by (intro bind_ok_ends openDump_ends pass_b.read_file_ends ends_edge_sub) simp
  ultimately show ?thesis
    unfolding BuildGraph_def Let_def case_prod_unfold
    by (cases withEdges) (simp_all add: bind_ok_ends buildCSR_ends)
qed

subsection \<open>Re-reading a class dump\<close>

lemma readClassDump_keeps_layouts:
  assumes "readClassDump m d = Inr ((ci, m'), d')"
  shows "lay (Classes m') = lay (Classes m)" and "laid (Classes m) c \<Longrightarrow> has_class c m \<Longrightarrow> laid (Classes m') c"
proof -
  obtain cid super n statics flds where "record_class cid super n statics flds m = (ci, m')"
    using assms unfolding readClassDump_def by (auto simp: rbind_Inr)
  then have "m' = snd (record_class cid super n statics flds m)" by simp
  then show "lay (Classes m') = lay (Classes m)" "laid (Classes m) c \<Longrightarrow> has_class c m \<Longrightarrow> laid (Classes m') c"
    by (auto simp: fun_eq_iff lay_def laid_def record_class_def Let_def lookup_update new_class_def has_class_def
        split: option.splits)
qed

end
