(* ===== verification/Hprof_Dom.thy ===== *)
theory Hprof_Dom
  imports Hprof_Objects
begin

text \<open>
  Dominators and retained sizes (\<open>heapdump/hprofx/dom.go\<close>) and the breadth-first search of
  \<open>heapdump/hprofx/cmds.go\<close>: the iterative depth-first search with its explicit stack, the
  Lengauer-Tarjan loop with path compression, and the folding of sizes into dominators.

  The arrays of the Go struct are lists; every index expression is checked and panics out of range.
  The loops whose end depends on the data take fuel, with the bound next to each of them: the
  depth-first search makes at most one step for each node, edge and stack frame, a walk along
  \<open>ancestor\<close> or a bucket visits a node at most once. The slice \<open>scratch\<close> only saves allocations and is
  left out.
\<close>

subsection \<open>State\<close>

record Dom =
  DRoot :: int
  Idom :: "int list"
  Retained :: "int list"
  Vertex :: "int list"
  dfn :: "int list"
  parent :: "int list"
  semi :: "int list"
  label :: "int list"
  ancestor :: "int list"
  bhead :: "int list"
  bnext :: "int list"

definition new_dom :: "nat \<Rightarrow> Dom" where
  "new_dom n = \<lparr>DRoot = int32 (int n), Idom = replicate (n + 1) (-1), Retained = replicate (n + 1) 0,
     Vertex = [], dfn = replicate (n + 1) (-1), parent = replicate (n + 1) (-1),
     semi = replicate (n + 1) 0, label = map (\<lambda>i. int32 (int i)) [0..<n + 1],
     ancestor = replicate (n + 1) (-1), bhead = replicate (n + 1) (-1), bnext = replicate (n + 1) (-1)\<rparr>"

definition Reachable :: "Dom \<Rightarrow> int \<Rightarrow> bool outcome" where
  "Reachable d i = bind_ok (aget (dfn d) i) (\<lambda>x. Inr (x \<ge> 0))"

subsection \<open>Depth-first search\<close>

definition dom_succ :: "Graph \<Rightarrow> Dom \<Rightarrow> int \<Rightarrow> int list outcome" where
  "dom_succ g d v = (if v = DRoot d then Inr (Roots g) else Refs g v)"

type_synonym frames = "(int \<times> int) list"

text \<open>One round of the loop; the top of the stack is the head of the list.\<close>

fun dfs_step :: "Graph \<Rightarrow> Dom \<times> frames \<Rightarrow> (Dom \<times> frames) outcome" where
  "dfs_step g (d, []) = Inr (d, [])"
| "dfs_step g (d, (v, nxt) # stack) =
     bind_ok (dom_succ g d v) (\<lambda>kids.
     if nxt < int (length kids)
     then bind_ok (aget kids nxt) (\<lambda>w.
          let stack' = (v, int32 (nxt + 1)) # stack in
          bind_ok (aget (dfn d) w) (\<lambda>x.
          if x < 0
          then bind_ok (aset (dfn d) w (int32 (int (length (Vertex d))))) (\<lambda>dfn'.
               bind_ok (aset (parent d) w v) (\<lambda>parent'.
               Inr (d\<lparr>dfn := dfn', parent := parent', Vertex := Vertex d @ [w]\<rparr>, (w, 0) # stack')))
          else Inr (d, stack')))
     else Inr (d, stack))"

fun dfs_loop :: "nat \<Rightarrow> Graph \<Rightarrow> Dom \<times> frames \<Rightarrow> Dom outcome" where
  "dfs_loop fuel g (d, []) = Inr d"
| "dfs_loop 0 g (d, fr # stack) = Inl OutOfFuel"
| "dfs_loop (Suc fuel) g (d, fr # stack) = bind_ok (dfs_step g (d, fr # stack)) (dfs_loop fuel g)"

text \<open>Every round takes a frame off, or moves past an edge (or a root), so this many rounds suffice.\<close>

definition out_degree :: "Graph \<Rightarrow> nat \<Rightarrow> nat" where
  "out_degree g i = (case Refs g (int i) of Inl e \<Rightarrow> 0 | Inr kids \<Rightarrow> length kids)"

definition dfs_fuel :: "Graph \<Rightarrow> nat" where
  "dfs_fuel g = Suc (length (Roots g)) + sum_list (map (\<lambda>i. Suc (out_degree g i)) [0..<Graph_N g])"

definition set_semi :: "nat \<Rightarrow> Dom \<Rightarrow> Dom outcome" where
  "set_semi i d = bind_ok (aget (Vertex d) (int i)) (\<lambda>v.
     bind_ok (aset (semi d) v (int32 (int i))) (\<lambda>s. Inr (d\<lparr>semi := s\<rparr>)))"

definition dom_dfs :: "Graph \<Rightarrow> Dom outcome" where
  "dom_dfs g =
     (let d = new_dom (Graph_N g) in
      bind_ok (aset (dfn d) (DRoot d) 0) (\<lambda>dfn'.
      bind_ok (dfs_loop (dfs_fuel g) g (d\<lparr>dfn := dfn', Vertex := [DRoot d]\<rparr>, [(DRoot d, 0)])) (\<lambda>d'.
      for_each set_semi [0..<length (Vertex d')] d')))"

subsection \<open>Path compression\<close>

fun compress_path :: "nat \<Rightarrow> int list \<Rightarrow> int \<Rightarrow> int list \<Rightarrow> int list outcome" where
  "compress_path 0 anc u path = Inl OutOfFuel"
| "compress_path (Suc fuel) anc u path =
     bind_ok (aget anc u) (\<lambda>a. bind_ok (aget anc a) (\<lambda>aa.
     if aa \<noteq> -1 then compress_path fuel anc a (path @ [u]) else Inr path))"

definition compress_node :: "int \<Rightarrow> Dom \<Rightarrow> Dom outcome" where
  "compress_node x d =
     bind_ok (aget (ancestor d) x) (\<lambda>a.
     bind_ok (aget (label d) a) (\<lambda>la. bind_ok (aget (semi d) la) (\<lambda>sa.
     bind_ok (aget (label d) x) (\<lambda>lx. bind_ok (aget (semi d) lx) (\<lambda>sx.
     bind_ok (if sa < sx then aset (label d) x la else Inr (label d)) (\<lambda>label'.
     bind_ok (aget (ancestor d) a) (\<lambda>aa.
     bind_ok (aset (ancestor d) x aa) (\<lambda>ancestor'.
     Inr (d\<lparr>label := label', ancestor := ancestor'\<rparr>)))))))))"

definition compress :: "int \<Rightarrow> Dom \<Rightarrow> Dom outcome" where
  "compress v d =
     bind_ok (compress_path (length (ancestor d) + 1) (ancestor d) v []) (\<lambda>path.
     for_each compress_node (rev path) d)"

definition dom_eval :: "int \<Rightarrow> Dom \<Rightarrow> (int \<times> Dom) outcome" where
  "dom_eval v d =
     bind_ok (aget (ancestor d) v) (\<lambda>a.
     if a = -1 then Inr (v, d)
     else bind_ok (compress v d) (\<lambda>d'. bind_ok (aget (label d') v) (\<lambda>u. Inr (u, d'))))"

subsection \<open>The Lengauer-Tarjan loop\<close>

definition semi_from :: "int \<Rightarrow> int \<Rightarrow> Dom \<Rightarrow> Dom outcome" where
  "semi_from w v d =
     bind_ok (aget (dfn d) v) (\<lambda>x.
     if x < 0 then Inr d
     else bind_ok (dom_eval v d) (\<lambda>(u, d').
          bind_ok (aget (semi d') u) (\<lambda>su. bind_ok (aget (semi d') w) (\<lambda>sw.
          if su < sw then bind_ok (aset (semi d') w su) (\<lambda>s. Inr (d'\<lparr>semi := s\<rparr>)) else Inr d'))))"

definition semi_root :: "Graph \<Rightarrow> int \<Rightarrow> Dom \<Rightarrow> Dom outcome" where
  "semi_root g w d =
     (if in_RootSet g w
      then bind_ok (aget (semi d) (DRoot d)) (\<lambda>sr. bind_ok (aget (semi d) w) (\<lambda>sw.
           if sr < sw then bind_ok (aset (semi d) w sr) (\<lambda>s. Inr (d\<lparr>semi := s\<rparr>)) else Inr d))
      else Inr d)"

definition bucket_add :: "int \<Rightarrow> Dom \<Rightarrow> Dom outcome" where
  "bucket_add w d =
     bind_ok (aget (semi d) w) (\<lambda>sw. bind_ok (aget (Vertex d) sw) (\<lambda>b.
     bind_ok (aget (bhead d) b) (\<lambda>h. bind_ok (aset (bnext d) w h) (\<lambda>bnext'.
     bind_ok (aset (bhead d) b w) (\<lambda>bhead'. Inr (d\<lparr>bnext := bnext', bhead := bhead'\<rparr>))))))"

definition bucket_idom :: "int \<Rightarrow> int \<Rightarrow> Dom \<Rightarrow> Dom outcome" where
  "bucket_idom p v d =
     bind_ok (dom_eval v d) (\<lambda>(u, d').
     bind_ok (aget (semi d') u) (\<lambda>su. bind_ok (aget (semi d') v) (\<lambda>sv.
     bind_ok (aset (Idom d') v (if su < sv then u else p)) (\<lambda>idom. Inr (d'\<lparr>Idom := idom\<rparr>)))))"

fun bucket_loop :: "nat \<Rightarrow> int \<Rightarrow> int \<Rightarrow> Dom \<Rightarrow> Dom outcome" where
  "bucket_loop 0 p v d = (if v \<noteq> -1 then Inl OutOfFuel else Inr d)"
| "bucket_loop (Suc fuel) p v d =
     (if v \<noteq> -1
      then bind_ok (bucket_idom p v d) (\<lambda>d'. bind_ok (aget (bnext d') v) (\<lambda>v'. bucket_loop fuel p v' d'))
      else Inr d)"

definition lt_step :: "Graph \<Rightarrow> nat \<Rightarrow> Dom \<Rightarrow> Dom outcome" where
  "lt_step g i d =
     bind_ok (aget (Vertex d) (int i)) (\<lambda>w.
     bind_ok (Referrers g w) (\<lambda>preds.
     bind_ok (for_each (semi_from w) preds d) (\<lambda>d1.
     bind_ok (semi_root g w d1) (\<lambda>d2.
     bind_ok (bucket_add w d2) (\<lambda>d3.
     bind_ok (aget (parent d3) w) (\<lambda>p.
     bind_ok (aset (ancestor d3) w p) (\<lambda>ancestor'.
     let d4 = d3\<lparr>ancestor := ancestor'\<rparr> in
     bind_ok (aget (bhead d4) p) (\<lambda>h.
     bind_ok (bucket_loop (length (bnext d4) + 1) p h d4) (\<lambda>d5.
     bind_ok (aset (bhead d5) p (-1)) (\<lambda>bhead'.
     Inr (d5\<lparr>bhead := bhead'\<rparr>)))))))))))"

definition idom_step :: "nat \<Rightarrow> Dom \<Rightarrow> Dom outcome" where
  "idom_step i d =
     bind_ok (aget (Vertex d) (int i)) (\<lambda>w.
     bind_ok (aget (Idom d) w) (\<lambda>iw. bind_ok (aget (semi d) w) (\<lambda>sw. bind_ok (aget (Vertex d) sw) (\<lambda>b.
     if iw \<noteq> b
     then bind_ok (aget (Idom d) iw) (\<lambda>ii. bind_ok (aset (Idom d) w ii) (\<lambda>idom. Inr (d\<lparr>Idom := idom\<rparr>)))
     else Inr d))))"

subsection \<open>Retained sizes\<close>

definition shallow_step :: "Graph \<Rightarrow> nat \<Rightarrow> Dom \<times> int \<Rightarrow> (Dom \<times> int) outcome" where
  "shallow_step g i = (\<lambda>(d, unreach).
     bind_ok (aget (dfn d) (int i)) (\<lambda>x. bind_ok (aget (Size g) (int i)) (\<lambda>sz.
     if x \<ge> 0 then bind_ok (aset (Retained d) (int i) sz) (\<lambda>r. Inr (d\<lparr>Retained := r\<rparr>, unreach))
     else Inr (d, unreach + sz))))"

definition retain_step :: "nat \<Rightarrow> Dom \<Rightarrow> Dom outcome" where
  "retain_step i d =
     bind_ok (aget (Vertex d) (int i)) (\<lambda>w. bind_ok (aget (Idom d) w) (\<lambda>p.
     if p \<ge> 0 \<and> p \<noteq> w
     then bind_ok (aget (Retained d) p) (\<lambda>rp. bind_ok (aget (Retained d) w) (\<lambda>rw.
          bind_ok (aset (Retained d) p (rp + rw)) (\<lambda>r. Inr (d\<lparr>Retained := r\<rparr>))))
     else Inr d))"

definition dom_idoms :: "Graph \<Rightarrow> Dom \<Rightarrow> Dom outcome" where
  "dom_idoms g d =
     bind_ok (for_each (lt_step g) (rev [1..<length (Vertex d)]) d) (\<lambda>d1.
     bind_ok (for_each idom_step [1..<length (Vertex d1)] d1) (\<lambda>d2.
     bind_ok (aset (Idom d2) (DRoot d2) (DRoot d2)) (\<lambda>idom. Inr (d2\<lparr>Idom := idom\<rparr>))))"

definition dom_retained :: "Graph \<Rightarrow> Dom \<Rightarrow> (Dom \<times> Graph) outcome" where
  "dom_retained g d =
     bind_ok (for_each (shallow_step g) [0..<Graph_N g] (d, Unreach g)) (\<lambda>(d1, unreach).
     bind_ok (for_each retain_step (rev [1..<length (Vertex d1)]) d1) (\<lambda>d2.
     Inr (d2, g\<lparr>Unreach := unreach\<rparr>)))"

definition Dominators :: "Graph \<Rightarrow> (Dom \<times> Graph) outcome" where
  "Dominators g = bind_ok (dom_dfs g) (\<lambda>d. bind_ok (dom_idoms g d) (dom_retained g))"

fun dom_chain :: "Dom \<Rightarrow> nat \<Rightarrow> int \<Rightarrow> int list outcome" where
  "dom_chain d 0 v = Inr []"
| "dom_chain d (Suc k) v =
     (if v \<ge> 0 \<and> v \<noteq> DRoot d
      then bind_ok (aget (Idom d) v) (\<lambda>v'. bind_ok (dom_chain d k v') (\<lambda>out. Inr (v # out)))
      else Inr [])"

definition DomChain :: "Dom \<Rightarrow> int \<Rightarrow> int \<Rightarrow> int list outcome" where
  "DomChain d i limit = bind_ok (aget (Idom d) i) (dom_chain d (nat limit))"

subsection \<open>Breadth-first search\<close>

definition bfs_visit :: "int \<Rightarrow> int \<Rightarrow> int list \<times> int list \<Rightarrow> (int list \<times> int list) outcome" where
  "bfs_visit v w = (\<lambda>(par, queue).
     bind_ok (aget par w) (\<lambda>x.
     if x = -2 then bind_ok (aset par w v) (\<lambda>par'. Inr (par', queue @ [w])) else Inr (par, queue)))"

fun bfs_loop :: "nat \<Rightarrow> Graph \<Rightarrow> nat \<Rightarrow> int list \<times> int list \<Rightarrow> int list outcome" where
  "bfs_loop 0 g head (par, queue) = (if head < length queue then Inl OutOfFuel else Inr par)"
| "bfs_loop (Suc fuel) g head (par, queue) =
     (if head < length queue
      then bind_ok (Refs g (queue ! head)) (\<lambda>kids.
           bind_ok (for_each (bfs_visit (queue ! head)) kids (par, queue)) (bfs_loop fuel g (head + 1)))
      else Inr par)"

definition bfs_root :: "Dom \<Rightarrow> int \<Rightarrow> int list \<times> int list \<Rightarrow> (int list \<times> int list) outcome" where
  "bfs_root d r = (\<lambda>(par, queue). bind_ok (aset par r (DRoot d)) (\<lambda>par'. Inr (par', queue @ [r])))"

text \<open>Every node enters the queue at most once besides the roots.\<close>

definition bfsFromRoots :: "Graph \<Rightarrow> Dom \<Rightarrow> int list outcome" where
  "bfsFromRoots g d =
     bind_ok (for_each (bfs_root d) (Roots g) (replicate (Graph_N g) (-2), [])) (\<lambda>s.
     bind_ok (bfs_loop (Graph_N g + length (Roots g)) g 0 s) (\<lambda>par.
     Inr (map (\<lambda>p. if p = -2 then -1 else p) par)))"

end
