(* ===== verification/Hprof_Sample.thy ===== *)
theory Hprof_Sample
  imports Hprof_Dom
begin

text \<open>
  A small heap dump: two classes, one with a reference field and an int field, two nodes that point
  at each other, an object array that holds both, a byte array nobody refers to, a thread and a
  sticky class as GC roots. The claims on the heap-dump analyzer are evaluated on it.
\<close>

definition ascii :: "string \<Rightarrow> u8 list" where
  "ascii s = map of_char s"

definition sample_header :: "u8 list" where
  "sample_header = ascii ''JAVA PROFILE 1.0.2''"

definition sample_object_class :: class_dump where
  "sample_object_class = \<lparr>cd_id = 100, cd_trace = 0, cd_super = 0, cd_loader = 0, cd_signers = 0,
     cd_domain = 0, cd_reserved1 = 0, cd_reserved2 = 0, cd_instSize = 0, cd_consts = [],
     cd_statics = [], cd_fields = []\<rparr>"

definition sample_node_class :: class_dump where
  "sample_node_class = \<lparr>cd_id = 101, cd_trace = 0, cd_super = 100, cd_loader = 0, cd_signers = 0,
     cd_domain = 0, cd_reserved1 = 0, cd_reserved2 = 0, cd_instSize = 12, cd_consts = [(1, 10, 7)],
     cd_statics = [(3, 2, 200), (4, 10, 5)], cd_fields = [(3, 2), (4, 10)]\<rparr>"

definition sample_subs :: "subrec list" where
  "sample_subs =
     [SClass sample_object_class, SClass sample_node_class,
      SInstance 200 1 101 (enc_u8 201 @ enc_u4 7), SInstance 201 1 101 (enc_u8 200 @ enc_u4 9),
      SObjArray 300 1 102 [200, 0, 201], SPrimArray 400 1 8 [65, 66, 67],
      SThread 300 1 1, SRoot 0x05 101 []]"

definition sample_records :: "hprof_record list" where
  "sample_records =
     [RString 0 1 (ascii ''java/lang/Object''), RString 0 2 (ascii ''demo/Node''),
      RString 0 3 (ascii ''next''), RString 0 4 (ascii ''value''),
      RLoadClass 0 1 100 0 1, RLoadClass 0 2 101 0 2, RTrace 0 1 1 [], ROther 0 0x2C [],
      RHeap 0 True sample_subs]"

lemmas sample_defs = sample_header_def sample_object_class_def sample_node_class_def sample_subs_def
  sample_records_def

lemma sample_nodes: "map obj_id (dump_nodes sample_records) = [100, 101, 200, 201, 300, 400]"
  by (simp add: dump_nodes_def sample_defs)


abbreviation sample_meta :: Meta where
  "sample_meta \<equiv> dump_meta ''a.hprof'' sample_header 5 sample_records"

lemma unat_of_char: "unat (of_char c :: u8) = (of_char c :: nat)"
proof -
  have "unat (word_of_nat n :: u8) = n" if "n < 256" for n
    using that by (simp add: unat_of_nat take_bit_nat_eq_self)
  from this [OF nat_of_char_less_256, of c] show ?thesis by (simp only: of_nat_of_char)
qed

lemma bytes_string_ascii [simp]: "bytes_string (ascii s) = s"
  by (induction s) (simp_all add: bytes_string_def ascii_def unat_of_char)

lemma length_ascii [simp]: "length (ascii s) = length s"
  by (simp add: ascii_def)

lemma ascii_nonzero: "CHR 0x00 \<notin> set s \<Longrightarrow> 0 \<notin> set (ascii s)"
proof
  assume "CHR 0x00 \<notin> set s" and "0 \<in> set (ascii s)"
  then obtain c where c: "c \<in> set s" "(of_char c :: u8) = 0" by (auto simp: ascii_def)
  then have "(of_char c :: nat) = 0" using unat_of_char [of c] by simp
  then have "c = CHR 0x00" using of_char_eq_iff [of c "CHR 0x00", where ?'a = nat] by simp
  with c \<open>CHR 0x00 \<notin> set s\<close> show False by simp
qed

lemma sample_ok: "dump_ok sample_header sample_records"
  by (simp add: dump_ok_def header_ok_def ascii_nonzero sample_defs rec_ok_def class_ok_def
      typed_value_def valid_type_def value_fits_def typeSize_def root_extra_def tag_defs enc_sub_def
      enc_class_def enc_const_def enc_static_def enc_field_def prim_body_def enc_value_def)

lemma sample_classes:
  "map_entries (Classes (fold record_step sample_records (new_meta p n))) =
    [(100, \<lparr>ci_id = 100, ci_name = ''java.lang.Object'', ci_super = 0, ci_instSize = 0, ci_fields = [],
        ci_statics = [], ci_layout = None\<rparr>),
     (101, \<lparr>ci_id = 101, ci_name = ''demo.Node'', ci_super = 100, ci_instSize = 12,
        ci_fields = [\<lparr>f_name = ''next'', f_typ = 2\<rparr>, \<lparr>f_name = ''value'', f_typ = 10\<rparr>],
        ci_statics = [200], ci_layout = None\<rparr>)]"
  by (simp add: sample_records_def new_meta_def sample_subs_def sample_object_class_def sample_node_class_def map_str_def Let_def
   name_class_def normalizeClassName_def new_class_def class_step_def record_class_def object_statics_def count_root_def map_get_conv lookup_update)


lemma sample_lay: "lay (Classes sample_meta) 101 = [\<lparr>f_name = ''next'', f_typ = 2\<rparr>, \<lparr>f_name = ''value'', f_typ = 10\<rparr>]"
  by (simp add: dump_meta_def buildLayouts_def sample_classes build.simps lay_def map_get_conv Let_def)

lemma sample_refs:
  "map (obj_refs (lay (Classes sample_meta))) (dump_nodes sample_records) = [[], [200], [201], [200], [200, 0, 201], []]"
  by (simp add: dump_nodes_def sample_defs object_statics_def sample_lay [unfolded sample_defs] typeSize_def be_word_enc)

end
