(* ===== verification/Dom_Theory.thy ===== *)
theory Dom_Theory
  imports Prelude
begin

text \<open>
  The graph theory behind \<open>heapdump/hprofx/dom.go\<close>. A depth-first search numbers the nodes it reaches in
  preorder, and everything the algorithm of Lengauer and Tarjan does is a statement on these numbers. A
  numbering is a function \<open>par\<close> (the tree parent of a number) and an edge relation \<open>E\<close> on \<open>{0..<m}\<close> with
  the two properties that a depth-first search leaves behind: a node is numbered while all its tree
  ancestors are open, and an edge to a larger number leads to a tree descendant.

  The central lemma is \<open>strict_dominator_iff\<close>: \<open>d\<close> dominates \<open>w\<close> exactly when \<open>d\<close> is a tree ancestor of
  \<open>w\<close> and no node between them has a semidominator above \<open>d\<close>. The two theorems that justify the
  algorithm, \<open>idom_semidominator\<close> and \<open>idom_relative\<close>, and the equation \<open>sdom_eq\<close> by which it computes
  semidominators are consequences.
\<close>

named_theorems dom_intros \<open>introduction rules for ancestors, paths and dominators\<close>

subsection \<open>The tree\<close>

inductive tanc :: "(nat \<Rightarrow> nat) \<Rightarrow> nat \<Rightarrow> nat \<Rightarrow> bool" for par where
  tanc_refl [simp, dom_intros]: "tanc par u u"
| tanc_up: "0 < v \<Longrightarrow> tanc par u (par v) \<Longrightarrow> tanc par u v"

lemma tanc_lastE:
  assumes "tanc par u v"
  obtains (same) "u = v" | (above) "0 < v" "tanc par u (par v)"
  using assms by (cases rule: tanc.cases) auto

definition numbering :: "nat \<Rightarrow> (nat \<Rightarrow> nat) \<Rightarrow> (nat \<Rightarrow> nat \<Rightarrow> bool) \<Rightarrow> bool" where
  "numbering m par E \<longleftrightarrow>
     (\<forall>i. 0 < i \<and> i < m \<longrightarrow> par i < i \<and> E (par i) i \<and> tanc par (par i) (i - 1)) \<and>
     (\<forall>u v. E u v \<longrightarrow> u < m \<and> v < m \<and> (u < v \<longrightarrow> tanc par u v))"

lemma numbering_par:
  assumes "numbering m par E" "0 < i" "i < m"
  shows "par i < i" "E (par i) i" "tanc par (par i) (i - 1)"
  using assms by (auto simp: numbering_def)

lemma numbering_edge:
  assumes "numbering m par E" "E u v"
  shows "u < m" "v < m" "u < v \<Longrightarrow> tanc par u v"
  using assms by (auto simp: numbering_def)

lemma tanc_trans [dom_intros]: "tanc par v w \<Longrightarrow> tanc par u v \<Longrightarrow> tanc par u w"
  by (induction rule: tanc.induct) (auto intro: tanc_up)

lemma tanc_par [dom_intros]: "0 < v \<Longrightarrow> tanc par (par v) v"
  by (auto intro: tanc_up)

lemma tanc_le:
  assumes "numbering m par E" "tanc par u v" "v < m"
  shows "u \<le> v"
  using assms(2,3)
proof (induction rule: tanc.induct)
  case (tanc_up v)
  with numbering_par(1) [OF assms(1), of v] show ?case by simp
qed simp

lemma tanc_root:
  assumes "numbering m par E" "v < m"
  shows "tanc par 0 v"
  using assms(2)
proof (induction v rule: less_induct)
  case (less v)
  show ?case
  proof (cases "v = 0")
    case False
    then show ?thesis using less numbering_par(1) [OF assms(1), of v] by (auto intro: tanc_up)
  qed simp
qed

lemma tanc_linear:
  assumes "numbering m par E" "tanc par u w" "tanc par v w" "w < m" "u \<le> v"
  shows "tanc par u v"
  using assms(2-)
proof (induction arbitrary: v rule: tanc.induct)
  case (tanc_refl u)
  then show ?case using tanc_le [OF assms(1), of v u] by simp
next
  case (tanc_up w u v)
  from \<open>tanc par v w\<close> show ?case
  proof (cases rule: tanc_lastE)
    case same
    then show ?thesis using tanc_up(1,2) by (auto intro: tanc.tanc_up)
  next
    case above
    then show ?thesis using tanc_up numbering_par(1) [OF assms(1), of w] by simp
  qed
qed

text \<open>The numbers of a subtree form an interval.\<close>

lemma tanc_interval:
  assumes "numbering m par E" "tanc par x y" "x \<le> z" "z \<le> y" "y < m"
  shows "tanc par x z"
  using assms(2-)
proof (induction y rule: less_induct)
  case (less y)
  show ?case
  proof (cases "z = y \<or> x = z")
    case False
    with less.prems have y: "0 < y" "z \<le> y - 1" "x \<noteq> y" by auto
    from less.prems(1) have "tanc par x (par y)"
      using y(3) by (cases rule: tanc_lastE) auto
    then have "tanc par x (y - 1)"
      using numbering_par(3) [OF assms(1) y(1) less.prems(4)] by (blast intro: tanc_trans)
    then show ?thesis using less.IH [of "y - 1"] less.prems y by simp
  qed (use less in auto)
qed

lemma tanc_edge:
  assumes "numbering m par E" "tanc par x y" "E y z" "x \<le> z"
  shows "tanc par x z"
proof (cases "y < z")
  case True
  then show ?thesis using assms(2) numbering_edge(3) [OF assms(1,3)] by (blast intro: tanc_trans)
next
  case False
  then show ?thesis using tanc_interval [OF assms(1,2,4)] numbering_edge(1) [OF assms(1,3)] by simp
qed

text \<open>The child of \<open>p\<close> on the tree path to \<open>v\<close>.\<close>

lemma tanc_child:
  assumes "tanc par p v" "p \<noteq> v"
  obtains c where "0 < c" "par c = p" "tanc par c v"
  using assms
proof (induction arbitrary: thesis rule: tanc.induct)
  case (tanc_up v u)
  show ?case
  proof (cases "u = par v")
    case True
    then show ?thesis using tanc_up(1,4) by (metis tanc.tanc_refl)
  next
    case False
    then obtain c where "0 < c" "par c = u" "tanc par c (par v)" using tanc_up.IH by blast
    then show ?thesis using tanc_up(1,4) by (blast intro: tanc.tanc_up)
  qed
qed simp

subsection \<open>Semidominators\<close>

text \<open>\<open>spath E w v\<close>: a path from \<open>v\<close> to \<open>w\<close> whose inner nodes have larger numbers than \<open>w\<close>.\<close>

inductive spath :: "(nat \<Rightarrow> nat \<Rightarrow> bool) \<Rightarrow> nat \<Rightarrow> nat \<Rightarrow> bool" for E w where
  spath_edge: "E v w \<Longrightarrow> spath E w v"
| spath_step: "E v x \<Longrightarrow> w < x \<Longrightarrow> spath E w x \<Longrightarrow> spath E w v"

definition sdom :: "(nat \<Rightarrow> nat \<Rightarrow> bool) \<Rightarrow> nat \<Rightarrow> nat" where
  "sdom E w = (LEAST v. spath E w v)"

lemma spath_tanc:
  assumes "numbering m par E" "spath E w y" "tanc par x y" "x \<le> w"
  shows "tanc par x w"
  using assms(2,3,4)
proof (induction rule: spath.induct)
  case (spath_edge y)
  then show ?case by (blast intro: tanc_edge [OF assms(1)])
next
  case (spath_step y z)
  have "tanc par x z"
    by (rule tanc_edge [OF assms(1) \<open>tanc par x y\<close> \<open>E y z\<close>]) (use spath_step in linarith)
  with spath_step show ?case by simp
qed

lemma sdom_le: "spath E w v \<Longrightarrow> sdom E w \<le> v"
  unfolding sdom_def by (rule Least_le)

lemma spath_sdom:
  assumes "numbering m par E" "0 < w" "w < m"
  shows "spath E w (sdom E w)"
  unfolding sdom_def by (rule LeastI, rule spath_edge, rule numbering_par(2) [OF assms])

lemma sdom_less:
  assumes "numbering m par E" "0 < w" "w < m"
  shows "sdom E w < w"
  using sdom_le [OF spath_edge, of E "par w" w] numbering_par(1,2) [OF assms] by simp

lemma sdom_tanc:
  assumes "numbering m par E" "0 < w" "w < m"
  shows "tanc par (sdom E w) w"
  using spath_tanc [OF assms(1) spath_sdom [OF assms]] sdom_less [OF assms] by simp

text \<open>A semidominator path either is an edge or runs through the semidominator path of the smallest of its
  inner nodes, which is a tree ancestor of the last one.\<close>

lemma spath_cases:
  assumes "numbering m par E" "spath E w s"
  shows "E s w \<or> (\<exists>u v. w < u \<and> tanc par u v \<and> E v w \<and> spath E u s)"
  using assms(2)
proof (induction rule: spath.induct)
  case (spath_step s x)
  have x: "spath E x s" using spath_step(1) by (rule spath_edge)
  from spath_step.IH show ?case
  proof (elim disjE exE conjE)
    assume "E x w"
    then show ?thesis using x spath_step(2) tanc_refl by blast
  next
    fix u v assume uv: "w < u" "tanc par u v" "E v w" "spath E u x"
    show ?thesis
    proof (cases "u < x")
      case True
      then have "spath E u s" using spath_step(1) uv(4) by (blast intro: spath.spath_step)
      then show ?thesis using uv by blast
    next
      case False
      then have "tanc par x u" using spath_tanc [OF assms(1) uv(4) tanc_refl] by simp
      then have "tanc par x v" using uv(2) by (blast intro: tanc_trans)
      then show ?thesis using x uv(3) spath_step(2) by blast
    qed
  qed
qed simp

lemma spath_down:
  assumes "numbering m par E" "tanc par u v" "spath E w v" "w < u" "v < m"
  shows "spath E w u"
  using assms(2-)
proof (induction rule: tanc.induct)
  case (tanc_up v u)
  have p: "par v < v" "E (par v) v" using numbering_par [OF assms(1) tanc_up(1)] tanc_up(6) by auto
  have "u \<le> par v" using tanc_le [OF assms(1) tanc_up(2)] p tanc_up(6) by simp
  then have "w < v" using p tanc_up(5) by linarith
  then have "spath E w (par v)" using p(2) tanc_up(4) by (blast intro: spath_step)
  with tanc_up p show ?case by simp
qed simp

lemma spath_through:
  assumes "spath E u s" "w < u" "spath E w u"
  shows "spath E w s"
  using assms(1)
proof (induction rule: spath.induct)
  case (spath_edge v)
  then show ?case using assms by (blast intro: spath_step)
next
  case (spath_step v x)
  then show ?case using assms(2) by (meson less_trans spath.spath_step)
qed

text \<open>How the algorithm computes semidominators: no predecessor gives less than \<open>sdom\<close>, and one gives it.\<close>

lemma sdom_pred_le:
  assumes "numbering m par E" "E v w" "w < u" "tanc par u v"
  shows "sdom E w \<le> sdom E u"
proof -
  have v: "v < m" "u < m" using numbering_edge(1) [OF assms(1,2)] tanc_le [OF assms(1,4)] by auto
  have "spath E w u" using spath_down [OF assms(1,4) _ assms(3) v(1)] assms(2) by (blast intro: spath_edge)
  then show ?thesis
    using spath_through [OF spath_sdom [OF assms(1)], of u w] assms(3) v(2) by (intro sdom_le) simp
qed

lemma sdom_attained:
  assumes "numbering m par E" "0 < w" "w < m"
  obtains v where "E v w" "v < w" "sdom E w = v"
  | u v where "E v w" "w < u" "tanc par u v" "sdom E u \<le> sdom E w"
proof -
  have s: "spath E w (sdom E w)" "sdom E w < w" using spath_sdom sdom_less assms by blast+
  from spath_cases [OF assms(1) s(1)] show ?thesis
  proof (elim disjE exE conjE)
    assume "E (sdom E w) w"
    then show ?thesis using that(1) s(2) by blast
  next
    fix u v assume "w < u" "tanc par u v" "E v w" "spath E u (sdom E w)"
    then show ?thesis using that(2) sdom_le by blast
  qed
qed

subsection \<open>Dominators\<close>

text \<open>\<open>ravoid E d w\<close>: a path from the root to \<open>w\<close> that does not meet \<open>d\<close>.\<close>

inductive ravoid :: "(nat \<Rightarrow> nat \<Rightarrow> bool) \<Rightarrow> nat \<Rightarrow> nat \<Rightarrow> bool" for E d where
  ravoid_root: "d \<noteq> 0 \<Longrightarrow> ravoid E d 0"
| ravoid_edge: "ravoid E d u \<Longrightarrow> E u v \<Longrightarrow> v \<noteq> d \<Longrightarrow> ravoid E d v"

lemma ravoid_tree:
  assumes "numbering m par E" "tanc par u v" "ravoid E d u" "v < m" "\<And>x. tanc par u x \<Longrightarrow> tanc par x v \<Longrightarrow> x \<noteq> d"
  shows "ravoid E d v"
  using assms(2-)
proof (induction rule: tanc.induct)
  case (tanc_up v u)
  have p: "par v < v" "E (par v) v" using numbering_par [OF assms(1) tanc_up(1)] tanc_up(5) by auto
  have "ravoid E d (par v)"
    using tanc_up p by (metis dual_order.strict_trans tanc.tanc_up)
  moreover have "v \<noteq> d" using tanc_up(6) [of v] tanc.tanc_up [OF tanc_up(1,2)] by simp
  ultimately show ?case using p(2) by (blast intro: ravoid_edge)
qed simp

lemma ravoid_below:
  assumes "numbering m par E" "v < d" "v < m"
  shows "ravoid E d v"
proof (rule ravoid_tree [OF assms(1) tanc_root [OF assms(1,3)] _ assms(3)])
  show "ravoid E d 0" using assms(2) by (intro ravoid_root) simp
  show "x \<noteq> d" if "tanc par x v" for x
    using tanc_le [OF assms(1) that assms(3)] assms(2) by simp
qed

lemma ravoid_spath:
  assumes "spath E w v" "ravoid E d v" "d < w"
  shows "ravoid E d w"
  using assms
proof (induction rule: spath.induct)
  case (spath_edge v)
  then show ?case by (blast intro: ravoid_edge)
next
  case (spath_step v x)
  then have "ravoid E d x" by (auto intro: ravoid_edge)
  with spath_step show ?case by simp
qed

definition dominates :: "(nat \<Rightarrow> nat \<Rightarrow> bool) \<Rightarrow> nat \<Rightarrow> nat \<Rightarrow> bool" where
  "dominates E d w \<longleftrightarrow> \<not> ravoid E d w"

lemma dominates_tanc:
  assumes "numbering m par E" "dominates E d w" "w < m"
  shows "tanc par d w"
proof (rule ccontr)
  assume no: "\<not> tanc par d w"
  have "ravoid E d w"
  proof (rule ravoid_tree [OF assms(1) tanc_root [OF assms(1,3)] _ assms(3)])
    show "ravoid E d 0"
      using no tanc_root [OF assms(1,3)] by (metis ravoid_root)
  qed (use no in blast)
  with assms(2) show False by (simp add: dominates_def)
qed

theorem strict_dominator_iff:
  assumes num: "numbering m par E" and w: "w < m" and d: "d < w"
  shows "dominates E d w \<longleftrightarrow> tanc par d w \<and> (\<forall>z. d < z \<and> tanc par z w \<longrightarrow> d \<le> sdom E z)"
proof (intro iffI conjI allI impI; (elim conjE)?)
  assume dom: "dominates E d w"
  then show "tanc par d w" by (rule dominates_tanc [OF num _ w])
  fix z assume z: "d < z" "tanc par z w"
  then have zm: "0 < z" "z < m" using tanc_le [OF num z(2) w] w by auto
  show "d \<le> sdom E z"
  proof (rule ccontr)
    assume "\<not> d \<le> sdom E z"
    then have "ravoid E d (sdom E z)" using ravoid_below [OF num] sdom_less [OF num zm] zm by simp
    then have "ravoid E d z" by (rule ravoid_spath [OF spath_sdom [OF num zm] _ z(1)])
    then have "ravoid E d w"
    proof (rule ravoid_tree [OF num z(2) _ w])
      show "x \<noteq> d" if "tanc par z x" "tanc par x w" for x
        using tanc_le [OF num that(1)] tanc_le [OF num that(2) w] w z(1) by auto
    qed
    with dom show False by (simp add: dominates_def)
  qed
next
  assume dw: "tanc par d w" and semi: "\<forall>z. d < z \<and> tanc par z w \<longrightarrow> d \<le> sdom E z"
  have "\<not> (d < y \<and> tanc par y w) \<and> (\<forall>z. d < z \<and> tanc par z w \<longrightarrow> \<not> spath E z y)" if "ravoid E d y" for y
    using that
  proof (induction rule: ravoid.induct)
    case ravoid_root
    then show ?case using semi sdom_le [of E _ 0] by fastforce
  next
    case (ravoid_edge y v)
    have v: "\<not> (d < v \<and> tanc par v w)" using ravoid_edge by (blast intro: spath_edge)
    moreover have "\<not> spath E z v" if z: "d < z" "tanc par z w" for z
    proof
      assume path: "spath E z v"
      have "d \<le> v" using semi z sdom_le [OF path] by fastforce
      with ravoid_edge have "d < v" by simp
      show False
      proof (cases "z < v")
        case True
        then show False using path ravoid_edge z by (blast intro: spath_step)
      next
        case False
        then have "tanc par v z" using spath_tanc [OF num path tanc_refl] by simp
        with z(2) have "tanc par v w" by (blast intro: tanc_trans)
        with v \<open>d < v\<close> show False by blast
      qed
    qed
    ultimately show ?case by blast
  qed
  from this [of w] d show "dominates E d w" by (auto simp: dominates_def)
qed

text \<open>The immediate dominator: a strict dominator that all strict dominators dominate.\<close>

definition is_idom :: "(nat \<Rightarrow> nat \<Rightarrow> bool) \<Rightarrow> nat \<Rightarrow> nat \<Rightarrow> bool" where
  "is_idom E d w \<longleftrightarrow> d \<noteq> w \<and> dominates E d w \<and> (\<forall>e. e \<noteq> w \<and> dominates E e w \<longrightarrow> dominates E e d)"

lemma ravoid_neq: "ravoid E d w \<Longrightarrow> w \<noteq> d"
  by (induction rule: ravoid.induct) auto

lemma dominates_self [simp]: "dominates E w w"
  using ravoid_neq by (auto simp: dominates_def)

lemma dominates_le: "numbering m par E \<Longrightarrow> dominates E d w \<Longrightarrow> w < m \<Longrightarrow> d \<le> w"
  by (meson dominates_tanc tanc_le)

lemma is_idomI:
  assumes num: "numbering m par E" and w: "w < m" and d: "d < w" "dominates E d w"
    and max: "\<And>e. e < w \<Longrightarrow> dominates E e w \<Longrightarrow> e \<le> d"
  shows "is_idom E d w"
  unfolding is_idom_def
proof (intro conjI allI impI; (elim conjE)?)
  fix e assume e: "e \<noteq> w" "dominates E e w"
  then have ew: "e < w" using dominates_le [OF num e(2) w] by simp
  then have ed: "e \<le> d" using e(2) by (rule max)
  show "dominates E e d"
  proof (cases "e = d")
    case False
    then have "tanc par e d" "e < d" "d < m"
      using tanc_linear [OF num dominates_tanc [OF num e(2) w] dominates_tanc [OF num d(2) w] w ed] ed d(1) w by auto
    moreover have "e \<le> sdom E z" if "e < z" "tanc par z d" for z
      using that e(2) strict_dominator_iff [OF num w ew] dominates_tanc [OF num d(2) w] tanc_trans by blast
    ultimately show ?thesis using strict_dominator_iff [OF num] by blast
  qed simp
qed (use d in simp_all)

lemma is_idom_less: "numbering m par E \<Longrightarrow> is_idom E d w \<Longrightarrow> w < m \<Longrightarrow> d < w"
  using dominates_le by (fastforce simp: is_idom_def)

lemma is_idom_unique:
  assumes "numbering m par E" "w < m" "is_idom E d w" "is_idom E e w"
  shows "d = e"
proof (rule antisym)
  have "d < m" "e < m" using is_idom_less [OF assms(1)] assms by fastforce+
  then show "d \<le> e" "e \<le> d" using assms(3,4) dominates_le [OF assms(1)] by (auto simp: is_idom_def)
qed

text \<open>A strict dominator does not lie below the semidominator.\<close>

lemma dominator_sdom:
  assumes "numbering m par E" "w < m" "d < w" "dominates E d w"
  shows "d \<le> sdom E w"
  using assms strict_dominator_iff [OF assms(1-3)] by simp

theorem idom_semidominator:
  assumes num: "numbering m par E" and w: "0 < w" "w < m"
    and least: "\<And>u. sdom E w < u \<Longrightarrow> tanc par u w \<Longrightarrow> sdom E w \<le> sdom E u"
  shows "is_idom E (sdom E w) w"
proof (rule is_idomI [OF num w(2)])
  show "sdom E w < w" using sdom_less [OF num w] .
  show "dominates E (sdom E w) w"
    using least sdom_tanc [OF num w] sdom_less [OF num w] strict_dominator_iff [OF num w(2)] by blast
qed (rule dominator_sdom [OF num w(2)])

theorem idom_relative:
  assumes num: "numbering m par E" and w: "0 < w" "w < m"
    and u: "sdom E w < u" "tanc par u w" "sdom E u \<le> sdom E w"
    and least: "\<And>z. sdom E w < z \<Longrightarrow> tanc par z w \<Longrightarrow> sdom E u \<le> sdom E z"
    and d: "is_idom E d u"
  shows "is_idom E d w"
proof -
  have uw: "u \<le> w" "u < m" using tanc_le [OF num u(2) w(2)] w by auto
  have same: "dominates E e w \<longleftrightarrow> dominates E e u" if e: "e \<le> sdom E w" for e
  proof -
    have eu: "e < u" "e < w" using e u(1) uw by auto
    have tanc: "tanc par e w \<longleftrightarrow> tanc par e u"
      using u(2) tanc_linear [OF num _ u(2) w(2)] eu(1) by (meson less_imp_le tanc_trans)
    have "tanc par z u" if "tanc par z w" "z \<le> u" for z
      using tanc_linear [OF num that(1) u(2) w(2) that(2)] .
    moreover have "e \<le> sdom E z" if "tanc par z w" "u < z" "e \<le> sdom E u" for z
      using least [of z] that u(1) by simp
    ultimately have "(\<forall>z. e < z \<and> tanc par z w \<longrightarrow> e \<le> sdom E z) \<longleftrightarrow> (\<forall>z. e < z \<and> tanc par z u \<longrightarrow> e \<le> sdom E z)"
      using u(2) eu(1) by (meson not_less tanc_refl tanc_trans)
    then show ?thesis
      using tanc strict_dominator_iff [OF num w(2) eu(2)] strict_dominator_iff [OF num uw(2) eu(1)] by simp
  qed
  have du: "d < u" "dominates E d u" using is_idom_less [OF num d uw(2)] d by (auto simp: is_idom_def)
  then have dw: "d \<le> sdom E w" using dominator_sdom [OF num uw(2)] u(3) by (meson order_trans)
  show ?thesis
  proof (rule is_idomI [OF num w(2)])
    show "d < w" using du(1) uw(1) by simp
    show "dominates E d w" using same dw du by blast
    fix e assume e: "e < w" "dominates E e w"
    then have "e \<le> sdom E w" by (intro dominator_sdom [OF num w(2)])
    then have "dominates E e u" "e \<noteq> u" using same e(2) u(1) by auto
    then have "dominates E e d" using d by (simp add: is_idom_def)
    then show "e \<le> d" using dominates_le [OF num] du(1) uw(2) by (meson less_trans)
  qed
qed

text \<open>What the first pass leaves in \<open>Idom\<close>: the semidominator, or a node with the same immediate
  dominator.\<close>

definition relative :: "(nat \<Rightarrow> nat) \<Rightarrow> (nat \<Rightarrow> nat \<Rightarrow> bool) \<Rightarrow> nat \<Rightarrow> nat \<Rightarrow> bool" where
  "relative par E v i \<longleftrightarrow>
     i = sdom E v \<and> (\<forall>u. sdom E v < u \<and> tanc par u v \<longrightarrow> sdom E v \<le> sdom E u) \<or>
     sdom E v < i \<and> tanc par i v \<and> sdom E i < sdom E v \<and> (\<forall>u. sdom E v < u \<and> tanc par u v \<longrightarrow> sdom E i \<le> sdom E u)"

lemma relative_idom:
  assumes "numbering m par E" "0 < v" "v < m" "relative par E v i"
  shows "i = sdom E v \<Longrightarrow> is_idom E i v" "i \<noteq> sdom E v \<Longrightarrow> 0 < i \<and> i < v"
    "i \<noteq> sdom E v \<Longrightarrow> is_idom E d i \<Longrightarrow> is_idom E d v"
proof -
  show "is_idom E i v" if "i = sdom E v"
    using assms(4) that idom_semidominator [OF assms(1-3)] by (auto simp: relative_def)
  assume ne: "i \<noteq> sdom E v"
  then have i: "sdom E v < i" "tanc par i v" "sdom E i < sdom E v"
      "\<And>u. sdom E v < u \<Longrightarrow> tanc par u v \<Longrightarrow> sdom E i \<le> sdom E u"
    using assms(4) by (auto simp: relative_def)
  then show "0 < i \<and> i < v" using tanc_le [OF assms(1) i(2) assms(3)] by (cases "i = v") auto
  show "is_idom E d v" if "is_idom E d i"
    using idom_relative [OF assms(1-3) i(1,2) _ i(4) that] i(3) by simp
qed

end
