(* ===== verification/Dom_Forest.thy ===== *)
theory Dom_Forest
  imports Dom_Theory Hprof_Dom
begin

text \<open>
  The forest of \<open>dom.go\<close>: the arrays \<open>ancestor\<close> and \<open>label\<close> with \<open>eval\<close> and \<open>compress\<close>. A node is linked
  once it has been processed, and nodes are processed in descending order of their numbers, so the linked
  nodes are those from some number \<open>k\<close> on. The invariant \<open>forest\<close> says that \<open>ancestor\<close> of a linked node
  is a proper tree ancestor with only linked nodes between them, and that \<open>label\<close> is a node of least
  semidominator number among these.

  The lemmas show that \<open>compress\<close> returns and keeps the invariant, although it shortens the paths, and that
  \<open>eval\<close> returns a node of least semidominator number among the linked tree ancestors.
\<close>

subsection \<open>The forest on numbers\<close>

text \<open>\<open>l\<close> has the least value among the tree ancestors of \<open>x\<close> below \<open>a\<close>.\<close>

definition least_on :: "(nat \<Rightarrow> nat) \<Rightarrow> (nat \<Rightarrow> nat) \<Rightarrow> nat \<Rightarrow> nat \<Rightarrow> nat \<Rightarrow> bool" where
  "least_on par S a x l \<longleftrightarrow> a < l \<and> tanc par l x \<and> (\<forall>u. a < u \<and> tanc par u x \<longrightarrow> S l \<le> S u)"

definition forest ::
    "nat \<Rightarrow> (nat \<Rightarrow> nat) \<Rightarrow> (nat \<Rightarrow> nat) \<Rightarrow> nat \<Rightarrow> (nat \<Rightarrow> nat option) \<Rightarrow> (nat \<Rightarrow> nat) \<Rightarrow> bool" where
  "forest m par S k A L \<longleftrightarrow>
     (\<forall>x < m. x < k \<longrightarrow> A x = None \<and> L x = x) \<and>
     (\<forall>x < m. k \<le> x \<longrightarrow> (\<exists>a. A x = Some a \<and> a < x \<and> tanc par a x \<and> (\<forall>u. a < u \<and> tanc par u x \<longrightarrow> k \<le> u) \<and>
        least_on par S a x (L x)))"

lemma least_on_join:
  assumes "numbering m par E" "least_on par S a x l" "least_on par S b a l'" "tanc par a x" "x < m"
  shows "least_on par S b x (if S l' < S l then l' else l)"
proof -
  have "S l' \<le> S u \<or> S l \<le> S u" if "b < u" "tanc par u x" for u
  proof (cases "u \<le> a")
    case True
    then have "tanc par u a" using tanc_linear [OF assms(1) that(2) assms(4,5)] by simp
    then show ?thesis using that assms(3) by (auto simp: least_on_def)
  next
    case False
    then show ?thesis using that assms(2) by (auto simp: least_on_def)
  qed
  moreover have "b < a" "tanc par l' x"
    using assms(3) tanc_le [OF assms(1), of l' a] tanc_le [OF assms(1,4,5)] assms(4,5)
    by (auto simp: least_on_def intro: tanc_trans)
  ultimately show ?thesis using assms(2,3) unfolding least_on_def by (auto split: if_splits; fastforce)
qed

lemma forest_unlinked: "forest m par S k A L \<Longrightarrow> x < m \<Longrightarrow> x < k \<Longrightarrow> A x = None \<and> L x = x"
  by (simp add: forest_def)

lemma forest_linked:
  assumes "forest m par S k A L" "x < m" "k \<le> x"
  obtains a where "A x = Some a" "a < x" "tanc par a x" "\<And>u. a < u \<Longrightarrow> tanc par u x \<Longrightarrow> k \<le> u"
    "least_on par S a x (L x)"
  using assms unfolding forest_def by blast

lemma forest_None: "forest m par S k A L \<Longrightarrow> x < m \<Longrightarrow> A x = None \<longleftrightarrow> x < k"
  by (metis forest_linked forest_unlinked not_less option.distinct(1))

lemma forest_label:
  assumes "numbering m par E" "forest m par S k A L" "x < m"
  shows "L x \<le> x" "tanc par (L x) x" "k \<le> x \<Longrightarrow> k \<le> L x"
proof -
  have "tanc par (L x) x \<and> (k \<le> x \<longrightarrow> k \<le> L x)"
  proof (cases "x < k")
    case False
    then show ?thesis using forest_linked [OF assms(2,3)] by (fastforce simp: least_on_def)
  qed (use forest_unlinked [OF assms(2,3)] in simp)
  then show "L x \<le> x" "tanc par (L x) x" "k \<le> x \<Longrightarrow> k \<le> L x"
    using tanc_le [OF assms(1) _ assms(3)] by simp_all
qed

text \<open>One step of path compression.\<close>

lemma forest_compress:
  assumes "numbering m par E" "forest m par S k A L" "x < m" "A x = Some a" "A a = Some b"
  shows "forest m par S k (A(x := Some b)) (if S (L a) < S (L x) then L(x := L a) else L)" (is "forest m par S k ?A ?L")
proof -
  have xk: "k \<le> x" using forest_None [OF assms(2,3)] assms(4) by simp
  from forest_linked [OF assms(2,3) xk] assms(4)
  have x: "a < x" "tanc par a x" "\<And>u. a < u \<Longrightarrow> tanc par u x \<Longrightarrow> k \<le> u" "least_on par S a x (L x)" by auto
  have am: "a < m" "k \<le> a" using x assms(3,5) forest_None [OF assms(2), of a] by auto
  from forest_linked [OF assms(2) am] assms(5)
  have a: "b < a" "tanc par b a" "\<And>u. b < u \<Longrightarrow> tanc par u a \<Longrightarrow> k \<le> u" "least_on par S b a (L a)" by auto
  have "b < x" "tanc par b x" using a x by (auto intro: tanc_trans)
  moreover have "k \<le> u" if "b < u" "tanc par u x" for u
    using that a(3) x(3) tanc_linear [OF assms(1) that(2) x(2) assms(3)] by (cases "u \<le> a") auto
  moreover have "least_on par S b x (?L x)"
    using least_on_join [OF assms(1) x(4) a(4) x(2) assms(3)] by (simp split: if_splits)
  ultimately show ?thesis using assms(2) xk unfolding forest_def by (auto split: if_splits)
qed

text \<open>Linking the node below the linked ones, whose semidominator number is settled now.\<close>

lemma forest_link:
  assumes num: "numbering m par E" and f: "forest m par S (Suc w) A L" and w: "0 < w" "w < m"
    and S: "\<And>i. w < i \<Longrightarrow> S' i = S i"
  shows "forest m par S' w (A(w := Some (par w))) L"
proof -
  have p: "par w < w" "tanc par (par w) w" using numbering_par [OF num w] tanc_par w by auto
  have only: "u = w" if "par w < u" "tanc par u w" for u
    using that(2)
  proof (cases rule: tanc_lastE)
    case above
    then show ?thesis using tanc_le [OF num above(2)] p(1) w that(1) by simp
  qed
  have "least_on par S' (par w) w (L w)"
    using forest_unlinked [OF f w(2)] p only by (auto simp: least_on_def)
  moreover have "\<exists>a. A x = Some a \<and> a < x \<and> tanc par a x \<and> (\<forall>u. a < u \<and> tanc par u x \<longrightarrow> w \<le> u) \<and> least_on par S' a x (L x)"
    if "x < m" "w < x" for x
  proof -
    have "Suc w \<le> x" using that by simp
    from forest_linked [OF f \<open>x < m\<close> this]
    obtain a where a: "A x = Some a" "a < x" "tanc par a x" "\<And>u. a < u \<Longrightarrow> tanc par u x \<Longrightarrow> Suc w \<le> u" "least_on par S a x (L x)"
      by blast
    have "Suc w \<le> L x" using forest_label(3) [OF num f \<open>x < m\<close>] that by simp
    then have "least_on par S' a x (L x)" using a(4,5) S by (auto simp: least_on_def Suc_le_eq)
    then show ?thesis using a by (meson Suc_leD)
  qed
  ultimately show ?thesis
    using p only forest_unlinked [OF f] unfolding forest_def by (auto simp: le_less)
qed

lemma forest_cong:
  assumes "numbering m par E" "\<And>i. k \<le> i \<Longrightarrow> S i = S' i" "forest m par S k A L"
  shows "forest m par S' k A L"
  unfolding forest_def
proof (intro conjI allI impI)
  fix x assume x: "x < m" "k \<le> x"
  then obtain a where a: "A x = Some a" "a < x" "tanc par a x" "\<And>u. a < u \<Longrightarrow> tanc par u x \<Longrightarrow> k \<le> u" "least_on par S a x (L x)"
    using forest_linked [OF assms(3), of x] by blast
  then have "least_on par S' a x (L x)"
    using assms(2) forest_label(3) [OF assms(1,3) x(1)] x(2) by (auto simp: least_on_def)
  then show "\<exists>a. A x = Some a \<and> a < x \<and> tanc par a x \<and> (\<forall>u. a < u \<and> tanc par u x \<longrightarrow> k \<le> u) \<and> least_on par S' a x (L x)"
    using a by blast
qed (use assms(3) in \<open>simp_all add: forest_def\<close>)

lemma forest_eval:
  assumes "numbering m par E" "forest m par S k A L" "v < m" "k \<le> v" "A v = Some r" "r < k"
  shows "k \<le> L v" "tanc par (L v) v" "\<And>u. k \<le> u \<Longrightarrow> tanc par u v \<Longrightarrow> S (L v) \<le> S u"
  using forest_label [OF assms(1-3)] forest_linked [OF assms(2-4)] assms(4-6) by (fastforce simp: least_on_def)+

subsection \<open>Arrays indexed by nodes\<close>

text \<open>\<open>node_array V xs f\<close>: the array holds \<open>f i\<close> at the \<open>i\<close>-th node of \<open>V\<close>.\<close>

definition node_array :: "int list \<Rightarrow> 'a list \<Rightarrow> (nat \<Rightarrow> 'a) \<Rightarrow> bool" where
  "node_array V xs f \<longleftrightarrow> (\<forall>i < length V. xs ! nat (V ! i) = f i)"

definition node_list :: "nat \<Rightarrow> int list \<Rightarrow> bool" where
  "node_list n V \<longleftrightarrow> distinct V \<and> (\<forall>v \<in> set V. 0 \<le> v \<and> v \<le> int n)"

lemma node_list_nth:
  assumes "node_list n V" "i < length V"
  shows "0 \<le> V ! i \<and> V ! i < int (Suc n)"
proof -
  have "0 \<le> V ! i \<and> V ! i \<le> int n" using assms nth_mem [OF assms(2)] unfolding node_list_def by blast
  then show ?thesis by simp
qed

lemma node_list_length:
  assumes "node_list n V"
  shows "length V \<le> Suc n"
proof -
  have "card (set V) \<le> card {0..int n}" using assms by (intro card_mono) (auto simp: node_list_def)
  then show ?thesis using assms distinct_card [of V] by (simp add: node_list_def)
qed

lemma node_list_inj: "node_list n V \<Longrightarrow> i < length V \<Longrightarrow> j < length V \<Longrightarrow> V ! i = V ! j \<longleftrightarrow> i = j"
  by (simp add: node_list_def nth_eq_iff_index_eq)

lemma node_array_get:
  assumes "node_list n V" "length xs = Suc n" "node_array V xs f" "i < length V"
  shows "aget xs (V ! i) = Inr (f i)"
  using assms node_list_nth [OF assms(1,4)] by (simp add: aget_def node_array_def)

lemma node_array_set:
  assumes "node_list n V" "length xs = Suc n" "node_array V xs f" "i < length V"
  obtains xs' where "aset xs (V ! i) y = Inr xs'" "length xs' = Suc n" "node_array V xs' (f(i := y))"
    "\<And>z. z \<noteq> V ! i \<Longrightarrow> 0 \<le> z \<Longrightarrow> xs' ! nat z = xs ! nat z"
proof -
  have i: "0 \<le> V ! i" "V ! i < int (Suc n)" using node_list_nth [OF assms(1,4)] by auto
  have "nat (V ! i) = nat (V ! j) \<longleftrightarrow> i = j" if "j < length V" for j
    using node_list_inj [OF assms(1,4) that] node_list_nth [OF assms(1) that] i by auto
  then have "node_array V (xs[nat (V ! i) := y]) (f(i := y))"
    using assms(2,3) i by (auto simp: node_array_def nth_list_update)
  moreover have "aset xs (V ! i) y = Inr (xs[nat (V ! i) := y])" using i assms(2) by (simp add: aset_def)
  moreover have "xs[nat (V ! i) := y] ! nat z = xs ! nat z" if "z \<noteq> V ! i" "0 \<le> z" for z
    using that i by (metis eq_nat_nat_iff nth_list_update_neq)
  ultimately show ?thesis using that assms(2) by (metis length_list_update)
qed

subsection \<open>The forest in the arrays\<close>

definition dom_arrays :: "nat \<Rightarrow> Dom \<Rightarrow> bool" where
  "dom_arrays n d \<longleftrightarrow> node_list n (Vertex d) \<and> length (Idom d) = Suc n \<and> length (Retained d) = Suc n \<and>
     length (dfn d) = Suc n \<and> length (parent d) = Suc n \<and> length (semi d) = Suc n \<and> length (label d) = Suc n \<and>
     length (ancestor d) = Suc n \<and> length (bhead d) = Suc n \<and> length (bnext d) = Suc n"

definition node_ref :: "int list \<Rightarrow> nat option \<Rightarrow> int" where
  "node_ref V x = (case x of None \<Rightarrow> -1 | Some a \<Rightarrow> V ! a)"

definition forest_arrays :: "(nat \<Rightarrow> nat option) \<Rightarrow> (nat \<Rightarrow> nat) \<Rightarrow> (nat \<Rightarrow> nat) \<Rightarrow> Dom \<Rightarrow> bool" where
  "forest_arrays A L S d \<longleftrightarrow>
     node_array (Vertex d) (ancestor d) (\<lambda>i. node_ref (Vertex d) (A i)) \<and>
     node_array (Vertex d) (label d) (\<lambda>i. Vertex d ! L i) \<and>
     node_array (Vertex d) (semi d) (\<lambda>i. int (S i))"

text \<open>\<open>eval\<close> and \<open>compress\<close> change nothing but these two arrays.\<close>

definition same_but_forest :: "Dom \<Rightarrow> Dom \<Rightarrow> bool" where
  "same_but_forest d d' \<longleftrightarrow> d' = d\<lparr>label := label d', ancestor := ancestor d'\<rparr>"

lemma same_but_forest_refl [simp]: "same_but_forest d d"
  by (simp add: same_but_forest_def)

lemma same_but_forest_trans: "same_but_forest d d' \<Longrightarrow> same_but_forest d' d'' \<Longrightarrow> same_but_forest d d''"
  by (cases d; cases d'; cases d'') (simp add: same_but_forest_def)

lemma same_but_forestD:
  assumes "same_but_forest d d'"
  shows "DRoot d' = DRoot d" "Idom d' = Idom d" "Retained d' = Retained d" "Vertex d' = Vertex d" "dfn d' = dfn d"
    "parent d' = parent d" "semi d' = semi d" "bhead d' = bhead d" "bnext d' = bnext d"
  using assms by (cases d; cases d'; simp add: same_but_forest_def)+

lemma compress_node_ok:
  assumes d: "dom_arrays n d" and f: "forest_arrays A L S d"
    and x: "x < length (Vertex d)" "A x = Some a" "L x < length (Vertex d)"
    and a: "a < length (Vertex d)" "L a < length (Vertex d)"
  obtains d' where "compress_node (Vertex d ! x) d = Inr d'" "dom_arrays n d'" "same_but_forest d d'"
    "forest_arrays (A(x := A a)) (if S (L a) < S (L x) then L(x := L a) else L) S d'"
proof -
  let ?V = "Vertex d"
  have V: "node_list n ?V" and len: "length (semi d) = Suc n" "length (label d) = Suc n" "length (ancestor d) = Suc n"
    using d by (auto simp: dom_arrays_def)
  have arr: "node_array ?V (ancestor d) (\<lambda>i. node_ref ?V (A i))" "node_array ?V (label d) (\<lambda>i. ?V ! L i)"
      "node_array ?V (semi d) (\<lambda>i. int (S i))"
    using f by (auto simp: forest_arrays_def)
  note get = node_array_get [OF V len(1) arr(3)] node_array_get [OF V len(2) arr(2)] node_array_get [OF V len(3) arr(1)]
  obtain lab where lab: "(if S (L a) < S (L x) then aset (label d) (?V ! x) (?V ! L a) else Inr (label d)) = Inr lab"
      "length lab = Suc n" "node_array ?V lab (\<lambda>i. ?V ! (if S (L a) < S (L x) then L(x := L a) else L) i)"
  proof (cases "S (L a) < S (L x)")
    case True
    obtain xs where xs: "aset (label d) (?V ! x) (?V ! L a) = Inr xs" "length xs = Suc n"
        "node_array ?V xs ((\<lambda>i. ?V ! L i)(x := ?V ! L a))"
      using node_array_set [OF V len(2) arr(2) x(1)] by metis
    have "(\<lambda>i. ?V ! L i)(x := ?V ! L a) = (\<lambda>i. ?V ! (L(x := L a)) i)" by auto
    with xs True that show ?thesis by simp
  qed (use that len arr in simp)
  obtain anc where anc: "aset (ancestor d) (?V ! x) (node_ref ?V (A a)) = Inr anc" "length anc = Suc n"
      "node_array ?V anc ((\<lambda>i. node_ref ?V (A i))(x := node_ref ?V (A a)))"
    using node_array_set [OF V len(3) arr(1) x(1)] by metis
  have eq: "(\<lambda>i. node_ref ?V (A i))(x := node_ref ?V (A a)) = (\<lambda>i. node_ref ?V ((A(x := A a)) i))" by auto
  have "compress_node (?V ! x) d = Inr (d\<lparr>label := lab, ancestor := anc\<rparr>)"
    using x a lab(1) anc(1) by (simp add: compress_node_def get node_ref_def split: if_splits option.splits)
  moreover have "dom_arrays n (d\<lparr>label := lab, ancestor := anc\<rparr>)" using d lab anc by (simp add: dom_arrays_def)
  moreover have "forest_arrays (A(x := A a)) (if S (L a) < S (L x) then L(x := L a) else L) S (d\<lparr>label := lab, ancestor := anc\<rparr>)"
    using lab(3) anc(3) arr(3) unfolding eq forest_arrays_def by simp
  ultimately show ?thesis using that by (simp add: same_but_forest_def)
qed

subsection \<open>Path compression returns\<close>

text \<open>The state of the forest: the arrays represent a forest whose linked nodes are those from \<open>k\<close> on.\<close>

definition forest_state :: "nat \<Rightarrow> (nat \<Rightarrow> nat) \<Rightarrow> nat \<Rightarrow> (nat \<Rightarrow> nat) \<Rightarrow> Dom \<Rightarrow> bool" where
  "forest_state n par k S d \<longleftrightarrow> dom_arrays n d \<and>
     (\<exists>A L. forest_arrays A L S d \<and> forest (length (Vertex d)) par S k A L)"

lemma compress_path_append:
  "compress_path fuel anc u path = bind_ok (compress_path fuel anc u []) (\<lambda>p. Inr (path @ p))"
proof (induction fuel arbitrary: u path)
  case (Suc fuel)
  show ?case
  proof (cases "aget anc u")
    case (Inr a)
    note a = this
    show ?thesis
    proof (cases "aget anc a")
      case (Inr aa)
      show ?thesis using a Inr Suc [of a "path @ [u]"] Suc [of a "[u]"]
        by (cases "compress_path fuel anc a []") simp_all
    qed (use a in simp)
  qed simp
qed simp

lemma compress_ok:
  assumes num: "numbering m par E" and d: "dom_arrays n d" "m = length (Vertex d)"
    and f: "forest_arrays A L S d" "forest m par S k A L" and v: "k \<le> v" "v < m" "v < fuel"
  obtains path d' A' L' r where "compress_path fuel (ancestor d) (Vertex d ! v) [] = Inr path"
    "for_each compress_node (rev path) d = Inr d'" "same_but_forest d d'" "dom_arrays n d'"
    "forest_arrays A' L' S d'" "forest m par S k A' L'" "A' v = Some r" "r < k"
    "\<And>x. v < x \<Longrightarrow> A' x = A x \<and> L' x = L x"
  using v
proof (induction v arbitrary: fuel thesis rule: less_induct)
  case (less v)
  let ?V = "Vertex d"
  have V: "node_list n ?V" and len: "length (ancestor d) = Suc n"
    using d by (auto simp: dom_arrays_def)
  have arr: "node_array ?V (ancestor d) (\<lambda>i. node_ref ?V (A i))" using f by (auto simp: forest_arrays_def)
  from forest_linked [OF f(2) less.prems(3,2)]
  obtain a where a: "A v = Some a" "a < v" by blast
  have am: "a < m" using a less.prems by simp
  obtain fuel' where fuel: "fuel = Suc fuel'" "a < fuel'" using less.prems(4) a(2) by (cases fuel) auto
  have step: "compress_path fuel (ancestor d) (?V ! v) [] =
      (if a < k then Inr [] else bind_ok (compress_path fuel' (ancestor d) (?V ! a) []) (\<lambda>p. Inr (?V ! v # p)))"
  proof -
    have "aget (ancestor d) (?V ! v) = Inr (?V ! a)" "aget (ancestor d) (?V ! a) = Inr (node_ref ?V (A a))"
      using node_array_get [OF V len arr] less.prems(3) am a(1) d(2) by (auto simp: node_ref_def)
    moreover have "node_ref ?V (A a) \<noteq> -1 \<longleftrightarrow> k \<le> a"
    proof (cases "a < k")
      case False
      then obtain b where "A a = Some b" "b < a" using forest_linked [OF f(2) am] by (metis not_less)
      then show ?thesis using False am d(2) node_list_nth [OF V, of b] by (simp add: node_ref_def)
    qed (use forest_unlinked [OF f(2) am] in \<open>simp add: node_ref_def\<close>)
    ultimately show ?thesis
      using compress_path_append [of fuel' _ _ "[?V ! v]"] by (simp add: fuel)
  qed
  show ?case
  proof (cases "a < k")
    case True
    then show ?thesis
      using less.prems(1) [of "[]" d A L a] step f d(1) a(1) by simp
  next
    case False
    then obtain path d1 A1 L1 r where ih: "compress_path fuel' (ancestor d) (?V ! a) [] = Inr path"
        "for_each compress_node (rev path) d = Inr d1" "same_but_forest d d1" "dom_arrays n d1"
        "forest_arrays A1 L1 S d1" "forest m par S k A1 L1" "A1 a = Some r" "r < k"
        "\<And>x. a < x \<Longrightarrow> A1 x = A x \<and> L1 x = L x"
      using less.IH [OF a(2), of fuel'] am fuel(2) by (metis not_less)
    have V1: "Vertex d1 = ?V" using same_but_forestD [OF ih(3)] by simp
    have Av: "A1 v = Some a" using ih(9) a by simp
    have lab: "L1 v < length ?V" "L1 a < length ?V"
      using forest_label(1) [OF num ih(6)] less.prems(3) am d(2) by (meson le_less_trans)+
    obtain d2 where d2: "compress_node (?V ! v) d1 = Inr d2" "dom_arrays n d2" "same_but_forest d1 d2"
      "forest_arrays (A1(v := A1 a)) (if S (L1 a) < S (L1 v) then L1(v := L1 a) else L1) S d2"
      using compress_node_ok [OF ih(4,5), of v a] Av lab less.prems(3) am d(2) unfolding V1 by metis
    let ?A = "A1(v := A1 a)" and ?L = "if S (L1 a) < S (L1 v) then L1(v := L1 a) else L1"
    show ?thesis
    proof (rule less.prems(1) [of "?V ! v # path" d2 ?A ?L r])
      show "compress_path fuel (ancestor d) (?V ! v) [] = Inr (?V ! v # path)" using step ih(1) False by simp
      show "for_each compress_node (rev (?V ! v # path)) d = Inr d2" using ih(2) d2(1) by (simp add: for_each_append)
      show "same_but_forest d d2" using ih(3) d2(3) by (rule same_but_forest_trans)
      show "forest m par S k ?A ?L" using forest_compress [OF num ih(6) less.prems(3) Av ih(7)] ih(7) by simp
      show "?A x = A x \<and> ?L x = L x" if "v < x" for x using that ih(9) [of x] a(2) by simp
      show "forest_arrays ?A ?L S d2" by (rule d2(4))
    qed (use d2(2) ih in simp_all)
  qed
qed

lemma dom_eval_ok:
  assumes num: "numbering m par E" and m: "m = length (Vertex d)" and f: "forest_state n par k S d" and v: "v < m"
  obtains u d' where "dom_eval (Vertex d ! v) d = Inr (Vertex d ! u, d')" "same_but_forest d d'" "u < m"
    "forest_state n par k S d'" "v < k \<Longrightarrow> u = v"
    "k \<le> v \<Longrightarrow> k \<le> u \<and> tanc par u v \<and> (\<forall>z. k \<le> z \<and> tanc par z v \<longrightarrow> S u \<le> S z)"
proof -
  let ?V = "Vertex d"
  obtain A L where d: "dom_arrays n d" and A: "forest_arrays A L S d" "forest m par S k A L"
    using f m by (auto simp: forest_state_def)
  have V: "node_list n ?V" and len: "length (ancestor d) = Suc n" using d by (auto simp: dom_arrays_def)
  have arr: "node_array ?V (ancestor d) (\<lambda>i. node_ref ?V (A i))" using A by (auto simp: forest_arrays_def)
  have get: "aget (ancestor d) (?V ! v) = Inr (node_ref ?V (A v))" using node_array_get [OF V len arr] v m by simp
  show ?thesis
  proof (cases "v < k")
    case True
    then have "dom_eval (?V ! v) d = Inr (?V ! v, d)"
      using forest_unlinked [OF A(2) v] get by (simp add: dom_eval_def node_ref_def)
    then show ?thesis using that [of v d] f v True by simp
  next
    case False
    then have vk: "k \<le> v" by simp
    obtain a where a: "A v = Some a" "a < v" using forest_linked [OF A(2) v vk] by blast
    have "m \<le> Suc n" using node_list_length [OF V] m by simp
    then have "v < Suc (length (ancestor d))" using v len by simp
    from compress_ok [OF num d m A vk v this]
    obtain path d' A' L' r where c: "compress_path (Suc (length (ancestor d))) (ancestor d) (?V ! v) [] = Inr path"
      "for_each compress_node (rev path) d = Inr d'" "same_but_forest d d'" "dom_arrays n d'"
      "forest_arrays A' L' S d'" "forest m par S k A' L'" "A' v = Some r" "r < k" by metis
    have V': "Vertex d' = ?V" using same_but_forestD [OF c(3)] by simp
    have "aget (label d') (?V ! v) = Inr (?V ! L' v)"
      using node_array_get [of n ?V "label d'" "\<lambda>i. ?V ! L' i" v] V c(4,5) v m
      by (simp add: dom_arrays_def forest_arrays_def V')
    moreover have "node_ref ?V (A v) \<noteq> -1" using a v m node_list_nth [OF V, of a] by (simp add: node_ref_def)
    ultimately have "dom_eval (?V ! v) d = Inr (?V ! L' v, d')"
      using get c(1,2) by (simp add: dom_eval_def compress_def)
    moreover have "forest_state n par k S d'" using c(4-6) m V' by (auto simp: forest_state_def)
    moreover have "L' v < m" using forest_label(1) [OF num c(6) v] v by simp
    ultimately show ?thesis
      using that [of "L' v" d'] c(3) forest_eval [OF num c(6) v vk c(7,8)] False by blast
  qed
qed

end
