(* ===== verification/Dom_Dfs.thy ===== *)
theory Dom_Dfs
  imports Dom_Forest
begin

text \<open>
  The depth-first search of \<open>dom.go\<close>: it returns within its fuel, reaches exactly the nodes that are
  reachable from the roots, and leaves a numbering in the sense of \<open>Dom_Theory\<close>. The stack holds the open
  nodes with the number of children looked at; the invariant says that all numbers from an open node on
  belong to its subtree, which is what makes an edge to a larger number lead to a descendant.
\<close>

subsection \<open>The graph below the virtual root\<close>

definition kids :: "(nat \<times> nat) list \<Rightarrow> nat list \<Rightarrow> nat \<Rightarrow> int \<Rightarrow> int list" where
  "kids es roots n v = map int (if v = int n then roots else targets (nat v) es)"

text \<open>The graphs that \<open>BuildGraph\<close> returns: adjacency and roots as specified, counts below \<open>2 ^ 31\<close>.\<close>

definition dom_graph :: "Graph \<Rightarrow> (nat \<times> nat) list \<Rightarrow> nat list \<Rightarrow> nat \<Rightarrow> bool" where
  "dom_graph g es roots n \<longleftrightarrow> Graph_N g = n \<and> adjacency g es \<and> rooted g roots \<and> n < 2 ^ 31 \<and> length es < 2 ^ 31"

lemma targets_in: "w \<in> set (targets v es) \<longleftrightarrow> (v, w) \<in> set es"
  by (force simp: targets_def)

lemma length_targets_le: "length (targets v es) \<le> length es"
  by (simp add: targets_def)

lemma dom_graph_kids:
  assumes "dom_graph g es roots n" "0 \<le> v" "v \<le> int n"
  shows "\<And>w. w \<in> set (kids es roots n v) \<Longrightarrow> 0 \<le> w \<and> w < int n" "length (kids es roots n v) < 2 ^ 31"
    "DRoot d = int n \<Longrightarrow> dom_succ g d v = Inr (kids es roots n v)"
proof -
  have g: "Graph_N g = n" "adjacency g es" "Roots g = map int roots" "distinct roots" "\<And>r. r \<in> set roots \<Longrightarrow> r < n"
      "n < 2 ^ 31" "length es < 2 ^ 31"
    using assms(1) by (auto simp: dom_graph_def rooted_def)
  show "0 \<le> w \<and> w < int n" if "w \<in> set (kids es roots n v)" for w
    using that g(1,2,5) by (auto simp: kids_def targets_in adjacency_def split: if_splits)
  have "card (set roots) \<le> n" using card_mono [of "{..<n}" "set roots"] g(5) by auto
  then show "length (kids es roots n v) < 2 ^ 31"
    using g(4,6,7) length_targets_le [of "nat v" es] distinct_card [of roots] by (auto simp: kids_def)
  show "dom_succ g d v = Inr (kids es roots n v)" if "DRoot d = int n"
    using that g(1-3) assms(2,3) by (cases "v = int n") (auto simp: dom_succ_def kids_def adjacency_def dest: spec [of _ "nat v"])
qed

lemma dfs_fuel_eq:
  assumes "dom_graph g es roots n"
  shows "dfs_fuel g = (\<Sum>v \<in> {0..n}. Suc (length (kids es roots n (int v))))"
proof -
  have g: "Graph_N g = n" "adjacency g es" "Roots g = map int roots"
    using assms by (auto simp: dom_graph_def rooted_def)
  have "(\<Sum>v \<in> {0..<n}. Suc (length (kids es roots n (int v)))) = sum_list (map (\<lambda>i. Suc (out_degree g i)) [0..<n])"
    using g(1,2) unfolding sum_set_upt_conv_sum_list_nat [symmetric]
    by (intro sum.cong) (auto simp: kids_def out_degree_def adjacency_def)
  then show ?thesis
    using g(1,3) atLeastLessThanSuc_atLeastAtMost [of 0 n] by (simp add: dfs_fuel_def kids_def flip: atLeastLessThanSuc_atLeastAtMost)
qed

subsection \<open>Invariant\<close>

text \<open>How many children of number \<open>i\<close> have been looked at, given the open nodes with their counters.\<close>

definition looked :: "(nat \<times> nat) list \<Rightarrow> nat \<Rightarrow> nat \<Rightarrow> nat" where
  "looked fs deg i = (case map_of fs i of None \<Rightarrow> deg | Some c \<Rightarrow> c)"

definition dfs_inv ::
    "(nat \<times> nat) list \<Rightarrow> nat list \<Rightarrow> nat \<Rightarrow> (nat \<Rightarrow> nat) \<Rightarrow> Dom \<Rightarrow> (nat \<times> nat) list \<Rightarrow> bool" where
  "dfs_inv es roots n par d fs \<longleftrightarrow>
     dom_arrays n d \<and> DRoot d = int n \<and> Vertex d \<noteq> [] \<and> Vertex d ! 0 = int n \<and>
     node_array (Vertex d) (dfn d) int \<and> (\<forall>v \<le> n. int v \<notin> set (Vertex d) \<longrightarrow> dfn d ! v = -1) \<and>
     node_array (Vertex d) (parent d) (\<lambda>i. if i = 0 then -1 else Vertex d ! par i) \<and>
     (\<forall>i. 0 < i \<and> i < length (Vertex d) \<longrightarrow> par i < i \<and> tanc par (par i) (i - 1) \<and>
        Vertex d ! i \<in> set (kids es roots n (Vertex d ! par i))) \<and>
     sorted_wrt (>) (map fst fs) \<and>
     (\<forall>(s, c) \<in> set fs. s < length (Vertex d) \<and> c \<le> length (kids es roots n (Vertex d ! s)) \<and>
        (\<forall>i. s \<le> i \<and> i < length (Vertex d) \<longrightarrow> tanc par s i)) \<and>
     (\<forall>i < length (Vertex d). \<forall>j < looked fs (length (kids es roots n (Vertex d ! i))) i.
        \<exists>t < length (Vertex d). kids es roots n (Vertex d ! i) ! j = Vertex d ! t \<and> (i < t \<longrightarrow> tanc par i t))"

definition frames_of :: "int list \<Rightarrow> (nat \<times> nat) list \<Rightarrow> frames" where
  "frames_of V fs = map (\<lambda>(s, c). (V ! s, int c)) fs"

definition dfs_work :: "(int \<Rightarrow> int list) \<Rightarrow> nat \<Rightarrow> int list \<Rightarrow> (nat \<times> nat) list \<Rightarrow> nat" where
  "dfs_work K n V fs =
     (\<Sum>v \<in> {v. v \<le> n \<and> int v \<notin> set V}. Suc (length (K (int v)))) +
     sum_list (map (\<lambda>(s, c). Suc (length (K (V ! s))) - c) fs)"

lemma tanc_cong:
  assumes "\<And>i. 0 < i \<Longrightarrow> i < m \<Longrightarrow> par i < i \<and> par' i = par i" "tanc par u v" "v < m"
  shows "tanc par' u v"
  using assms(2,3)
proof (induction rule: tanc.induct)
  case (tanc_up v u)
  with assms(1) [of v] show ?case by (auto intro: tanc.tanc_up)
qed simp

lemma dfs_invD:
  assumes "dfs_inv es roots n par d fs"
  shows "dom_arrays n d" "DRoot d = int n" "Vertex d \<noteq> []" "Vertex d ! 0 = int n"
    "node_array (Vertex d) (dfn d) int" "\<And>v. v \<le> n \<Longrightarrow> int v \<notin> set (Vertex d) \<Longrightarrow> dfn d ! v = -1"
    "node_array (Vertex d) (parent d) (\<lambda>i. if i = 0 then -1 else Vertex d ! par i)"
    "\<And>i. 0 < i \<Longrightarrow> i < length (Vertex d) \<Longrightarrow> par i < i \<and> tanc par (par i) (i - 1) \<and>
        Vertex d ! i \<in> set (kids es roots n (Vertex d ! par i))"
    "sorted_wrt (>) (map fst fs)"
    "\<And>s c. (s, c) \<in> set fs \<Longrightarrow> s < length (Vertex d) \<and> c \<le> length (kids es roots n (Vertex d ! s))"
    "\<And>s c i. (s, c) \<in> set fs \<Longrightarrow> s \<le> i \<Longrightarrow> i < length (Vertex d) \<Longrightarrow> tanc par s i"
    "\<And>i j. i < length (Vertex d) \<Longrightarrow> j < looked fs (length (kids es roots n (Vertex d ! i))) i \<Longrightarrow>
        \<exists>t < length (Vertex d). kids es roots n (Vertex d ! i) ! j = Vertex d ! t \<and> (i < t \<longrightarrow> tanc par i t)"
  using assms unfolding dfs_inv_def by (simp_all, blast+)

lemma looked_Cons: "looked ((s, c) # fs) deg i = (if i = s then c else looked fs deg i)"
  by (simp add: looked_def)

lemma looked_fresh: "s \<notin> fst ` set fs \<Longrightarrow> looked fs deg s = deg"
  by (simp add: looked_def map_of_eq_None_iff [THEN iffD2])

lemma dfs_inv_pop:
  assumes inv: "dfs_inv es roots n par d ((s, c) # fs)" and c: "c = length (kids es roots n (Vertex d ! s))"
  shows "dfs_inv es roots n par d fs"
proof -
  note I = dfs_invD [OF inv]
  have s: "s \<notin> fst ` set fs" using I(9) by auto
  have "\<exists>t < length (Vertex d). kids es roots n (Vertex d ! i) ! j = Vertex d ! t \<and> (i < t \<longrightarrow> tanc par i t)"
    if "i < length (Vertex d)" "j < looked fs (length (kids es roots n (Vertex d ! i))) i" for i j
    using that I(12) [of i j] looked_fresh [OF s] c by (cases "i = s") (simp_all add: looked_Cons)
  then show ?thesis using inv unfolding dfs_inv_def by simp
qed

lemma dfs_inv_skip:
  assumes inv: "dfs_inv es roots n par d ((s, c) # fs)" and c: "c < length (kids es roots n (Vertex d ! s))"
    and t: "kids es roots n (Vertex d ! s) ! c \<in> set (Vertex d)"
  shows "dfs_inv es roots n par d ((s, Suc c) # fs)"
proof -
  note I = dfs_invD [OF inv]
  obtain t where t: "t < length (Vertex d)" "kids es roots n (Vertex d ! s) ! c = Vertex d ! t"
    using t by (metis in_set_conv_nth)
  have new: "s < t \<longrightarrow> tanc par s t" using I(11) [of s c t] t(1) by simp
  have "\<exists>t < length (Vertex d). kids es roots n (Vertex d ! i) ! j = Vertex d ! t \<and> (i < t \<longrightarrow> tanc par i t)"
    if "i < length (Vertex d)" "j < looked ((s, Suc c) # fs) (length (kids es roots n (Vertex d ! i))) i" for i j
  proof (cases "i = s \<and> j = c")
    case False
    then show ?thesis using that I(12) [of i j] by (auto simp: looked_Cons less_Suc_eq split: if_splits)
  qed (use t new in auto)
  then show ?thesis using inv c unfolding dfs_inv_def by simp
qed

lemma node_list_snoc: "node_list n V \<Longrightarrow> w \<notin> set V \<Longrightarrow> 0 \<le> w \<Longrightarrow> w \<le> int n \<Longrightarrow> node_list n (V @ [w])"
  by (auto simp: node_list_def)

lemma node_array_snoc:
  assumes "node_list n V" "w \<notin> set V" "0 \<le> w" "w \<le> int n" "length xs = Suc n" "node_array V xs f"
  obtains xs' where "aset xs w y = Inr xs'" "length xs' = Suc n" "node_array (V @ [w]) xs' (f(length V := y))"
    "\<And>v. int v \<noteq> w \<Longrightarrow> xs' ! v = xs ! v"
proof -
  have "nat w \<noteq> nat (V ! i)" if "i < length V" for i
    using that assms(2,3) node_list_nth [OF assms(1) that] by (metis eq_nat_nat_iff nth_mem)
  then have "xs[nat w := y] ! nat (V ! i) = f i" if "i < length V" for i
    using that assms(6) by (simp add: node_array_def)
  moreover have w: "nat w < length xs" using assms(4,5) by simp
  ultimately have "node_array (V @ [w]) (xs[nat w := y]) (f(length V := y))"
    using w by (auto simp: node_array_def nth_append less_Suc_eq)
  moreover have "aset xs w y = Inr (xs[nat w := y])" using assms by (simp add: aset_def)
  moreover have "xs[nat w := y] ! v = xs ! v" if "int v \<noteq> w" for v
    using that assms(3) by (metis int_nat_eq nth_list_update_neq)
  ultimately show ?thesis using that assms(5) by (metis length_list_update)
qed

lemma dfs_inv_push:
  assumes inv: "dfs_inv es roots n par d ((s, c) # fs)" and c: "c < length (kids es roots n (Vertex d ! s))"
    and w: "w = kids es roots n (Vertex d ! s) ! c" "w \<notin> set (Vertex d)"
    and m: "m = length (Vertex d)"
    and d': "d' = d\<lparr>dfn := dfn', parent := parent', Vertex := Vertex d @ [w]\<rparr>" "dom_arrays n d'"
    and dfn': "node_array (Vertex d @ [w]) dfn' (int(m := int m))" "\<And>v. int v \<noteq> w \<Longrightarrow> dfn' ! v = dfn d ! v"
    and parent': "node_array (Vertex d @ [w]) parent' ((\<lambda>i. if i = 0 then -1 else Vertex d ! par i)(m := Vertex d ! s))"
  shows "dfs_inv es roots n (par(m := s)) d' ((m, 0) # (s, Suc c) # fs)"
proof -
  note I = dfs_invD [OF inv]
  let ?V = "Vertex d" and ?par = "par(m := s)" and ?fs = "(m, 0) # (s, Suc c) # fs"
  have V': "Vertex d' = ?V @ [w]" "DRoot d' = int n" "dfn d' = dfn'" "parent d' = parent'" using d'(1) I(2) by simp_all
  have s: "s < m" "0 < m" using I(10) [of s c] I(3) m by auto
  have nth: "(?V @ [w]) ! i = ?V ! i" if "i < m" for i using that m by (simp add: nth_append)
  have last: "(?V @ [w]) ! m = w" using m by simp
  have keep: "tanc ?par u v" if "tanc par u v" "v < m" for u v
    using tanc_cong [OF _ that(1), of m ?par] that(2) I(8) m by simp
  have up: "tanc ?par u m" if "tanc par u s" for u
    using tanc_up [of m ?par u] keep [OF that] s by simp
  have opened: "s' \<le> s" if "(s', c') \<in> set ((s, c) # fs)" for s' c'
    using that I(9) by force
  have tree: "?par i < i \<and> tanc ?par (?par i) (i - 1) \<and> (?V @ [w]) ! i \<in> set (kids es roots n ((?V @ [w]) ! ?par i))"
    if "0 < i" "i < Suc m" for i
  proof (cases "i = m")
    case True
    then show ?thesis using I(11) [of s c "m - 1"] keep [of s "m - 1"] s m c w nth last by simp
  next
    case False
    then have i: "par i < i" "i < m" "tanc par (par i) (i - 1)" "?V ! i \<in> set (kids es roots n (?V ! par i))"
      using I(8) that m by auto
    have "tanc ?par (par i) (i - 1)" using keep [OF i(3)] i(2) by simp
    then show ?thesis using i nth by simp
  qed
  have sub: "tanc ?par s' i" if "(s', c') \<in> set ((s, c) # fs)" "s' \<le> i" "i < Suc m" for s' c' i
  proof (cases "i = m")
    case True
    then show ?thesis using up I(11) [OF that(1) opened [OF that(1)]] s m by simp
  next
    case False
    then show ?thesis using keep I(11) [OF that(1,2)] that(3) m by simp
  qed
  have stack: "s' < Suc m \<and> c' \<le> length (kids es roots n ((?V @ [w]) ! s')) \<and> (\<forall>i. s' \<le> i \<and> i < Suc m \<longrightarrow> tanc ?par s' i)"
    if "(s', c') \<in> set ?fs" for s' c'
    using that I(10) [of s' c'] sub [of s' _] c m s nth by (auto simp: le_less_Suc_eq)
  have edges: "\<exists>t < Suc m. kids es roots n ((?V @ [w]) ! i) ! j = (?V @ [w]) ! t \<and> (i < t \<longrightarrow> tanc ?par i t)"
    if i: "i < Suc m" and j: "j < looked ?fs (length (kids es roots n ((?V @ [w]) ! i))) i" for i j
  proof -
    consider "i < m" "i = s \<and> j = c" | "i < m" "j < looked ((s, c) # fs) (length (kids es roots n (?V ! i))) i"
      using i j nth by (auto simp: looked_Cons less_Suc_eq split: if_splits)
    then show ?thesis
    proof cases
      case 1
      then show ?thesis using nth last w up [of s] by (intro exI [of _ m]) auto
    next
      case 2
      then obtain t where "t < m" "kids es roots n (?V ! i) ! j = ?V ! t" "i < t \<longrightarrow> tanc par i t" using I(12) [of i j] m by auto
      then show ?thesis using keep nth 2(1) by (intro exI [of _ t]) auto
    qed
  qed
  have order: "sorted_wrt (>) (map fst ?fs)" using I(9,10) s(1) m by (fastforce simp: I)
  have "(int(m := int m)) = int" by auto
  then have arr1: "node_array (?V @ [w]) dfn' int" using dfn'(1) by simp
  have "((\<lambda>i. if i = 0 then -1 else ?V ! par i)(m := ?V ! s)) i = (if i = 0 then -1 else (?V @ [w]) ! ?par i)"
    if "i < Suc m" for i
    using that I(8) [of i] nth [of "par i"] nth [OF s(1)] s m by (auto simp: less_Suc_eq)
  then have arr2: "node_array (?V @ [w]) parent' (\<lambda>i. if i = 0 then -1 else (?V @ [w]) ! ?par i)"
    using parent' m unfolding node_array_def by simp
  have unseen: "dfn' ! v = -1" if "v \<le> n" "int v \<notin> set (?V @ [w])" for v
    using dfn'(2) [of v] I(6) [of v] that by simp
  have A: "\<forall>i. 0 < i \<and> i < Suc m \<longrightarrow> ?par i < i \<and> tanc ?par (?par i) (i - 1) \<and>
        (?V @ [w]) ! i \<in> set (kids es roots n ((?V @ [w]) ! ?par i))"
    and B: "\<forall>(s', c') \<in> set ?fs. s' < Suc m \<and> c' \<le> length (kids es roots n ((?V @ [w]) ! s')) \<and>
        (\<forall>i. s' \<le> i \<and> i < Suc m \<longrightarrow> tanc ?par s' i)"
    and C: "\<forall>i < Suc m. \<forall>j < looked ?fs (length (kids es roots n ((?V @ [w]) ! i))) i.
        \<exists>t < Suc m. kids es roots n ((?V @ [w]) ! i) ! j = (?V @ [w]) ! t \<and> (i < t \<longrightarrow> tanc ?par i t)"
    and D: "\<forall>v \<le> n. int v \<notin> set (?V @ [w]) \<longrightarrow> dfn' ! v = -1"
    and ne: "?V @ [w] \<noteq> []" and root: "(?V @ [w]) ! 0 = int n" and len: "length (?V @ [w]) = Suc m"
    using tree stack edges unseen nth [of 0] s(2) I(4) m by (blast, blast, blast, blast, simp_all)
  show ?thesis
    unfolding dfs_inv_def V' len by (intro conjI d'(2) refl arr1 arr2 A B C D order ne root)
qed

subsection \<open>Progress\<close>

lemma frames_of_snoc:
  assumes "\<forall>x \<in> set fs. fst x < length V"
  shows "frames_of (V @ [w]) fs = frames_of V fs"
  using assms unfolding frames_of_def by (auto simp: nth_append)

lemma dfs_work_push:
  assumes "w \<notin> set V" "0 \<le> w" "w \<le> int n" "\<forall>x \<in> set fs. fst x < length V"
  shows "dfs_work K n (V @ [w]) ((length V, 0) # fs) = dfs_work K n V fs"
proof -
  let ?U = "{v. v \<le> n \<and> int v \<notin> set V}" and ?f = "\<lambda>v. Suc (length (K (int v)))"
  have w: "nat w \<in> ?U" "{v. v \<le> n \<and> int v \<notin> set (V @ [w])} = ?U - {nat w}" using assms by auto
  have "sum ?f ?U = ?f (nat w) + sum ?f (?U - {nat w})" by (rule sum.remove [OF _ w(1)]) simp
  moreover have "sum_list (map (\<lambda>(s, c). Suc (length (K ((V @ [w]) ! s))) - c) fs) =
      sum_list (map (\<lambda>(s, c). Suc (length (K (V ! s))) - c) fs)"
    using assms(4) by (intro arg_cong [of _ _ sum_list] map_cong) (auto simp: nth_append)
  ultimately show ?thesis unfolding dfs_work_def w(2) using assms(2) by simp
qed

definition same_but_dfs :: "Dom \<Rightarrow> Dom \<Rightarrow> bool" where
  "same_but_dfs d d' \<longleftrightarrow> d' = d\<lparr>dfn := dfn d', parent := parent d', Vertex := Vertex d'\<rparr>"

lemma same_but_dfs_refl [simp]: "same_but_dfs d d"
  by (simp add: same_but_dfs_def)

lemma same_but_dfs_trans: "same_but_dfs d d' \<Longrightarrow> same_but_dfs d' d'' \<Longrightarrow> same_but_dfs d d''"
  by (cases d; cases d'; cases d'') (simp add: same_but_dfs_def)

lemma same_but_dfsD:
  assumes "same_but_dfs d d'"
  shows "DRoot d' = DRoot d" "Idom d' = Idom d" "Retained d' = Retained d" "semi d' = semi d"
    "label d' = label d" "ancestor d' = ancestor d" "bhead d' = bhead d" "bnext d' = bnext d"
  using assms by (cases d; cases d'; simp add: same_but_dfs_def)+

lemma dfs_step_ok:
  assumes g: "dom_graph g es roots n" and inv: "dfs_inv es roots n par d (f # fs)"
  obtains par' d' fs' where "dfs_step g (d, frames_of (Vertex d) (f # fs)) = Inr (d', frames_of (Vertex d') fs')"
    "dfs_inv es roots n par' d' fs'" "same_but_dfs d d'"
    "dfs_work (kids es roots n) n (Vertex d') fs' < dfs_work (kids es roots n) n (Vertex d) (f # fs)"
proof -
  let ?V = "Vertex d" and ?K = "kids es roots n"
  obtain s c where f: "f = (s, c)" by fastforce
  note I = dfs_invD [OF inv [unfolded f]]
  have V: "node_list n ?V" and len: "length (dfn d) = Suc n" "length (parent d) = Suc n"
    using I(1) by (auto simp: dom_arrays_def)
  have s: "s < length ?V" "c \<le> length (?K (?V ! s))" using I(10) by auto
  have rng: "\<forall>x \<in> set ((s, Suc c) # fs). fst x < length ?V" using I(10) by fastforce
  have v: "0 \<le> ?V ! s" "?V ! s \<le> int n" using node_list_nth [OF V s(1)] by auto
  note K = dom_graph_kids [OF g v]
  have succ: "dom_succ g d (?V ! s) = Inr (?K (?V ! s))" using K(3) I(2) by simp
  show ?thesis
  proof (cases "c = length (?K (?V ! s))")
    case True
    show ?thesis
    proof (rule that [of d fs par])
      show "dfs_step g (d, frames_of ?V (f # fs)) = Inr (d, frames_of ?V fs)"
        using True succ f by (simp add: frames_of_def)
      show "dfs_inv es roots n par d fs" using dfs_inv_pop inv True f by blast
    qed (simp_all add: dfs_work_def f True)
  next
    case False
    then have c: "c < length (?K (?V ! s))" using s(2) by simp
    define w where "w = ?K (?V ! s) ! c"
    have w: "0 \<le> w" "w < int n" using K(1) c by (auto simp: w_def)
    have cnt: "int32 (int c + 1) = int (Suc c)" using c K(2) by (simp add: int32_id)
    have head: "dfs_work ?K n ?V ((s, Suc c) # fs) < dfs_work ?K n ?V (f # fs)" using c f by (simp add: dfs_work_def)
    show ?thesis
    proof (cases "w \<in> set ?V")
      case True
      then obtain t where "t < length ?V" "w = ?V ! t" by (metis in_set_conv_nth)
      then have "aget (dfn d) w = Inr (int t)" using node_array_get [OF V len(1) I(5)] by simp
      then have "dfs_step g (d, frames_of ?V (f # fs)) = Inr (d, frames_of ?V ((s, Suc c) # fs))"
        using f c succ cnt by (simp add: frames_of_def w_def)
      then show ?thesis
        using that dfs_inv_skip [OF inv [unfolded f] c] True head by (simp add: w_def)
    next
      case new: False
      obtain dfn' where d1: "aset (dfn d) w (int (length ?V)) = Inr dfn'" "length dfn' = Suc n"
          "node_array (?V @ [w]) dfn' (int(length ?V := int (length ?V)))" "\<And>v. int v \<noteq> w \<Longrightarrow> dfn' ! v = dfn d ! v"
        using node_array_snoc [OF V new w(1) less_imp_le [OF w(2)] len(1) I(5), where y = "int (length ?V)"] by blast
      obtain parent' where d2: "aset (parent d) w (?V ! s) = Inr parent'" "length parent' = Suc n"
          "node_array (?V @ [w]) parent' ((\<lambda>i. if i = 0 then -1 else ?V ! par i)(length ?V := ?V ! s))"
        using node_array_snoc [OF V new w(1) less_imp_le [OF w(2)] len(2) I(7), where y = "?V ! s"] by blast
      have "length ?V \<le> n" using node_list_length [OF node_list_snoc [OF V new w(1)]] w(2) by simp
      then have num: "int32 (int (length ?V)) = int (length ?V)"
        using g by (intro int32_id) (auto simp: dom_graph_def)
      have "aget (dfn d) w = Inr (-1)"
        using I(6) [of "nat w"] w new len by (simp add: aget_def)
      then have step: "dfs_step g (d, frames_of ?V (f # fs)) = Inr (d\<lparr>dfn := dfn', parent := parent', Vertex := ?V @ [w]\<rparr>,
          (w, 0) # frames_of ?V ((s, Suc c) # fs))"
        using f c succ cnt num d1(1) d2(1) by (simp add: frames_of_def w_def [symmetric])
      define d' where "d' = d\<lparr>dfn := dfn', parent := parent', Vertex := ?V @ [w]\<rparr>"
      have "dom_arrays n d'"
        using I(1) d1(2) d2(2) node_list_snoc [OF V new w(1)] w(2) by (simp add: dom_arrays_def d'_def)
      from dfs_inv_push [OF inv [unfolded f] c w_def new refl d'_def this d1(3,4) d2(3)]
      have "dfs_inv es roots n (par(length ?V := s)) d' ((length ?V, 0) # (s, Suc c) # fs)" .
      moreover have "frames_of (?V @ [w]) ((length ?V, 0) # (s, Suc c) # fs) = (w, 0) # frames_of ?V ((s, Suc c) # fs)"
        using frames_of_snoc [OF rng, where w = w] by (simp add: frames_of_def)
      ultimately show ?thesis
        using that [of d' "(length ?V, 0) # (s, Suc c) # fs"] step head
          dfs_work_push [OF new w(1) less_imp_le [OF w(2)] rng] by (simp add: d'_def same_but_dfs_def)
    qed
  qed
qed

lemma dfs_loop_ok:
  assumes g: "dom_graph g es roots n" and inv: "dfs_inv es roots n par d fs"
    and fuel: "dfs_work (kids es roots n) n (Vertex d) fs \<le> fuel"
  obtains par' d' where "dfs_loop fuel g (d, frames_of (Vertex d) fs) = Inr d'"
    "dfs_inv es roots n par' d' []" "same_but_dfs d d'"
  using inv fuel
proof (induction fuel arbitrary: par d fs thesis)
  case 0
  have "fs = []"
  proof (cases fs)
    case (Cons f fs')
    then obtain s c where "f = (s, c)" by fastforce
    then show ?thesis using 0(3) dfs_invD(10) [OF 0(2), of s c] Cons by (simp add: dfs_work_def)
  qed
  with 0 show ?case by (simp add: frames_of_def)
next
  case (Suc fuel)
  show ?case
  proof (cases fs)
    case Nil
    then show ?thesis using Suc by (simp add: frames_of_def)
  next
    case (Cons f fs')
    obtain par1 d1 fs1 where st: "dfs_step g (d, frames_of (Vertex d) (f # fs')) = Inr (d1, frames_of (Vertex d1) fs1)"
        "dfs_inv es roots n par1 d1 fs1" "same_but_dfs d d1"
        "dfs_work (kids es roots n) n (Vertex d1) fs1 < dfs_work (kids es roots n) n (Vertex d) (f # fs')"
      using dfs_step_ok [OF g Suc.prems(2) [unfolded Cons]] by metis
    then obtain par' d' where "dfs_loop fuel g (d1, frames_of (Vertex d1) fs1) = Inr d'"
        "dfs_inv es roots n par' d' []" "same_but_dfs d1 d'"
      using Suc.IH [OF _ st(2)] Suc.prems(3) Cons by (metis Suc_leI Suc_le_mono order_trans)
    then show ?thesis
      using Suc.prems(1) [of d' par'] st(1) same_but_dfs_trans [OF st(3)] Cons by (simp add: frames_of_def)
  qed
qed

subsection \<open>The whole search\<close>

text \<open>The edges of the reached part of the graph, on numbers.\<close>

definition num_edge :: "(nat \<times> nat) list \<Rightarrow> nat list \<Rightarrow> nat \<Rightarrow> int list \<Rightarrow> nat \<Rightarrow> nat \<Rightarrow> bool" where
  "num_edge es roots n V i j \<longleftrightarrow> i < length V \<and> j < length V \<and> V ! j \<in> set (kids es roots n (V ! i))"

lemma dfs_done_closed:
  assumes "dfs_inv es roots n par d []" "i < length (Vertex d)" "w \<in> set (kids es roots n (Vertex d ! i))"
  obtains t where "t < length (Vertex d)" "w = Vertex d ! t" "i < t \<longrightarrow> tanc par i t"
proof -
  obtain j where "j < length (kids es roots n (Vertex d ! i))" "w = kids es roots n (Vertex d ! i) ! j"
    using assms(3) by (metis in_set_conv_nth)
  then show ?thesis using dfs_invD(12) [OF assms(1,2), of j] that by (auto simp: looked_def)
qed

lemma dfs_numbering:
  assumes "dfs_inv es roots n par d []"
  shows "numbering (length (Vertex d)) par (num_edge es roots n (Vertex d))"
  unfolding numbering_def
proof (intro conjI allI impI)
  note I = dfs_invD [OF assms]
  fix i assume i: "0 < i \<and> i < length (Vertex d)"
  then show "par i < i" "tanc par (par i) (i - 1)" "num_edge es roots n (Vertex d) (par i) i"
    using I(8) [of i] by (auto simp: num_edge_def)
next
  have V: "node_list n (Vertex d)" using dfs_invD(1) [OF assms] by (simp add: dom_arrays_def)
  fix u v assume uv: "num_edge es roots n (Vertex d) u v"
  then show "u < length (Vertex d)" "v < length (Vertex d)" by (auto simp: num_edge_def)
  assume "u < v"
  obtain t where "t < length (Vertex d)" "Vertex d ! v = Vertex d ! t" "u < t \<longrightarrow> tanc par u t"
    using dfs_done_closed [OF assms, of u "Vertex d ! v"] uv unfolding num_edge_def by blast
  then show "tanc par u v" using \<open>u < v\<close> uv node_list_inj [OF V] by (auto simp: num_edge_def)
qed

lemma set_semi_ok:
  assumes "dom_arrays n d" "n < 2 ^ 31" "k \<le> length (Vertex d)"
  obtains xs where "for_each set_semi [0..<k] d = Inr (d\<lparr>semi := xs\<rparr>)" "length xs = Suc n"
    "\<And>i. i < k \<Longrightarrow> xs ! nat (Vertex d ! i) = int i"
  using assms(3)
proof (induction k arbitrary: thesis)
  case 0
  show ?case by (rule 0(1) [of "semi d"]) (use assms(1) in \<open>simp_all add: dom_arrays_def\<close>)
next
  case (Suc k)
  have V: "node_list n (Vertex d)" using assms(1) by (simp add: dom_arrays_def)
  obtain xs where xs: "for_each set_semi [0..<k] d = Inr (d\<lparr>semi := xs\<rparr>)" "length xs = Suc n"
    "\<And>i. i < k \<Longrightarrow> xs ! nat (Vertex d ! i) = int i" using Suc by (metis Suc_leD)
  have k: "int32 (int k) = int k"
    using Suc.prems(2) assms(2) node_list_length [OF V] by (intro int32_id) auto
  have arr: "node_array (Vertex d) xs (\<lambda>i. xs ! nat (Vertex d ! i))" by (simp add: node_array_def)
  obtain ys where ys: "aset xs (Vertex d ! k) (int k) = Inr ys" "length ys = Suc n"
      "node_array (Vertex d) ys ((\<lambda>i. xs ! nat (Vertex d ! i))(k := int k))"
    using node_array_set [OF V xs(2) arr Suc_le_lessD [OF Suc.prems(2)], where y = "int k"] by blast
  have "for_each set_semi [0..<Suc k] d = Inr (d\<lparr>semi := ys\<rparr>)"
    using xs(1) ys(1) k Suc.prems(2) by (simp add: for_each_append set_semi_def)
  moreover have "ys ! nat (Vertex d ! i) = int i" if "i < Suc k" for i
    using that ys(3) xs(3) [of i] Suc.prems(2) by (auto simp: node_array_def)
  ultimately show ?case using Suc.prems(1) ys(2) by blast
qed

definition dfs_result :: "Graph \<Rightarrow> (nat \<times> nat) list \<Rightarrow> nat list \<Rightarrow> nat \<Rightarrow> (nat \<Rightarrow> nat) \<Rightarrow> Dom \<Rightarrow> bool" where
  "dfs_result g es roots n par d \<longleftrightarrow> dfs_inv es roots n par d [] \<and>
     forest_state n par (length (Vertex d)) (\<lambda>i. i) d \<and>
     Idom d = replicate (n + 1) (-1) \<and> Retained d = replicate (n + 1) 0 \<and>
     bhead d = replicate (n + 1) (-1) \<and> bnext d = replicate (n + 1) (-1)"

lemma dfs_inv_start:
  assumes "dom_graph g es roots n" "d = new_dom n"
    and "d' = d\<lparr>dfn := (dfn d)[n := 0], Vertex := [int n]\<rparr>"
  shows "dfs_inv es roots n par d' [(0, 0)]" "dfs_work (kids es roots n) n (Vertex d') [(0, 0)] = dfs_fuel g"
proof -
  have n: "n < 2 ^ 31" using assms(1) by (simp add: dom_graph_def)
  have D: "Vertex d' = [int n]" "DRoot d' = int n" "dfn d' = (replicate (n + 1) (-1))[n := 0]"
      "parent d' = replicate (n + 1) (-1)" "dom_arrays n d'"
    using n by (simp_all add: assms(2,3) new_dom_def int32_id dom_arrays_def node_list_def del: replicate_Suc)
  then show "dfs_inv es roots n par d' [(0, 0)]"
    by (auto simp: dfs_inv_def node_array_def looked_def nth_list_update nth_append simp del: replicate_Suc)
  let ?f = "\<lambda>v. Suc (length (kids es roots n (int v)))"
  have "{v. v \<le> n \<and> int v \<notin> set [int n]} = {0..n} - {n}" by auto
  moreover have "sum ?f {0..n} = ?f n + sum ?f ({0..n} - {n})" by (rule sum.remove) simp_all
  ultimately show "dfs_work (kids es roots n) n (Vertex d') [(0, 0)] = dfs_fuel g"
    unfolding dfs_fuel_eq [OF assms(1)] dfs_work_def D(1) by simp
qed

lemma dfs_inv_semi:
  assumes "dfs_inv es roots n par d fs" "length xs = Suc n"
  shows "dfs_inv es roots n par (d\<lparr>semi := xs\<rparr>) fs"
  using assms by (simp add: dfs_inv_def dom_arrays_def cong: if_cong)

theorem dom_dfs_ok:
  assumes g: "dom_graph g es roots n"
  obtains par d where "dom_dfs g = Inr d" "dfs_result g es roots n par d"
proof -
  have N: "Graph_N g = n" "n < 2 ^ 31" using g by (auto simp: dom_graph_def)
  define d0 where "d0 = (new_dom n)\<lparr>dfn := (dfn (new_dom n))[n := 0], Vertex := [int n]\<rparr>"
  note start = dfs_inv_start [OF g refl d0_def]
  obtain par d1 where d1: "dfs_loop (dfs_fuel g) g (d0, frames_of (Vertex d0) [(0, 0)]) = Inr d1"
      "dfs_inv es roots n par d1 []" "same_but_dfs d0 d1"
    using dfs_loop_ok [OF g start(1)] start(2) by (metis order_refl)
  note I = dfs_invD [OF d1(2)] and S = same_but_dfsD [OF d1(3)]
  let ?V = "Vertex d1"
  obtain xs where xs: "for_each set_semi [0..<length ?V] d1 = Inr (d1\<lparr>semi := xs\<rparr>)" "length xs = Suc n"
      "\<And>i. i < length ?V \<Longrightarrow> xs ! nat (?V ! i) = int i"
    using set_semi_ok [OF I(1) N(2) order_refl] by metis
  let ?d = "d1\<lparr>semi := xs\<rparr>"
  have root: "int32 (int n) = int n" using N(2) by (intro int32_id) auto
  have "dom_dfs g = Inr ?d"
    using d1(1) xs(1) by (simp add: dom_dfs_def N(1) new_dom_def root aset_def frames_of_def d0_def del: replicate_Suc upt_Suc)
  moreover have inv: "dfs_inv es roots n par ?d []"
    using d1(2) xs(2) by (rule dfs_inv_semi)
  moreover have "forest_state n par (length ?V) (\<lambda>i. i) ?d"
  proof -
    have "nat (?V ! i) < Suc n \<and> int (nat (?V ! i)) = ?V ! i" if "i < length ?V" for i
      using I(1) node_list_nth [of n ?V i] that by (auto simp: dom_arrays_def)
    moreover have "int32 (?V ! i) = ?V ! i" if "i < length ?V" for i
      using I(1) node_list_nth [of n ?V i] that N(2) by (intro int32_id) (auto simp: dom_arrays_def)
    ultimately have "forest_arrays (\<lambda>_. None) (\<lambda>i. i) (\<lambda>i. i) ?d"
      using xs(3) by (auto simp: forest_arrays_def node_array_def node_ref_def S d0_def new_dom_def
          simp del: replicate_Suc upt_Suc)
    moreover have "dom_arrays n ?d" using dfs_invD(1) [OF inv] .
    ultimately show ?thesis by (fastforce simp: forest_state_def forest_def)
  qed
  ultimately show ?thesis
    using that [of ?d par] by (simp add: dfs_result_def S d0_def new_dom_def)
qed

end
