(* ===== verification/Dom_Loop.thy ===== *)
theory Dom_Loop
  imports Dom_Dfs
begin

text \<open>
  The main loop of \<open>Dominators\<close> in \<open>dom.go\<close>: semidominators from the predecessors, the buckets as linked
  lists in \<open>bhead\<close> and \<open>bnext\<close>, and the first assignment of \<open>Idom\<close>. The invariant \<open>lt_inv\<close> after the
  numbers from \<open>k\<close> on have been processed: their semidominators are final, they are linked, and each of
  them either has a relative dominator in \<open>Idom\<close> or waits in the bucket of its semidominator. It is
  settled as soon as the child of the semidominator above it has been processed.
\<close>

subsection \<open>Semidominators\<close>

text \<open>The values of \<open>semi\<close> when the numbers from \<open>k\<close> on are processed.\<close>

definition semi_at :: "(nat \<Rightarrow> nat \<Rightarrow> bool) \<Rightarrow> nat \<Rightarrow> nat \<Rightarrow> nat" where
  "semi_at E k i = (if k \<le> i then sdom E i else i)"

text \<open>The predecessor \<open>j\<close> of \<open>k\<close> has been taken into account.\<close>

definition covers :: "(nat \<Rightarrow> nat) \<Rightarrow> (nat \<Rightarrow> nat \<Rightarrow> bool) \<Rightarrow> nat \<Rightarrow> nat \<Rightarrow> nat \<Rightarrow> bool" where
  "covers par E k s j \<longleftrightarrow> (j < k \<longrightarrow> s \<le> j) \<and> (\<forall>z. k < z \<and> tanc par z j \<longrightarrow> s \<le> sdom E z)"

lemma covers_mono: "covers par E k s j \<Longrightarrow> s' \<le> s \<Longrightarrow> covers par E k s' j"
  by (fastforce simp: covers_def)

lemma covers_sdom:
  assumes "numbering m par E" "0 < k" "k < m" "sdom E k \<le> s" "\<And>j. E j k \<Longrightarrow> covers par E k s j"
  shows "s = sdom E k"
proof (rule antisym)
  from assms(1-3) show "s \<le> sdom E k"
  proof (cases rule: sdom_attained)
    case (1 v)
    then show ?thesis using assms(5) [of v] by (simp add: covers_def)
  next
    case (2 u v)
    then have "s \<le> sdom E u" using assms(5) [of v] by (auto simp: covers_def)
    with 2 show ?thesis by simp
  qed
qed (rule assms(4))

definition same_but_semi :: "Dom \<Rightarrow> Dom \<Rightarrow> bool" where
  "same_but_semi d d' \<longleftrightarrow> d' = d\<lparr>label := label d', ancestor := ancestor d', semi := semi d'\<rparr>"

lemma same_but_semi_refl [simp]: "same_but_semi d d"
  by (simp add: same_but_semi_def)

lemma same_but_semi_trans: "same_but_semi d d' \<Longrightarrow> same_but_semi d' d'' \<Longrightarrow> same_but_semi d d''"
  by (cases d; cases d'; cases d'') (simp add: same_but_semi_def)

lemma same_but_semiD:
  assumes "same_but_semi d d'"
  shows "DRoot d' = DRoot d" "Idom d' = Idom d" "Retained d' = Retained d" "Vertex d' = Vertex d" "dfn d' = dfn d"
    "parent d' = parent d" "bhead d' = bhead d" "bnext d' = bnext d"
  using assms by (cases d; cases d'; simp add: same_but_semi_def)+

lemma same_but_forest_semi: "same_but_forest d d' \<Longrightarrow> same_but_semi d d'"
  by (cases d; cases d') (simp add: same_but_semi_def same_but_forest_def)

text \<open>Lowering the semidominator number of the node in work, which is not linked.\<close>

lemma set_semi_value:
  assumes num: "numbering (length (Vertex d)) par E" and f: "forest_state n par (Suc k) S d" and k: "k < length (Vertex d)"
  obtains xs where "aset (semi d) (Vertex d ! k) (int s) = Inr xs" "forest_state n par (Suc k) (S(k := s)) (d\<lparr>semi := xs\<rparr>)"
proof -
  obtain A L where d: "dom_arrays n d" and A: "forest_arrays A L S d" "forest (length (Vertex d)) par S (Suc k) A L"
    using f by (auto simp: forest_state_def)
  have V: "node_list n (Vertex d)" "length (semi d) = Suc n" using d by (auto simp: dom_arrays_def)
  have arr: "node_array (Vertex d) (semi d) (\<lambda>i. int (S i))" using A by (auto simp: forest_arrays_def)
  obtain xs where xs: "aset (semi d) (Vertex d ! k) (int s) = Inr xs" "length xs = Suc n"
      "node_array (Vertex d) xs ((\<lambda>i. int (S i))(k := int s))"
    using node_array_set [OF V arr k, where y = "int s"] by blast
  have "(\<lambda>i. int (S i))(k := int s) = (\<lambda>i. int ((S(k := s)) i))" by auto
  then have "forest_arrays A L (S(k := s)) (d\<lparr>semi := xs\<rparr>)" using A(1) xs(3) by (simp add: forest_arrays_def)
  moreover have "forest (length (Vertex d)) par (S(k := s)) (Suc k) A L"
    by (rule forest_cong [OF num _ A(2)]) simp
  moreover have "dom_arrays n (d\<lparr>semi := xs\<rparr>)" using d xs(2) by (simp add: dom_arrays_def)
  ultimately show ?thesis using that xs(1) unfolding forest_state_def by auto
qed

lemma forest_state_semi:
  assumes "forest_state n par k S d" "i < length (Vertex d)"
  shows "aget (semi d) (Vertex d ! i) = Inr (int (S i))"
  using assms node_array_get [of n "Vertex d" "semi d" "\<lambda>i. int (S i)" i]
  by (auto simp: forest_state_def dom_arrays_def forest_arrays_def)

text \<open>The value that a predecessor offers.\<close>

lemma semi_candidate:
  assumes num: "numbering m par E" and k: "0 < k" "k < m" and e: "E j k"
    and s: "sdom E k \<le> s" and S: "S = (semi_at E (Suc k))(k := s)"
    and u: "j < Suc k \<Longrightarrow> u = j" "Suc k \<le> j \<Longrightarrow> Suc k \<le> u \<and> tanc par u j \<and> (\<forall>z. Suc k \<le> z \<and> tanc par z j \<longrightarrow> S u \<le> S z)"
  shows "sdom E k \<le> S u" "covers par E k (min s (S u)) j"
proof -
  have j: "j < m" using numbering_edge(1) [OF num e] .
  have low: "tanc par z j \<Longrightarrow> z \<le> j" for z using tanc_le [OF num _ j] .
  show "sdom E k \<le> S u"
  proof (cases "Suc k \<le> j")
    case True
    then show ?thesis using u(2) sdom_pred_le [OF num e] by (simp add: S semi_at_def)
  next
    case False
    then show ?thesis using u(1) s sdom_le [OF spath_edge, of E j k] e by (auto simp: S semi_at_def)
  qed
  show "covers par E k (min s (S u)) j"
  proof (cases "Suc k \<le> j")
    case True
    have "S z = sdom E z" if "k < z" for z using that by (simp add: S semi_at_def)
    then have "S u \<le> sdom E z" if "k < z" "tanc par z j" for z
      using u(2) [OF True] that by (metis Suc_leI)
    then show ?thesis using True by (auto simp: covers_def min.coboundedI2)
  next
    case False
    then show ?thesis using u(1) low by (fastforce simp: covers_def S semi_at_def)
  qed
qed

text \<open>What stays fixed while node \<open>k\<close> is in work: its current value, the forest above it and the numbers.\<close>

definition semi_work :: "nat \<Rightarrow> (nat \<Rightarrow> nat) \<Rightarrow> (nat \<Rightarrow> nat \<Rightarrow> bool) \<Rightarrow> nat \<Rightarrow> nat \<Rightarrow> Dom \<Rightarrow> bool" where
  "semi_work n par E k s d \<longleftrightarrow> numbering (length (Vertex d)) par E \<and> 0 < k \<and> k < length (Vertex d) \<and>
     sdom E k \<le> s \<and> node_array (Vertex d) (dfn d) int \<and> (\<forall>v \<le> n. int v \<notin> set (Vertex d) \<longrightarrow> dfn d ! v = -1) \<and>
     forest_state n par (Suc k) ((semi_at E (Suc k))(k := s)) d"

lemma semi_work_lower:
  assumes w: "semi_work n par E k s d" and s': "sdom E k \<le> s'" "s' \<le> s"
  obtains d' where "(if s' < s then bind_ok (aset (semi d) (Vertex d ! k) (int s')) (\<lambda>xs. Inr (d\<lparr>semi := xs\<rparr>)) else Inr d) = Inr d'"
    "semi_work n par E k s' d'" "same_but_semi d d'"
proof (cases "s' < s")
  case True
  have W: "numbering (length (Vertex d)) par E" "k < length (Vertex d)" "forest_state n par (Suc k) ((semi_at E (Suc k))(k := s)) d"
    using w by (auto simp: semi_work_def)
  obtain xs where xs: "aset (semi d) (Vertex d ! k) (int s') = Inr xs"
      "forest_state n par (Suc k) ((semi_at E (Suc k))(k := s')) (d\<lparr>semi := xs\<rparr>)"
    using set_semi_value [OF W(1,3,2), where s = s'] by auto
  then show ?thesis using that [of "d\<lparr>semi := xs\<rparr>"] True w s' by (simp add: semi_work_def same_but_semi_def)
next
  case False
  then have "s' = s" using s'(2) by simp
  then show ?thesis using that w by simp
qed

lemma semi_work_same:
  assumes "semi_work n par E k s d" "same_but_forest d d'" "forest_state n par (Suc k) ((semi_at E (Suc k))(k := s)) d'"
  shows "semi_work n par E k s d'"
  using assms same_but_forestD [OF assms(2)] by (simp add: semi_work_def)

lemma semi_from_ok:
  assumes w: "semi_work n par E k s d" and v: "0 \<le> v" "v \<le> int n"
    and edge: "\<And>j. j < length (Vertex d) \<Longrightarrow> v = Vertex d ! j \<Longrightarrow> E j k"
  obtains d' s' where "semi_from (Vertex d ! k) v d = Inr d'" "semi_work n par E k s' d'" "same_but_semi d d'" "s' \<le> s"
    "\<And>j. j < length (Vertex d) \<Longrightarrow> v = Vertex d ! j \<Longrightarrow> covers par E k s' j"
proof (cases "v \<in> set (Vertex d)")
  case False
  then have "aget (dfn d) v = Inr (-1)"
    using w v by (auto simp: semi_work_def forest_state_def dom_arrays_def aget_def dest: spec [of _ "nat v"])
  then have "semi_from (Vertex d ! k) v d = Inr d" by (simp add: semi_from_def)
  then show ?thesis by (rule that) (use w False in auto)
next
  case True
  then obtain j where j: "j < length (Vertex d)" "v = Vertex d ! j" by (metis in_set_conv_nth)
  let ?S = "(semi_at E (Suc k))(k := s)" and ?V = "Vertex d"
  have W: "numbering (length ?V) par E" "0 < k" "k < length ?V" "sdom E k \<le> s" "node_array ?V (dfn d) int"
      "forest_state n par (Suc k) ?S d" "dom_arrays n d"
    using w by (auto simp: semi_work_def forest_state_def)
  then have V: "node_list n ?V" "length (dfn d) = Suc n" by (auto simp: dom_arrays_def)
  obtain u d1 where ev: "dom_eval (?V ! j) d = Inr (?V ! u, d1)" "same_but_forest d d1" "u < length ?V"
      "forest_state n par (Suc k) ?S d1" "j < Suc k \<Longrightarrow> u = j"
      "Suc k \<le> j \<Longrightarrow> Suc k \<le> u \<and> tanc par u j \<and> (\<forall>z. Suc k \<le> z \<and> tanc par z j \<longrightarrow> ?S u \<le> ?S z)"
    using dom_eval_ok [OF W(1) refl W(6) j(1)] by blast
  have V1: "Vertex d1 = ?V" using same_but_forestD [OF ev(2)] by simp
  note cand = semi_candidate [OF W(1-3) edge [OF j] W(4) refl ev(5,6)]
  have w1: "semi_work n par E k s d1" using semi_work_same [OF w ev(2,4)] .
  obtain d' where d': "(if min s (?S u) < s then bind_ok (aset (semi d1) (Vertex d1 ! k) (int (min s (?S u)))) (\<lambda>xs. Inr (d1\<lparr>semi := xs\<rparr>))
        else Inr d1) = Inr d'" "semi_work n par E k (min s (?S u)) d'" "same_but_semi d1 d'"
    using semi_work_lower [OF w1, of "min s (?S u)"] cand(1) W(4) by auto
  have "semi_from (?V ! k) v d = Inr d'"
  proof -
    have "aget (dfn d) v = Inr (int j)" using node_array_get [OF V W(5) j(1)] j(2) by simp
    moreover have "aget (semi d1) (?V ! u) = Inr (int (?S u))" "aget (semi d1) (?V ! k) = Inr (int s)"
      using forest_state_semi [OF ev(4)] ev(3) W(3) V1 by auto
    moreover have "int (?S u) < int s \<longleftrightarrow> min s (?S u) < s" "min s (?S u) < s \<Longrightarrow> min s (?S u) = ?S u" by auto
    ultimately show ?thesis using d'(1) ev(1) j(2) V1 by (simp add: semi_from_def split: if_splits)
  qed
  moreover have "same_but_semi d d'" using same_but_forest_semi [OF ev(2)] d'(3) by (rule same_but_semi_trans)
  moreover have "covers par E k (min s (?S u)) i" if "i < length ?V" "v = ?V ! i" for i
    using cand(2) that j node_list_inj [OF V(1)] by simp
  ultimately show ?thesis using that [of d' "min s (?S u)"] d'(2) by simp
qed

lemma semi_loop_ok:
  assumes w: "semi_work n par E k s d"
    and preds: "\<forall>v \<in> set vs. 0 \<le> v \<and> v \<le> int n \<and> (\<forall>j < length (Vertex d). v = Vertex d ! j \<longrightarrow> E j k)"
  obtains d' s' where "for_each (semi_from (Vertex d ! k)) vs d = Inr d'" "semi_work n par E k s' d'" "same_but_semi d d'" "s' \<le> s"
    "\<And>j. j < length (Vertex d) \<Longrightarrow> Vertex d ! j \<in> set vs \<Longrightarrow> covers par E k s' j"
  using w preds
proof (induction vs arbitrary: d s thesis)
  case Nil
  then show ?case by simp
next
  case (Cons v vs)
  obtain d1 s1 where d1: "semi_from (Vertex d ! k) v d = Inr d1" "semi_work n par E k s1 d1" "same_but_semi d d1" "s1 \<le> s"
      "\<And>j. j < length (Vertex d) \<Longrightarrow> v = Vertex d ! j \<Longrightarrow> covers par E k s1 j"
    using semi_from_ok [OF Cons.prems(2), of v] Cons.prems(3) by auto
  have V1: "Vertex d1 = Vertex d" using same_but_semiD [OF d1(3)] by simp
  obtain d2 s2 where d2: "for_each (semi_from (Vertex d ! k)) vs d1 = Inr d2" "semi_work n par E k s2 d2" "same_but_semi d1 d2" "s2 \<le> s1"
      "\<And>j. j < length (Vertex d) \<Longrightarrow> Vertex d ! j \<in> set vs \<Longrightarrow> covers par E k s2 j"
    using Cons.IH [OF _ d1(2)] Cons.prems(3) unfolding V1 by auto
  have "covers par E k s2 j" if "j < length (Vertex d)" "Vertex d ! j \<in> set (v # vs)" for j
    using that d2(5) [of j] covers_mono [OF d1(5) [of j] d2(4)] by auto
  then show ?case
    using Cons.prems(1) [of d2 s2] d1 d2 same_but_semi_trans [OF d1(3) d2(3)] by simp
qed

text \<open>All predecessors, the virtual root among them: afterwards the value is the semidominator.\<close>

lemma int_image_iff: "v \<in> int ` A \<longleftrightarrow> 0 \<le> v \<and> nat v \<in> A"
  by force

lemma num_edge_preds:
  assumes g: "dom_graph g es roots n" and V: "node_list n V" "V \<noteq> []" "V ! 0 = int n" and k: "0 < k" "k < length V"
  obtains vs where "Referrers g (V ! k) = Inr vs" "\<forall>v \<in> set vs. 0 \<le> v \<and> v \<le> int n"
    "\<And>j. j < length V \<Longrightarrow> num_edge es roots n V j k \<longleftrightarrow> V ! j \<in> set vs \<or> j = 0 \<and> in_RootSet g (V ! k)"
    "\<And>j. j < length V \<Longrightarrow> V ! j \<in> set vs \<Longrightarrow> num_edge es roots n V j k"
proof -
  let ?w = "nat (V ! k)"
  let ?vs = "map int (targets ?w (map prod.swap es))"
  have adj: "adjacency g es" "Graph_N g = n" "Roots g = map int roots" "\<And>i. in_RootSet g i \<longleftrightarrow> i \<in> set (Roots g)"
    using g by (auto simp: dom_graph_def rooted_def)
  have other: "0 \<le> V ! j \<and> V ! j < int n" if "0 < j" "j < length V" for j
    using node_list_nth [OF V(1) that(2)] node_list_inj [OF V(1), of j 0] V(2,3) that by fastforce
  have w: "V ! k = int ?w" "?w < n" using other [OF k] by auto
  then have refs: "Referrers g (V ! k) = Inr ?vs" using adj(1,2) by (auto simp: adjacency_def)
  have in_vs: "v \<in> set ?vs \<longleftrightarrow> 0 \<le> v \<and> (nat v, ?w) \<in> set es" for v
    using targets_in [of "nat v" ?w "map prod.swap es"] by (auto simp: int_image_iff)
  have range: "(a, b) \<in> set es \<Longrightarrow> a < n" for a b using adj(1,2) by (auto simp: adjacency_def)
  have vs: "\<forall>v \<in> set ?vs. 0 \<le> v \<and> v < int n" using range by (fastforce simp: targets_in)
  have "num_edge es roots n V j k \<longleftrightarrow> V ! j \<in> set ?vs \<or> j = 0 \<and> in_RootSet g (V ! k)" if j: "j < length V" for j
  proof (cases "j = 0")
    case True
    then show ?thesis using V(2,3) k w(1) vs by (auto simp: num_edge_def kids_def adj in_vs)
  next
    case False
    then have "0 \<le> V ! j" "V ! j < int n" using other [of j] j by auto
    moreover from this have "V ! k \<in> set (kids es roots n (V ! j)) \<longleftrightarrow> (nat (V ! j), ?w) \<in> set es"
      using other [OF k] by (simp add: kids_def int_image_iff targets_in)
    ultimately show ?thesis unfolding in_vs num_edge_def using False j k by simp
  qed
  then show ?thesis using that [OF refs] vs by fastforce
qed

lemma semi_phase_ok:
  assumes g: "dom_graph g es roots n" and V: "Vertex d \<noteq> []" "Vertex d ! 0 = int n" "DRoot d = int n"
    and E: "E = num_edge es roots n (Vertex d)" and w: "semi_work n par E k k d"
  obtains vs d1 d2 where "Referrers g (Vertex d ! k) = Inr vs" "for_each (semi_from (Vertex d ! k)) vs d = Inr d1"
    "semi_root g (Vertex d ! k) d1 = Inr d2" "semi_work n par E k (sdom E k) d2" "same_but_semi d d2"
proof -
  let ?V = "Vertex d"
  have W: "numbering (length ?V) par E" "0 < k" "k < length ?V" "dom_arrays n d"
    using w by (auto simp: semi_work_def forest_state_def)
  have nl: "node_list n ?V" using W(4) by (simp add: dom_arrays_def)
  obtain vs where vs: "Referrers g (?V ! k) = Inr vs" "\<forall>v \<in> set vs. 0 \<le> v \<and> v \<le> int n"
      "\<And>j. j < length ?V \<Longrightarrow> E j k \<longleftrightarrow> ?V ! j \<in> set vs \<or> j = 0 \<and> in_RootSet g (?V ! k)"
      "\<And>j. j < length ?V \<Longrightarrow> ?V ! j \<in> set vs \<Longrightarrow> E j k"
    using num_edge_preds [OF g nl V(1,2) W(2,3)] unfolding E by metis
  have "\<forall>v \<in> set vs. 0 \<le> v \<and> v \<le> int n \<and> (\<forall>j < length ?V. v = ?V ! j \<longrightarrow> E j k)"
    using vs(2,4) by blast
  from semi_loop_ok [OF w this]
  obtain d1 s where d1: "for_each (semi_from (?V ! k)) vs d = Inr d1" "semi_work n par E k s d1" "same_but_semi d d1"
      "\<And>j. j < length ?V \<Longrightarrow> ?V ! j \<in> set vs \<Longrightarrow> covers par E k s j" by metis
  have F: "Vertex d1 = ?V" "DRoot d1 = int n" using same_but_semiD [OF d1(3)] V(3) by auto
  define s' where "s' = (if in_RootSet g (?V ! k) then 0 else s)"
  have fs: "forest_state n par (Suc k) ((semi_at E (Suc k))(k := s)) d1" and ss: "sdom E k \<le> s"
    using d1(2) by (auto simp: semi_work_def)
  have "sdom E k \<le> s'"
  proof (cases "in_RootSet g (?V ! k)")
    case True
    then have "E 0 k" using vs(3) [of 0] V(1) by simp
    then show ?thesis using sdom_le [of E k 0] by (simp add: spath_edge)
  qed (use ss in \<open>simp add: s'_def\<close>)
  moreover have "s' \<le> s" by (simp add: s'_def)
  ultimately obtain d2 where d2: "(if s' < s then bind_ok (aset (semi d1) (?V ! k) (int s')) (\<lambda>xs. Inr (d1\<lparr>semi := xs\<rparr>)) else Inr d1) = Inr d2"
      "semi_work n par E k s' d2" "same_but_semi d1 d2"
    using semi_work_lower [OF d1(2), of s'] unfolding F(1) by blast
  have "aget (semi d1) (DRoot d1) = Inr 0" "aget (semi d1) (?V ! k) = Inr (int s)"
    using forest_state_semi [OF fs, of 0] forest_state_semi [OF fs, of k] F W(2,3) V(1,2) by (simp_all add: semi_at_def)
  then have root: "semi_root g (?V ! k) d1 = Inr d2"
    using d2(1) by (auto simp: semi_root_def s'_def split: if_splits)
  have "covers par E k s' j" if e: "E j k" for j
  proof -
    have "covers par E k 0 j" by (simp add: covers_def)
    moreover have "covers par E k s j" if "\<not> in_RootSet g (?V ! k)"
      using that d1(4) [of j] vs(3) [of j] e numbering_edge(1) [OF W(1) e] by blast
    ultimately show ?thesis by (simp add: s'_def)
  qed
  then have "s' = sdom E k" using covers_sdom [OF W(1-3), of s'] d2(2) by (simp add: semi_work_def)
  then show ?thesis
    using that [OF vs(1) d1(1) root] d2(2) same_but_semi_trans [OF d1(3) d2(3)] by simp
qed

subsection \<open>Buckets\<close>

lemma node_image:
  assumes "node_list n V" "v < length V" "\<forall>u \<in> U. u < length V"
  shows "nat (V ! v) \<in> (\<lambda>u. nat (V ! u)) ` U \<longleftrightarrow> v \<in> U"
proof
  assume "nat (V ! v) \<in> (\<lambda>u. nat (V ! u)) ` U"
  then obtain u where u: "u \<in> U" "nat (V ! v) = nat (V ! u)" by auto
  then have "u < length V" using assms(3) by simp
  then have "v = u"
    using u(2) node_list_inj [OF assms(1,2)] node_list_nth [OF assms(1,2)] node_list_nth [OF assms(1)] by (metis eq_nat_nat_iff)
  then show "v \<in> U" using u(1) by simp
qed simp

lemma node_image_out:
  assumes "node_list n V" "int x \<notin> set V" "\<forall>u \<in> U. u < length V"
  shows "x \<notin> (\<lambda>u. nat (V ! u)) ` U"
proof
  assume "x \<in> (\<lambda>u. nat (V ! u)) ` U"
  then obtain u where u: "u < length V" "x = nat (V ! u)" using assms(3) by auto
  then have "int x = V ! u" using node_list_nth [OF assms(1) u(1)] by simp
  then show False using assms(2) u(1) nth_mem by metis
qed

fun bucket_list :: "int list \<Rightarrow> int list \<Rightarrow> int \<Rightarrow> nat list \<Rightarrow> bool" where
  "bucket_list V nxt h [] \<longleftrightarrow> h = -1"
| "bucket_list V nxt h (v # vs) \<longleftrightarrow> h = V ! v \<and> v < length V \<and> bucket_list V nxt (nxt ! nat (V ! v)) vs"

definition buckets :: "(nat \<Rightarrow> nat list) \<Rightarrow> Dom \<Rightarrow> bool" where
  "buckets B d \<longleftrightarrow> (\<forall>b < length (Vertex d). bucket_list (Vertex d) (bnext d) (bhead d ! nat (Vertex d ! b)) (B b))"

lemma bucket_list_cong:
  assumes "\<And>v. v \<in> set vs \<Longrightarrow> nxt' ! nat (V ! v) = nxt ! nat (V ! v)" "bucket_list V nxt h vs"
  shows "bucket_list V nxt' h vs"
  using assms by (induction vs arbitrary: h) auto

lemma bucket_list_range: "bucket_list V nxt h vs \<Longrightarrow> v \<in> set vs \<Longrightarrow> v < length V"
  by (induction vs arbitrary: h) auto

lemma bucket_add_ok:
  assumes d: "dom_arrays n d" and B: "buckets B d" and k: "k < length (Vertex d)" and b: "b < length (Vertex d)"
    and semi: "aget (semi d) (Vertex d ! k) = Inr (int b)"
    and new: "\<And>c. c < length (Vertex d) \<Longrightarrow> k \<notin> set (B c)"
  obtains d' where "bucket_add (Vertex d ! k) d = Inr d'" "buckets (B(b := k # B b)) d'" "dom_arrays n d'"
    "d' = d\<lparr>bnext := bnext d', bhead := bhead d'\<rparr>"
proof -
  let ?V = "Vertex d"
  have V: "node_list n ?V" "length (bnext d) = Suc n" "length (bhead d) = Suc n" using d by (auto simp: dom_arrays_def)
  have arr: "node_array ?V (bnext d) (\<lambda>i. bnext d ! nat (?V ! i))" "node_array ?V (bhead d) (\<lambda>i. bhead d ! nat (?V ! i))"
    by (simp_all add: node_array_def)
  let ?h = "bhead d ! nat (?V ! b)"
  obtain nxt where nxt: "aset (bnext d) (?V ! k) ?h = Inr nxt" "length nxt = Suc n"
      "node_array ?V nxt ((\<lambda>i. bnext d ! nat (?V ! i))(k := ?h))"
    using node_array_set [OF V(1,2) arr(1) k, where y = ?h] by blast
  obtain hd' where hd': "aset (bhead d) (?V ! b) (?V ! k) = Inr hd'" "length hd' = Suc n"
      "node_array ?V hd' ((\<lambda>i. bhead d ! nat (?V ! i))(b := ?V ! k))"
    using node_array_set [OF V(1,3) arr(2) b, where y = "?V ! k"] by blast
  let ?d = "d\<lparr>bnext := nxt, bhead := hd'\<rparr>"
  have "bucket_add (?V ! k) d = Inr ?d"
    using semi nxt(1) hd'(1) node_array_get [OF V(1,3) arr(2) b] b by (simp add: bucket_add_def)
  moreover have "bucket_list ?V nxt (hd' ! nat (?V ! c)) ((B(b := k # B b)) c)" if c: "c < length ?V" for c
  proof -
    have "nxt ! nat (?V ! v) = bnext d ! nat (?V ! v)" if "v \<in> set (B e)" "e < length ?V" for v e
      using that new bucket_list_range [of ?V "bnext d"] B nxt(3) unfolding buckets_def node_array_def
      by (metis fun_upd_other)
    then have "bucket_list ?V nxt (bhead d ! nat (?V ! e)) (B e)" if "e < length ?V" for e
      using bucket_list_cong [of "B e" nxt] B that by (auto simp: buckets_def)
    then show ?thesis using hd'(3) nxt(3) b c k by (auto simp: node_array_def)
  qed
  ultimately show ?thesis
    using that [of ?d] d nxt(2) hd'(2) by (simp add: buckets_def dom_arrays_def)
qed

text \<open>The loop over the bucket of the parent of \<open>k\<close>, after \<open>k\<close> has been linked.\<close>

definition same_but_idom :: "Dom \<Rightarrow> Dom \<Rightarrow> bool" where
  "same_but_idom d d' \<longleftrightarrow> d' = d\<lparr>label := label d', ancestor := ancestor d', Idom := Idom d'\<rparr>"

lemma same_but_idom_refl [simp]: "same_but_idom d d"
  by (simp add: same_but_idom_def)

lemma same_but_idom_trans: "same_but_idom d d' \<Longrightarrow> same_but_idom d' d'' \<Longrightarrow> same_but_idom d d''"
  by (cases d; cases d'; cases d'') (simp add: same_but_idom_def)

lemma same_but_idomD:
  assumes "same_but_idom d d'"
  shows "DRoot d' = DRoot d" "Retained d' = Retained d" "Vertex d' = Vertex d" "dfn d' = dfn d" "semi d' = semi d"
    "parent d' = parent d" "bhead d' = bhead d" "bnext d' = bnext d"
  using assms by (cases d; cases d'; simp add: same_but_idom_def)+

lemma below_parent:
  assumes num: "numbering m par E" and k: "0 < k" "k \<le> v" "v < m"
  shows "par k < z \<and> tanc par z v \<longleftrightarrow> k \<le> z \<and> tanc par z v"
proof (intro iffI; elim conjE)
  assume z: "par k < z" "tanc par z v"
  have "k \<le> z"
  proof (rule ccontr)
    assume "\<not> k \<le> z"
    then have "tanc par z k" using tanc_interval [OF num z(2), of k] k by simp
    then have "tanc par z (par k)" using \<open>\<not> k \<le> z\<close> by (cases rule: tanc_lastE) auto
    then show False using tanc_le [OF num, of z "par k"] numbering_par(1) [OF num k(1)] k z(1) by simp
  qed
  then show "k \<le> z \<and> tanc par z v" using z by simp
qed (use numbering_par(1) [OF num k(1)] k in auto)

lemma bucket_idom_ok:
  assumes num: "numbering (length (Vertex d)) par E" and f: "forest_state n par k (semi_at E k) d"
    and k: "0 < k" "k \<le> v" and v: "v < length (Vertex d)" "sdom E v = par k"
  obtains d' i where "bucket_idom (Vertex d ! par k) (Vertex d ! v) d = Inr d'" "same_but_idom d d'"
    "forest_state n par k (semi_at E k) d'" "relative par E v i" "i < length (Vertex d)"
    "Idom d' = (Idom d)[nat (Vertex d ! v) := Vertex d ! i]"
proof -
  let ?V = "Vertex d"
  obtain u d1 where ev: "dom_eval (?V ! v) d = Inr (?V ! u, d1)" "same_but_forest d d1" "u < length ?V"
      "forest_state n par k (semi_at E k) d1"
      "k \<le> u \<and> tanc par u v \<and> (\<forall>z. k \<le> z \<and> tanc par z v \<longrightarrow> semi_at E k u \<le> semi_at E k z)"
    using dom_eval_ok [OF num refl f v(1)] k(2) by metis
  have V1: "Vertex d1 = ?V" "Idom d1 = Idom d" using same_but_forestD [OF ev(2)] by auto
  have sem: "aget (semi d1) (?V ! u) = Inr (int (sdom E u))" "aget (semi d1) (?V ! v) = Inr (int (sdom E v))"
    using forest_state_semi [OF ev(4), unfolded V1] ev(3,5) k v by (auto simp: semi_at_def)
  define i where "i = (if sdom E u < sdom E v then u else par k)"
  note rng = below_parent [OF num k(1,2) v(1)]
  have least: "sdom E u \<le> sdom E z" if "par k < z" "tanc par z v" for z
    using ev(5) that rng [of z] by (auto simp: semi_at_def)
  have rel: "relative par E v i"
  proof (cases "sdom E u < sdom E v")
    case True
    then show ?thesis using least ev(5) rng [of u] v(2) by (auto simp: relative_def i_def)
  next
    case False
    then have "par k \<le> sdom E z" if "par k < z" "tanc par z v" for z
      using least [OF that] v(2) by simp
    then show ?thesis using False v(2) by (simp add: relative_def i_def)
  qed
  have i: "i < length ?V" using ev(3) numbering_par(1) [OF num k(1)] k(2) v(1) by (auto simp: i_def)
  have d: "dom_arrays n d1" using ev(4) by (simp add: forest_state_def)
  have "aset (Idom d) (?V ! v) (?V ! i) = Inr ((Idom d)[nat (?V ! v) := ?V ! i])"
    using d V1 node_list_nth [of n ?V v] v(1) by (simp add: dom_arrays_def aset_def)
  then have "bucket_idom (?V ! par k) (?V ! v) d = Inr (d1\<lparr>Idom := (Idom d)[nat (?V ! v) := ?V ! i]\<rparr>)"
    using ev(1) sem V1(2) by (simp add: bucket_idom_def i_def if_distrib [of "(!) ?V"])
  moreover have "forest_state n par k (semi_at E k) (d1\<lparr>Idom := (Idom d)[nat (?V ! v) := ?V ! i]\<rparr>)"
    using ev(4) V1 by (simp add: forest_state_def dom_arrays_def forest_arrays_def)
  moreover have "same_but_idom d (d1\<lparr>Idom := (Idom d)[nat (?V ! v) := ?V ! i]\<rparr>)"
    using ev(2) by (cases d; cases d1) (simp add: same_but_idom_def same_but_forest_def)
  ultimately show ?thesis using that rel i by simp
qed

text \<open>The nodes \<open>vs\<close> have got a relative dominator, the others have kept theirs.\<close>

definition idoms_set :: "(nat \<Rightarrow> nat) \<Rightarrow> (nat \<Rightarrow> nat \<Rightarrow> bool) \<Rightarrow> nat list \<Rightarrow> Dom \<Rightarrow> Dom \<Rightarrow> bool" where
  "idoms_set par E vs d d' \<longleftrightarrow> same_but_idom d d' \<and>
     (\<forall>v \<in> set vs. \<exists>i < length (Vertex d). relative par E v i \<and> Idom d' ! nat (Vertex d ! v) = Vertex d ! i) \<and>
     (\<forall>x. x \<notin> (\<lambda>v. nat (Vertex d ! v)) ` set vs \<longrightarrow> Idom d' ! x = Idom d ! x)"

lemma bucket_loop_ok:
  assumes num: "numbering (length (Vertex d)) par E" and f: "forest_state n par k (semi_at E k) d" and k: "0 < k"
    and vs: "bucket_list (Vertex d) (bnext d) h vs" "distinct vs" "\<forall>v \<in> set vs. k \<le> v \<and> sdom E v = par k" "length vs \<le> fuel"
  obtains d' where "bucket_loop fuel (Vertex d ! par k) h d = Inr d'" "forest_state n par k (semi_at E k) d'"
    "idoms_set par E vs d d'"
  using num f vs
proof (induction vs arbitrary: d h fuel thesis)
  case Nil
  have "bucket_loop fuel (Vertex d ! par k) h d = Inr d" using Nil.prems(4) by (cases fuel) simp_all
  then show ?case using Nil.prems(1) [of d] Nil.prems(3) by (simp add: idoms_set_def)
next
  case (Cons v vs)
  let ?V = "Vertex d"
  obtain fuel' where fuel: "fuel = Suc fuel'" "length vs \<le> fuel'" using Cons.prems(7) by (cases fuel) auto
  have v: "h = ?V ! v" "v < length ?V" "k \<le> v" "sdom E v = par k" using Cons.prems(4,6) by auto
  have V: "node_list n ?V" "length (Idom d) = Suc n" "length (bnext d) = Suc n"
    using Cons.prems(3) by (auto simp: forest_state_def dom_arrays_def)
  have h: "h \<noteq> -1" "0 \<le> h" "nat h < Suc n" using node_list_nth [OF V(1) v(2)] v(1) by auto
  obtain d1 i where d1: "bucket_idom (?V ! par k) (?V ! v) d = Inr d1" "same_but_idom d d1"
      "forest_state n par k (semi_at E k) d1" "relative par E v i" "i < length ?V" "Idom d1 = (Idom d)[nat (?V ! v) := ?V ! i]"
    using bucket_idom_ok [OF Cons.prems(2,3) k v(3,2,4)] by metis
  note S = same_but_idomD [OF d1(2)]
  have nx: "aget (bnext d1) h = Inr (bnext d ! nat h)" using S(8) V(3) h by (simp add: aget_def)
  have step: "bucket_loop fuel (?V ! par k) h d = bucket_loop fuel' (?V ! par k) (bnext d ! nat h) d1"
    using h(1) fuel(1) d1(1) nx v(1) by simp
  have "numbering (length (Vertex d1)) par E" "bucket_list (Vertex d1) (bnext d1) (bnext d ! nat h) vs" "distinct vs"
      "\<forall>v \<in> set vs. k \<le> v \<and> sdom E v = par k"
    using Cons.prems(2,4-6) v(1) S by auto
  from Cons.IH [OF _ this(1) d1(3) this(2-4) fuel(2)]
  obtain d2 where d2: "bucket_loop fuel' (Vertex d1 ! par k) (bnext d ! nat h) d1 = Inr d2"
      "forest_state n par k (semi_at E k) d2" "idoms_set par E vs d1 d2" by blast
  have i2: "same_but_idom d1 d2" "\<And>v. v \<in> set vs \<Longrightarrow> \<exists>i < length ?V. relative par E v i \<and> Idom d2 ! nat (?V ! v) = ?V ! i"
      "\<And>x. x \<notin> (\<lambda>v. nat (?V ! v)) ` set vs \<Longrightarrow> Idom d2 ! x = Idom d1 ! x"
    using d2(3) S(3) by (auto simp: idoms_set_def)
  have "nat (?V ! v) \<notin> (\<lambda>v. nat (?V ! v)) ` set vs"
  proof -
    have "bucket_list ?V (bnext d) (bnext d ! nat (?V ! v)) vs" using Cons.prems(4) by simp
    from bucket_list_range [OF this] have "\<forall>u \<in> set vs. u < length ?V" by blast
    then show ?thesis using node_image [OF V(1) v(2)] Cons.prems(5) by simp
  qed
  then have here: "Idom d2 ! nat (?V ! v) = ?V ! i" using i2(3) d1(6) V(2) h v(1) by simp
  have "\<exists>i < length ?V. relative par E u i \<and> Idom d2 ! nat (?V ! u) = ?V ! i" if "u \<in> set (v # vs)" for u
    using that here d1(4,5) i2(2) by auto
  moreover have "Idom d2 ! x = Idom d ! x" if "x \<notin> (\<lambda>v. nat (?V ! v)) ` set (v # vs)" for x
    using that i2(3) [of x] d1(6) by simp
  ultimately have "idoms_set par E (v # vs) d d2"
    unfolding idoms_set_def using same_but_idom_trans [OF d1(2) i2(1)] by blast
  then show ?case using Cons.prems(1) step d2(1,2) S(3) by simp
qed

subsection \<open>One round\<close>

lemma link_ok:
  assumes num: "numbering (length (Vertex d)) par E" and f: "forest_state n par (Suc k) S d" and k: "0 < k" "k < length (Vertex d)"
  obtains anc where "aset (ancestor d) (Vertex d ! k) (Vertex d ! par k) = Inr anc" "forest_state n par k S (d\<lparr>ancestor := anc\<rparr>)"
proof -
  let ?V = "Vertex d"
  obtain A L where d: "dom_arrays n d" and A: "forest_arrays A L S d" "forest (length ?V) par S (Suc k) A L"
    using f by (auto simp: forest_state_def)
  have V: "node_list n ?V" "length (ancestor d) = Suc n" using d by (auto simp: dom_arrays_def)
  have arr: "node_array ?V (ancestor d) (\<lambda>i. node_ref ?V (A i))" using A by (auto simp: forest_arrays_def)
  obtain xs where xs: "aset (ancestor d) (?V ! k) (?V ! par k) = Inr xs" "length xs = Suc n"
      "node_array ?V xs ((\<lambda>i. node_ref ?V (A i))(k := ?V ! par k))"
    using node_array_set [OF V arr k(2), where y = "?V ! par k"] by blast
  have "(\<lambda>i. node_ref ?V (A i))(k := ?V ! par k) = (\<lambda>i. node_ref ?V ((A(k := Some (par k))) i))"
    by (auto simp: node_ref_def)
  then have "forest_arrays (A(k := Some (par k))) L S (d\<lparr>ancestor := xs\<rparr>)" using A(1) xs(3) by (simp add: forest_arrays_def)
  moreover have "forest (length ?V) par S k (A(k := Some (par k))) L" by (rule forest_link [OF num A(2) k]) simp
  moreover have "dom_arrays n (d\<lparr>ancestor := xs\<rparr>)" using d xs(2) by (simp add: dom_arrays_def)
  ultimately show ?thesis using that xs(1) unfolding forest_state_def by auto
qed

definition settled :: "(nat \<Rightarrow> nat) \<Rightarrow> (nat \<Rightarrow> nat \<Rightarrow> bool) \<Rightarrow> nat \<Rightarrow> nat \<Rightarrow> bool" where
  "settled par E k v \<longleftrightarrow> (\<exists>c. k \<le> c \<and> 0 < c \<and> par c = sdom E v \<and> tanc par c v)"

text \<open>The fields that the loop leaves alone.\<close>

definition lt_frame :: "Dom \<Rightarrow> Dom \<Rightarrow> bool" where
  "lt_frame d d' \<longleftrightarrow> DRoot d' = DRoot d \<and> Retained d' = Retained d \<and> Vertex d' = Vertex d \<and> dfn d' = dfn d \<and> parent d' = parent d"

definition lt_inv :: "nat \<Rightarrow> (nat \<Rightarrow> nat) \<Rightarrow> (nat \<Rightarrow> nat \<Rightarrow> bool) \<Rightarrow> nat \<Rightarrow> Dom \<Rightarrow> bool" where
  "lt_inv n par E k d \<longleftrightarrow> forest_state n par k (semi_at E k) d \<and>
     (\<exists>B. buckets B d \<and> (\<forall>b < length (Vertex d). distinct (B b) \<and>
        set (B b) = {v. k \<le> v \<and> v < length (Vertex d) \<and> sdom E v = b \<and> \<not> settled par E k v})) \<and>
     (\<forall>v. k \<le> v \<and> v < length (Vertex d) \<and> settled par E k v \<longrightarrow>
        (\<exists>i < length (Vertex d). relative par E v i \<and> Idom d ! nat (Vertex d ! v) = Vertex d ! i)) \<and>
     (\<forall>x \<le> n. int x \<notin> set (Vertex d) \<longrightarrow> Idom d ! x = -1)"

lemma settled_step:
  assumes num: "numbering m par E" and k: "0 < k" "k \<le> v" "v < m"
  shows "settled par E k v \<longleftrightarrow> settled par E (Suc k) v \<or> sdom E v = par k"
proof
  assume "settled par E k v"
  then show "settled par E (Suc k) v \<or> sdom E v = par k"
    unfolding settled_def by (metis Suc_leI le_neq_implies_less)
next
  have v: "0 < v" using k by simp
  assume "settled par E (Suc k) v \<or> sdom E v = par k"
  then show "settled par E k v"
  proof
    assume s: "sdom E v = par k"
    have "sdom E v \<noteq> v" using sdom_less [OF num v k(3)] by simp
    from tanc_child [OF sdom_tanc [OF num v k(3)] this] s
    obtain c where c: "0 < c" "par c = par k" "tanc par c v" by auto
    moreover have "c < m" using tanc_le [OF num c(3) k(3)] k(3) by simp
    then have "par k < c" using numbering_par(1) [OF num c(1)] c(2) by simp
    ultimately show ?thesis using below_parent [OF num k, of c] s by (auto simp: settled_def)
  qed (use Suc_leD in \<open>unfold settled_def, blast\<close>)
qed

lemma semi_at_step: "(semi_at E (Suc k))(k := sdom E k) = semi_at E k"
  by (auto simp: semi_at_def)

lemma semi_at_self: "(semi_at E (Suc k))(k := k) = semi_at E (Suc k)"
  by (auto simp: semi_at_def)

lemma Collect_from: "{v. k \<le> v \<and> P v} = (if P k then insert k {v. Suc k \<le> v \<and> P v} else {v. Suc k \<le> v \<and> P v})"
  by (auto simp: le_eq_less_or_eq Suc_le_eq)

lemma lt_inv_step:
  assumes num: "numbering (length (Vertex d)) par E" and nl: "node_list n (Vertex d)"
    and k: "0 < k" "k < length (Vertex d)" and V: "Vertex d' = Vertex d"
    and old: "\<And>b. b < length (Vertex d) \<Longrightarrow> distinct (B b) \<and>
        set (B b) = {v. Suc k \<le> v \<and> v < length (Vertex d) \<and> sdom E v = b \<and> \<not> settled par E (Suc k) v}"
      "\<And>v. Suc k \<le> v \<Longrightarrow> v < length (Vertex d) \<Longrightarrow> settled par E (Suc k) v \<Longrightarrow>
        \<exists>i < length (Vertex d). relative par E v i \<and> Idom d ! nat (Vertex d ! v) = Vertex d ! i"
      "\<And>x. x \<le> n \<Longrightarrow> int x \<notin> set (Vertex d) \<Longrightarrow> Idom d ! x = -1"
    and B': "B' = B(sdom E k := k # B (sdom E k))"
    and new: "forest_state n par k (semi_at E k) d'" "buckets (B'(par k := [])) d'"
      "\<And>v. v \<in> set (B' (par k)) \<Longrightarrow> \<exists>i < length (Vertex d). relative par E v i \<and> Idom d' ! nat (Vertex d ! v) = Vertex d ! i"
      "\<And>x. x \<notin> (\<lambda>v. nat (Vertex d ! v)) ` set (B' (par k)) \<Longrightarrow> Idom d' ! x = Idom d ! x"
  shows "lt_inv n par E k d'"
proof -
  let ?V = "Vertex d" and ?m = "length (Vertex d)"
  have p: "par k < ?m" using numbering_par(1) [OF num k] k by simp
  have kk: "\<not> settled par E (Suc k) k" using tanc_le [OF num _ k(2)] by (fastforce simp: settled_def)
  note st = settled_step [OF num k(1)]
  have B1: "set (B' b) = {v. k \<le> v \<and> v < ?m \<and> sdom E v = b \<and> \<not> settled par E (Suc k) v}" "distinct (B' b)"
    if "b < ?m" for b
    unfolding Collect_from [of k] using old(1) [OF that] kk k(2) by (cases "b = sdom E k"; simp add: B')+
  have B2: "set ((B'(par k := [])) b) = {v. k \<le> v \<and> v < ?m \<and> sdom E v = b \<and> \<not> settled par E k v}" if "b < ?m" for b
    using B1(1) [OF that] st by auto
  have rng: "\<forall>v \<in> set (B' (par k)). v < ?m" using B1(1) [OF p] by simp
  have "\<exists>i < ?m. relative par E v i \<and> Idom d' ! nat (?V ! v) = ?V ! i" if v: "k \<le> v" "v < ?m" "settled par E k v" for v
  proof (cases "v \<in> set (B' (par k))")
    case False
    then have s: "settled par E (Suc k) v" using B1(1) [OF p] st [of v] v by auto
    then have "Suc k \<le> v" using v(1) kk by (cases "v = k") auto
    moreover have "nat (?V ! v) \<notin> (\<lambda>v. nat (?V ! v)) ` set (B' (par k))"
      using False node_image [OF nl v(2) rng] by simp
    ultimately show ?thesis using old(2) s v(2) new(4) by simp
  qed (rule new(3))
  moreover have "Idom d' ! x = -1" if "x \<le> n" "int x \<notin> set ?V" for x
    using node_image_out [OF nl that(2) rng] new(4) old(3) that by simp
  moreover have "\<forall>b < ?m. distinct ((B'(par k := [])) b)" using B1(2) by simp
  ultimately show ?thesis unfolding lt_inv_def V using new(1,2) B2 by blast
qed

lemma lt_step_ok:
  assumes g: "dom_graph g es roots n" and inv: "dfs_inv es roots n par d []" and E: "E = num_edge es roots n (Vertex d)"
    and k: "0 < k" "k < length (Vertex d)" and lt: "lt_inv n par E (Suc k) d"
  obtains d' where "lt_step g k d = Inr d'" "lt_inv n par E k d'" "lt_frame d d'"
proof -
  let ?V = "Vertex d"
  note I = dfs_invD [OF inv]
  have num: "numbering (length ?V) par E" using dfs_numbering [OF inv] E by simp
  have nl: "node_list n ?V" using I(1) by (simp add: dom_arrays_def)
  obtain B where old: "\<And>v. Suc k \<le> v \<Longrightarrow> v < length ?V \<Longrightarrow> settled par E (Suc k) v \<Longrightarrow>
        \<exists>i < length ?V. relative par E v i \<and> Idom d ! nat (?V ! v) = ?V ! i"
      "\<And>x. x \<le> n \<Longrightarrow> int x \<notin> set ?V \<Longrightarrow> Idom d ! x = -1"
    and fs: "forest_state n par (Suc k) (semi_at E (Suc k)) d" and B: "buckets B d"
      "\<And>b. b < length ?V \<Longrightarrow> distinct (B b)"
      "\<And>b. b < length ?V \<Longrightarrow> set (B b) = {v. Suc k \<le> v \<and> v < length ?V \<and> sdom E v = b \<and> \<not> settled par E (Suc k) v}"
    using lt unfolding lt_inv_def by blast
  have "semi_work n par E k k d"
    using num k fs I(5,6) sdom_less [OF num k] by (auto simp: semi_work_def semi_at_self)
  from semi_phase_ok [OF g I(3,4,2) E this]
  obtain vs d1 d2 where d2: "Referrers g (?V ! k) = Inr vs" "for_each (semi_from (?V ! k)) vs d = Inr d1"
      "semi_root g (?V ! k) d1 = Inr d2" "semi_work n par E k (sdom E k) d2" "same_but_semi d d2" by metis
  note S2 = same_but_semiD [OF d2(5)]
  have fs2: "forest_state n par (Suc k) (semi_at E k) d2" using d2(4) by (simp add: semi_work_def semi_at_step)
  have b: "sdom E k < length ?V" using sdom_less [OF num k] k by simp
  have semi2: "aget (semi d2) (?V ! k) = Inr (int (sdom E k))"
    using forest_state_semi [OF fs2, of k] k S2(4) by (simp add: semi_at_def)
  let ?B = "B(sdom E k := k # B (sdom E k))" and ?p = "par k"
  obtain d3 where d3: "bucket_add (?V ! k) d2 = Inr d3" "buckets ?B d3" "dom_arrays n d3" "d3 = d2\<lparr>bnext := bnext d3, bhead := bhead d3\<rparr>"
    using bucket_add_ok [of n d2 B k "sdom E k"] fs2 B k b semi2 S2 by (auto simp: forest_state_def buckets_def)
  have S3: "DRoot d3 = DRoot d" "Retained d3 = Retained d" "Vertex d3 = ?V" "dfn d3 = dfn d" "parent d3 = parent d" "Idom d3 = Idom d"
    using S2 by (subst d3(4); simp)+
  have fs3: "forest_state n par (Suc k) (semi_at E k) d3"
    using fs2 d3(3) by (subst d3(4), subst (asm) d3(4)) (simp add: forest_state_def forest_arrays_def)
  obtain anc where anc: "aset (ancestor d3) (?V ! k) (?V ! ?p) = Inr anc" "forest_state n par k (semi_at E k) (d3\<lparr>ancestor := anc\<rparr>)"
    using link_ok [of d3 par E n k] num fs3 k S3(3) by metis
  let ?d4 = "d3\<lparr>ancestor := anc\<rparr>"
  have p: "?p < length ?V" "?p < k" using numbering_par(1) [OF num k] k by auto
  have par3: "aget (parent d3) (?V ! k) = Inr (?V ! ?p)"
    using node_array_get [OF nl _ I(7) k(2)] I(1) S3(5) k(1) by (simp add: dom_arrays_def)
  have bp: "bucket_list ?V (bnext d3) (bhead d3 ! nat (?V ! ?p)) (?B ?p)"
    using d3(2) p(1) S3(3) by (simp add: buckets_def)
  have kB: "k \<notin> set (B c)" if "c < length ?V" for c using B(3) [OF that] by simp
  have dist: "distinct (?B ?p)" using B(2) kB p(1) by simp
  have waits: "\<forall>v \<in> set (?B ?p). k \<le> v \<and> sdom E v = ?p" using B(3) p(1) by auto
  have "length (?B ?p) \<le> Suc n"
  proof -
    have "set (?B ?p) \<subseteq> {..<length ?V}" using bucket_list_range [OF bp] by blast
    then have "card (set (?B ?p)) \<le> length ?V" using card_mono [of "{..<length ?V}"] by simp
    then show ?thesis using distinct_card [OF dist] node_list_length [OF nl] by linarith
  qed
  then have fuel: "length (?B ?p) \<le> length (bnext d3) + 1" using d3(3) by (simp add: dom_arrays_def)
  have V4: "Vertex ?d4 = ?V" "bnext ?d4 = bnext d3" "Idom ?d4 = Idom d" using S3 by simp_all
  from bucket_loop_ok [of ?d4 par E n k, OF _ anc(2) k(1) _ dist waits fuel, unfolded V4, OF num bp]
  obtain d5 where d5: "bucket_loop (length (bnext d3) + 1) (?V ! ?p) (bhead d3 ! nat (?V ! ?p)) ?d4 = Inr d5"
      "forest_state n par k (semi_at E k) d5" "idoms_set par E (?B ?p) ?d4 d5" by blast
  have i5: "same_but_idom ?d4 d5" "\<And>v. v \<in> set (?B ?p) \<Longrightarrow> \<exists>i < length ?V. relative par E v i \<and> Idom d5 ! nat (?V ! v) = ?V ! i"
      "\<And>x. x \<notin> (\<lambda>v. nat (?V ! v)) ` set (?B ?p) \<Longrightarrow> Idom d5 ! x = Idom d ! x"
    using d5(3) V4 unfolding idoms_set_def by metis+
  note S5 = same_but_idomD [OF i5(1)]
  have arr: "node_array ?V (bhead d5) (\<lambda>i. bhead d5 ! nat (?V ! i))" "length (bhead d5) = Suc n"
    using d5(2) by (simp_all add: node_array_def forest_state_def dom_arrays_def)
  obtain hd' where hd': "aset (bhead d5) (?V ! ?p) (-1) = Inr hd'" "length hd' = Suc n"
      "node_array ?V hd' ((\<lambda>i. bhead d5 ! nat (?V ! i))(?p := -1))"
    using node_array_set [OF nl arr(2,1) p(1), where y = "-1"] by blast
  let ?d6 = "d5\<lparr>bhead := hd'\<rparr>" and ?B' = "?B(?p := [])"
  have get: "aget (bhead d3) (?V ! ?p) = Inr (bhead d3 ! nat (?V ! ?p))"
    using d3(3) node_list_nth [OF nl p(1)] by (simp add: aget_def dom_arrays_def)
  have "lt_step g k d = Inr ?d6"
    using k(2) d2(1-3) d3(1) par3 anc(1) get d5(1) hd'(1) by (simp add: lt_step_def Let_def del: bucket_loop.simps)
  moreover have "lt_frame d ?d6" using S5 S3 by (simp add: lt_frame_def)
  moreover have "lt_inv n par E k ?d6"
  proof (rule lt_inv_step [OF num nl k _ conjI [OF B(2,3)] old refl])
    show "forest_state n par k (semi_at E k) ?d6"
      using d5(2) hd'(2) by (simp add: forest_state_def dom_arrays_def forest_arrays_def)
    show "buckets ?B' ?d6" using d3(2) hd'(3) S3(3) S5 by (simp add: buckets_def node_array_def)
  qed (use i5 S5 S3 in simp_all)
  ultimately show ?thesis using that by blast
qed

subsection \<open>The loop\<close>

lemma lt_frame_trans: "lt_frame d d' \<Longrightarrow> lt_frame d' d'' \<Longrightarrow> lt_frame d d''"
  by (simp add: lt_frame_def)

lemma dfs_inv_frame:
  assumes "dfs_inv es roots n par d fs" "lt_frame d d'" "dom_arrays n d'"
  shows "dfs_inv es roots n par d' fs"
  using assms by (simp add: dfs_inv_def lt_frame_def cong: if_cong)

lemma lt_start:
  assumes "dfs_result g es roots n par d"
  shows "lt_inv n par E (length (Vertex d)) d"
proof -
  let ?V = "Vertex d"
  have d: "dom_arrays n d" "bhead d = replicate (n + 1) (-1)" "Idom d = replicate (n + 1) (-1)"
      "forest_state n par (length ?V) (\<lambda>i. i) d"
    using assms dfs_invD(1) by (auto simp: dfs_result_def)
  obtain A L where A: "forest_arrays A L (\<lambda>i. i) d" "forest (length ?V) par (\<lambda>i. i) (length ?V) A L"
    using d(4) by (auto simp: forest_state_def)
  have "forest_arrays A L (semi_at E (length ?V)) d" "forest (length ?V) par (semi_at E (length ?V)) (length ?V) A L"
    using A by (auto simp: forest_arrays_def node_array_def forest_def semi_at_def)
  moreover have "bhead d ! nat (?V ! b) = -1" if "b < length ?V" for b
    using node_list_nth [of n ?V b] that d(1,2) by (subst d(2), intro nth_replicate) (auto simp: dom_arrays_def)
  ultimately show ?thesis
    using d unfolding lt_inv_def forest_state_def by (auto simp: buckets_def nth_append simp del: replicate_Suc intro!: exI [of _ "\<lambda>_. []"])
qed

lemma lt_loop_ok:
  assumes g: "dom_graph g es roots n" and inv: "dfs_inv es roots n par d []" and E: "E = num_edge es roots n (Vertex d)"
    and k: "0 < k" "k \<le> length (Vertex d)" and lt: "lt_inv n par E k d"
  obtains d' where "for_each (lt_step g) (rev [1..<k]) d = Inr d'" "lt_inv n par E 1 d'" "lt_frame d d'" "dom_arrays n d'"
  using k inv E lt
proof (induction k arbitrary: d thesis)
  case (Suc k)
  show ?case
  proof (cases "k = 0")
    case True
    then show ?thesis using Suc.prems(1) [of d] Suc.prems(6) dfs_invD(1) [OF Suc.prems(4)] by (simp add: lt_frame_def)
  next
    case False
    then obtain d1 where d1: "lt_step g k d = Inr d1" "lt_inv n par E k d1" "lt_frame d d1"
      using lt_step_ok [OF g Suc.prems(4,5), of k] Suc.prems(3,6) by auto
    have V1: "Vertex d1 = Vertex d" using d1(3) by (simp add: lt_frame_def)
    have "dom_arrays n d1" using d1(2) by (simp add: lt_inv_def forest_state_def)
    then have "dfs_inv es roots n par d1 []" using dfs_inv_frame [OF Suc.prems(4) d1(3)] by simp
    with Suc.IH [of d1] obtain d2 where d2: "for_each (lt_step g) (rev [1..<k]) d1 = Inr d2" "lt_inv n par E 1 d2"
        "lt_frame d1 d2" "dom_arrays n d2"
      using False Suc.prems(3,5) d1(2) V1 by auto
    then show ?thesis
      using Suc.prems(1) [of d2] d1(1) lt_frame_trans [OF d1(3)] False by simp
  qed
qed simp

subsection \<open>The second pass\<close>

definition idom_at :: "(nat \<Rightarrow> nat \<Rightarrow> bool) \<Rightarrow> Dom \<Rightarrow> nat \<Rightarrow> bool" where
  "idom_at E d v \<longleftrightarrow> (\<exists>q < length (Vertex d). is_idom E q v \<and> Idom d ! nat (Vertex d ! v) = Vertex d ! q)"

definition pass2 :: "nat \<Rightarrow> (nat \<Rightarrow> nat) \<Rightarrow> (nat \<Rightarrow> nat \<Rightarrow> bool) \<Rightarrow> nat \<Rightarrow> Dom \<Rightarrow> bool" where
  "pass2 n par E k d \<longleftrightarrow> dom_arrays n d \<and> node_array (Vertex d) (semi d) (\<lambda>i. int (semi_at E 1 i)) \<and>
     (\<forall>v. 0 < v \<and> v < k \<longrightarrow> idom_at E d v) \<and>
     (\<forall>v. k \<le> v \<and> v < length (Vertex d) \<longrightarrow>
        (\<exists>i < length (Vertex d). relative par E v i \<and> Idom d ! nat (Vertex d ! v) = Vertex d ! i)) \<and>
     (\<forall>x \<le> n. int x \<notin> set (Vertex d) \<longrightarrow> Idom d ! x = -1)"

lemma settled_all:
  assumes num: "numbering m par E" and v: "0 < v" "v < m"
  shows "settled par E 1 v"
proof -
  have "sdom E v \<noteq> v" using sdom_less [OF num v] by simp
  from tanc_child [OF sdom_tanc [OF num v] this] obtain c where "0 < c" "par c = sdom E v" "tanc par c v" by auto
  then show ?thesis unfolding settled_def by (intro exI [of _ c]) simp
qed

lemma pass2_start:
  assumes "numbering (length (Vertex d)) par E" "lt_inv n par E 1 d"
  shows "pass2 n par E 1 d"
  using assms settled_all [OF assms(1)] by (fastforce simp: pass2_def lt_inv_def forest_state_def forest_arrays_def)

lemma idom_step_ok:
  assumes num: "numbering (length (Vertex d)) par E" and k: "0 < k" "k < length (Vertex d)" and p: "pass2 n par E k d"
  obtains d' where "idom_step k d = Inr d'" "pass2 n par E (Suc k) d'" "d' = d\<lparr>Idom := Idom d'\<rparr>"
proof -
  let ?V = "Vertex d"
  have P: "dom_arrays n d" "node_array ?V (semi d) (\<lambda>i. int (semi_at E 1 i))"
      "\<And>v. 0 < v \<Longrightarrow> v < k \<Longrightarrow> idom_at E d v"
      "\<And>v. k \<le> v \<Longrightarrow> v < length ?V \<Longrightarrow> \<exists>i < length ?V. relative par E v i \<and> Idom d ! nat (?V ! v) = ?V ! i"
      "\<And>x. x \<le> n \<Longrightarrow> int x \<notin> set ?V \<Longrightarrow> Idom d ! x = -1"
    using p unfolding pass2_def by auto
  have V: "node_list n ?V" "length (Idom d) = Suc n" "length (semi d) = Suc n" using P(1) by (auto simp: dom_arrays_def)
  have arr: "node_array ?V (Idom d) (\<lambda>i. Idom d ! nat (?V ! i))" by (simp add: node_array_def)
  note get = node_array_get [OF V(1,2) arr] node_array_get [OF V(1,3) P(2)]
  obtain i where i: "i < length ?V" "relative par E k i" "Idom d ! nat (?V ! k) = ?V ! i" using P(4) [of k] k(2) by auto
  have s: "sdom E k < length ?V" using sdom_less [OF num k] k by simp
  note rel = relative_idom [OF num k i(2)]
  have semi: "aget (semi d) (?V ! k) = Inr (int (sdom E k))" using get(2) k by (simp add: semi_at_def)
  show ?thesis
  proof (cases "i = sdom E k")
    case True
    have "idom_step k d = Inr d" using True get(1) [OF k(2)] i(3) semi k s by (simp add: idom_step_def)
    moreover have "idom_at E d k" using rel(1) [OF True] i by (auto simp: idom_at_def)
    then have "pass2 n par E (Suc k) d" using p unfolding pass2_def by (simp add: less_Suc_eq) (metis)
    ultimately show ?thesis using that by simp
  next
    case False
    then have i2: "0 < i" "i < k" using rel(2) by auto
    obtain q where q: "q < length ?V" "is_idom E q i" "Idom d ! nat (?V ! i) = ?V ! q" using P(3) [OF i2] by (auto simp: idom_at_def)
    obtain xs where xs: "aset (Idom d) (?V ! k) (?V ! q) = Inr xs" "length xs = Suc n"
        "node_array ?V xs ((\<lambda>i. Idom d ! nat (?V ! i))(k := ?V ! q))" "\<And>z. z \<noteq> ?V ! k \<Longrightarrow> 0 \<le> z \<Longrightarrow> xs ! nat z = Idom d ! nat z"
      using node_array_set [OF V(1,2) arr k(2), where y = "?V ! q"] by blast
    have "?V ! i \<noteq> ?V ! sdom E k" using False node_list_inj [OF V(1) i(1) s] by simp
    then have "idom_step k d = Inr (d\<lparr>Idom := xs\<rparr>)"
      using get(1) [OF k(2)] get(1) [OF i(1)] i(3) q(3) semi k s xs(1) by (simp add: idom_step_def)
    moreover have "pass2 n par E (Suc k) (d\<lparr>Idom := xs\<rparr>)"
    proof -
      have at: "xs ! nat (?V ! v) = (if v = k then ?V ! q else Idom d ! nat (?V ! v))" if "v < length ?V" for v
        using xs(3) that by (auto simp: node_array_def)
      have "idom_at E (d\<lparr>Idom := xs\<rparr>) v" if "0 < v" "v < Suc k" for v
      proof (cases "v = k")
        case True
        then show ?thesis using at [of k] k q rel(3) [OF False q(2)] by (auto simp: idom_at_def)
      next
        case False
        then show ?thesis using that P(3) [of v] at [of v] k by (simp add: idom_at_def)
      qed
      moreover have "xs ! x = -1" if "x \<le> n" "int x \<notin> set ?V" for x
        using xs(4) [of "int x"] P(5) [OF that] that nth_mem [OF k(2)] by (metis nat_int of_nat_0_le_iff)
      ultimately show ?thesis using P(1,2,4) at xs(2) by (auto simp: pass2_def dom_arrays_def)
    qed
    ultimately show ?thesis using that by simp
  qed
qed

lemma pass2_loop:
  assumes num: "numbering (length (Vertex d)) par E" and k: "0 < k" "k \<le> length (Vertex d)" and p: "pass2 n par E k d"
  obtains d' where "for_each idom_step [k..<length (Vertex d)] d = Inr d'" "pass2 n par E (length (Vertex d)) d'" "d' = d\<lparr>Idom := Idom d'\<rparr>"
  using num k p
proof (induction "length (Vertex d) - k" arbitrary: k d thesis)
  case 0
  then have "k = length (Vertex d)" by simp
  with 0 show ?case by simp
next
  case (Suc j)
  then have k: "k < length (Vertex d)" by simp
  obtain d1 where d1: "idom_step k d = Inr d1" "pass2 n par E (Suc k) d1" "d1 = d\<lparr>Idom := Idom d1\<rparr>"
    using idom_step_ok [OF Suc.prems(2,3) k Suc.prems(5)] by metis
  have V1: "Vertex d1 = Vertex d" by (subst d1(3)) simp
  have jk: "j = length (Vertex d) - Suc k" using Suc.hyps(2) by simp
  obtain d2 where d2: "for_each idom_step [Suc k..<length (Vertex d)] d1 = Inr d2"
      "pass2 n par E (length (Vertex d)) d2" "d2 = d1\<lparr>Idom := Idom d2\<rparr>"
    using Suc.hyps(1) [of d1 "Suc k", unfolded V1, OF jk _ Suc.prems(2) _ Suc_leI [OF k] d1(2)] by blast
  have "d2 = d\<lparr>Idom := Idom d2\<rparr>" using d1(3) d2(3) by (cases d; cases d1; cases d2) simp
  moreover have "for_each idom_step [k..<length (Vertex d)] d = Inr d2" using d1(1) d2(1) k by (simp add: upt_conv_Cons)
  ultimately show ?case using Suc.prems(1) d2(2) by blast
qed

theorem dom_idoms_ok:
  assumes g: "dom_graph g es roots n" and r: "dfs_result g es roots n par d" and E: "E = num_edge es roots n (Vertex d)"
  obtains d' where "dom_idoms g d = Inr d'" "lt_frame d d'" "dom_arrays n d'"
    "\<And>v. 0 < v \<Longrightarrow> v < length (Vertex d) \<Longrightarrow> idom_at E d' v" "Idom d' ! n = int n"
    "\<And>x. x \<le> n \<Longrightarrow> int x \<notin> set (Vertex d) \<Longrightarrow> Idom d' ! x = -1"
proof -
  let ?V = "Vertex d"
  have inv: "dfs_inv es roots n par d []" using r by (simp add: dfs_result_def)
  note I = dfs_invD [OF inv]
  have num: "numbering (length ?V) par E" using dfs_numbering [OF inv] E by simp
  have m: "0 < length ?V" using I(3) by simp
  obtain d1 where d1: "for_each (lt_step g) (rev [1..<length ?V]) d = Inr d1" "lt_inv n par E 1 d1" "lt_frame d d1" "dom_arrays n d1"
    using lt_loop_ok [OF g inv E m order_refl lt_start [OF r]] by metis
  have F1: "Vertex d1 = ?V" "DRoot d1 = int n" using d1(3) I(2) by (auto simp: lt_frame_def)
  have "pass2 n par E 1 d1" using pass2_start d1(2) num F1(1) by metis
  then obtain d2 where d2: "for_each idom_step [1..<length ?V] d1 = Inr d2" "pass2 n par E (length ?V) d2" "d2 = d1\<lparr>Idom := Idom d2\<rparr>"
    using pass2_loop [of d1 par E 1 n] num F1(1) m by auto
  have F2: "Vertex d2 = ?V" "DRoot d2 = int n" "lt_frame d d2"
    using F1 d1(3) by (subst d2(3); simp add: lt_frame_def)+
  have D2: "dom_arrays n d2" "\<And>v. 0 < v \<Longrightarrow> v < length ?V \<Longrightarrow> idom_at E d2 v"
      "\<And>x. x \<le> n \<Longrightarrow> int x \<notin> set ?V \<Longrightarrow> Idom d2 ! x = -1"
    using d2(2) F2(1) by (auto simp: pass2_def)
  have nl: "node_list n ?V" using I(1) by (simp add: dom_arrays_def)
  let ?d = "d2\<lparr>Idom := (Idom d2)[n := int n]\<rparr>"
  have len: "length (Idom d2) = Suc n" using D2(1) by (simp add: dom_arrays_def)
  have "aset (Idom d2) (DRoot d2) (DRoot d2) = Inr ((Idom d2)[n := int n])" using F2(2) len by (simp add: aset_def)
  then have "dom_idoms g d = Inr ?d" using d1(1) d2(1) F1(1) by (simp add: dom_idoms_def)
  moreover have "lt_frame d ?d" using F2(3) by (simp add: lt_frame_def)
  moreover have "dom_arrays n ?d" using D2(1) by (simp add: dom_arrays_def)
  moreover have "idom_at E ?d v" if v: "0 < v" "v < length ?V" for v
  proof -
    have "nat (?V ! v) \<noteq> n"
      using node_list_inj [OF nl v(2) m] node_list_nth [OF nl v(2)] I(4) v(1) by fastforce
    then show ?thesis using D2(2) [OF v] F2(1) by (simp add: idom_at_def)
  qed
  moreover have "Idom ?d ! x = -1" if x: "x \<le> n" "int x \<notin> set ?V" for x
  proof -
    have "n \<noteq> x" using x(2) I(4) nth_mem [OF m] by metis
    then show ?thesis using D2(3) [OF x] by simp
  qed
  ultimately show ?thesis using that len by simp
qed

end
