(* ===== verification/Dom_Retained.thy ===== *)
theory Dom_Retained
  imports Dom_Loop
begin

text \<open>
  The end of \<open>Dominators\<close> in \<open>dom.go\<close>: every node is folded into its immediate dominator, deepest first. The
  lemmas show that this sums the sizes over the dominator subtree, and translate dominance on numbers to
  paths in the object graph: what a node retains are the objects that only it keeps reachable.
\<close>

subsection \<open>The dominator tree\<close>

lemma ravoid_split: "ravoid E a c \<Longrightarrow> ravoid E b c \<or> ravoid E a b"
proof (induction rule: ravoid.induct)
  case ravoid_root
  then show ?case by (cases "b = 0") (auto intro: ravoid.ravoid_root)
next
  case (ravoid_edge u v)
  then show ?case by (cases "v = b") (auto intro: ravoid.ravoid_edge)
qed

lemma dominates_trans: "dominates E a b \<Longrightarrow> dominates E b c \<Longrightarrow> dominates E a c"
  unfolding dominates_def using ravoid_split by blast

lemma dominates_linear:
  assumes num: "numbering m par E" and u: "u < m" and i: "dominates E i u" "dominates E j u" "i \<le> j"
  shows "dominates E i j"
proof (cases "i = j")
  case False
  then have ij: "i < j" "j \<le> u" using i dominates_le [OF num i(2) u] by auto
  have anc: "tanc par i u" "tanc par j u" using dominates_tanc [OF num _ u] i by auto
  have "tanc par i j" using tanc_linear [OF num anc u i(3)] .
  moreover have "i \<le> sdom E z" if "i < z" "tanc par z j" for z
    using that i(1) strict_dominator_iff [OF num u, of i] ij tanc_trans [OF anc(2)] by auto
  ultimately show ?thesis using strict_dominator_iff [OF num, of j i] ij u by auto
qed simp

text \<open>The sum of \<open>sz\<close> over the nodes that \<open>j\<close> dominates.\<close>

definition below_dom :: "nat \<Rightarrow> (nat \<Rightarrow> nat \<Rightarrow> bool) \<Rightarrow> nat \<Rightarrow> nat set" where
  "below_dom m E j = {u. u < m \<and> dominates E j u}"

lemma finite_below_dom [simp]: "finite (below_dom m E j)"
  by (simp add: below_dom_def)

lemma idom_child:
  assumes num: "numbering m par E" and q: "\<And>i. 0 < i \<Longrightarrow> i < m \<Longrightarrow> is_idom E (q i) i"
    and u: "u < m" "dominates E j u" "u \<noteq> j"
  obtains i where "0 < i" "i < m" "q i = j" "dominates E i u"
  using u
proof (induction u arbitrary: thesis rule: less_induct)
  case (less u)
  have u: "0 < u" "u < m" using dominates_le [OF num less.prems(3,2)] less.prems by auto
  have qu: "q u < u" "dominates E j (q u)" "dominates E (q u) u"
    using is_idom_less [OF num q [OF u] u(2)] q [OF u] less.prems by (auto simp: is_idom_def)
  show ?case
  proof (cases "q u = j")
    case True
    then show ?thesis using less.prems(1) u by simp
  next
    case False
    then obtain i where "0 < i" "i < m" "q i = j" "dominates E i (q u)" using less.IH [OF qu(1)] qu u by (metis less_trans)
    then show ?thesis using less.prems(1) dominates_trans qu(3) by blast
  qed
qed

lemma below_dom_sum:
  fixes sz :: "nat \<Rightarrow> int"
  assumes num: "numbering m par E" and q: "\<And>i. 0 < i \<Longrightarrow> i < m \<Longrightarrow> is_idom E (q i) i" and j: "j < m"
  shows "sum sz (below_dom m E j) = sz j + (\<Sum>i \<in> {i. 0 < i \<and> i < m \<and> q i = j}. sum sz (below_dom m E i))"
proof -
  let ?C = "{i. 0 < i \<and> i < m \<and> q i = j}"
  have qi: "q i < i" "dominates E (q i) i" if "0 < i" "i < m" for i
    using is_idom_less [OF num q [OF that] that(2)] q [OF that] by (auto simp: is_idom_def)
  have "below_dom m E j = insert j (\<Union>i \<in> ?C. below_dom m E i)"
  proof (intro equalityI subsetI)
    fix u assume "u \<in> below_dom m E j"
    then show "u \<in> insert j (\<Union>i \<in> ?C. below_dom m E i)"
      using idom_child [OF num q, of u j] by (auto simp: below_dom_def)
  next
    fix u assume "u \<in> insert j (\<Union>i \<in> ?C. below_dom m E i)"
    then show "u \<in> below_dom m E j"
      using j by (auto simp: below_dom_def intro: dominates_trans [OF qi(2)])
  qed
  moreover have "j \<notin> (\<Union>i \<in> ?C. below_dom m E i)"
  proof
    assume "j \<in> (\<Union>i \<in> ?C. below_dom m E i)"
    then obtain i where i: "0 < i" "i < m" "q i = j" "dominates E i j" by (auto simp: below_dom_def)
    then show False using dominates_le [OF num i(4) j] qi(1) [OF i(1,2)] by simp
  qed
  moreover have "below_dom m E i \<inter> below_dom m E i' = {}" if i: "i \<in> ?C" "i' \<in> ?C" "i \<noteq> i'" for i i'
  proof -
    have False if "u < m" "dominates E a u" "dominates E b u" "a < b" "a \<in> ?C" "b \<in> ?C" for u a b
    proof -
      have "dominates E a b" using dominates_linear [OF num that(1-3)] that(4) by simp
      then have "dominates E a (q b)" using q [of b] that by (auto simp: is_idom_def)
      then have "a \<le> j" using dominates_le [OF num, of a j] j that by simp
      then show False using qi(1) [of a] that by simp
    qed
    from this [of _ i i'] this [of _ i' i] i show ?thesis by (auto simp: below_dom_def nat_neq_iff)
  qed
  ultimately show ?thesis
    by (simp add: sum.UNION_disjoint)
qed

subsection \<open>Folding\<close>

definition retain_inv :: "nat \<Rightarrow> (nat \<Rightarrow> nat \<Rightarrow> bool) \<Rightarrow> (nat \<Rightarrow> nat) \<Rightarrow> (nat \<Rightarrow> int) \<Rightarrow> nat \<Rightarrow> nat \<Rightarrow> int" where
  "retain_inv m E q sz k j = sz j + (\<Sum>i \<in> {i. k \<le> i \<and> i < m \<and> q i = j}. sum sz (below_dom m E i))"

lemma retain_inv_final:
  assumes num: "numbering m par E" and q: "\<And>i. 0 < i \<Longrightarrow> i < m \<Longrightarrow> is_idom E (q i) i" and j: "j < m" "k \<le> Suc j" "0 < k"
  shows "retain_inv m E q sz k j = sum sz (below_dom m E j)"
proof -
  have "j < i" if "0 < i" "i < m" "q i = j" for i
    using is_idom_less [OF num q [OF that(1,2)] that(2)] that(3) by simp
  then have "k \<le> i \<longleftrightarrow> 0 < i" if "i < m" "q i = j" for i
    using that j(2,3) by (metis Suc_leI order_less_le_trans order_trans)
  then have "{i. k \<le> i \<and> i < m \<and> q i = j} = {i. 0 < i \<and> i < m \<and> q i = j}" by blast
  then show ?thesis using below_dom_sum [OF num q j(1)] by (simp add: retain_inv_def)
qed

lemma retain_inv_step:
  assumes "k < m"
  shows "retain_inv m E q sz k j = retain_inv m E q sz (Suc k) j + (if q k = j then sum sz (below_dom m E k) else 0)"
proof (cases "q k = j")
  case True
  then have "{i. k \<le> i \<and> i < m \<and> q i = j} = insert k {i. Suc k \<le> i \<and> i < m \<and> q i = j}" using assms by fastforce
  then show ?thesis using True by (simp add: retain_inv_def)
next
  case False
  then have "{i. k \<le> i \<and> i < m \<and> q i = j} = {i. Suc k \<le> i \<and> i < m \<and> q i = j}" by (metis Suc_leD Suc_leI le_neq_implies_less)
  then show ?thesis using False by (simp add: retain_inv_def)
qed

lemma retain_loop_ok:
  assumes num: "numbering (length (Vertex d)) par E" and d: "dom_arrays n d"
    and q: "\<And>i. 0 < i \<Longrightarrow> i < length (Vertex d) \<Longrightarrow> is_idom E (q i) i \<and> Idom d ! nat (Vertex d ! i) = Vertex d ! q i"
    and k: "0 < k" "k \<le> length (Vertex d)"
    and r: "length r = Suc n" "node_array (Vertex d) r (retain_inv (length (Vertex d)) E q sz k)"
      "\<And>x. x \<le> n \<Longrightarrow> int x \<notin> set (Vertex d) \<Longrightarrow> r ! x = r0 ! x"
  obtains r' where "for_each retain_step (rev [1..<k]) (d\<lparr>Retained := r\<rparr>) = Inr (d\<lparr>Retained := r'\<rparr>)" "length r' = Suc n"
    "node_array (Vertex d) r' (\<lambda>j. sum sz (below_dom (length (Vertex d)) E j))"
    "\<And>x. x \<le> n \<Longrightarrow> int x \<notin> set (Vertex d) \<Longrightarrow> r' ! x = r0 ! x"
  using k r
proof (induction k arbitrary: r thesis)
  case (Suc k)
  let ?V = "Vertex d" and ?m = "length (Vertex d)"
  have V: "node_list n ?V" "length (Idom d) = Suc n" using d by (auto simp: dom_arrays_def)
  have qi: "\<And>i. 0 < i \<Longrightarrow> i < ?m \<Longrightarrow> is_idom E (q i) i" using q by blast
  show ?case
  proof (cases "k = 0")
    case True
    have "retain_inv ?m E q sz 1 j = sum sz (below_dom ?m E j)" if "j < ?m" for j
      using retain_inv_final [OF num qi that, of 1 sz] by simp
    then have "node_array ?V r (\<lambda>j. sum sz (below_dom ?m E j))" using Suc.prems(5) True by (simp add: node_array_def)
    then show ?thesis using Suc.prems(1) [of r] Suc.prems(4,6) True by simp
  next
    case False
    then have k: "0 < k" "k < ?m" using Suc.prems(3) by auto
    have qk: "q k < k" "q k < ?m" using is_idom_less [OF num qi [OF k] k(2)] k by auto
    have "node_array ?V (Idom d) (\<lambda>i. Idom d ! nat (?V ! i))" by (simp add: node_array_def)
    note get = node_array_get [OF V this k(2)] node_array_get [OF V(1) Suc.prems(4,5)]
    have p: "aget (Idom d) (?V ! k) = Inr (?V ! q k)" using get(1) q [OF k] by simp
    have pk: "0 \<le> ?V ! q k" "?V ! q k \<noteq> ?V ! k"
      using node_list_nth [OF V(1) qk(2)] node_list_inj [OF V(1) qk(2) k(2)] qk(1) by auto
    let ?y = "retain_inv ?m E q sz (Suc k) (q k) + retain_inv ?m E q sz (Suc k) k"
    obtain r1 where r1: "aset r (?V ! q k) ?y = Inr r1" "length r1 = Suc n"
        "node_array ?V r1 ((retain_inv ?m E q sz (Suc k))(q k := ?y))" "\<And>z. z \<noteq> ?V ! q k \<Longrightarrow> 0 \<le> z \<Longrightarrow> r1 ! nat z = r ! nat z"
      using node_array_set [OF V(1) Suc.prems(4,5) qk(2), where y = ?y] by blast
    have "retain_step k (d\<lparr>Retained := r\<rparr>) = Inr (d\<lparr>Retained := r1\<rparr>)"
      using k(2) p pk get(2) [OF k(2)] get(2) [OF qk(2)] r1(1) by (simp add: retain_step_def)
    moreover have arr1: "node_array ?V r1 (retain_inv ?m E q sz k)"
    proof -
      have "?y = retain_inv ?m E q sz (Suc k) (q k) + sum sz (below_dom ?m E k)"
        using retain_inv_final [OF num qi k(2), of "Suc k" sz] by simp
      then have "((retain_inv ?m E q sz (Suc k))(q k := ?y)) = retain_inv ?m E q sz k"
        using retain_inv_step [OF k(2)] by (auto simp: fun_eq_iff)
      then show ?thesis using r1(3) by simp
    qed
    moreover have out: "r1 ! x = r0 ! x" if "x \<le> n" "int x \<notin> set ?V" for x
      using r1(4) [of "int x"] Suc.prems(6) [OF that] that nth_mem [OF qk(2)] by (metis nat_int of_nat_0_le_iff)
    moreover obtain r' where "for_each retain_step (rev [1..<k]) (d\<lparr>Retained := r1\<rparr>) = Inr (d\<lparr>Retained := r'\<rparr>)"
        "length r' = Suc n" "node_array ?V r' (\<lambda>j. sum sz (below_dom ?m E j))"
        "\<And>x. x \<le> n \<Longrightarrow> int x \<notin> set ?V \<Longrightarrow> r' ! x = r0 ! x"
      using Suc.IH [OF _ k(1) less_imp_le [OF k(2)] r1(2) arr1 out] by blast
    ultimately show ?thesis using Suc.prems(1) [of r'] k(1) by simp
  qed
qed simp

lemma shallow_loop_ok:
  assumes "length (dfn d) = Suc n" "length (Size g) = n" "length (Retained d) = Suc n" "k \<le> n"
  obtains r where "for_each (shallow_step g) [0..<k] (d, u) =
      Inr (d\<lparr>Retained := r\<rparr>, u + (\<Sum>i \<in> {i. i < k \<and> dfn d ! i < 0}. Size g ! i))" "length r = Suc n"
    "\<And>i. i \<le> n \<Longrightarrow> r ! i = (if i < k \<and> 0 \<le> dfn d ! i then Size g ! i else Retained d ! i)"
  using assms(4)
proof (induction k arbitrary: thesis)
  case 0
  show ?case by (rule 0(1) [of "Retained d"]) (use assms in simp_all)
next
  case (Suc k)
  let ?U = "\<lambda>k. u + (\<Sum>i \<in> {i. i < k \<and> dfn d ! i < 0}. Size g ! i)"
  obtain r where r: "for_each (shallow_step g) [0..<k] (d, u) = Inr (d\<lparr>Retained := r\<rparr>, ?U k)" "length r = Suc n"
      "\<And>i. i \<le> n \<Longrightarrow> r ! i = (if i < k \<and> 0 \<le> dfn d ! i then Size g ! i else Retained d ! i)"
    using Suc.IH [OF _ Suc_leD [OF Suc.prems(2)]] by blast
  have U: "{i. i < Suc k \<and> dfn d ! i < 0} = (if dfn d ! k < 0 then insert k {i. i < k \<and> dfn d ! i < 0} else {i. i < k \<and> dfn d ! i < 0})"
    by (auto simp: less_Suc_eq)
  let ?r = "if dfn d ! k < 0 then r else r[k := Size g ! k]"
  have "shallow_step g k (d\<lparr>Retained := r\<rparr>, ?U k) = Inr (d\<lparr>Retained := ?r\<rparr>, ?U (Suc k))"
    using assms Suc.prems(2) r(2) unfolding U by (simp add: shallow_step_def)
  then have "for_each (shallow_step g) [0..<Suc k] (d, u) = Inr (d\<lparr>Retained := ?r\<rparr>, ?U (Suc k))"
    using r(1) by (simp add: for_each_append)
  moreover have "length ?r = Suc n" using r(2) by simp
  moreover have "?r ! i = (if i < Suc k \<and> 0 \<le> dfn d ! i then Size g ! i else Retained d ! i)" if "i \<le> n" for i
    using r(2) r(3) [OF that] that Suc.prems(2) by (auto simp: nth_list_update less_Suc_eq)
  ultimately show ?case using Suc.prems(1) by blast
qed

subsection \<open>Paths in the object graph\<close>

text \<open>\<open>reaches es roots X v\<close>: a path from a GC root to \<open>v\<close> that meets no object of \<open>X\<close>.\<close>

inductive reaches :: "(nat \<times> nat) list \<Rightarrow> nat list \<Rightarrow> nat set \<Rightarrow> nat \<Rightarrow> bool" for es roots X where
  reaches_root: "r \<in> set roots \<Longrightarrow> r \<notin> X \<Longrightarrow> reaches es roots X r"
| reaches_edge: "reaches es roots X v \<Longrightarrow> (v, w) \<in> set es \<Longrightarrow> w \<notin> X \<Longrightarrow> reaches es roots X w"

abbreviation reachable :: "(nat \<times> nat) list \<Rightarrow> nat list \<Rightarrow> nat \<Rightarrow> bool" where
  "reachable es roots \<equiv> reaches es roots {}"

text \<open>The objects that would become garbage without \<open>v\<close>.\<close>

definition freed :: "(nat \<times> nat) list \<Rightarrow> nat list \<Rightarrow> nat \<Rightarrow> nat set" where
  "freed es roots v = {w. reachable es roots w \<and> \<not> reaches es roots {v} w}"

lemma reaches_mono: "reaches es roots X v \<Longrightarrow> Y \<subseteq> X \<Longrightarrow> reaches es roots Y v"
  by (induction rule: reaches.induct) (auto intro: reaches.intros)

lemma freed_unreachable: "\<not> reachable es roots v \<Longrightarrow> freed es roots v = {}"
proof -
  assume v: "\<not> reachable es roots v"
  have "reaches es roots {v} w" if "reachable es roots w" for w
    using that
  proof (induction rule: reaches.induct)
    case (reaches_root r)
    then show ?case using v by (auto intro: reaches.intros)
  next
    case (reaches_edge u w)
    then have "reachable es roots w" by (auto intro: reaches.intros)
    then have "w \<noteq> v" using v by blast
    with reaches_edge show ?case by (auto intro: reaches.intros)
  qed
  then show ?thesis by (auto simp: freed_def)
qed

lemma kid_cases:
  assumes g: "dom_graph g es roots n" and inv: "dfs_inv es roots n par d []" and j: "j < length (Vertex d)"
  shows "w \<in> set (kids es roots n (Vertex d ! j)) \<longleftrightarrow>
    (if j = 0 then w \<in> int ` set roots else 0 \<le> w \<and> (nat (Vertex d ! j), nat w) \<in> set es)"
proof -
  note I = dfs_invD [OF inv]
  have nl: "node_list n (Vertex d)" using I(1) by (simp add: dom_arrays_def)
  have "Vertex d ! j = int n \<longleftrightarrow> j = 0" using node_list_inj [OF nl j, of 0] I(3,4) by auto
  then show ?thesis by (auto simp: kids_def int_image_iff targets_in)
qed

lemma num_of:
  assumes g: "dom_graph g es roots n" and inv: "dfs_inv es roots n par d []" and i: "i < length (Vertex d)"
    and w: "int w \<in> set (kids es roots n (Vertex d ! i))"
  obtains t where "0 < t" "t < length (Vertex d)" "Vertex d ! t = int w" "num_edge es roots n (Vertex d) i t"
proof -
  note I = dfs_invD [OF inv]
  have nl: "node_list n (Vertex d)" using I(1) by (simp add: dom_arrays_def)
  obtain t where t: "t < length (Vertex d)" "int w = Vertex d ! t" using dfs_done_closed [OF inv i w] by blast
  have "int w < int n" using dom_graph_kids(1) [OF g _ _ w] node_list_nth [OF nl i] by simp
  then have "0 < t" using t(2) I(4) by (cases t) auto
  then show ?thesis using that t i w by (simp add: num_edge_def)
qed

lemma reaches_num:
  assumes g: "dom_graph g es roots n" and inv: "dfs_inv es roots n par d []" and E: "E = num_edge es roots n (Vertex d)"
    and X: "\<And>i. 0 < i \<Longrightarrow> i < length (Vertex d) \<Longrightarrow> nat (Vertex d ! i) \<in> X \<longleftrightarrow> i = k" and k: "0 < k"
  shows "reaches es roots X v \<longleftrightarrow> (\<exists>i. 0 < i \<and> i < length (Vertex d) \<and> Vertex d ! i = int v \<and> ravoid E k i)"
proof
  let ?V = "Vertex d"
  note I = dfs_invD [OF inv]
  assume "reaches es roots X v"
  then show "\<exists>i. 0 < i \<and> i < length ?V \<and> ?V ! i = int v \<and> ravoid E k i"
  proof (induction rule: reaches.induct)
    case (reaches_root r)
    have r: "int r \<in> set (kids es roots n (?V ! 0))" using reaches_root(1) I(4) by (simp add: kids_def)
    have m: "0 < length ?V" using I(3) by simp
    obtain t where t: "0 < t" "t < length ?V" "?V ! t = int r" "num_edge es roots n ?V 0 t" using num_of [OF g inv m r] by blast
    then have "t \<noteq> k" using X [of t] reaches_root(2) by auto
    then have "ravoid E k t" using t(4) k E by (blast intro: ravoid_edge ravoid_root)
    then show ?case using t by blast
  next
    case (reaches_edge v w)
    then obtain i where i: "0 < i" "i < length ?V" "?V ! i = int v" "ravoid E k i" by blast
    have w: "int w \<in> set (kids es roots n (?V ! i))" using kid_cases [OF g inv i(2)] i reaches_edge(2) by simp
    obtain t where t: "0 < t" "t < length ?V" "?V ! t = int w" "num_edge es roots n ?V i t" using num_of [OF g inv i(2) w] by blast
    then have "t \<noteq> k" using X [of t] reaches_edge(3) by auto
    then have "ravoid E k t" using t(4) i(4) E by (blast intro: ravoid_edge)
    then show ?case using t by blast
  qed
next
  let ?V = "Vertex d"
  note I = dfs_invD [OF inv]
  have step: "0 < i \<longrightarrow> i < length ?V \<longrightarrow> reaches es roots X (nat (?V ! i))" if "ravoid E k i" for i
    using that
  proof (induction rule: ravoid.induct)
    case (ravoid_edge u t)
    have e: "u < length ?V" "?V ! t \<in> set (kids es roots n (?V ! u))" using ravoid_edge(2) E by (auto simp: num_edge_def)
    show ?case
    proof (intro impI)
      assume t: "0 < t" "t < length ?V"
      then have out: "nat (?V ! t) \<notin> X" using X ravoid_edge(3) by blast
      show "reaches es roots X (nat (?V ! t))"
      proof (cases "u = 0")
        case True
        then show ?thesis using e out kid_cases [OF g inv e(1)] by (auto intro: reaches_root)
      next
        case False
        then have "(nat (?V ! u), nat (?V ! t)) \<in> set es" using e kid_cases [OF g inv e(1)] by simp
        then show ?thesis using ravoid_edge.IH False e(1) out by (blast intro: reaches_edge)
      qed
    qed
  qed simp
  assume "\<exists>i. 0 < i \<and> i < length ?V \<and> ?V ! i = int v \<and> ravoid E k i"
  then show "reaches es roots X v" using step by (metis nat_int)
qed

lemma node_list_nat_inj:
  assumes "node_list n V" "i < length V" "j < length V" "nat (V ! i) = nat (V ! j)"
  shows "i = j"
  using node_list_inj [OF assms(1-3)] node_list_nth [OF assms(1,2)] node_list_nth [OF assms(1,3)] assms(4) by auto

lemma reachable_num:
  assumes g: "dom_graph g es roots n" and inv: "dfs_inv es roots n par d []"
  shows "reachable es roots v \<longleftrightarrow> (\<exists>i. 0 < i \<and> i < length (Vertex d) \<and> Vertex d ! i = int v)"
proof -
  let ?E = "num_edge es roots n (Vertex d)" and ?m = "length (Vertex d)"
  have m: "0 < ?m" using dfs_invD(3) [OF inv] by simp
  have "ravoid ?E ?m i" if "i < ?m" for i using ravoid_below [OF dfs_numbering [OF inv] that that] .
  then show ?thesis using reaches_num [OF g inv refl, of "{}" ?m v] m by auto
qed

lemma freed_num:
  assumes g: "dom_graph g es roots n" and inv: "dfs_inv es roots n par d []" and E: "E = num_edge es roots n (Vertex d)"
    and t: "0 < t" "t < length (Vertex d)" "Vertex d ! t = int v"
  shows "v \<in> freed es roots u \<longleftrightarrow> (\<exists>k. 0 < k \<and> k < length (Vertex d) \<and> Vertex d ! k = int u \<and> dominates E k t)"
proof -
  let ?V = "Vertex d"
  have nl: "node_list n ?V" using dfs_invD(1) [OF inv] by (simp add: dom_arrays_def)
  have inj: "i = j" if "i < length ?V" "j < length ?V" "?V ! i = ?V ! j" for i j
    using node_list_inj [OF nl that(1,2)] that(3) by simp
  have r: "reachable es roots v" using reachable_num [OF g inv] t by blast
  have avoid: "reaches es roots {u} v \<longleftrightarrow> ravoid E k t" if k: "0 < k" "k < length ?V" "?V ! k = int u" for k
  proof -
    have "nat (?V ! i) \<in> {u} \<longleftrightarrow> i = k" if "i < length ?V" for i
      using inj [OF that k(2)] k(3) node_list_nth [OF nl that] by auto
    then show ?thesis using reaches_num [OF g inv E _ k(1), of "{u}" v] inj [OF t(2)] t by metis
  qed
  show ?thesis
  proof (cases "reachable es roots u")
    case True
    then obtain k where k: "0 < k" "k < length ?V" "?V ! k = int u" using reachable_num [OF g inv] by blast
    have "i = k" if "i < length ?V" "?V ! i = int u" for i using inj [OF that(1) k(2)] that k by simp
    then have "(\<exists>i. 0 < i \<and> i < length ?V \<and> ?V ! i = int u \<and> dominates E i t) \<longleftrightarrow> dominates E k t" using k by blast
    then show ?thesis using r avoid [OF k] by (simp add: freed_def dominates_def)
  next
    case False
    then have "freed es roots u = {}" "\<not> (\<exists>k. 0 < k \<and> k < length ?V \<and> ?V ! k = int u)"
      using freed_unreachable reachable_num [OF g inv, of u] by simp_all
    then show ?thesis by blast
  qed
qed

subsection \<open>The result of \<open>Dominators\<close>\<close>

text \<open>\<open>p\<close> is the immediate dominator of the object \<open>v\<close>: the object, other than \<open>v\<close>, that keeps \<open>v\<close> alive and
  that is kept alive by all others that do; the virtual root \<open>n\<close> when there is none.\<close>

definition obj_idom :: "(nat \<times> nat) list \<Rightarrow> nat list \<Rightarrow> nat \<Rightarrow> int \<Rightarrow> nat \<Rightarrow> bool" where
  "obj_idom es roots n p v \<longleftrightarrow>
     (if p = int n then \<forall>u. v \<in> freed es roots u \<longrightarrow> u = v
      else \<exists>d. p = int d \<and> d \<noteq> v \<and> v \<in> freed es roots d \<and>
        (\<forall>u. u \<noteq> v \<and> v \<in> freed es roots u \<longrightarrow> d \<in> freed es roots u))"

lemma obj_idom_num:
  assumes g: "dom_graph g es roots n" and inv: "dfs_inv es roots n par d []" and E: "E = num_edge es roots n (Vertex d)"
    and t: "0 < t" "t < length (Vertex d)" "Vertex d ! t = int v" and q: "is_idom E q t" "q < length (Vertex d)"
  shows "obj_idom es roots n (Vertex d ! q) v"
proof -
  let ?V = "Vertex d"
  note I = dfs_invD [OF inv]
  have num: "numbering (length ?V) par E" using dfs_numbering [OF inv] E by simp
  have nl: "node_list n ?V" using I(1) by (simp add: dom_arrays_def)
  have q': "q \<noteq> t" "dominates E q t" "\<And>e. e \<noteq> t \<Longrightarrow> dominates E e t \<Longrightarrow> dominates E e q" using q by (auto simp: is_idom_def)
  note freed = freed_num [OF g inv E t]
  show ?thesis
  proof (cases "q = 0")
    case True
    have "k = t" if "0 < k" "dominates E k t" for k
      using q'(3) [of k] that dominates_le [OF num, of k 0] t(2) True by force
    then have "u = v" if "v \<in> freed es roots u" for u
      using that freed t(3) by (metis of_nat_eq_iff)
    then show ?thesis using I(4) True by (simp add: obj_idom_def)
  next
    case False
    define u where "u = nat (?V ! q)"
    have u: "?V ! q = int u" "int u \<noteq> int n" "u \<noteq> v"
      using node_list_nth [OF nl q(2)] node_list_inj [OF nl q(2), of 0] node_list_inj [OF nl q(2) t(2)] I(3,4) False q'(1) t(3)
      by (auto simp: u_def)
    have fu: "v \<in> freed es roots u" using freed u(1) q(2) q'(2) False by auto
    have all: "u \<in> freed es roots x" if x: "x \<noteq> v" "v \<in> freed es roots x" for x
    proof -
      obtain k where k: "0 < k" "k < length ?V" "?V ! k = int x" "dominates E k t" using x(2) freed by blast
      then have "k \<noteq> t" using x(1) t(3) by auto
      then have "dominates E k q" using q'(3) k(4) by blast
      then show ?thesis using freed_num [OF g inv E _ q(2) u(1)] k False by auto
    qed
    show ?thesis
      unfolding obj_idom_def u(1) using u(2,3) fu all by auto
  qed
qed

text \<open>The nodes that number \<open>j\<close> dominates are the objects that \<open>j\<close> keeps alive.\<close>

lemma below_dom_freed:
  assumes g: "dom_graph g es roots n" and inv: "dfs_inv es roots n par d []" and E: "E = num_edge es roots n (Vertex d)"
    and j: "0 < j" "j < length (Vertex d)" "Vertex d ! j = int v"
  shows "bij_betw (\<lambda>u. nat (Vertex d ! u)) (below_dom (length (Vertex d)) E j) (freed es roots v)"
proof -
  let ?V = "Vertex d"
  have num: "numbering (length ?V) par E" using dfs_numbering [OF inv] E by simp
  have nl: "node_list n ?V" using dfs_invD(1) [OF inv] by (simp add: dom_arrays_def)
  note inj = node_list_nat_inj [OF nl]
  have pos: "0 < u" if "u < length ?V" "dominates E j u" for u
    using dominates_le [OF num that(2,1)] j(1) by simp
  have mem: "nat (?V ! u) \<in> freed es roots v \<longleftrightarrow> dominates E j u" if u: "0 < u" "u < length ?V" for u
    using freed_num [OF g inv E u, of "nat (?V ! u)" v] node_list_nth [OF nl u(2)] j inj by (metis int_nat_eq)
  have "w \<in> (\<lambda>u. nat (?V ! u)) ` below_dom (length ?V) E j" if w: "w \<in> freed es roots v" for w
  proof -
    obtain u where u: "0 < u" "u < length ?V" "?V ! u = int w" using w reachable_num [OF g inv, of w] by (auto simp: freed_def)
    then have "dominates E j u" using mem [OF u(1,2)] w by simp
    then show ?thesis using u by (force simp: below_dom_def)
  qed
  moreover have "(\<lambda>u. nat (?V ! u)) ` below_dom (length ?V) E j \<subseteq> freed es roots v"
    using mem pos by (auto simp: below_dom_def)
  ultimately show ?thesis using inj by (auto simp: bij_betw_def inj_on_def below_dom_def)
qed

lemma dom_retained_ok:
  assumes g: "dom_graph g es roots n" and inv: "dfs_inv es roots n par d []" and E: "E = num_edge es roots n (Vertex d)"
    and size: "length (Size g) = n" and r0: "Retained d = replicate (n + 1) 0"
    and idom: "\<And>v. 0 < v \<Longrightarrow> v < length (Vertex d) \<Longrightarrow> idom_at E d v"
    and sz: "sz = (\<lambda>i. if i = 0 then 0 else Size g ! nat (Vertex d ! i))"
  obtains r where "dom_retained g d = Inr (d\<lparr>Retained := r\<rparr>, g\<lparr>Unreach := Unreach g + (\<Sum>i \<in> {i. i < n \<and> dfn d ! i < 0}. Size g ! i)\<rparr>)"
    "length r = Suc n" "node_array (Vertex d) r (\<lambda>j. sum sz (below_dom (length (Vertex d)) E j))"
    "\<And>x. x \<le> n \<Longrightarrow> int x \<notin> set (Vertex d) \<Longrightarrow> r ! x = 0"
proof -
  let ?V = "Vertex d" and ?m = "length (Vertex d)"
  note I = dfs_invD [OF inv]
  have num: "numbering ?m par E" using dfs_numbering [OF inv] E by simp
  have nl: "node_list n ?V" and len: "length (dfn d) = Suc n" "length (Retained d) = Suc n"
    using I(1) by (auto simp: dom_arrays_def)
  have m: "0 < ?m" using I(3) by simp
  have N: "Graph_N g = n" using g by (simp add: dom_graph_def)
  obtain r1 where r1: "for_each (shallow_step g) [0..<n] (d, Unreach g) =
        Inr (d\<lparr>Retained := r1\<rparr>, Unreach g + (\<Sum>i \<in> {i. i < n \<and> dfn d ! i < 0}. Size g ! i))" "length r1 = Suc n"
      "\<And>i. i \<le> n \<Longrightarrow> r1 ! i = (if i < n \<and> 0 \<le> dfn d ! i then Size g ! i else Retained d ! i)"
    using shallow_loop_ok [OF len(1) size len(2) order_refl] by blast
  have zero: "Retained d ! i = 0" if "i \<le> n" for i using that r0 by (simp del: replicate_Suc)
  obtain q where q: "\<And>i. 0 < i \<Longrightarrow> i < ?m \<Longrightarrow> is_idom E (q i) i \<and> Idom d ! nat (?V ! i) = ?V ! q i"
    using idom unfolding idom_at_def by metis
  have "r1 ! nat (?V ! j) = retain_inv ?m E q sz ?m j" if j: "j < ?m" for j
  proof -
    have "{i. ?m \<le> i \<and> i < ?m \<and> q i = j} = {}" by auto
    then have "retain_inv ?m E q sz ?m j = sz j" by (simp only: retain_inv_def) simp
    moreover have "dfn d ! nat (?V ! j) = int j" using I(5) j by (simp add: node_array_def)
    moreover have "nat (?V ! j) = n \<longleftrightarrow> j = 0"
      using node_list_inj [OF nl j m] node_list_nth [OF nl j] I(4) by auto
    ultimately show ?thesis using r1(3) [of "nat (?V ! j)"] node_list_nth [OF nl j] zero [of n] by (auto simp: sz)
  qed
  then have arr: "node_array ?V r1 (retain_inv ?m E q sz ?m)" by (simp add: node_array_def)
  have out: "r1 ! x = replicate (n + 1) 0 ! x" if "x \<le> n" "int x \<notin> set ?V" for x
    using r1(3) [OF that(1)] I(6) [OF that] zero [OF that(1)] that(1) by (simp del: replicate_Suc)
  obtain r where r: "for_each retain_step (rev [1..<?m]) (d\<lparr>Retained := r1\<rparr>) = Inr (d\<lparr>Retained := r\<rparr>)" "length r = Suc n"
      "node_array ?V r (\<lambda>j. sum sz (below_dom ?m E j))"
      "\<And>x. x \<le> n \<Longrightarrow> int x \<notin> set ?V \<Longrightarrow> r ! x = replicate (n + 1) 0 ! x"
    using retain_loop_ok [OF num I(1) q m order_refl r1(2) arr out] by blast
  have "dom_retained g d = Inr (d\<lparr>Retained := r\<rparr>, g\<lparr>Unreach := Unreach g + (\<Sum>i \<in> {i. i < n \<and> dfn d ! i < 0}. Size g ! i)\<rparr>)"
    using r1(1) r(1) N by (simp add: dom_retained_def)
  then show ?thesis using that r(2-4) by (simp del: replicate_Suc)
qed

lemma object_cases:
  assumes g: "dom_graph g es roots n" and inv: "dfs_inv es roots n par d []" and v: "v < n"
  obtains (reached) i where "0 < i" "i < length (Vertex d)" "Vertex d ! i = int v" "reachable es roots v" "dfn d ! v = int i"
  | (unreached) "\<not> reachable es roots v" "int v \<notin> set (Vertex d)" "dfn d ! v = -1"
proof (cases "int v \<in> set (Vertex d)")
  case True
  note I = dfs_invD [OF inv]
  from True obtain i where i: "i < length (Vertex d)" "Vertex d ! i = int v" by (metis in_set_conv_nth)
  then have "0 < i" using I(4) v by (cases i) auto
  moreover have "dfn d ! v = int i" using I(5) i by (simp add: node_array_def) (metis nat_int)
  ultimately show ?thesis using reached [of i] i reachable_num [OF g inv, of v] by blast
next
  case False
  then have "\<not> reachable es roots v" using reachable_num [OF g inv, of v] by (metis nth_mem)
  then show ?thesis using unreached False dfs_invD(6) [OF inv, of v] v by simp
qed

lemma retained_freed:
  assumes g: "dom_graph g es roots n" and inv: "dfs_inv es roots n par d []" and E: "E = num_edge es roots n (Vertex d)"
    and sz: "sz = (\<lambda>i. if i = 0 then 0 else Size g ! nat (Vertex d ! i))"
    and j: "0 < j" "j < length (Vertex d)" "Vertex d ! j = int v"
  shows "sum sz (below_dom (length (Vertex d)) E j) = (\<Sum>w \<in> freed es roots v. Size g ! w)"
proof -
  have num: "numbering (length (Vertex d)) par E" using dfs_numbering [OF inv] E by simp
  have "sz u = Size g ! nat (Vertex d ! u)" if "u \<in> below_dom (length (Vertex d)) E j" for u
    using that dominates_le [OF num, of j u] j(1) by (auto simp: below_dom_def sz)
  then have "sum sz (below_dom (length (Vertex d)) E j) = (\<Sum>u \<in> below_dom (length (Vertex d)) E j. Size g ! nat (Vertex d ! u))"
    by (intro sum.cong) simp_all
  then show ?thesis using sum.reindex_bij_betw [OF below_dom_freed [OF g inv E j], of "(!) (Size g)"] by simp
qed

lemma retained_root:
  assumes g: "dom_graph g es roots n" and inv: "dfs_inv es roots n par d []"
    and sz: "sz = (\<lambda>i. if i = 0 then 0 else Size g ! nat (Vertex d ! i))"
  shows "sum sz (below_dom (length (Vertex d)) E 0) = (\<Sum>w \<in> {w. reachable es roots w}. Size g ! w)"
proof -
  let ?V = "Vertex d"
  have nl: "node_list n ?V" using dfs_invD(1) [OF inv] by (simp add: dom_arrays_def)
  have "\<not> ravoid E 0 u" for u
  proof
    assume "ravoid E 0 u"
    then show False by (induction rule: ravoid.induct) simp_all
  qed
  then have all: "below_dom (length ?V) E 0 = {..<length ?V}" by (auto simp: below_dom_def dominates_def)
  have "sum sz (below_dom (length ?V) E 0) = (\<Sum>u \<in> {0<..<length ?V}. Size g ! nat (?V ! u))"
    unfolding all by (rule sum.mono_neutral_cong_right) (auto simp: sz)
  moreover have "bij_betw (\<lambda>u. nat (?V ! u)) {0<..<length ?V} {w. reachable es roots w}"
  proof -
    have "inj_on (\<lambda>u. nat (?V ! u)) {0<..<length ?V}"
      using node_list_nat_inj [OF nl] by (simp add: inj_on_def)
    moreover have "reachable es roots w \<longleftrightarrow> w \<in> (\<lambda>u. nat (?V ! u)) ` {0<..<length ?V}" for w
      using reachable_num [OF g inv, of w] node_list_nth [OF nl] by (auto simp: image_iff) (metis nat_int greaterThanLessThan_iff)
    ultimately show ?thesis by (auto simp: bij_betw_def)
  qed
  ultimately show ?thesis using sum.reindex_bij_betw [of _ _ _ "(!) (Size g)"] by metis
qed

theorem Dominators_ok:
  assumes g: "dom_graph g es roots n" and size: "length (Size g) = n"
  obtains d u where "Dominators g = Inr (d, g\<lparr>Unreach := Unreach g + u\<rparr>)" "DRoot d = int n"
    "\<And>v. v < n \<Longrightarrow> Reachable d (int v) = Inr (reachable es roots v)"
    "\<And>v. v < n \<Longrightarrow> reachable es roots v \<Longrightarrow> obj_idom es roots n (Idom d ! v) v"
    "\<And>v. v < n \<Longrightarrow> \<not> reachable es roots v \<Longrightarrow> Idom d ! v = -1"
    "\<And>v. v < n \<Longrightarrow> Retained d ! v = (\<Sum>w \<in> freed es roots v. Size g ! w)"
    "Retained d ! n = (\<Sum>w \<in> {w. reachable es roots w}. Size g ! w)"
    "u = (\<Sum>w \<in> {w. w < n \<and> \<not> reachable es roots w}. Size g ! w)" "length (Idom d) = Suc n" "length (Retained d) = Suc n"
proof -
  obtain par d0 where d0: "dom_dfs g = Inr d0" "dfs_result g es roots n par d0" using dom_dfs_ok [OF g] by blast
  let ?V = "Vertex d0" and ?m = "length (Vertex d0)"
  define E where "E = num_edge es roots n ?V"
  have inv0: "dfs_inv es roots n par d0 []" and r0: "Retained d0 = replicate (n + 1) 0" using d0(2) by (auto simp: dfs_result_def)
  obtain d1 where d1: "dom_idoms g d0 = Inr d1" "lt_frame d0 d1" "dom_arrays n d1"
      "\<And>v. 0 < v \<Longrightarrow> v < ?m \<Longrightarrow> idom_at E d1 v" "Idom d1 ! n = int n"
      "\<And>x. x \<le> n \<Longrightarrow> int x \<notin> set ?V \<Longrightarrow> Idom d1 ! x = -1"
    using dom_idoms_ok [OF g d0(2) E_def] by blast
  have F: "Vertex d1 = ?V" "Retained d1 = replicate (n + 1) 0" "dfn d1 = dfn d0" using d1(2) r0 by (auto simp: lt_frame_def)
  have inv: "dfs_inv es roots n par d1 []" using dfs_inv_frame [OF inv0 d1(2,3)] .
  note I = dfs_invD [OF inv] and num = dfs_numbering [OF inv0, folded E_def]
  have E1: "E = num_edge es roots n (Vertex d1)" by (simp add: E_def F(1))
  have nl: "node_list n ?V" using I(1) F(1) by (simp add: dom_arrays_def)
  have m: "0 < ?m" using I(3) F(1) by simp
  have idom1: "\<And>v. 0 < v \<Longrightarrow> v < length (Vertex d1) \<Longrightarrow> idom_at E d1 v" using d1(4) F(1) by simp
  define sz where "sz = (\<lambda>i. if i = 0 then 0 else Size g ! nat (Vertex d1 ! i))"
  define u where "u = (\<Sum>i \<in> {i. i < n \<and> dfn d1 ! i < 0}. Size g ! i)"
  obtain r where r: "dom_retained g d1 = Inr (d1\<lparr>Retained := r\<rparr>, g\<lparr>Unreach := Unreach g + u\<rparr>)"
      "length r = Suc n" "node_array ?V r (\<lambda>j. sum sz (below_dom ?m E j))" "\<And>x. x \<le> n \<Longrightarrow> int x \<notin> set ?V \<Longrightarrow> r ! x = 0"
    using dom_retained_ok [OF g inv E1 size F(2) idom1 sz_def, folded u_def] unfolding F(1) by blast
  let ?d = "d1\<lparr>Retained := r\<rparr>"
  have "Dominators g = Inr (?d, g\<lparr>Unreach := Unreach g + u\<rparr>)" using d0(1) d1(1) r(1) by (simp add: Dominators_def)
  then show ?thesis
  proof (rule that)
    show "DRoot ?d = int n" using I(2) by simp
    show "length (Idom ?d) = Suc n" "length (Retained ?d) = Suc n" using I(1) r(2) by (simp_all add: dom_arrays_def)
    show "Retained ?d ! n = (\<Sum>w \<in> {w. reachable es roots w}. Size g ! w)"
      using r(3) retained_root [OF g inv sz_def, of E] m I(4) F(1) by (auto simp: node_array_def dest: spec [of _ 0])
    have "dfn d1 ! i < 0 \<longleftrightarrow> \<not> reachable es roots i" if "i < n" for i
      using g inv that by (cases rule: object_cases) auto
    then have "{i. i < n \<and> dfn d1 ! i < 0} = {i. i < n \<and> \<not> reachable es roots i}" by blast
    then show "u = (\<Sum>w \<in> {w. w < n \<and> \<not> reachable es roots w}. Size g ! w)" by (simp add: u_def)
  next
    fix v assume v: "v < n"
    have len: "length (dfn d1) = Suc n" using I(1) by (simp add: dom_arrays_def)
    show "Reachable ?d (int v) = Inr (reachable es roots v)"
      using g inv v by (cases rule: object_cases) (use len v in \<open>auto simp: Reachable_def\<close>)
    show "obj_idom es roots n (Idom ?d ! v) v" if "reachable es roots v"
      using g inv v
    proof (cases rule: object_cases)
      case (reached i)
      then obtain q where "q < ?m" "is_idom E q i" "Idom d1 ! v = ?V ! q" using d1(4) [of i] F(1) by (auto simp: idom_at_def)
      then show ?thesis using obj_idom_num [OF g inv E1 reached(1-3)] F(1) by simp
    qed (use that in simp)
    show "Idom ?d ! v = -1" if "\<not> reachable es roots v"
      using g inv v by (cases rule: object_cases) (use that d1(6) F(1) v in auto)
    show "Retained ?d ! v = (\<Sum>w \<in> freed es roots v. Size g ! w)"
      using g inv v
    proof (cases rule: object_cases)
      case (reached i)
      have "r ! v = sum sz (below_dom ?m E i)" using r(3) reached(2,3) F(1) by (simp add: node_array_def) (metis nat_int)
      then show ?thesis using retained_freed [OF g inv E1 sz_def reached(1-3)] F(1) by simp
    qed (use freed_unreachable r(4) v F(1) in simp)
  qed
qed

end
