(* ===== verification/Hprof_Paths.thy ===== *)
theory Hprof_Paths
  imports Dom_Retained
begin

text \<open>
  The paths of \<open>hprofx paths\<close> (\<open>heapdump/hprofx/cmds.go\<close>): the breadth-first search \<open>bfsFromRoots\<close>, whose
  definition stands in \<open>Hprof_Dom\<close>, and the walk of \<open>cmdPaths\<close> from an object up to a root along the
  search's parents.

  The lemmas show that the search returns within its fuel, that it reaches exactly the reachable objects,
  and that the parents lead to a GC root on a path with as few references as possible.
\<close>

subsection \<open>The walk to a root\<close>

text \<open>The loop over \<open>chain\<close>, which stops once the chain is longer than 200: \<open>room\<close> more nodes fit.\<close>

fun path_walk :: "int list \<Rightarrow> int \<Rightarrow> nat \<Rightarrow> int \<Rightarrow> int list outcome" where
  "path_walk par root 0 v = Inr []"
| "path_walk par root (Suc room) v =
     (if v \<ge> 0 \<and> v \<noteq> root
      then if room = 0 then Inr [v]
           else bind_ok (aget par v) (\<lambda>v'. bind_ok (path_walk par root room v') (\<lambda>chain. Inr (v # chain)))
      else Inr [])"

definition path_chain :: "int list \<Rightarrow> Dom \<Rightarrow> int \<Rightarrow> int list outcome" where
  "path_chain par d v = path_walk par (DRoot d) 201 v"

subsection \<open>Distances\<close>

inductive path_len :: "(nat \<times> nat) list \<Rightarrow> nat list \<Rightarrow> nat \<Rightarrow> nat \<Rightarrow> bool" for es roots where
  path_len_root: "r \<in> set roots \<Longrightarrow> path_len es roots 0 r"
| path_len_edge: "path_len es roots k v \<Longrightarrow> (v, w) \<in> set es \<Longrightarrow> path_len es roots (Suc k) w"

inductive_cases path_len_0E: "path_len es roots 0 v"
inductive_cases path_len_SucE: "path_len es roots (Suc k) v"

definition shortest :: "(nat \<times> nat) list \<Rightarrow> nat list \<Rightarrow> nat \<Rightarrow> nat \<Rightarrow> bool" where
  "shortest es roots k v \<longleftrightarrow> path_len es roots k v \<and> (\<forall>j < k. \<not> path_len es roots j v)"

lemma path_len_reachable: "path_len es roots k v \<Longrightarrow> reachable es roots v"
  by (induction rule: path_len.induct) (auto intro: reaches.intros)

subsection \<open>The invariant of the search\<close>

text \<open>\<open>qs\<close> is the queue and \<open>ls\<close> the distances of its elements; the children of the elements before
  \<open>head\<close> have been visited.\<close>

definition bfs_queue :: "(nat \<times> nat) list \<Rightarrow> nat list \<Rightarrow> nat \<Rightarrow> nat \<Rightarrow> int list \<Rightarrow> nat list \<Rightarrow> nat list \<Rightarrow> bool" where
  "bfs_queue es roots n head par qs ls \<longleftrightarrow>
     length par = n \<and> length ls = length qs \<and> distinct qs \<and> sorted ls \<and> head \<le> length qs \<and>
     (\<forall>v \<in> set qs. v < n) \<and> (\<forall>v < n. par ! v = -2 \<longleftrightarrow> v \<notin> set qs) \<and>
     (\<forall>r \<in> set roots. \<exists>i < length qs. qs ! i = r \<and> ls ! i = 0) \<and>
     (\<forall>i < length qs. shortest es roots (ls ! i) (qs ! i) \<and>
        (if ls ! i = 0 then par ! (qs ! i) = int n
         else \<exists>j < length qs. par ! (qs ! i) = int (qs ! j) \<and> (qs ! j, qs ! i) \<in> set es \<and> ls ! i = Suc (ls ! j))) \<and>
     (\<forall>i < head. \<forall>w. (qs ! i, w) \<in> set es \<longrightarrow> (\<exists>j < length qs. qs ! j = w \<and> ls ! j \<le> Suc (ls ! i)))"

lemma bfs_queueD:
  assumes "bfs_queue es roots n head par qs ls"
  shows "length par = n" "length ls = length qs" "distinct qs" "sorted ls" "head \<le> length qs"
    "\<And>v. v \<in> set qs \<Longrightarrow> v < n" "\<And>v. v < n \<Longrightarrow> par ! v = -2 \<longleftrightarrow> v \<notin> set qs"
    "\<And>r. r \<in> set roots \<Longrightarrow> \<exists>i < length qs. qs ! i = r \<and> ls ! i = 0"
    "\<And>i. i < length qs \<Longrightarrow> shortest es roots (ls ! i) (qs ! i)"
    "\<And>i. i < length qs \<Longrightarrow> if ls ! i = 0 then par ! (qs ! i) = int n
         else \<exists>j < length qs. par ! (qs ! i) = int (qs ! j) \<and> (qs ! j, qs ! i) \<in> set es \<and> ls ! i = Suc (ls ! j)"
    "\<And>i w. i < head \<Longrightarrow> (qs ! i, w) \<in> set es \<Longrightarrow> \<exists>j < length qs. qs ! j = w \<and> ls ! j \<le> Suc (ls ! i)"
  using assms unfolding bfs_queue_def by blast+

text \<open>What is nearer than the head is in the queue already.\<close>

lemma bfs_near:
  assumes q: "bfs_queue es roots n head par qs ls" and l: "head < length qs \<Longrightarrow> k \<le> ls ! head" and p: "path_len es roots k v"
  shows "\<exists>i < length qs. qs ! i = v \<and> ls ! i \<le> k"
  using p l
proof (induction rule: path_len.induct)
  case (path_len_root r)
  then show ?case using bfs_queueD(8) [OF q] by fastforce
next
  case (path_len_edge k v w)
  note Q = bfs_queueD [OF q]
  obtain i where i: "i < length qs" "qs ! i = v" "ls ! i \<le> k" using path_len_edge by (meson Suc_leD)
  have "i < head"
  proof (rule ccontr)
    assume "\<not> i < head"
    then have "ls ! head \<le> ls ! i" "head < length qs" using sorted_nth_mono [OF Q(4)] i(1) Q(2) by auto
    then show False using path_len_edge.prems i(3) by simp
  qed
  then show ?case using Q(11) [of i w] i path_len_edge(2) by (meson Suc_le_mono order_trans)
qed

lemma bfs_add:
  assumes q: "bfs_queue es roots n head par qs ls" and h: "head < length qs" and w: "(qs ! head, w) \<in> set es" "w < n" "w \<notin> set qs"
    and bound: "\<forall>x \<in> set ls. x \<le> Suc (ls ! head)"
  shows "bfs_queue es roots n head (par[w := int (qs ! head)]) (qs @ [w]) (ls @ [Suc (ls ! head)])"
proof -
  note Q = bfs_queueD [OF q]
  let ?par = "par[w := int (qs ! head)]" and ?qs = "qs @ [w]" and ?ls = "ls @ [Suc (ls ! head)]"
  have old: "?qs ! i = qs ! i" "?ls ! i = ls ! i" "?par ! (qs ! i) = par ! (qs ! i)" if "i < length qs" for i
  proof -
    have "w \<noteq> qs ! i" using w(3) nth_mem [OF that] by blast
    then show "?qs ! i = qs ! i" "?ls ! i = ls ! i" "?par ! (qs ! i) = par ! (qs ! i)" using that Q(2) by (auto simp: nth_append)
  qed
  have new: "?qs ! length qs = w" "?ls ! length qs = Suc (ls ! head)" "?par ! w = int (qs ! head)"
    using Q(1,2) w(2) by (auto simp: nth_append)
  have "shortest es roots (Suc (ls ! head)) w"
    unfolding shortest_def
  proof (intro conjI allI impI notI)
    show "path_len es roots (Suc (ls ! head)) w" using Q(9) [OF h] w(1) by (auto simp: shortest_def intro: path_len_edge)
    fix j assume "j < Suc (ls ! head)" "path_len es roots j w"
    then show False using bfs_near [OF q, of j w] w(3) by (metis less_Suc_eq_le nth_mem)
  qed
  then have "shortest es roots (?ls ! i) (?qs ! i)" if "i < Suc (length qs)" for i
    using that old new Q(9) by (cases "i = length qs") auto
  moreover have "if ?ls ! i = 0 then ?par ! (?qs ! i) = int n
      else \<exists>j < Suc (length qs). ?par ! (?qs ! i) = int (?qs ! j) \<and> (?qs ! j, ?qs ! i) \<in> set es \<and> ?ls ! i = Suc (?ls ! j)"
    if i: "i < Suc (length qs)" for i
  proof (cases "i = length qs")
    case True
    then show ?thesis using new old [OF h] h w(1) by (auto intro: exI [of _ head])
  next
    case False
    then have i: "i < length qs" using i by simp
    show ?thesis
    proof (cases "ls ! i = 0")
      case False
      then obtain j where "j < length qs" "par ! (qs ! i) = int (qs ! j)" "(qs ! j, qs ! i) \<in> set es" "ls ! i = Suc (ls ! j)"
        using Q(10) [OF i] by auto
      then show ?thesis using old i False by (auto intro: exI [of _ j])
    qed (use old i Q(10) [OF i] in simp)
  qed
  moreover have "\<exists>j < Suc (length qs). ?qs ! j = x \<and> ?ls ! j \<le> Suc (?ls ! i)" if "i < head" "(?qs ! i, x) \<in> set es" for i x
    using Q(11) [of i x] that old h by (metis less_SucI less_trans)
  moreover have "\<exists>i < Suc (length qs). ?qs ! i = r \<and> ?ls ! i = 0" if "r \<in> set roots" for r
    using Q(8) [OF that] old by (metis less_SucI)
  moreover have "?par ! v = -2 \<longleftrightarrow> v \<notin> set ?qs" if "v < n" for v
    using that Q(1) Q(7) [OF that] w(2) by (auto simp: nth_list_update)
  moreover have "sorted ?ls" using Q(4) bound by (simp add: sorted_append)
  moreover have len: "length ?qs = Suc (length qs)" by simp
  moreover have "length ?par = n" "length ?ls = Suc (length qs)" "distinct ?qs" "head \<le> Suc (length qs)" "\<forall>v \<in> set ?qs. v < n"
    using Q(1,2,3,5,6) w(2,3) by auto
  ultimately show ?thesis
    unfolding bfs_queue_def len by blast
qed

definition bfs_more :: "nat \<Rightarrow> nat list \<Rightarrow> nat list \<Rightarrow> nat list \<Rightarrow> nat list \<Rightarrow> bool" where
  "bfs_more l qs ls qs' ls' \<longleftrightarrow> (\<exists>xs. qs' = qs @ xs \<and> ls' = ls @ replicate (length xs) l)"

lemma bfs_visit_ok:
  assumes "bfs_queue es roots n head par qs ls" "head < length qs" "\<forall>x \<in> set ls. x \<le> Suc (ls ! head)"
    "\<forall>w \<in> set ws. (qs ! head, w) \<in> set es \<and> w < n"
  obtains par' qs' ls' where
    "for_each (bfs_visit (int (qs ! head))) (map int ws) (par, map int qs) = Inr (par', map int qs')"
    "bfs_queue es roots n head par' qs' ls'" "bfs_more (Suc (ls ! head)) qs ls qs' ls'" "\<forall>x \<in> set ls'. x \<le> Suc (ls ! head)"
    "\<forall>w \<in> set ws. w \<in> set qs'"
  using assms
proof (induction ws arbitrary: par qs ls thesis)
  case Nil
  then show ?case by (simp add: bfs_more_def)
next
  case (Cons w ws)
  note Q = bfs_queueD [OF Cons.prems(2)]
  have w: "(qs ! head, w) \<in> set es" "w < n" using Cons.prems(5) by auto
  show ?case
  proof (cases "w \<in> set qs")
    case True
    then have "bfs_visit (int (qs ! head)) (int w) (par, map int qs) = Inr (par, map int qs)"
      using Q(1,7) w(2) by (simp add: bfs_visit_def)
    moreover obtain par' qs' ls' where
        "for_each (bfs_visit (int (qs ! head))) (map int ws) (par, map int qs) = Inr (par', map int qs')"
        "bfs_queue es roots n head par' qs' ls'" "bfs_more (Suc (ls ! head)) qs ls qs' ls'" "\<forall>x \<in> set ls'. x \<le> Suc (ls ! head)"
        "\<forall>w \<in> set ws. w \<in> set qs'"
      using Cons.IH [OF _ Cons.prems(2-4)] Cons.prems(5) by auto
    ultimately show ?thesis using Cons.prems(1) [of par' qs' ls'] True by (auto simp: bfs_more_def)
  next
    case False
    let ?par = "par[w := int (qs ! head)]" and ?qs = "qs @ [w]" and ?ls = "ls @ [Suc (ls ! head)]"
    have "bfs_visit (int (qs ! head)) (int w) (par, map int qs) = Inr (?par, map int ?qs)"
      using False Q(1,7) w(2) by (simp add: bfs_visit_def)
    moreover have q1: "bfs_queue es roots n head ?par ?qs ?ls" using bfs_add [OF Cons.prems(2,3) w False Cons.prems(4)] .
    have h: "?qs ! head = qs ! head" "?ls ! head = ls ! head" "head < length ?qs" using Cons.prems(3) Q(2) by (auto simp: nth_append)
    obtain par' qs' ls' where
        "for_each (bfs_visit (int (qs ! head))) (map int ws) (?par, map int ?qs) = Inr (par', map int qs')"
        "bfs_queue es roots n head par' qs' ls'" "bfs_more (Suc (ls ! head)) ?qs ?ls qs' ls'" "\<forall>x \<in> set ls'. x \<le> Suc (ls ! head)"
        "\<forall>w \<in> set ws. w \<in> set qs'"
      using Cons.IH [OF _ q1 h(3)] Cons.prems(4,5) unfolding h by auto
    moreover from this have "bfs_more (Suc (ls ! head)) qs ls qs' ls'" "w \<in> set qs'" by (auto simp: bfs_more_def)
    ultimately show ?thesis using Cons.prems(1) [of par' qs' ls'] by simp
  qed
qed

lemma bfs_head:
  assumes "bfs_queue es roots n head par qs ls" "head < length qs" "\<forall>x \<in> set ls. x \<le> Suc (ls ! head)"
    "\<And>w. (qs ! head, w) \<in> set es \<Longrightarrow> w \<in> set qs"
  shows "bfs_queue es roots n (Suc head) par qs ls"
proof -
  note Q = bfs_queueD [OF assms(1)]
  have "\<exists>j < length qs. qs ! j = w \<and> ls ! j \<le> Suc (ls ! i)" if e: "i < Suc head" "(qs ! i, w) \<in> set es" for i w
  proof (cases "i = head")
    case True
    then obtain j where "j < length qs" "qs ! j = w" using assms(4) e(2) by (metis in_set_conv_nth)
    then show ?thesis using assms(3) Q(2) True by (metis nth_mem)
  qed (use e Q(11) in simp)
  then show ?thesis using assms(1,2) unfolding bfs_queue_def by auto
qed

subsection \<open>The whole search\<close>

text \<open>The result for an object: \<open>-1\<close> without a path; for a root the virtual root \<open>n\<close>; otherwise a referrer that
  is one reference nearer to the roots.\<close>

definition bfs_parent :: "(nat \<times> nat) list \<Rightarrow> nat list \<Rightarrow> nat \<Rightarrow> int list \<Rightarrow> nat \<Rightarrow> bool" where
  "bfs_parent es roots n par v \<longleftrightarrow>
     (if reachable es roots v
      then \<exists>k. shortest es roots k v \<and>
        (if k = 0 then par ! v = int n
         else \<exists>u. par ! v = int u \<and> (u, v) \<in> set es \<and> shortest es roots (k - 1) u)
      else par ! v = -1)"

lemma bfs_done:
  assumes q: "bfs_queue es roots n (length qs) par qs ls" and v: "v < n"
  shows "bfs_parent es roots n (map (\<lambda>p. if p = -2 then -1 else p) par) v"
proof -
  note Q = bfs_queueD [OF q]
  have mem: "reachable es roots w \<Longrightarrow> w \<in> set qs" for w
  proof (induction rule: reaches.induct)
    case (reaches_root r)
    then show ?case using Q(8) by (metis nth_mem)
  next
    case (reaches_edge u w)
    then show ?case using Q(11) by (metis in_set_conv_nth)
  qed
  show ?thesis
  proof (cases "v \<in> set qs")
    case False
    then show ?thesis using mem Q(1) Q(7) [OF v] v by (auto simp: bfs_parent_def)
  next
    case True
    then obtain i where i: "i < length qs" "qs ! i = v" by (metis in_set_conv_nth)
    have s: "shortest es roots (ls ! i) v" using Q(9) i by blast
    then have "reachable es roots v" using path_len_reachable by (auto simp: shortest_def)
    moreover have "map (\<lambda>p. if p = -2 then -1 else p) par ! v = par ! v" using True Q(1) Q(7) [OF v] v by simp
    moreover have "if ls ! i = 0 then par ! v = int n else \<exists>u. par ! v = int u \<and> (u, v) \<in> set es \<and> shortest es roots (ls ! i - 1) u"
    proof (cases "ls ! i = 0")
      case False
      then obtain j where "j < length qs" "par ! v = int (qs ! j)" "(qs ! j, v) \<in> set es" "ls ! i = Suc (ls ! j)"
        using Q(10) [OF i(1)] unfolding i(2) by (simp only: if_False) blast
      then have "par ! v = int (qs ! j) \<and> (qs ! j, v) \<in> set es \<and> shortest es roots (ls ! i - 1) (qs ! j)" using Q(9) [of j] by simp
      then show ?thesis using False by simp
    qed (use Q(10) [OF i(1)] i(2) in simp)
    ultimately show ?thesis unfolding bfs_parent_def using s by (simp only: if_True) blast
  qed
qed

lemma bfs_loop_ok:
  assumes g: "dom_graph g es roots n" and q: "bfs_queue es roots n head par qs ls"
    and bound: "head < length qs \<Longrightarrow> \<forall>x \<in> set ls. x \<le> Suc (ls ! head)" and fuel: "n \<le> head + fuel"
  obtains par' qs' ls' where "bfs_loop fuel g head (par, map int qs) = Inr par'" "bfs_queue es roots n (length qs') par' qs' ls'"
  using q bound fuel
proof (induction fuel arbitrary: head par qs ls thesis)
  have small: "length qs \<le> n" if "bfs_queue es roots n head par qs ls" for head par qs ls
  proof -
    have "set qs \<subseteq> {..<n}" using bfs_queueD(6) [OF that] by blast
    then have "card (set qs) \<le> n" using card_mono [of "{..<n}" "set qs"] by simp
    then show ?thesis using distinct_card [OF bfs_queueD(3) [OF that]] by simp
  qed
  case 0
  then have "head = length qs" using small [OF 0(2)] bfs_queueD(5) [OF 0(2)] by simp
  then show ?case using 0(1) 0(2) by simp
next
  case (Suc fuel)
  note Q = bfs_queueD [OF Suc.prems(2)]
  show ?case
  proof (cases "head < length qs")
    case False
    then have "head = length qs" using Q(5) by simp
    then show ?thesis using Suc.prems(1,2) by simp
  next
    case True
    let ?v = "qs ! head"
    have v: "?v < n" using Q(6) True by simp
    have adj: "adjacency g es" "Graph_N g = n" using g by (auto simp: dom_graph_def)
    then have refs: "Refs g (int ?v) = Inr (map int (targets ?v es))" using v by (simp add: adjacency_def)
    have "\<forall>w \<in> set (targets ?v es). (?v, w) \<in> set es \<and> w < n" using adj by (auto simp: targets_in adjacency_def)
    from bfs_visit_ok [OF Suc.prems(2) True Suc.prems(3) [OF True] this]
    obtain par1 qs1 ls1 where s1: "for_each (bfs_visit (int ?v)) (map int (targets ?v es)) (par, map int qs) = Inr (par1, map int qs1)"
        "bfs_queue es roots n head par1 qs1 ls1" "bfs_more (Suc (ls ! head)) qs ls qs1 ls1" "\<forall>x \<in> set ls1. x \<le> Suc (ls ! head)"
        "\<forall>w \<in> set (targets ?v es). w \<in> set qs1" by blast
    note Q1 = bfs_queueD [OF s1(2)]
    have h: "qs1 ! head = ?v" "ls1 ! head = ls ! head" "head < length qs1"
      using s1(3) True Q(2) by (auto simp: bfs_more_def nth_append)
    have q2: "bfs_queue es roots n (Suc head) par1 qs1 ls1"
      using bfs_head [OF s1(2) h(3)] s1(4,5) h by (simp add: targets_in)
    have "\<forall>x \<in> set ls1. x \<le> Suc (ls1 ! Suc head)" if "Suc head < length qs1"
    proof -
      have "ls1 ! head \<le> ls1 ! Suc head" using sorted_nth_mono [OF Q1(4), of head "Suc head"] that Q1(2) by simp
      then show ?thesis using s1(4) h(2) by fastforce
    qed
    from Suc.IH [OF _ q2 this] obtain par' qs' ls' where
        "bfs_loop fuel g (Suc head) (par1, map int qs1) = Inr par'" "bfs_queue es roots n (length qs') par' qs' ls'"
      using Suc.prems(4) by auto
    then show ?thesis using Suc.prems(1) refs s1(1) True by simp
  qed
qed

lemma bfs_roots_ok:
  assumes "DRoot d = int n" "\<forall>r \<in> set rs. r < n" "length par = n"
  obtains par' where "for_each (bfs_root d) (map int rs) (par, map int qs) = Inr (par', map int (qs @ rs))" "length par' = n"
    "\<And>v. v < n \<Longrightarrow> par' ! v = (if v \<in> set rs then int n else par ! v)"
  using assms(2,3)
proof (induction rs arbitrary: par qs thesis)
  case (Cons r rs)
  let ?par = "par[r := int n]"
  have "bfs_root d (int r) (par, map int qs) = Inr (?par, map int (qs @ [r]))"
    using assms(1) Cons.prems(2,3) by (simp add: bfs_root_def)
  moreover have "length ?par = n" "\<forall>r \<in> set rs. r < n" using Cons.prems by auto
  with Cons.IH [of ?par "qs @ [r]"] obtain par' where p: "for_each (bfs_root d) (map int rs) (?par, map int (qs @ [r])) =
        Inr (par', map int ((qs @ [r]) @ rs))" "length par' = n" "\<And>v. v < n \<Longrightarrow> par' ! v = (if v \<in> set rs then int n else ?par ! v)" by blast
  ultimately have "for_each (bfs_root d) (map int (r # rs)) (par, map int qs) = Inr (par', map int (qs @ r # rs))" by simp
  moreover have "par' ! v = (if v \<in> set (r # rs) then int n else par ! v)" if "v < n" for v
    using p(3) [OF that] that Cons.prems(3) by (auto simp: nth_list_update)
  ultimately show ?case using Cons.prems(1) p(2) by blast
qed simp

theorem bfsFromRoots_ok:
  assumes g: "dom_graph g es roots n" and d: "DRoot d = int n"
  obtains par where "bfsFromRoots g d = Inr par" "length par = n" "\<And>v. v < n \<Longrightarrow> bfs_parent es roots n par v"
proof -
  have G: "Graph_N g = n" "Roots g = map int roots" "distinct roots" "\<forall>r \<in> set roots. r < n"
    using g by (auto simp: dom_graph_def rooted_def)
  obtain par0 where p: "for_each (bfs_root d) (map int roots) (replicate n (-2), map int []) = Inr (par0, map int ([] @ roots))"
      "length par0 = n" "\<And>v. v < n \<Longrightarrow> par0 ! v = (if v \<in> set roots then int n else replicate n (-2) ! v)"
    using bfs_roots_ok [OF d G(4), of "replicate n (-2)" "[]"] by auto
  let ?ls = "replicate (length roots) (0 :: nat)"
  have "bfs_queue es roots n 0 par0 roots ?ls"
  proof -
    have "\<exists>i < length roots. roots ! i = r \<and> ?ls ! i = 0" if "r \<in> set roots" for r
      using that by (metis in_set_conv_nth nth_replicate)
    moreover have "par0 ! v = int n" if "v \<in> set roots" for v using that p(3) [of v] G(4) by auto
    moreover have "par0 ! v = -2 \<longleftrightarrow> v \<notin> set roots" if "v < n" for v using that p(3) [OF that] by auto
    ultimately show ?thesis
      unfolding bfs_queue_def using G(3,4) p(2) by (auto simp: shortest_def intro: path_len_root)
  qed
  then obtain par qs ls where q: "bfs_loop (n + length roots) g 0 (par0, map int roots) = Inr par" "bfs_queue es roots n (length qs) par qs ls"
    using bfs_loop_ok [OF g, of 0 par0 roots ?ls "n + length roots"] by auto
  let ?par = "map (\<lambda>p. if p = -2 then -1 else p) par"
  have "bfsFromRoots g d = Inr ?par" using p(1) q(1) G(1,2) by (simp add: bfsFromRoots_def)
  then show ?thesis using that [of ?par] bfs_done [OF q(2)] bfs_queueD(1) [OF q(2)] by simp
qed

subsection \<open>The walk is a shortest path\<close>

text \<open>\<open>ref_path es vs\<close>: each object of the list is referenced by the next one.\<close>

definition ref_path :: "(nat \<times> nat) list \<Rightarrow> nat list \<Rightarrow> bool" where
  "ref_path es vs \<longleftrightarrow> (\<forall>i. Suc i < length vs \<longrightarrow> (vs ! Suc i, vs ! i) \<in> set es)"

lemma shortest_unique: "shortest es roots k v \<Longrightarrow> shortest es roots j v \<Longrightarrow> k = j"
  unfolding shortest_def by (metis linorder_neqE_nat)

lemma path_walk_ok:
  assumes par: "length par = n" "\<And>v. v < n \<Longrightarrow> bfs_parent es roots n par v" and edges: "\<And>u v. (u, v) \<in> set es \<Longrightarrow> u < n"
    and v: "v < n" "shortest es roots k v" "k < room"
  obtains vs where "path_walk par (int n) room (int v) = Inr (map int vs)" "length vs = Suc k" "vs ! 0 = v" "last vs \<in> set roots" "ref_path es vs"
  using v
proof (induction k arbitrary: v room thesis)
  case 0
  have r: "reachable es roots v" using 0(3) path_len_reachable by (auto simp: shortest_def)
  obtain j where "shortest es roots j v" "if j = 0 then par ! v = int n else \<exists>u. par ! v = int u \<and> (u, v) \<in> set es \<and> shortest es roots (j - 1) u"
    using par(2) [OF 0(2)] r unfolding bfs_parent_def by auto
  then have p: "par ! v = int n" using shortest_unique [OF 0(3)] by auto
  obtain room' where room: "room = Suc room'" using 0(4) by (cases room) auto
  have stop: "path_walk par (int n) m (int n) = Inr []" for m by (cases m) simp_all
  have "path_walk par (int n) room (int v) = Inr [int v]" using room 0(2) par(1) p stop by simp
  moreover have "v \<in> set roots" using 0(3) by (auto simp: shortest_def elim: path_len_0E)
  ultimately show ?case using 0(1) [of "[v]"] by (simp add: ref_path_def)
next
  case (Suc k)
  have r: "reachable es roots v" using Suc.prems(3) path_len_reachable by (auto simp: shortest_def)
  obtain j where j: "shortest es roots j v" "if j = 0 then par ! v = int n else \<exists>u. par ! v = int u \<and> (u, v) \<in> set es \<and> shortest es roots (j - 1) u"
    using par(2) [OF Suc.prems(2)] r unfolding bfs_parent_def by auto
  have "j = Suc k" using shortest_unique [OF j(1) Suc.prems(3)] .
  then obtain u where u: "par ! v = int u" "(u, v) \<in> set es" "shortest es roots k u" using j(2) by auto
  obtain room' where room: "room = Suc room'" "k < room'" using Suc.prems(4) by (cases room) auto
  obtain vs where vs: "path_walk par (int n) room' (int u) = Inr (map int vs)" "length vs = Suc k" "vs ! 0 = u" "last vs \<in> set roots" "ref_path es vs"
    using Suc.IH [OF _ edges [OF u(2)] u(3) room(2)] by blast
  have "path_walk par (int n) room (int v) = Inr (map int (v # vs))"
    using room Suc.prems(2) par(1) u(1) vs(1) by simp
  moreover have "ref_path es (v # vs)"
    using vs(3,5) u(2) by (auto simp: ref_path_def nth_Cons split: nat.splits)
  moreover have "last (v # vs) = last vs" using vs(2) by auto
  ultimately show ?case using Suc.prems(1) [of "v # vs"] vs(2,4) by simp
qed

lemma reachable_shortest:
  assumes "reachable es roots v"
  obtains k where "shortest es roots k v"
proof -
  have "\<exists>k. path_len es roots k v" using assms by (induction rule: reaches.induct) (auto intro: path_len.intros)
  then have "shortest es roots (LEAST k. path_len es roots k v) v"
    unfolding shortest_def by (metis LeastI not_less_Least)
  then show ?thesis by (rule that)
qed

end
