(* ===== verification/Heapdump.thy ===== *)
theory Heapdump
  imports Hprof_Sample Hprof_Paths
begin

text \<open>
  The properties of the heap-dump analyzer \<open>hprofx\<close>, stated over the definitions of the theories
  \<open>Hprof_Reader\<close> to \<open>Hprof_Paths\<close> and applied to the sample dump of \<open>Hprof_Sample\<close>.
\<close>

subsection \<open>Reading a dump\<close>

text \<open>C28: Reading a well-formed HPROF file succeeds: for every list of records (strings, classes,
  stack frames, traces, heap segments, other records) whose encoding fits the format, \<open>LoadMeta\<close> does
  not panic on the bytes of the dump and returns the metadata that the records denote, read in
  order, with the field layouts flattened.\<close>

theorem dump_metadata_is_read:
  assumes "dump_ok hdr rs"
  shows "LoadMeta path (Some (enc_dump hdr ts rs)) = Inr (dump_meta path hdr ts rs)"
  using assms by (rule LoadMeta_dump)

theorem dump_metadata_is_read_witness:
  "dump_ok sample_header sample_records \<and>
   LoadMeta ''a.hprof'' (Some (enc_dump sample_header 5 sample_records)) = Inr sample_meta \<and>
   lay (Classes sample_meta) 101 = [\<lparr>f_name = ''next'', f_typ = 2\<rparr>, \<lparr>f_name = ''value'', f_typ = 10\<rparr>]"
  using dump_metadata_is_read [OF sample_ok] sample_ok sample_lay by simp

text \<open>C29: The object graph of a well-formed dump is exact. When the object ids are distinct and node
  and edge counts fit \<open>int32\<close>, \<open>BuildGraph\<close> succeeds; node \<open>i\<close> is the \<open>i\<close>-th object record of the
  file, with its id, kind and class; its references are exactly the non-null ids in its static
  fields, reference fields (by the layout of its class) or array elements that name an object of the
  dump, in order and with repetitions; and the referrers are the same edges reversed.\<close>

theorem object_graph_is_exact:
  fixes path :: string and ts :: u64
  assumes ok: "dump_ok hdr rs" and ids: "ids = map obj_id (dump_nodes rs)" "distinct ids"
    and m: "LoadMeta path (Some (enc_dump hdr ts rs)) = Inr m"
    and L: "L = lay (Classes m)"
    and n: "length ids < 2 ^ 31" and e: "length (dump_edges L rs) < 2 ^ 31"
  shows "\<exists>g. BuildGraph m (Some (enc_dump hdr ts rs)) True = Inr g \<and>
    IDs g = ids \<and> Kind g = map obj_kind (dump_nodes rs) \<and> ClassOf g = map obj_class (dump_nodes rs) \<and>
    (\<forall>i < length ids. Refs g (int i) =
       Inr (map (\<lambda>t. int (node_at ids t)) (filter (\<lambda>t. t \<noteq> 0 \<and> t \<in> set ids) (obj_refs L (dump_nodes rs ! i))))) \<and>
    (\<forall>i < length ids. Referrers g (int i) = Inr (map int (targets i (map prod.swap (dump_edges L rs)))))"
proof -
  have m': "m = dump_meta path hdr ts rs" using m LoadMeta_dump [OF ok, of path ts] by simp
  have ids': "distinct (map obj_id (dump_nodes rs))" "length (dump_nodes rs) < 2 ^ 31"
    using ids n by simp_all
  obtain g where g: "BuildGraph m (Some (enc_dump hdr ts rs)) True = Inr g"
      "IDs g = map obj_id (dump_nodes rs)" "ClassOf g = map obj_class (dump_nodes rs)"
      "Kind g = map obj_kind (dump_nodes rs)" "adjacency g (dump_edges L rs)"
    using BuildGraph_dump [OF ok ids' m' L e] by blast
  have N: "Graph_N g = length ids" using g(2) ids(1) by (simp add: Graph_N_def)
  have "Refs g (int i) = Inr (map (\<lambda>t. int (node_at ids t)) (filter (\<lambda>t. t \<noteq> 0 \<and> t \<in> set ids) (obj_refs L (dump_nodes rs ! i))))"
    if "i < length ids" for i
    using g(5) that targets_dump_edges [OF ids'(1), of i L] ids(1) N
    by (simp add: adjacency_def comp_def)
  with g N ids(1) show ?thesis
    by (intro exI [of _ g]) (simp add: adjacency_def)
qed

lemma sample_distinct: "distinct (map obj_id (dump_nodes sample_records))"
  by (simp add: sample_nodes)

lemma sample_load: "LoadMeta ''a.hprof'' (Some (enc_dump sample_header 5 sample_records)) = Inr sample_meta"
  by (rule LoadMeta_dump [OF sample_ok])

lemma sample_edges:
  "dump_edges (lay (Classes sample_meta)) sample_records = [(1, 2), (2, 3), (3, 2), (4, 2), (4, 3)]"
proof -
  have "map (\<lambda>x. (obj_id x, obj_refs (lay (Classes sample_meta)) x)) (dump_nodes sample_records) =
      zip [100, 101, 200, 201, 300, 400] [[], [200], [201], [200], [200, 0, 201], []]"
    unfolding sample_nodes [symmetric] sample_refs [symmetric]
    by (simp add: zip_map_map zip_same_conv_map)
  then have "map (\<lambda>(k, r). map (\<lambda>t. (node_at [100, 101, 200, 201, 300, 400] k, node_at [100, 101, 200, 201, 300, 400] t))
        (filter (\<lambda>t. t \<noteq> 0 \<and> t \<in> set [100, 101, 200, 201, 300, 400]) r))
      (map (\<lambda>x. (obj_id x, obj_refs (lay (Classes sample_meta)) x)) (dump_nodes sample_records)) =
      [[], [(1, 2)], [(2, 3)], [(3, 2)], [(4, 2), (4, 3)], []]"
    by (simp add: node_at_def)
  then show ?thesis
    by (simp add: dump_edges_def node_edges_def [abs_def] sample_nodes comp_def)
qed

theorem object_graph_is_exact_witness:
  "\<exists>g. BuildGraph sample_meta (Some (enc_dump sample_header 5 sample_records)) True = Inr g \<and>
    IDs g = [100, 101, 200, 201, 300, 400] \<and> Refs g 2 = Inr [3] \<and> Refs g 4 = Inr [2, 3] \<and>
    Referrers g 2 = Inr [1, 3, 4]"
proof -
  have small: "length (map obj_id (dump_nodes sample_records)) < 2 ^ 31"
    "length (dump_edges (lay (Classes sample_meta)) sample_records) < 2 ^ 31"
    unfolding sample_nodes sample_edges by simp_all
  note graph = object_graph_is_exact [OF sample_ok refl sample_distinct sample_load refl small,
      unfolded sample_nodes sample_edges]
  obtain g where g: "BuildGraph sample_meta (Some (enc_dump sample_header 5 sample_records)) True = Inr g"
      "IDs g = [100, 101, 200, 201, 300, 400]"
    and refs: "\<forall>i < length [100, 101, 200, 201, 300, 400 :: u64]. Refs g (int i) =
        Inr (map (\<lambda>t. int (node_at [100, 101, 200, 201, 300, 400] t))
          (filter (\<lambda>t. t \<noteq> 0 \<and> t \<in> set [100, 101, 200, 201, 300, 400])
            (obj_refs (lay (Classes sample_meta)) (dump_nodes sample_records ! i))))"
    and referrers: "\<forall>i < length [100, 101, 200, 201, 300, 400 :: u64]. Referrers g (int i) =
        Inr (map int (targets i (map prod.swap [(1, 2), (2, 3), (3, 2), (4, 2), (4, 3)])))"
    using graph by blast
  have "length (dump_nodes sample_records) = 6"
    using arg_cong [OF sample_nodes, of length] by simp
  then have at: "obj_refs (lay (Classes sample_meta)) (dump_nodes sample_records ! i) =
      [[], [200], [201], [200], [200, 0, 201], []] ! i" if "i < 6" for i
    using that by (simp flip: sample_refs)
  have "Refs g 2 = Inr [3]" "Refs g 4 = Inr [2, 3]"
    using spec [OF refs, of 2] spec [OF refs, of 4] by (simp_all add: at node_at_def)
  moreover have "Referrers g 2 = Inr [1, 3, 4]"
    using spec [OF referrers, of 2] by (simp add: targets_def)
  ultimately show ?thesis using g by blast
qed

text \<open>The file offset recorded for a node is where its record can be read again: right behind
  the tag byte of the sub-record the file holds exactly the body of the \<open>i\<close>-th object, so that
  \<open>readAt\<close> at that offset returns it.\<close>

theorem offset_points_at_record:
  assumes ok: "dump_ok hdr rs" and ids: "distinct (map obj_id (dump_nodes rs))"
    and m: "LoadMeta path (Some (enc_dump hdr ts rs)) = Inr m"
    and n: "length (dump_nodes rs) < 2 ^ 31" and e: "length (dump_edges (lay (Classes m)) rs) < 2 ^ 31"
    and g: "BuildGraph m (Some (enc_dump hdr ts rs)) True = Inr g"
    and i: "i < Graph_N g"
  shows "readAt (enc_dump hdr ts rs) (Offset g ! i) (int (length (sub_body (dump_nodes rs ! i)))) =
    Some (sub_body (dump_nodes rs ! i))"
proof -
  have m': "m = dump_meta path hdr ts rs" using m LoadMeta_dump [OF ok, of path ts] by simp
  define ps where "ps = dump_objects (dump_subs (int (length (enc_header hdr ts))) rs)"
  have g': "Offset g = map (\<lambda>(p, x). p + 1) ps" "IDs g = map obj_id (dump_nodes rs)"
    using BuildGraph_dump [OF ok ids n m' refl e] g unfolding ps_def by auto
  have nodes: "dump_nodes rs = map snd ps" unfolding ps_def dump_objects_snd ..
  then have len: "i < length ps" using i g'(2) by (simp add: Graph_N_def)
  obtain p x where px: "ps ! i = (p, x)" by fastforce
  have "(p, x) \<in> set ps" using px len by (metis nth_mem)
  then have "(p, x) \<in> set (dump_subs (int (length (enc_header hdr ts))) rs)"
    by (simp add: ps_def dump_objects_def)
  from dump_subs_readAt [OF this] show ?thesis
    using len px by (simp add: g'(1) nodes)
qed

theorem offset_points_at_record_witness:
  "\<exists>g. BuildGraph sample_meta (Some (enc_dump sample_header 5 sample_records)) True = Inr g \<and>
    readAt (enc_dump sample_header 5 sample_records) (Offset g ! 3) 36 =
      Some (enc_u8 201 @ enc_u4 1 @ enc_u8 101 @ enc_u4 12 @ enc_u8 200 @ enc_u4 9)"
proof -
  have len: "length (dump_nodes sample_records) = 6"
    using arg_cong [OF sample_nodes, of length] by simp
  have small: "length (dump_nodes sample_records) < 2 ^ 31"
    "length (dump_edges (lay (Classes sample_meta)) sample_records) < 2 ^ 31"
    unfolding len sample_edges by simp_all
  obtain g where g: "BuildGraph sample_meta (Some (enc_dump sample_header 5 sample_records)) True = Inr g"
      "IDs g = map obj_id (dump_nodes sample_records)"
    using BuildGraph_dump [OF sample_ok sample_distinct small(1) refl refl small(2)] by blast
  have i: "3 < Graph_N g" using g(2) len by (simp add: Graph_N_def)
  have "sub_body (dump_nodes sample_records ! 3) =
      enc_u8 201 @ enc_u4 1 @ enc_u8 101 @ enc_u4 12 @ enc_u8 200 @ enc_u4 9"
    by (simp add: dump_nodes_def sample_records_def sample_subs_def)
  with offset_points_at_record [OF sample_ok sample_distinct sample_load small g(1) i] g(1)
  show ?thesis by auto
qed

text \<open>C38: Field layouts. When the superclass links have no cycle (a ranking decreases along them),
  \<open>buildLayouts\<close> gives every class a layout, which is the class's own fields followed by the
  layout of its superclass, whatever the order in which the map of classes is walked; own fields and
  superclass links stay as they were.\<close>

theorem layouts_follow_superclasses:
  assumes "\<And>c ci. map_get (Classes m) c = Some ci \<Longrightarrow> ci_layout ci = None"
    and "\<And>c ci. map_get (Classes m) c = Some ci \<Longrightarrow> ci_super ci \<noteq> 0 \<Longrightarrow> rank (ci_super ci) < (rank c :: nat)"
    and get: "map_get (Classes m) c = Some ci"
  shows "\<exists>ci'. map_get (Classes (buildLayouts m)) c = Some ci' \<and>
    ci_fields ci' = ci_fields ci \<and> ci_super ci' = ci_super ci \<and>
    ci_layout ci' = Some (ci_fields ci @
      (if ci_super ci = 0 then [] else lay (Classes (buildLayouts m)) (ci_super ci)))"
proof -
  have pre: "ranked rank (Classes m)" "layouts_sound (Classes m)"
    using assms(1,2) by (auto simp: ranked_def layouts_sound_fresh)
  note built = buildLayouts_sound [OF pre]
  obtain ci' where ci': "map_get (Classes (buildLayouts m)) c = Some ci'" "same_class ci ci'"
    using layouts_growD [OF built(2) get] .
  have "ci_layout ci' \<noteq> None" using built(3) [of c] ci'(1) by (simp add: laid_def)
  then obtain l where l: "ci_layout ci' = Some l" by blast
  have "l = ci_fields ci' @ inherited (Classes (buildLayouts m)) ci'"
    using built(1) ci'(1) l by (simp add: layouts_sound_def)
  with ci' l same_class_fields [OF ci'(2)] show ?thesis
    by (simp add: inherited_def)
qed

definition sample_unlaid :: Meta where
  "sample_unlaid = fold record_step sample_records (new_meta ''a.hprof'' 0)"

theorem layouts_follow_superclasses_witness:
  "\<exists>ci'. map_get (Classes (buildLayouts sample_unlaid)) 101 = Some ci' \<and>
    ci_layout ci' = Some ([\<lparr>f_name = ''next'', f_typ = 2\<rparr>, \<lparr>f_name = ''value'', f_typ = 10\<rparr>] @
      lay (Classes (buildLayouts sample_unlaid)) 100)"
proof -
  have layouts: "ci_layout ci = None" if "map_get (Classes sample_unlaid) c = Some ci" for c ci
    using that by (auto simp: sample_unlaid_def map_get_conv sample_classes split: if_splits)
  have ranks: "(if ci_super ci = 101 then 1 else 0) < (if c = 101 then 1 else 0 :: nat)"
    if "map_get (Classes sample_unlaid) c = Some ci" "ci_super ci \<noteq> 0" for c ci
    using that by (auto simp: sample_unlaid_def map_get_conv sample_classes split: if_splits)
  let ?ci = "\<lparr>ci_id = 101, ci_name = ''demo.Node'', ci_super = 100, ci_instSize = 12,
      ci_fields = [\<lparr>f_name = ''next'', f_typ = 2\<rparr>, \<lparr>f_name = ''value'', f_typ = 10\<rparr>],
      ci_statics = [200], ci_layout = None\<rparr>"
  have "map_get (Classes sample_unlaid) 101 = Some ?ci"
    by (simp add: sample_unlaid_def map_get_conv sample_classes)
  then have "\<exists>ci'. map_get (Classes (buildLayouts sample_unlaid)) 101 = Some ci' \<and>
      ci_fields ci' = ci_fields ?ci \<and> ci_super ci' = ci_super ?ci \<and>
      ci_layout ci' = Some (ci_fields ?ci @
        (if ci_super ?ci = 0 then [] else lay (Classes (buildLayouts sample_unlaid)) (ci_super ?ci)))"
    by (intro layouts_follow_superclasses [where rank = "\<lambda>c. if c = 101 then 1 else 0"] layouts ranks)
  then show ?thesis by auto
qed

text \<open>Reading a class dump again never loses a layout, which is what the later passes over the
  file rely on: whatever the bytes are, if \<open>readClassDump\<close> returns, the layout of every class is the
  one it had before, and a class that has its layout keeps having one.\<close>

theorem reread_keeps_layouts:
  assumes "readClassDump m d = Inr ((ci, m'), d')"
  shows "lay (Classes m') = lay (Classes m) \<and>
    (\<forall>c. laid (Classes m) c \<and> map_get (Classes m) c \<noteq> None \<longrightarrow> laid (Classes m') c)"
  using readClassDump_keeps_layouts [OF assms] by (simp add: has_class_def)

theorem reread_keeps_layouts_witness:
  "\<exists>m' ci. readClassDump sample_meta \<lparr>input = enc_class sample_node_class, pos = 0\<rparr> =
      Inr ((ci, m'), \<lparr>input = [], pos = int (length (enc_class sample_node_class))\<rparr>) \<and>
    lay (Classes m') 101 = [\<lparr>f_name = ''next'', f_typ = 2\<rparr>, \<lparr>f_name = ''value'', f_typ = 10\<rparr>]"
proof -
  have "class_ok sample_node_class"
    by (simp add: class_ok_def sample_node_class_def typed_value_def valid_type_def value_fits_def typeSize_def)
  from readClassDump_enc [OF this, of sample_meta "[]" 0] obtain ci m' where
    r: "readClassDump sample_meta \<lparr>input = enc_class sample_node_class, pos = 0\<rparr> =
      Inr ((ci, m'), \<lparr>input = [], pos = int (length (enc_class sample_node_class))\<rparr>)"
    by (metis (no_types, lifting) add_0 append_Nil2 prod.exhaust)
  from reread_keeps_layouts [OF r] r sample_lay show ?thesis by auto
qed

text \<open>C37: The passes end on every file. Whatever the bytes are, \<open>LoadMeta\<close> and \<open>BuildGraph\<close> return or
  panic: every round of their loops consumes at least one byte, so that the fuel of the model, one
  more than the bytes left, is never used up.\<close>

theorem reading_ends:
  "LoadMeta path fl \<noteq> Inl OutOfFuel \<and> BuildGraph m fl withEdges \<noteq> Inl OutOfFuel"
  using LoadMeta_ends BuildGraph_ends by blast

text \<open>\<open>Lookup\<close> agrees with a linear search: after the index has been sorted, the binary search
  for an id returns the position at which the id stands in the table of objects, and \<open>-1\<close> exactly
  when no object has it.\<close>

theorem lookup_is_search:
  assumes "distinct (IDs g)" and "Graph_N g \<le> 2 ^ 31"
  shows "Lookup (sort_index g) oid = (if oid \<in> set (IDs g) then int (node_at (IDs g) oid) else -1)"
proof -
  have ind: "indexed (sort_index g)" and ids: "IDs (sort_index g) = IDs g"
    using sort_index_indexed [OF assms(2)] by (simp_all add: sort_index_def Let_def)
  show ?thesis
  proof (cases "oid \<in> set (IDs g)")
    case True
    with Lookup_node_at [OF ind] assms(1) show ?thesis by (simp add: ids)
  next
    case False
    with Lookup_cases [OF ind, of oid] show ?thesis
      by (metis Graph_N_def ids nth_mem)
  qed
qed

theorem lookup_is_search_witness:
  "Lookup (sort_index ((new_graph sample_meta)\<lparr>IDs := [30, 10, 20]\<rparr>)) 20 = 2 \<and>
   Lookup (sort_index ((new_graph sample_meta)\<lparr>IDs := [30, 10, 20]\<rparr>)) 15 = -1"
  using lookup_is_search [of "(new_graph sample_meta)\<lparr>IDs := [30, 10, 20]\<rparr>" 20]
    lookup_is_search [of "(new_graph sample_meta)\<lparr>IDs := [30, 10, 20]\<rparr>" 15]
  by (simp add: Graph_N_def node_at_def)

text \<open>The counting sort of \<open>buildCSR\<close> computes adjacency lists: for edges between nodes below
  \<open>n\<close>, with counts that fit \<open>int32\<close>, it never indexes out of range, and the slice between two
  consecutive start positions holds the targets of the edges of that node, in the order of the edge
  list.\<close>

theorem csr_lists_edges:
  assumes "list_all (\<lambda>f. f < n) fs" and "length fs = length ts" and "n < 2 ^ 31" and "length fs < 2 ^ 31"
  shows "\<exists>start adj. buildCSR n (map int fs) (map int ts) = Inr (start, adj) \<and>
    (\<forall>i < n. bind_ok (aget start (int i)) (\<lambda>lo. bind_ok (aget start (int i + 1)) (\<lambda>hi. aslice adj lo hi)) =
       Inr (map int (map snd (filter (\<lambda>e. fst e = i) (zip fs ts)))))"
proof -
  have "\<And>f. f \<in> set fs \<Longrightarrow> f < n" using assms(1) by (simp add: list_all_iff)
  from buildCSR_correct [OF this assms(2-4)] show ?thesis
    unfolding targets_def by metis
qed

theorem csr_lists_edges_witness:
  "\<exists>start adj. buildCSR 3 (map int [2, 0, 2]) (map int [1, 2, 0]) = Inr (start, adj) \<and>
    bind_ok (aget start 2) (\<lambda>lo. bind_ok (aget start 3) (\<lambda>hi. aslice adj lo hi)) = Inr [1, 0]"
proof -
  obtain start adj where b: "buildCSR 3 (map int [2, 0, 2]) (map int [1, 2, 0]) = Inr (start, adj)"
    and all: "\<forall>i < 3. bind_ok (aget start (int i)) (\<lambda>lo. bind_ok (aget start (int i + 1)) (\<lambda>hi. aslice adj lo hi)) =
      Inr (map int (map snd (filter (\<lambda>e. fst e = i) (zip [2, 0, 2] [1, 2, 0 :: nat]))))"
    using csr_lists_edges [of 3 "[2, 0, 2]" "[1, 2, 0]"] by auto
  from spec [OF all, of 2] b show ?thesis by auto
qed

lemma int32_wrap: "2 ^ 31 \<le> x \<Longrightarrow> x < 2 ^ 32 \<Longrightarrow> int32 x = x - 2 ^ 32"
  using mod_add_self2 [of "x - 2 ^ 31" "2 ^ 32 :: int"] by (simp add: int32_def add.commute)

text \<open>The bytes of an instance or array in the file, without the header of the record.\<close>

fun object_body :: "subrec \<Rightarrow> u8 list" where
  "object_body (SInstance oid tr cid body) = body"
| "object_body (SObjArray oid tr cid es) = concat (map enc_u8 es)"
| "object_body (SPrimArray oid tr t vs) = prim_body t vs"
| "object_body _ = []"

lemma obj_size_body:
  assumes "sub_ok x" "is_object x" "obj_kind x \<noteq> kindClass"
  shows "obj_size x = 16 + int (length (object_body x))"
proof (cases x)
  case (SObjArray oid tr cid es)
  have "length (concat (map enc_u8 es)) = 8 * length es" by (induction es) simp_all
  with SObjArray show ?thesis by simp
next
  case (SPrimArray oid tr t vs)
  with assms(1) show ?thesis using length_prim_body [of t vs] by simp
qed (use assms in simp_all)

text \<open>C39: Shallow sizes are stored as \<open>int32\<close>. For every instance and array, the size that pass A stores is
  the true size (16 bytes of header and the bytes of the body) if and only if that is below 2 GiB, and a
  size from 2 GiB up to 4 GiB is stored as a negative number. A class is stored with size 0.\<close>

theorem shallow_size_wraps:
  assumes ok: "sub_ok x" and obj: "is_object x" and keyed: "keyed_classes (M g)"
    and n: "n = 16 + int (length (object_body x))"
  shows "\<exists>g' d'. index_sub g \<lparr>input = enc_sub x @ rest, pos = p\<rparr> = Inr (g', d') \<and>
    (if obj_kind x = kindClass then last (Size g') = 0
     else (last (Size g') = n \<longleftrightarrow> n < 2 ^ 31) \<and> (2 ^ 31 \<le> n \<and> n < 2 ^ 32 \<longrightarrow> last (Size g') < 0))"
proof -
  have "index_sub g \<lparr>input = enc_sub x @ rest, pos = p\<rparr> =
      Inr (index_step p x g, \<lparr>input = rest, pos = p + int (length (enc_sub x))\<rparr>)"
    by (rule index_sub_enc [OF ok])
  moreover have stored: "last (Size (index_step p x g)) = int32 (obj_size x)"
    using obj by (simp add: index_step_eq [OF keyed] add_object_def Graph_add_def)
  moreover have "int32 (obj_size x) = 0" if "obj_kind x = kindClass"
    using that by (cases x) simp_all
  moreover have "obj_size x = n" "0 \<le> n" if "obj_kind x \<noteq> kindClass"
    using obj_size_body [OF ok obj that] n by simp_all
  ultimately show ?thesis
    using int32_bounds(2) [of n] int32_id [of n] int32_wrap [of n]
    by (auto simp del: power_numeral)
qed

text \<open>The witness is a \<open>long[]\<close> of 2^28 elements: 2 GiB and 16 bytes are stored as a negative size.\<close>

theorem shallow_size_wraps_witness:
  "\<exists>g' d'. index_sub (new_graph (new_meta ''a.hprof'' 0))
      \<lparr>input = enc_sub (SPrimArray 400 1 11 (replicate (2 ^ 28) 0)) @ [], pos = 0\<rparr> = Inr (g', d') \<and> last (Size g') < 0"
proof -
  let ?x = "SPrimArray 400 1 11 (replicate (2 ^ 28) 0)"
  have "sub_ok ?x"
    by (simp add: valid_type_def value_fits_def typeSize_def list_all_iff)
  moreover have "is_object ?x" "keyed_classes (M (new_graph (new_meta ''a.hprof'' 0)))"
    by (simp_all add: keyed_classes_def new_graph_def new_meta_def)
  moreover have "2 ^ 31 + 16 = 16 + int (length (object_body ?x))"
    by (simp add: length_prim_body valid_type_def typeSize_def)
  ultimately show ?thesis
    using shallow_size_wraps [of ?x "new_graph (new_meta ''a.hprof'' 0)" "2 ^ 31 + 16" "[]" 0]
    by auto
qed

subsection \<open>Dominators, retained sizes and paths\<close>

text \<open>C10: The Lengauer-Tarjan computation is exact. On every graph whose adjacency and roots are those of an
  edge list and a list of root nodes, with counts below 2^31, \<open>Dominators\<close> returns (no index out of
  range, no loop that runs on); \<open>Reachable\<close> says which objects have a path from a root; the immediate
  dominator of a reachable object is the object, other than itself, without which it would have no path
  from a root and which every other such object also cuts off, or the virtual root when there is none;
  unreachable objects have \<open>-1\<close>.\<close>

theorem dominators_are_immediate:
  assumes "adjacency g es" "rooted g roots" "n = Graph_N g" "n < 2 ^ 31" "length es < 2 ^ 31" "length (Size g) = n"
  shows "\<exists>d g'. Dominators g = Inr (d, g') \<and>
    (\<forall>v < n. Reachable d (int v) = Inr (reachable es roots v) \<and>
       (if reachable es roots v then obj_idom es roots n (Idom d ! v) v else Idom d ! v = -1))"
proof -
  have "dom_graph g es roots n" using assms by (simp add: dom_graph_def)
  from Dominators_ok [OF this assms(6)] show ?thesis by (metis (no_types, lifting))
qed

text \<open>C11: Retained sizes are what would be freed. For a well-formed dump, \<open>BuildGraph\<close> and \<open>Dominators\<close>
  return, and the retained size of every object is the sum of the shallow sizes of the objects that are
  reachable from the GC roots but on no path that avoids it; the retained size of the virtual root and
  the bytes added to \<open>Unreach\<close> together are the sizes of all objects.\<close>

theorem retained_is_freed:
  fixes path :: string and ts :: u64
  assumes ok: "dump_ok hdr rs" and ids: "ids = map obj_id (dump_nodes rs)" "distinct ids"
    and m: "LoadMeta path (Some (enc_dump hdr ts rs)) = Inr m"
    and es: "es = dump_edges (lay (Classes m)) rs"
    and roots: "roots = sort (remdups (map (node_at ids) (filter (\<lambda>r. r \<in> set ids) (RootIDs m))))"
    and n: "n = length ids" "n < 2 ^ 31" and e: "length es < 2 ^ 31"
  shows "\<exists>g d g'. BuildGraph m (Some (enc_dump hdr ts rs)) True = Inr g \<and> Dominators g = Inr (d, g') \<and>
    (\<forall>v < n. Retained d ! v = (\<Sum>w \<in> freed es roots v. int32 (obj_size (dump_nodes rs ! w)))) \<and>
    Retained d ! n + (Unreach g' - Unreach g) = sum_list (Size g)"
proof -
  have m': "m = dump_meta path hdr ts rs" using m LoadMeta_dump [OF ok, of path ts] by simp
  have ids': "distinct (map obj_id (dump_nodes rs))" "length (dump_nodes rs) < 2 ^ 31" using ids n by simp_all
  obtain g where g: "BuildGraph m (Some (enc_dump hdr ts rs)) True = Inr g" "IDs g = map obj_id (dump_nodes rs)"
      "Size g = map (\<lambda>x. int32 (obj_size x)) (dump_nodes rs)" "adjacency g es"
      "rooted g (sort (remdups (map (node_at (IDs g)) (filter (\<lambda>r. r \<in> set (IDs g)) (RootIDs m)))))"
    using BuildGraph_dump [OF ok ids' m' refl] e unfolding es by blast
  have N: "Graph_N g = n" "length (Size g) = n" using g(2,3) ids n by (simp_all add: Graph_N_def)
  have dg: "dom_graph g es roots n" using g(2,4,5) N n e ids roots by (simp add: dom_graph_def)
  obtain d u where D: "Dominators g = Inr (d, g\<lparr>Unreach := Unreach g + u\<rparr>)"
      "\<And>v. v < n \<Longrightarrow> Retained d ! v = (\<Sum>w \<in> freed es roots v. Size g ! w)"
      "Retained d ! n = (\<Sum>w \<in> {w. reachable es roots w}. Size g ! w)"
      "u = (\<Sum>w \<in> {w. w < n \<and> \<not> reachable es roots w}. Size g ! w)"
    by (rule Dominators_ok [OF dg N(2)]) (rule that)
  have rng: "w < n" if "reachable es roots w" for w
    using that dg by (induction rule: reaches.induct) (auto simp: dom_graph_def adjacency_def rooted_def)
  have "Size g ! w = int32 (obj_size (dump_nodes rs ! w))" if "w \<in> freed es roots v" for v w
    using that rng [of w] g(3) N(2) by (simp add: freed_def)
  then have "(\<Sum>w \<in> freed es roots v. Size g ! w) = (\<Sum>w \<in> freed es roots v. int32 (obj_size (dump_nodes rs ! w)))" for v
    by (rule sum.cong [OF refl])
  moreover have "Retained d ! n + u = sum_list (Size g)"
  proof -
    have "{..<n} = {w. reachable es roots w} \<union> {w. w < n \<and> \<not> reachable es roots w}" using rng by auto
    moreover have "sum ((!) (Size g)) {..<n} = sum_list (Size g)" using N(2) sum_list_sum_nth [of "Size g"] by (simp add: lessThan_atLeast0)
    moreover have "finite {w. reachable es roots w}" by (rule finite_subset [of _ "{..<n}"]) (use rng in auto)
    ultimately show ?thesis unfolding D(3,4) by (subst sum.union_disjoint [symmetric]) auto
  qed
  ultimately show ?thesis using g(1) D(1,2) by (intro exI [of _ g] exI [of _ d] exI [of _ "g\<lparr>Unreach := Unreach g + u\<rparr>"]) simp
qed

text \<open>C12: The printed paths are shortest. On the same graphs, \<open>bfsFromRoots\<close> returns, and the chain that
  \<open>cmdPaths\<close> follows from a reachable object is a chain of references that ends in a GC root and has as few
  references as any path from a root, as long as that is at most 200.\<close>

theorem paths_are_shortest:
  assumes "adjacency g es" "rooted g roots" "n = Graph_N g" "n < 2 ^ 31" "length es < 2 ^ 31" "DRoot d = int n"
    and v: "v < n" "reachable es roots v"
  shows "\<exists>par k. bfsFromRoots g d = Inr par \<and> shortest es roots k v \<and> (k \<le> 200 \<longrightarrow>
    (\<exists>vs. path_chain par d (int v) = Inr (map int vs) \<and> length vs = Suc k \<and> vs ! 0 = v \<and> last vs \<in> set roots \<and> ref_path es vs))"
proof -
  have dg: "dom_graph g es roots n" using assms by (simp add: dom_graph_def)
  obtain par where par: "bfsFromRoots g d = Inr par" "length par = n" "\<And>v. v < n \<Longrightarrow> bfs_parent es roots n par v"
    using bfsFromRoots_ok [OF dg assms(6)] by blast
  obtain k where k: "shortest es roots k v" using reachable_shortest [OF v(2)] by blast
  have edges: "\<And>u v. (u, v) \<in> set es \<Longrightarrow> u < n" using assms(1,3) by (auto simp: adjacency_def)
  have "\<exists>vs. path_chain par d (int v) = Inr (map int vs) \<and> length vs = Suc k \<and> vs ! 0 = v \<and> last vs \<in> set roots \<and> ref_path es vs"
    if "k \<le> 200"
  proof -
    have "k < 201" using that by simp
    then obtain vs where "path_walk par (int n) 201 (int v) = Inr (map int vs)" "length vs = Suc k" "vs ! 0 = v"
        "last vs \<in> set roots" "ref_path es vs"
      using path_walk_ok [of par n es roots v k 201] par(2,3) edges v(1) k by blast
    then show ?thesis unfolding path_chain_def assms(6) by blast
  qed
  then show ?thesis using par(1) k by blast
qed

subsection \<open>The sample dump analysed\<close>

abbreviation sample_es :: "(nat \<times> nat) list" where
  "sample_es \<equiv> [(1, 2), (2, 3), (3, 2), (4, 2), (4, 3)]"

lemma sample_root_ids: "RootIDs sample_meta = [300, 101]"
  by (simp add: dump_meta_def buildLayouts_frame sample_records_def new_meta_def sample_subs_def sample_object_class_def
      sample_node_class_def map_str_def Let_def name_class_def class_step_def record_class_def count_root_def)

lemma sample_roots:
  "sort (remdups (map (node_at [100, 101, 200, 201, 300, 400]) (filter (\<lambda>r. r \<in> set [100, 101, 200, 201, 300, 400])
      (RootIDs sample_meta)))) = [1, 4]"
  by (simp add: sample_root_ids node_at_def)

lemma sample_reaches: "reachable sample_es [1, 4] v \<longleftrightarrow> v \<in> {1, 2, 3, 4}"
proof
  assume "reachable sample_es [1, 4] v"
  then show "v \<in> {1, 2, 3, 4}" by (induction rule: reaches.induct) auto
next
  have "reachable sample_es [1, 4] 1" "reachable sample_es [1, 4] 4" by (auto intro: reaches_root)
  moreover from this have "reachable sample_es [1, 4] 2" by (auto intro: reaches_edge [of _ _ _ 1])
  moreover from this have "reachable sample_es [1, 4] 3" by (auto intro: reaches_edge [of _ _ _ 2])
  moreover assume "v \<in> {1, 2, 3, 4}"
  ultimately show "reachable sample_es [1, 4] v" by auto
qed

lemma sample_freed_2: "2 \<in> freed sample_es [1, 4] d \<longleftrightarrow> d = 2"
proof -
  have "reaches sample_es [1, 4] {d} 2" if "d \<noteq> 2"
  proof (cases "d = 1")
    case True
    then have "reaches sample_es [1, 4] {d} 4" by (auto intro: reaches_root)
    then show ?thesis using that by (auto intro: reaches_edge [of _ _ _ 4])
  next
    case False
    then have "reaches sample_es [1, 4] {d} 1" by (auto intro: reaches_root)
    then show ?thesis using that by (auto intro: reaches_edge [of _ _ _ 1])
  qed
  moreover have "\<not> reaches sample_es [1, 4] {2} 2" by (auto elim: reaches.cases)
  ultimately show ?thesis by (auto simp: freed_def sample_reaches simp del: One_nat_def)
qed

lemma sample_freed_4: "freed sample_es [1, 4] 4 = {4}"
proof -
  have r: "reaches sample_es [1, 4] {4} 1" by (auto intro: reaches_root)
  moreover from r have r2: "reaches sample_es [1, 4] {4} 2" by (auto intro: reaches_edge [of _ _ _ 1])
  moreover from r2 have "reaches sample_es [1, 4] {4} 3" by (auto intro: reaches_edge [of _ _ _ 2])
  moreover have "\<not> reaches sample_es [1, 4] {4} 4" by (auto elim: reaches.cases)
  ultimately show ?thesis by (auto simp: freed_def sample_reaches simp del: One_nat_def)
qed

lemma sample_graph:
  obtains g where "BuildGraph sample_meta (Some (enc_dump sample_header 5 sample_records)) True = Inr g"
    "Graph_N g = 6" "length (Size g) = 6" "adjacency g sample_es" "rooted g [1, 4]"
proof -
  have len: "length (dump_nodes sample_records) = 6" using arg_cong [OF sample_nodes, of length] by simp
  have small: "length (dump_nodes sample_records) < 2 ^ 31" "length (dump_edges (lay (Classes sample_meta)) sample_records) < 2 ^ 31"
    unfolding len sample_edges by simp_all
  obtain g where g: "BuildGraph sample_meta (Some (enc_dump sample_header 5 sample_records)) True = Inr g"
      "IDs g = map obj_id (dump_nodes sample_records)" "Size g = map (\<lambda>x. int32 (obj_size x)) (dump_nodes sample_records)"
      "adjacency g (dump_edges (lay (Classes sample_meta)) sample_records)"
      "rooted g (sort (remdups (map (node_at (IDs g)) (filter (\<lambda>r. r \<in> set (IDs g)) (RootIDs sample_meta)))))"
    using BuildGraph_dump [OF sample_ok sample_distinct small(1) refl refl small(2)] by blast
  show ?thesis
    using that [OF g(1)] g(2-5) len sample_edges sample_roots unfolding sample_nodes by (simp add: Graph_N_def)
qed

theorem dominators_are_immediate_witness:
  "\<exists>g d g'. BuildGraph sample_meta (Some (enc_dump sample_header 5 sample_records)) True = Inr g \<and>
    Dominators g = Inr (d, g') \<and> Idom d ! 2 = 6 \<and> Idom d ! 5 = -1 \<and> Reachable d 3 = Inr True"
proof -
  obtain g where g: "BuildGraph sample_meta (Some (enc_dump sample_header 5 sample_records)) True = Inr g"
    "Graph_N g = 6" "length (Size g) = 6" "adjacency g sample_es" "rooted g [1, 4]" using sample_graph by blast
  obtain d g' where d: "Dominators g = Inr (d, g')"
    and all: "\<forall>v < 6. Reachable d (int v) = Inr (reachable sample_es [1, 4] v) \<and>
       (if reachable sample_es [1, 4] v then obj_idom sample_es [1, 4] 6 (Idom d ! v) v else Idom d ! v = -1)"
    using dominators_are_immediate [OF g(4,5) _ _ _ g(3)] g(2) by auto
  have "obj_idom sample_es [1, 4] 6 (Idom d ! 2) 2" using spec [OF all, of 2] sample_reaches [of 2] by simp
  then have "Idom d ! 2 = 6" unfolding obj_idom_def sample_freed_2 by (simp split: if_splits)
  moreover have "Idom d ! 5 = -1" "Reachable d 3 = Inr True"
    using spec [OF all, of 5] spec [OF all, of 3] sample_reaches [of 5] sample_reaches [of 3] by simp_all
  ultimately show ?thesis using g(1) d by blast
qed

theorem retained_is_freed_witness:
  "\<exists>g d g'. BuildGraph sample_meta (Some (enc_dump sample_header 5 sample_records)) True = Inr g \<and>
    Dominators g = Inr (d, g') \<and> Retained d ! 4 = 40"
proof -
  have small: "(6 :: nat) = length [100, 101, 200, 201, 300, 400 :: u64]" "(6 :: nat) < 2 ^ 31" "length sample_es < 2 ^ 31" by simp_all
  have dist: "distinct [100, 101, 200, 201, 300, 400 :: u64]" by simp
  note R = retained_is_freed [OF sample_ok sample_nodes [symmetric] dist sample_load sample_edges [symmetric] sample_roots [symmetric] small]
  then obtain g d g' where D: "BuildGraph sample_meta (Some (enc_dump sample_header 5 sample_records)) True = Inr g"
      "Dominators g = Inr (d, g')"
    and all: "\<forall>v < 6. Retained d ! v = (\<Sum>w \<in> freed sample_es [1, 4] v. int32 (obj_size (dump_nodes sample_records ! w)))" by blast
  have "int32 (obj_size (dump_nodes sample_records ! 4)) = 40"
    by (simp add: dump_nodes_def sample_records_def sample_subs_def int32_def)
  then have "Retained d ! 4 = 40" using spec [OF all, of 4] by (simp add: sample_freed_4 del: One_nat_def)
  then show ?thesis using D by blast
qed

theorem paths_are_shortest_witness:
  "\<exists>g par vs. BuildGraph sample_meta (Some (enc_dump sample_header 5 sample_records)) True = Inr g \<and>
    bfsFromRoots g (new_dom 6) = Inr par \<and> path_chain par (new_dom 6) 2 = Inr (map int vs) \<and>
    length vs = 2 \<and> vs ! 0 = 2 \<and> last vs \<in> {1, 4}"
proof -
  obtain g where g: "BuildGraph sample_meta (Some (enc_dump sample_header 5 sample_records)) True = Inr g"
    "Graph_N g = 6" "adjacency g sample_es" "rooted g [1, 4]" using sample_graph by blast
  have root: "DRoot (new_dom 6) = int 6" by (simp add: new_dom_def int32_def)
  have "reachable sample_es [1, 4] 2" using sample_reaches by simp
  then obtain par k where p: "bfsFromRoots g (new_dom 6) = Inr par" "shortest sample_es [1, 4] k 2"
      "k \<le> 200 \<longrightarrow> (\<exists>vs. path_chain par (new_dom 6) (int 2) = Inr (map int vs) \<and> length vs = Suc k \<and> vs ! 0 = 2 \<and>
         last vs \<in> set [1, 4] \<and> ref_path sample_es vs)"
    using paths_are_shortest [OF g(3,4) g(2) [symmetric] _ _ root, of 2] by auto
  have "path_len sample_es [1, 4] 1 2" using path_len_edge [OF path_len_root, of 1 "[1, 4]" 2 sample_es] by simp
  moreover have "\<not> path_len sample_es [1, 4] 0 2" by (auto elim: path_len_0E)
  ultimately have "shortest sample_es [1, 4] 1 2" by (simp add: shortest_def)
  then have "k = 1" using shortest_unique [OF p(2)] by blast
  then show ?thesis using g(1) p(1,3) by auto
qed

end
