(* ===== verification/Go_Format.thy ===== *)
theory Go_Format
  imports Hprof_Meta Complex_Main
begin

text \<open>
  What the reports of the heap-dump analyzer use of Go's formatting: \<open>float64\<close> arithmetic on integers,
  the verbs \<open>%.nf\<close>, \<open>%q\<close>, \<open>%c\<close> and padded \<open>%s\<close>, UTF-16, dates, and \<open>truncate\<close> of
  \<open>heapdump/hprofx/util.go\<close>.

  A finite \<open>float64\<close> is a sign and a rational magnitude; every operation rounds its exact result to 53
  significant bits, halves to even. The magnitudes of the program (byte counts, milliseconds and their
  quotients) are far from the limits of the exponent, which are left out. Unicode's table of printable
  characters and of upper-case letters, the shortest decimal form of a float (\<open>%g\<close>), the scanning of a
  number and the matching of regular expressions are fields of the record \<open>golib\<close>.

  The lemmas show that rounding is monotone and exact on integers below \<open>2 ^ 53\<close>, that \<open>truncate\<close>
  yields at most the wanted number of characters, and that decoding inverts the UTF-16 encoding.
\<close>

subsection \<open>Rounding\<close>

fun log2 :: "nat \<Rightarrow> nat" where
  "log2 n = (if n < 2 then 0 else Suc (log2 (n div 2)))"

declare log2.simps [simp del]

text \<open>The exponent of the leading bit of a positive rational.\<close>

definition ilog2 :: "rat \<Rightarrow> int" where
  "ilog2 q = (let (a, b) = quotient_of q; k = int (log2 (nat a)) - int (log2 (nat b))
     in if 2 powi k \<le> q then k else k - 1)"

text \<open>The nearest integer, halves to even.\<close>

definition nearest :: "rat \<Rightarrow> int" where
  "nearest x = (let n = \<lfloor>x\<rfloor>; r = x - of_int n
     in if r < 1 / 2 \<or> (r = 1 / 2 \<and> even n) then n else n + 1)"

definition round53 :: "rat \<Rightarrow> rat" where
  "round53 q = (if q \<le> 0 then 0 else let u = 2 powi (ilog2 q - 52) in of_int (nearest (q / u)) * u)"

subsection \<open>float64\<close>

datatype float64 = Finite bool rat | Infinite bool | NotANumber    \<comment> \<open>\<open>True\<close> is the sign bit\<close>

definition f_of_int :: "int \<Rightarrow> float64" where
  "f_of_int n = Finite (n < 0) (round53 (of_int \<bar>n\<bar>))"

definition f_const :: "rat \<Rightarrow> float64" where
  "f_const q = Finite (q < 0) (round53 \<bar>q\<bar>)"

fun f_val :: "float64 \<Rightarrow> rat" where
  "f_val (Finite s m) = (if s then - m else m)"
| "f_val _ = 0"

fun f_mul :: "float64 \<Rightarrow> float64 \<Rightarrow> float64" where
  "f_mul (Finite s m) (Finite s' m') = Finite (s \<noteq> s') (round53 (m * m'))"
| "f_mul (Finite s m) (Infinite s') = (if m = 0 then NotANumber else Infinite (s \<noteq> s'))"
| "f_mul (Infinite s) (Finite s' m') = (if m' = 0 then NotANumber else Infinite (s \<noteq> s'))"
| "f_mul (Infinite s) (Infinite s') = Infinite (s \<noteq> s')"
| "f_mul _ _ = NotANumber"

fun f_div :: "float64 \<Rightarrow> float64 \<Rightarrow> float64" where
  "f_div (Finite s m) (Finite s' m') =
     (if m' = 0 then if m = 0 then NotANumber else Infinite (s \<noteq> s')
      else Finite (s \<noteq> s') (round53 (m / m')))"
| "f_div (Finite s m) (Infinite s') = Finite (s \<noteq> s') 0"
| "f_div (Infinite s) (Finite s' m') = Infinite (s \<noteq> s')"
| "f_div _ _ = NotANumber"

fun f_add :: "float64 \<Rightarrow> float64 \<Rightarrow> float64" where
  "f_add (Finite s m) (Finite s' m') =
     (let v = f_val (Finite s m) + f_val (Finite s' m')
      in Finite (v < 0 \<or> (v = 0 \<and> s \<and> s')) (round53 \<bar>v\<bar>))"
| "f_add (Finite s m) (Infinite s') = Infinite s'"
| "f_add (Infinite s) (Finite s' m') = Infinite s"
| "f_add (Infinite s) (Infinite s') = (if s = s' then Infinite s else NotANumber)"
| "f_add _ _ = NotANumber"

fun f_less :: "float64 \<Rightarrow> float64 \<Rightarrow> bool" where
  "f_less (Finite s m) (Finite s' m') \<longleftrightarrow> f_val (Finite s m) < f_val (Finite s' m')"
| "f_less (Finite s m) (Infinite s') \<longleftrightarrow> \<not> s'"
| "f_less (Infinite s) (Finite s' m') \<longleftrightarrow> s"
| "f_less (Infinite s) (Infinite s') \<longleftrightarrow> s \<and> \<not> s'"
| "f_less _ _ \<longleftrightarrow> False"

text \<open>The conversion \<open>int64(x)\<close>, which drops the fraction; out of range it is the value of amd64.\<close>

fun f_int64 :: "float64 \<Rightarrow> int" where
  "f_int64 (Finite s m) =
     (let v = (if s then - \<lfloor>m\<rfloor> else \<lfloor>m\<rfloor>) in if - (2 ^ 63) \<le> v \<and> v < 2 ^ 63 then v else - (2 ^ 63))"
| "f_int64 _ = - (2 ^ 63)"

text \<open>The conversion \<open>int64(x)\<close> of an integer and the arithmetic on \<open>int64\<close>.\<close>

definition int64 :: "int \<Rightarrow> int" where
  "int64 x = (x + 2 ^ 63) mod 2 ^ 64 - 2 ^ 63"

subsection \<open>Formatting\<close>

text \<open>The verb \<open>%.kf\<close>.\<close>

definition fixed :: "nat \<Rightarrow> nat \<Rightarrow> string" where
  "fixed k n = radix 10 (n div 10 ^ k) @ (if k = 0 then [] else ''.'' @ pad_digits k (int (n mod 10 ^ k)))"

fun fmt_f :: "nat \<Rightarrow> float64 \<Rightarrow> string" where
  "fmt_f k (Finite s m) = (if s then ''-'' else []) @ fixed k (nat (nearest (m * 10 ^ k)))"
| "fmt_f k (Infinite s) = (if s then ''-Inf'' else ''+Inf'')"
| "fmt_f k NotANumber = ''NaN''"

definition rune_count :: "string \<Rightarrow> nat" where
  "rune_count s = length (runes (bytes_of s))"

text \<open>The widths of \<open>%-ns\<close> and \<open>%ns\<close> count runes.\<close>

definition pad_right :: "nat \<Rightarrow> string \<Rightarrow> string" where
  "pad_right w s = s @ replicate (w - rune_count s) CHR '' ''"

definition pad_left :: "nat \<Rightarrow> string \<Rightarrow> string" where
  "pad_left w s = replicate (w - rune_count s) CHR '' '' @ s"

definition hex_pad :: "nat \<Rightarrow> nat \<Rightarrow> string" where
  "hex_pad w n = (let s = radix 16 n in replicate (w - length s) CHR ''0'' @ s)"

definition utf8_string :: "nat list \<Rightarrow> string" where
  "utf8_string rs = string_of (utf8_encode rs)"

text \<open>Characters outside ASCII that the reports print: the ellipsis, the en and em dash, and others.\<close>

definition ellipsis :: string where "ellipsis = utf8_string [8230]"
definition en_dash :: string where "en_dash = utf8_string [8211]"
definition em_dash :: string where "em_dash = utf8_string [8212]"
definition times_sign :: string where "times_sign = utf8_string [215]"
definition infinity_sign :: string where "infinity_sign = utf8_string [8734]"
definition warning_sign :: string where "warning_sign = utf8_string [9888]"

definition newline :: string where "newline = [char_of (10 :: nat)]"

subsection \<open>The parts of the library that are parameters\<close>

record regexp =
  MatchString :: "string \<Rightarrow> bool"
  NumSubexp :: nat
  FindSubmatch :: "string \<Rightarrow> string list"       \<comment> \<open>empty when nothing matches\<close>

record golib =
  IsPrint :: "nat \<Rightarrow> bool"
  unicode_ToUpper :: "nat \<Rightarrow> nat"
  fmt_g32 :: "u32 \<Rightarrow> string"
  fmt_g64 :: "u64 \<Rightarrow> string"
  Sscan_int64 :: "string \<Rightarrow> int option"
  Compile :: "string \<Rightarrow> regexp option"

subsection \<open>Quoting\<close>

text \<open>The verb \<open>%q\<close> (\<open>strconv.Quote\<close>).\<close>

definition escapedRune :: "(nat \<Rightarrow> bool) \<Rightarrow> nat \<Rightarrow> string" where
  "escapedRune isPrint r =
     (if r = 34 \<or> r = 92 then [CHR 0x5C, char_of r]
      else if isPrint r then utf8_string [r]
      else case map_of [(7, CHR ''a''), (8, CHR ''b''), (12, CHR ''f''), (10, CHR ''n''), (13, CHR ''r''), (9, CHR ''t''),
          (11, CHR ''v'')] r of
        Some c \<Rightarrow> [CHR 0x5C, c]
      | None \<Rightarrow>
          if r < 32 \<or> r = 127 then CHR 0x5C # ''x'' @ hex_pad 2 r
          else let r' = (if scalar r then r else RuneError)
               in if r' < 65536 then CHR 0x5C # ''u'' @ hex_pad 4 r' else CHR 0x5C # ''U'' @ hex_pad 8 r')"

function quoteBytes :: "(nat \<Rightarrow> bool) \<Rightarrow> nat list \<Rightarrow> string" where
  "quoteBytes isPrint bs =
     (if bs = [] then []
      else (if decodeRune bs = (RuneError, 1) then CHR 0x5C # ''x'' @ hex_pad 2 (hd bs)
            else escapedRune isPrint (fst (decodeRune bs))) @
           quoteBytes isPrint (drop (snd (decodeRune bs)) bs))"
  by pat_completeness auto
termination
  by (relation "measure (\<lambda>(p, bs). length bs)") (use decodeRune_width in \<open>fastforce+\<close>)

declare quoteBytes.simps [simp del]

definition fmt_q :: "golib \<Rightarrow> string \<Rightarrow> string" where
  "fmt_q L s = [CHR 0x22] @ quoteBytes (IsPrint L) (bytes_of s) @ [CHR 0x22]"

text \<open>\<open>strings.ToUpper\<close>, with its fast path for ASCII.\<close>

definition ascii_upper :: "nat \<Rightarrow> nat" where
  "ascii_upper b = (if 97 \<le> b \<and> b \<le> 122 then b - 32 else b)"

definition ToUpper :: "golib \<Rightarrow> string \<Rightarrow> string" where
  "ToUpper L s =
     (let bs = bytes_of s
      in if list_all (\<lambda>b. b < 128) bs then string_of (map ascii_upper bs)
         else utf8_string (map (unicode_ToUpper L) (runes bs)))"

subsection \<open>UTF-16\<close>

fun utf16_Decode :: "nat list \<Rightarrow> nat list" where
  "utf16_Decode [] = []"
| "utf16_Decode (r # us) =
     (if r < 55296 \<or> 57344 \<le> r then r # utf16_Decode us
      else if r < 56320
      then case us of
             r2 # us' \<Rightarrow>
               if 56320 \<le> r2 \<and> r2 < 57344
               then ((r - 55296) * 1024 + (r2 - 56320) + 65536) # utf16_Decode us'
               else RuneError # utf16_Decode us
           | [] \<Rightarrow> RuneError # utf16_Decode us
      else RuneError # utf16_Decode us)"

subsection \<open>Dates\<close>

text \<open>\<open>time.UnixMilli(ms).UTC().Format("2006-01-02 15:04:05 UTC")\<close>.\<close>

definition fmt_year :: "int \<Rightarrow> string" where
  "fmt_year y = (if y < 0 then ''-'' else []) @
     (let s = radix 10 (nat \<bar>y\<bar>) in replicate (4 - length s) CHR ''0'' @ s)"

definition fmt_millis :: "int \<Rightarrow> string" where
  "fmt_millis ms =
     (let secs = ms div 1000; (y, m, d) = civil_date (secs div 86400 + 719162); s = secs mod 86400
      in fmt_year y @ ''-'' @ pad_digits 2 m @ ''-'' @ pad_digits 2 d @ '' '' @
         pad_digits 2 (s div 3600) @ '':'' @ pad_digits 2 (s div 60 mod 60) @ '':'' @ pad_digits 2 (s mod 60) @ '' UTC'')"

subsection \<open>util.go\<close>

definition mb :: "int \<Rightarrow> float64" where
  "mb b = f_div (f_of_int b) (f_of_int (2 ^ 20))"

definition blank_rune :: "nat \<Rightarrow> nat" where
  "blank_rune r = (if r = 10 \<or> r = 13 \<or> r = 9 then 32 else r)"

text \<open>\<open>strings.Map\<close> re-encodes every rune, so that malformed bytes become \<open>RuneError\<close>.\<close>

definition truncate_to :: "string \<Rightarrow> nat \<Rightarrow> string" where
  "truncate_to s0 n =
     (let s = utf8_string (map blank_rune (runes (bytes_of s0))); rs = runes (bytes_of s)
      in if length rs \<le> n then s else utf8_string (take (n - 1) rs) @ ellipsis)"

subsection \<open>Rounding is monotone and exact on small integers\<close>

lemma log2_bounds: "0 < n \<Longrightarrow> 2 ^ log2 n \<le> n \<and> n < 2 ^ Suc (log2 n)"
proof (induction n rule: log2.induct)
  case (1 n)
  show ?case
  proof (cases "n < 2")
    case True
    then show ?thesis using 1 by (simp add: log2.simps [of n])
  next
    case False
    then have IH: "2 ^ log2 (n div 2) \<le> n div 2" "n div 2 < 2 ^ Suc (log2 (n div 2))" using 1 by simp_all
    have "log2 n = Suc (log2 (n div 2))" using False by (simp add: log2.simps [of n])
    then have "(2 :: nat) ^ log2 n = 2 * 2 ^ log2 (n div 2)" by simp
    with IH show ?thesis by (simp only: power_Suc) linarith
  qed
qed

lemma two_powi: "2 powi (int a - int b) = (2 ^ a / 2 ^ b :: rat)"
  by (simp add: power_int_diff)

lemma ilog2_bounds:
  assumes "0 < q"
  shows "2 powi ilog2 q \<le> q" and "q < 2 powi (ilog2 q + 1)"
proof -
  obtain a b where ab: "quotient_of q = (a, b)" by fastforce
  have b: "0 < b" and q: "q = of_int a / of_int b"
    using quotient_of_denom_pos [OF ab] quotient_of_div [OF ab] by simp_all
  have a: "0 < a" using assms b q by (simp add: zero_less_divide_iff)
  define la lb where "la = log2 (nat a)" and "lb = log2 (nat b)"
  have "2 ^ la \<le> nat a" "nat a < 2 ^ Suc la" "2 ^ lb \<le> nat b" "nat b < 2 ^ Suc lb"
    using log2_bounds [of "nat a"] log2_bounds [of "nat b"] a b by (simp_all add: la_def lb_def)
  then have "(2 :: int) ^ la \<le> a" "a < 2 ^ Suc la" "(2 :: int) ^ lb \<le> b" "b < 2 ^ Suc lb"
    using a b by (simp_all add: le_nat_iff nat_less_iff)
  then have "of_int (2 ^ la) \<le> (of_int a :: rat)" "of_int a < (of_int (2 ^ Suc la) :: rat)"
    "of_int (2 ^ lb) \<le> (of_int b :: rat)" "of_int b < (of_int (2 ^ Suc lb) :: rat)"
    by (simp_all only: of_int_le_iff of_int_less_iff)
  then have A: "(2 :: rat) ^ la \<le> of_int a" "of_int a < (2 :: rat) ^ Suc la"
    "(2 :: rat) ^ lb \<le> of_int b" "of_int b < (2 :: rat) ^ Suc lb"
    by simp_all
  have bp: "0 < (of_int b :: rat)" using b by simp
  have "of_int a * 2 ^ lb < (2 ^ Suc la :: rat) * of_int b"
    by (rule mult_less_le_imp_less) (use A a in simp_all)
  then have "q < 2 ^ Suc la / 2 ^ lb" using bp by (simp add: q field_simps)
  also have "\<dots> = 2 powi (int la - int lb + 1)" using two_powi [of "Suc la" lb] by (simp add: algebra_simps)
  finally have hi: "q < 2 powi (int la - int lb + 1)" .
  have "(2 ^ la :: rat) * of_int b < of_int a * 2 ^ Suc lb"
    by (rule mult_le_less_imp_less) (use A bp a in simp_all)
  then have "2 ^ la / 2 ^ Suc lb < q" using bp by (simp add: q field_simps)
  moreover have "2 ^ la / 2 ^ Suc lb = (2 powi (int la - int lb - 1) :: rat)"
    using two_powi [of la "Suc lb"] by (simp add: algebra_simps)
  ultimately have lo: "2 powi (int la - int lb - 1) < q" by simp
  have e: "ilog2 q = (let k = int la - int lb in if 2 powi k \<le> q then k else k - 1)"
    by (simp add: ilog2_def ab la_def lb_def)
  show "2 powi ilog2 q \<le> q" and "q < 2 powi (ilog2 q + 1)"
    using hi lo by (auto simp: e Let_def)
qed

lemma powi_less: "(2 powi a :: rat) < 2 powi b \<Longrightarrow> a < b"
  using power_int_increasing [of b a "2 :: rat"] by (cases "a < b") auto

lemma nearest_of_int [simp]: "nearest (of_int n) = n"
  by (simp add: nearest_def)

lemma nearest_bounds: "\<lfloor>x\<rfloor> \<le> nearest x" "nearest x \<le> \<lfloor>x\<rfloor> + 1"
  by (simp_all add: nearest_def Let_def)

lemma nearest_mono:
  assumes "x \<le> y"
  shows "nearest x \<le> nearest y"
proof (cases "\<lfloor>x\<rfloor> = \<lfloor>y\<rfloor>")
  case True
  then show ?thesis using assms by (auto simp: nearest_def Let_def)
next
  case False
  then have "\<lfloor>x\<rfloor> + 1 \<le> \<lfloor>y\<rfloor>" using floor_mono [OF assms] by linarith
  then show ?thesis using nearest_bounds(2) [of x] nearest_bounds(1) [of y] by linarith
qed

lemma nearest_le: "x \<le> of_int n \<Longrightarrow> nearest x \<le> n" "of_int n \<le> x \<Longrightarrow> n \<le> nearest x"
  using nearest_mono [of x "of_int n"] nearest_mono [of "of_int n" x] by simp_all

lemma round53_pos:
  assumes "0 < q"
  shows "2 powi ilog2 q \<le> round53 q" and "round53 q \<le> 2 powi (ilog2 q + 1)"
proof -
  let ?e = "ilog2 q" let ?u = "2 powi (?e - 52) :: rat"
  have u: "0 < ?u" by simp
  have pw: "2 powi ?e = 2 ^ 52 * ?u" "2 powi (?e + 1) = 2 ^ 53 * ?u"
    by (simp_all add: power_int_diff power_int_add)
  note B = ilog2_bounds [OF assms]
  have r: "round53 q = of_int (nearest (q / ?u)) * ?u" using assms by (simp add: round53_def Let_def)
  have "of_int (2 ^ 52) \<le> q / ?u" "q / ?u \<le> of_int (2 ^ 53)"
    using B u unfolding pw by (simp_all add: le_divide_eq divide_le_eq)
  then have n: "2 ^ 52 \<le> nearest (q / ?u)" "nearest (q / ?u) \<le> 2 ^ 53" by (simp_all only: nearest_le)
  have "of_int (2 ^ 52) * ?u \<le> of_int (nearest (q / ?u)) * ?u" "of_int (nearest (q / ?u)) * ?u \<le> of_int (2 ^ 53) * ?u"
    using mult_right_mono [OF iffD2 [OF of_int_le_iff n(1)] less_imp_le [OF u]]
      mult_right_mono [OF iffD2 [OF of_int_le_iff n(2)] less_imp_le [OF u]] by blast+
  then show "2 powi ?e \<le> round53 q" and "round53 q \<le> 2 powi (?e + 1)"
    unfolding r pw by simp_all
qed

lemma round53_nonneg [simp]: "0 \<le> round53 q"
  using round53_pos(1) [of q] by (cases "0 < q") (auto simp: round53_def intro: order_trans [rotated])

lemma round53_mono:
  assumes "x \<le> y"
  shows "round53 x \<le> round53 y"
proof (cases "0 < x")
  case False
  then have "round53 x = 0" by (simp add: round53_def)
  then show ?thesis by simp
next
  case True
  then have y: "0 < y" using assms by simp
  have "2 powi ilog2 x < (2 powi (ilog2 y + 1) :: rat)"
    using ilog2_bounds(1) [OF True] assms ilog2_bounds(2) [OF y] by linarith
  then have le: "ilog2 x \<le> ilog2 y" using powi_less by fastforce
  show ?thesis
  proof (cases "ilog2 x = ilog2 y")
    case eq: True
    let ?u = "2 powi (ilog2 y - 52) :: rat"
    have "nearest (x / ?u) \<le> nearest (y / ?u)" by (rule nearest_mono) (simp add: divide_right_mono assms)
    then show ?thesis using True y eq by (simp add: round53_def Let_def mult_right_mono)
  next
    case False
    then have "2 powi (ilog2 x + 1) \<le> (2 powi ilog2 y :: rat)" using le by (intro power_int_increasing) simp_all
    then show ?thesis using round53_pos(2) [OF True] round53_pos(1) [OF y] by linarith
  qed
qed

lemma round53_int:
  assumes "0 \<le> n" "n < 2 ^ 53"
  shows "round53 (of_int n) = of_int n"
proof (cases "n = 0")
  case False
  then have pos: "0 < (of_int n :: rat)" using assms by simp
  let ?e = "ilog2 (of_int n)"
  have "(of_int n :: rat) < of_int (2 ^ 53)" using assms(2) by (simp only: of_int_less_iff)
  then have "2 powi ?e < (2 powi 53 :: rat)" using ilog2_bounds(1) [OF pos] by simp
  then have "?e \<le> 52" using powi_less by fastforce
  then obtain k where k: "?e - 52 = - int k" by (metis diff_le_0_iff_le int_zle_neg nonpos_int_cases)
  have "of_int n / 2 powi (?e - 52) = (of_int (n * 2 ^ k) :: rat)" unfolding k by (simp add: power_int_minus field_simps)
  then have "nearest (of_int n / 2 powi (?e - 52)) = n * 2 ^ k" by (simp only: nearest_of_int)
  then show ?thesis using pos unfolding round53_def k by (simp add: Let_def power_int_minus)
qed (simp add: round53_def)

lemma f_int64_scaled:
  assumes "0 \<le> n" "n < 2 ^ 53" "0 \<le> p" "p \<le> 1"
  shows "0 \<le> f_int64 (f_mul (f_of_int n) (f_const p))" and "f_int64 (f_mul (f_of_int n) (f_const p)) \<le> n"
    and "f_int64 (f_mul (f_of_int n) (f_const p)) = \<lfloor>round53 (of_int n * round53 p)\<rfloor>"
proof -
  have p1: "round53 p \<le> 1" using round53_mono [OF assms(4)] round53_int [of 1] by simp
  let ?m = "round53 (of_int n * round53 p)"
  have "of_int n * round53 p \<le> of_int n" using assms(1) p1 by (simp add: mult_left_le)
  then have "?m \<le> of_int n" using round53_mono round53_int [OF assms(1,2)] by metis
  then have m: "0 \<le> \<lfloor>?m\<rfloor>" "\<lfloor>?m\<rfloor> \<le> n" by (simp_all add: floor_le_iff)
  have "f_mul (f_of_int n) (f_const p) = Finite False ?m"
    using assms by (simp add: f_of_int_def f_const_def round53_int)
  moreover have "- (2 ^ 63) \<le> \<lfloor>?m\<rfloor> \<and> \<lfloor>?m\<rfloor> < 2 ^ 63" using m assms(2) by (intro conjI; simp; linarith)
  ultimately have "f_int64 (f_mul (f_of_int n) (f_const p)) = \<lfloor>?m\<rfloor>"
    by (simp only: f_int64.simps Let_def if_False if_True conj_absorb)
  then show "0 \<le> f_int64 (f_mul (f_of_int n) (f_const p))" and "f_int64 (f_mul (f_of_int n) (f_const p)) \<le> n"
    and "f_int64 (f_mul (f_of_int n) (f_const p)) = \<lfloor>?m\<rfloor>"
    using m by simp_all
qed

subsection \<open>UTF-16 and truncation\<close>

text \<open>The code units of a code point.\<close>

definition utf16_units :: "nat \<Rightarrow> nat list" where
  "utf16_units r =
     (if r < 65536 then [r] else [55296 + (r - 65536) div 1024, 56320 + (r - 65536) mod 1024])"

lemma utf16_Decode_units:
  assumes "scalar r"
  shows "utf16_Decode (utf16_units r @ us) = r # utf16_Decode us"
proof (cases "r < 65536")
  case True
  then show ?thesis using assms by (auto simp: utf16_units_def scalar_def)
next
  case False
  define v where "v = r - 65536"
  have v: "r = v + 65536" "v < 1048576" using False assms by (auto simp: v_def scalar_def)
  have "v div 1024 < 1024" using v(2) by auto
  moreover have "v div 1024 * 1024 + v mod 1024 = v" by simp
  ultimately show ?thesis using False v by (simp add: utf16_units_def)
qed

lemma utf16_roundtrip: "list_all scalar rs \<Longrightarrow> utf16_Decode (concat (map utf16_units rs)) = rs"
  by (induction rs) (simp_all add: utf16_Decode_units)

lemma utf16_units_bound: "scalar r \<Longrightarrow> u \<in> set (utf16_units r) \<Longrightarrow> u < 65536"
proof -
  assume r: "scalar r" and u: "u \<in> set (utf16_units r)"
  have "(r - 65536) div 1024 < 1024" using r by (auto simp: scalar_def)
  moreover have "(r - 65536) mod 1024 < 1024" by simp
  ultimately show ?thesis using u by (auto simp: utf16_units_def split: if_splits)
qed

lemma runes_utf8_string: "list_all scalar rs \<Longrightarrow> runes (bytes_of (utf8_string rs)) = rs"
  by (simp add: utf8_string_def bytes_of_string_of byte_list_utf8_encode runes_utf8_encode)

lemma blank_rune_scalar: "scalar r \<Longrightarrow> scalar (blank_rune r)"
  by (simp add: blank_rune_def scalar_def)

lemma utf8_string_append: "utf8_string (rs @ rs') = utf8_string rs @ utf8_string rs'"
  by (simp add: utf8_string_def utf8_encode_append string_of_def)

lemma truncate_runes:
  fixes s :: string
  assumes "1 \<le> n"
  defines "rs \<equiv> map blank_rune (runes (bytes_of s))"
  shows "runes (bytes_of (truncate_to s n)) = (if length rs \<le> n then rs else take (n - 1) rs @ [8230])"
proof -
  have sc: "list_all scalar rs"
    using runes_scalar [of "bytes_of s"] by (auto simp: rs_def list_all_iff blank_rune_scalar)
  then have "list_all scalar (take (n - 1) rs @ [8230])" by (auto simp: list_all_iff scalar_def dest: in_set_takeD)
  then have "runes (bytes_of (utf8_string (take (n - 1) rs) @ ellipsis)) = take (n - 1) rs @ [8230]"
    unfolding ellipsis_def utf8_string_append [symmetric] by (rule runes_utf8_string)
  moreover have "runes (bytes_of (utf8_string rs)) = rs" by (rule runes_utf8_string [OF sc])
  ultimately show ?thesis by (simp add: truncate_to_def Let_def rs_def)
qed

lemma truncate_count: "1 \<le> n \<Longrightarrow> rune_count (truncate_to s n) \<le> n"
  by (simp add: rune_count_def truncate_runes)

end
