(* ===== verification/Hprof_Out.thy ===== *)
theory Hprof_Out
  imports Go_Format Hprof_Graph "HOL-Library.Product_Lexorder"
begin

text \<open>
  The output side of the heap-dump analyzer (\<open>heapdump/hprofx/util.go\<close>): the writer that renders plain
  text or markdown, its tables, and the tallies that the analyses count with.

  \<open>sortTally\<close> ranges over a map and sorts with an unstable sort, so the order of equal rows is open. The
  permutation that iteration and sort leave open is an argument, applied before a stable sort: every
  result that the Go code can give is the result for some permutation.
\<close>

subsection \<open>Strings\<close>

definition TrimRight :: "char \<Rightarrow> string \<Rightarrow> string" where
  "TrimRight c s = rev (dropWhile (\<lambda>x. x = c) (rev s))"

definition TrimLeft :: "char \<Rightarrow> string \<Rightarrow> string" where
  "TrimLeft c s = dropWhile (\<lambda>x. x = c) s"

definition newline_char :: char where
  "newline_char = char_of (10 :: nat)"

definition Repeat :: "string \<Rightarrow> nat \<Rightarrow> string" where
  "Repeat s n = concat (replicate n s)"

definition Contains :: "string \<Rightarrow> string \<Rightarrow> bool" where
  "Contains s sub = list_ex (prefix sub) (suffixes s)"

subsection \<open>Tallies\<close>

record tally =
  tl_Count :: int
  tl_Bytes :: int

type_synonym tallyRow = "string \<times> tally"
type_synonym tallies = "(string, tally) gomap"

definition add_tally :: "tallies \<Rightarrow> string \<Rightarrow> int \<Rightarrow> tallies" where
  "add_tally m key bytes =
     (let t = (case map_get m key of None \<Rightarrow> \<lparr>tl_Count = 0, tl_Bytes = 0\<rparr> | Some t \<Rightarrow> t)
      in map_set key \<lparr>tl_Count = int64 (tl_Count t + 1), tl_Bytes = int64 (tl_Bytes t + bytes)\<rparr> m)"

definition tally_key :: "bool \<Rightarrow> tallyRow \<Rightarrow> int \<times> int" where
  "tally_key byBytes r =
     (if byBytes then (- tl_Bytes (snd r), - tl_Count (snd r)) else (- tl_Count (snd r), - tl_Bytes (snd r)))"

definition sortTally :: "(tallyRow list \<Rightarrow> tallyRow list) \<Rightarrow> tallies \<Rightarrow> bool \<Rightarrow> tallyRow list" where
  "sortTally ord m byBytes = sort_key (tally_key byBytes) (ord (map_entries m))"

subsection \<open>The writer\<close>

record out =
  o_text :: string
  o_markdown :: bool

definition newOut :: "bool \<Rightarrow> out" where
  "newOut markdown = \<lparr>o_text = [], o_markdown = markdown\<rparr>"

definition printf :: "string \<Rightarrow> out \<Rightarrow> out" where
  "printf s q = q\<lparr>o_text := o_text q @ s\<rparr>"

definition heading :: "golib \<Rightarrow> nat \<Rightarrow> string \<Rightarrow> out \<Rightarrow> out" where
  "heading L level text q =
     (if o_markdown q then printf (newline @ Repeat ''#'' level @ '' '' @ text @ newline @ newline) q
      else printf (newline @ ''=== '' @ ToUpper L text @ '' ==='' @ newline) q)"

definition para :: "string \<Rightarrow> out \<Rightarrow> out" where
  "para text q = (if o_markdown q then printf (text @ newline @ newline) q else printf (text @ newline) q)"

definition code :: "string \<Rightarrow> out \<Rightarrow> out" where
  "code text q =
     (if o_markdown q then printf (''```'' @ newline @ TrimRight newline_char text @ newline @ ''```'' @ newline @ newline) q
      else printf (text @ newline) q)"

subsection \<open>Tables\<close>

definition right_aligned :: "string \<Rightarrow> nat \<Rightarrow> bool" where
  "right_aligned align i \<longleftrightarrow> i < length align \<and> align ! i = CHR ''r''"

definition escape_cell :: "string \<Rightarrow> string" where
  "escape_cell c = concat (map (\<lambda>x. if x = CHR ''|'' then [CHR 0x5C, CHR ''|''] else [x]) c)"

definition markdown_row :: "string list \<Rightarrow> string" where
  "markdown_row cells = ''| '' @ Join cells '' | '' @ '' |'' @ newline"

definition markdown_table :: "string list \<Rightarrow> string \<Rightarrow> string list list \<Rightarrow> string" where
  "markdown_table headers align rows =
     markdown_row headers @
     markdown_row (map (\<lambda>i. if right_aligned align i then ''---:'' else ''---'') [0..<length headers]) @
     concat (map (\<lambda>r. markdown_row (map escape_cell r)) rows) @ newline"

text \<open>The widest cell of each column; a row with more cells than headers panics.\<close>

definition widen :: "string list \<Rightarrow> nat list \<Rightarrow> nat list outcome" where
  "widen r width =
     for_each (\<lambda>i width. bind_ok (aget width (int i)) (\<lambda>w.
       if rune_count (r ! i) > w then aset width (int i) (rune_count (r ! i)) else Inr width)) [0..<length r] width"

definition column_widths :: "string list \<Rightarrow> string list list \<Rightarrow> nat list outcome" where
  "column_widths headers rows = for_each widen rows (map rune_count headers)"

definition pad_cell :: "nat list \<Rightarrow> string \<Rightarrow> nat \<Rightarrow> string \<Rightarrow> string" where
  "pad_cell width align i c =
     (if right_aligned align i then pad_left (width ! i) c else pad_right (width ! i) c)"

text \<open>
  The padding of a cell is never negative, where \<open>strings.Repeat\<close> would panic: \<open>column_widths\<close> has taken the
  maximum over the headers and all rows, and has failed already for a row with more cells than headers.
\<close>

definition text_row :: "nat list \<Rightarrow> string \<Rightarrow> string list \<Rightarrow> string" where
  "text_row width align cells =
     TrimRight CHR '' '' (Join (map (\<lambda>i. pad_cell width align i (cells ! i)) [0..<length cells]) ''  '') @ newline"

definition text_table :: "string list \<Rightarrow> string \<Rightarrow> string list list \<Rightarrow> string outcome" where
  "text_table headers align rows =
     bind_ok (column_widths headers rows) (\<lambda>width.
     Inr (text_row width align headers @
          text_row width align (map (\<lambda>i. replicate (width ! i) CHR ''-'') [0..<length headers]) @
          concat (map (text_row width align) rows)))"

definition table :: "string list \<Rightarrow> string \<Rightarrow> string list list \<Rightarrow> out \<Rightarrow> out outcome" where
  "table headers align rows q =
     (if rows = [] then Inr (para ''_(none)_'' q)
      else if o_markdown q then Inr (printf (markdown_table headers align rows) q)
      else bind_ok (text_table headers align rows) (\<lambda>t. Inr (printf t q)))"

subsection \<open>Patterns\<close>

definition mustCompile :: "golib \<Rightarrow> string \<Rightarrow> regexp outcome" where
  "mustCompile L p = (case Compile L p of None \<Rightarrow> Inl (BadPattern p) | Some re \<Rightarrow> Inr re)"

end
