(* ===== verification/Hprof_Inspect.thy ===== *)
theory Hprof_Inspect
  imports Hprof_Objects Go_Format
begin

text \<open>
  Reading objects back out of the dump (\<open>heapdump/hprofx/inspect.go\<close>): instance fields, array elements,
  Java strings in their three layouts, and the one-line rendering of values and references.

  The file behind the graph is an argument. A nil slice and an empty one behave alike for every caller
  except for the bytes of a primitive array, which are an option. \<open>Render\<close> and \<open>RenderRef\<close> call each
  other; the model takes the rendering of references one level down as an argument of \<open>render_value\<close> and
  counts the levels, so that a recursion that does not end is the failure \<open>StackOverflow\<close>.
\<close>

subsection \<open>Fields\<close>

record FieldValue =
  fv_Name :: string
  fv_Type :: u8
  fv_Raw :: u64

text \<open>The value of a slot of the given type at the front of the bytes.\<close>

definition field_raw :: "u8 \<Rightarrow> u8 list \<Rightarrow> u64" where
  "field_raw t bs =
     (if t = 2 then be_word (take 8 bs)
      else if t = 4 \<or> t = 8 then be_word (take 1 bs)
      else if t = 5 \<or> t = 9 then be_word (take 2 bs)
      else if t = 6 \<or> t = 10 then be_word (take 4 bs)
      else if t = 7 \<or> t = 11 then be_word (take 8 bs)
      else 0)"

fun read_fields :: "fieldDesc list \<Rightarrow> u8 list \<Rightarrow> int \<Rightarrow> int \<Rightarrow> FieldValue list outcome" where
  "read_fields [] body sz off = Inr []"
| "read_fields (f # fs) body sz off =
     bind_ok (type_size (f_typ f)) (\<lambda>w.
     if off + w > sz then Inr []
     else bind_ok (read_fields fs body sz (off + w)) (\<lambda>rest.
          Inr (\<lparr>fv_Name = f_name f, fv_Type = f_typ f, fv_Raw = field_raw (f_typ f) (drop (nat off) body)\<rparr> # rest)))"

definition Fields :: "u8 list \<Rightarrow> Graph \<Rightarrow> int \<Rightarrow> FieldValue list outcome" where
  "Fields file g i =
     bind_ok (aget (Kind g) i) (\<lambda>k.
     if k \<noteq> kindInstance then Inr []
     else bind_ok (aget (Offset g) i) (\<lambda>off.
       case readAt file off (8 + 4 + 8 + 4) of None \<Rightarrow> Inr []
       | Some head \<Rightarrow>
           let cid = be_word (take 8 (drop 12 head)); sz = uint (be_word (take 4 (drop 20 head)) :: u32)
           in case readAt file (off + 24) sz of None \<Rightarrow> Inr []
              | Some body \<Rightarrow>
                  (case map_get (Classes (M g)) cid of None \<Rightarrow> Inr []
                   | Some ci \<Rightarrow> read_fields (case ci_layout ci of None \<Rightarrow> [] | Some l \<Rightarrow> l) body sz 0)))"

definition find_field_value :: "string \<Rightarrow> FieldValue list \<Rightarrow> FieldValue option" where
  "find_field_value name fs = find (\<lambda>f. fv_Name f = name) fs"

definition Field :: "u8 list \<Rightarrow> Graph \<Rightarrow> int \<Rightarrow> string \<Rightarrow> FieldValue option outcome" where
  "Field file g i name = bind_ok (Fields file g i) (\<lambda>fs. Inr (find_field_value name fs))"

subsection \<open>Arrays\<close>

definition ArrayLen :: "u8 list \<Rightarrow> Graph \<Rightarrow> int \<Rightarrow> int outcome" where
  "ArrayLen file g i =
     bind_ok (aget (Kind g) i) (\<lambda>k.
     if k = kindObjArray \<or> k = kindPrimArray
     then bind_ok (aget (Offset g) i) (\<lambda>off.
          case readAt file (off + 12) 4 of None \<Rightarrow> Inr 0 | Some h \<Rightarrow> Inr (uint (be_word h :: u32)))
     else Inr 0)"

definition ArrayElems :: "u8 list \<Rightarrow> Graph \<Rightarrow> int \<Rightarrow> int \<Rightarrow> u64 list outcome" where
  "ArrayElems file g i most =
     bind_ok (aget (Kind g) i) (\<lambda>k.
     if k \<noteq> kindObjArray then Inr []
     else bind_ok (ArrayLen file g i) (\<lambda>len. let n = min len most in
       bind_ok (aget (Offset g) i) (\<lambda>off.
       case readAt file (off + 24) (n * 8) of None \<Rightarrow> Inr [] | Some b \<Rightarrow> Inr (array_refs (nat n) b))))"

text \<open>The bytes, nil when the file ends before them, and the element type.\<close>

definition PrimBytes :: "u8 list \<Rightarrow> Graph \<Rightarrow> int \<Rightarrow> int \<Rightarrow> (u8 list option \<times> u8) outcome" where
  "PrimBytes file g i most =
     bind_ok (aget (Kind g) i) (\<lambda>k.
     if k \<noteq> kindPrimArray then Inr (None, 0)
     else bind_ok (aget (Offset g) i) (\<lambda>off.
       case readAt file (off + 12) 5 of None \<Rightarrow> Inr (None, 0)
       | Some h \<Rightarrow>
           let n = uint (be_word (take 4 h) :: u32); t = h ! 4
           in bind_ok (type_size t) (\<lambda>w. Inr (readAt file (off + 17) (min (n * w) most), t))))"

subsection \<open>Strings\<close>

fun pairs :: "u8 list \<Rightarrow> (u8 \<times> u8) list" where
  "pairs (a # b # bs) = (a, b) # pairs bs"
| "pairs _ = []"

definition decodeUTF16 :: "u8 list \<Rightarrow> bool \<Rightarrow> string" where
  "decodeUTF16 b bigEndian =
     utf8_string (utf16_Decode (map (\<lambda>(x, y). be_nat (if bigEndian then [x, y] else [y, x])) (pairs b)))"

text \<open>The last field called \<open>value\<close> and the last one called \<open>coder\<close> count.\<close>

fun string_slots :: "FieldValue list \<Rightarrow> u64 \<times> u64 option \<Rightarrow> u64 \<times> u64 option" where
  "string_slots [] s = s"
| "string_slots (f # fs) (valID, coder) =
     string_slots fs
       (if fv_Name f = ''value'' then (fv_Raw f, coder)
        else if fv_Name f = ''coder'' then (valID, Some (fv_Raw f)) else (valID, coder))"

definition string_text :: "u64 option \<Rightarrow> u8 list \<Rightarrow> u8 \<Rightarrow> string" where
  "string_text coder b t =
     (if t = 5 then decodeUTF16 b True
      else if coder = Some 1 then decodeUTF16 b False
      else bytes_string b)"

definition StringOf :: "u8 list \<Rightarrow> Graph \<Rightarrow> int \<Rightarrow> string option outcome" where
  "StringOf file g i =
     (if i < 0 then Inr None
      else bind_ok (aget (Kind g) i) (\<lambda>k. bind_ok (aget (ClassOf g) i) (\<lambda>c.
        if k \<noteq> kindInstance \<or> className (M g) c \<noteq> ''java.lang.String'' then Inr None
        else bind_ok (Fields file g i) (\<lambda>fs.
          let (valID, coder) = string_slots fs (0, None); v = Lookup g valID
          in if v < 0 then Inr None
             else bind_ok (PrimBytes file g v (2 ^ 20)) (\<lambda>(b, t).
                  Inr (map_option (\<lambda>b. string_text coder b t) b))))))"

text \<open>The string that an object reference leads to.\<close>

definition string_at :: "u8 list \<Rightarrow> Graph \<Rightarrow> u64 \<Rightarrow> string option outcome" where
  "string_at file g oid = StringOf file g (Lookup g oid)"

subsection \<open>Names and tables\<close>

fun enum_hops :: "nat \<Rightarrow> classes \<Rightarrow> u64 \<Rightarrow> bool" where
  "enum_hops 0 cs cid = False"
| "enum_hops (Suc hops) cs cid =
     (cid \<noteq> 0 \<and> (case map_get cs cid of None \<Rightarrow> False
        | Some ci \<Rightarrow> ci_name ci = ''java.lang.Enum'' \<or> enum_hops hops cs (ci_super ci)))"

definition isEnum :: "Graph \<Rightarrow> u64 \<Rightarrow> bool" where
  "isEnum g cid = enum_hops 16 (Classes (M g)) cid"

definition boxedField :: "string list" where
  "boxedField = [''java.lang.Integer'', ''java.lang.Long'', ''java.lang.Short'', ''java.lang.Byte'',
     ''java.lang.Character'', ''java.lang.Boolean'', ''java.lang.Double'', ''java.lang.Float'',
     ''java.util.concurrent.atomic.AtomicInteger'', ''java.util.concurrent.atomic.AtomicLong'',
     ''java.util.concurrent.atomic.AtomicBoolean'']"

definition sizeFields :: "(string \<times> string) list" where
  "sizeFields = [(''java.util.ArrayList'', ''size''), (''java.util.LinkedList'', ''size''),
     (''java.util.HashMap'', ''size''), (''java.util.LinkedHashMap'', ''size''),
     (''java.util.TreeMap'', ''size''), (''java.util.HashSet'', ''size''),
     (''java.util.concurrent.LinkedBlockingQueue'', ''count''),
     (''java.util.concurrent.ArrayBlockingQueue'', ''count''),
     (''java.util.concurrent.CopyOnWriteArrayList'', '''')]"

definition shortName :: "string \<Rightarrow> string" where
  "shortName s = rev (takeWhile (\<lambda>c. c \<noteq> CHR ''.'') (rev s))"

definition printableRune :: "nat \<Rightarrow> nat" where
  "printableRune c = (if 32 \<le> c \<and> c < 127 then c else 46)"

definition printable :: "u8 list \<Rightarrow> u8 \<Rightarrow> string" where
  "printable b t =
     utf8_string (map printableRune (if t = 5 then map (\<lambda>(x, y). be_nat [x, y]) (pairs b) else map unat b))"

subsection \<open>Rendering\<close>

text \<open>\<open>Render\<close>, with the rendering of references as an argument.\<close>

definition render_value :: "golib \<Rightarrow> (u64 \<Rightarrow> string outcome) \<Rightarrow> FieldValue \<Rightarrow> string outcome" where
  "render_value L ref f =
     (let t = fv_Type f; raw = fv_Raw f
      in if t = 4 then Inr (if raw \<noteq> 0 then ''true'' else ''false'')
         else if t = 5 then Inr (CHR 0x27 # utf8_string [unat raw] @ [CHR 0x27])
         else if t = 8 then Inr (fmt_d (sint (ucast raw :: u8)))
         else if t = 9 then Inr (fmt_d (sint (ucast raw :: u16)))
         else if t = 10 then Inr (fmt_d (sint (ucast raw :: u32)))
         else if t = 11 then Inr (fmt_d (sint raw))
         else if t = 6 then Inr (fmt_g32 L (ucast raw))
         else if t = 7 then Inr (fmt_g64 L raw)
         else if t = 2 then ref raw
         else Inr (fmt_d (uint raw)))"

text \<open>The name of an enum constant.\<close>

definition enum_name :: "u8 list \<Rightarrow> Graph \<Rightarrow> int \<Rightarrow> string option outcome" where
  "enum_name file g i =
     bind_ok (aget (Kind g) i) (\<lambda>k. bind_ok (aget (ClassOf g) i) (\<lambda>c.
     if k = kindInstance \<and> isEnum g c
     then bind_ok (Field file g i ''name'') (\<lambda>nf.
          case nf of None \<Rightarrow> Inr None | Some f \<Rightarrow> string_at file g (fv_Raw f))
     else Inr None))"

definition boxed_value :: "u8 list \<Rightarrow> Graph \<Rightarrow> int \<Rightarrow> string \<Rightarrow> FieldValue option outcome" where
  "boxed_value file g i name = (if name \<in> set boxedField then Field file g i ''value'' else Inr None)"

definition renderElem :: "golib \<Rightarrow> u8 list \<Rightarrow> Graph \<Rightarrow> (u64 \<Rightarrow> string outcome) \<Rightarrow> u64 \<Rightarrow> string outcome" where
  "renderElem L file g ref oid =
     (if oid = 0 then Inr ''null''
      else let i = Lookup g oid
      in if i < 0 then Inr (''0x'' @ fmt_x oid)
      else bind_ok (StringOf file g i) (\<lambda>str. case str of Some s \<Rightarrow> Inr (fmt_q L (truncate_to s 80))
        | None \<Rightarrow>
      bind_ok (enum_name file g i) (\<lambda>en. case en of Some s \<Rightarrow> Inr s
        | None \<Rightarrow>
      bind_ok (Graph_Name g i) (\<lambda>name.
      bind_ok (boxed_value file g i name) (\<lambda>bv. case bv of Some vf \<Rightarrow> render_value L ref vf
        | None \<Rightarrow> Inr (shortName name @ ''@0x'' @ fmt_x oid))))))"

fun outcome_map :: "('a \<Rightarrow> 'b outcome) \<Rightarrow> 'a list \<Rightarrow> 'b list outcome" where
  "outcome_map f [] = Inr []"
| "outcome_map f (x # xs) = bind_ok (f x) (\<lambda>y. bind_ok (outcome_map f xs) (\<lambda>ys. Inr (y # ys)))"

definition render_prim_array :: "golib \<Rightarrow> u8 list \<Rightarrow> Graph \<Rightarrow> int \<Rightarrow> string outcome" where
  "render_prim_array L file g i =
     bind_ok (ArrayLen file g i) (\<lambda>n.
     bind_ok (PrimBytes file g i 64) (\<lambda>(b, t).
     bind_ok (aget typeName (uint t)) (\<lambda>tn.
     let label = tn @ ''['' @ fmt_d n @ '']'';
         bytes = (case b of None \<Rightarrow> [] | Some bs \<Rightarrow> bs)
     in if t = 8 \<or> t = 5 then Inr (label @ '' '' @ fmt_q L (truncate_to (printable bytes t) 64))
        else Inr label)))"

definition render_obj_array ::
    "golib \<Rightarrow> u8 list \<Rightarrow> Graph \<Rightarrow> (u64 \<Rightarrow> string outcome) \<Rightarrow> u64 \<Rightarrow> int \<Rightarrow> string \<Rightarrow> string outcome" where
  "render_obj_array L file g ref oid i name =
     bind_ok (ArrayLen file g i) (\<lambda>n.
     let label = TrimSuffix (shortName name) ''[]'' @ ''['' @ fmt_d n @ '']''
     in if n > 0 \<and> n \<le> 8
        then bind_ok (ArrayElems file g i n) (\<lambda>es.
             bind_ok (outcome_map (renderElem L file g ref) es) (\<lambda>elems.
             Inr (label @ ''{'' @ Join elems '', '' @ ''}'')))
        else Inr (label @ '' @0x'' @ fmt_x oid))"

text \<open>The element count of a container; the count of a queue is an \<open>AtomicInteger\<close>.\<close>

definition container_size ::
    "golib \<Rightarrow> u8 list \<Rightarrow> Graph \<Rightarrow> (u64 \<Rightarrow> string outcome) \<Rightarrow> int \<Rightarrow> string \<Rightarrow> string option outcome" where
  "container_size L file g ref i name =
     (case map_of sizeFields name of None \<Rightarrow> Inr None
      | Some sf \<Rightarrow>
          if sf = '''' then Inr None
          else bind_ok (Field file g i sf) (\<lambda>vf. case vf of None \<Rightarrow> Inr None
            | Some f \<Rightarrow>
                bind_ok (render_value L ref f) (\<lambda>sz.
                let ai = Lookup g (fv_Raw f)
                in if fv_Type f = 2 \<and> ai \<ge> 0
                   then bind_ok (Field file g ai ''value'') (\<lambda>inner. case inner of None \<Rightarrow> Inr (Some sz)
                        | Some v \<Rightarrow> bind_ok (render_value L ref v) (\<lambda>s. Inr (Some s)))
                   else Inr (Some sz))))"

fun RenderRef :: "golib \<Rightarrow> u8 list \<Rightarrow> Graph \<Rightarrow> nat \<Rightarrow> u64 \<Rightarrow> string outcome" where
  "RenderRef L file g 0 oid = Inl StackOverflow"
| "RenderRef L file g (Suc depth) oid =
     (if oid = 0 then Inr ''null''
      else let i = Lookup g oid; ref = RenderRef L file g depth
      in if i < 0 then Inr (''0x'' @ fmt_x oid @ '' (not in dump)'')
      else bind_ok (Graph_Name g i) (\<lambda>name.
      bind_ok (StringOf file g i) (\<lambda>str. case str of Some s \<Rightarrow> Inr (fmt_q L (truncate_to s 160))
        | None \<Rightarrow>
      bind_ok (enum_name file g i) (\<lambda>en. case en of Some s \<Rightarrow> Inr s
        | None \<Rightarrow>
      bind_ok (boxed_value file g i name) (\<lambda>bv. case bv of
          Some vf \<Rightarrow> bind_ok (render_value L ref vf) (\<lambda>v. Inr (shortName name @ ''('' @ v @ '')''))
        | None \<Rightarrow>
      bind_ok (aget (Kind g) i) (\<lambda>k.
      if k = kindPrimArray then render_prim_array L file g i
      else if k = kindObjArray then render_obj_array L file g ref oid i name
      else bind_ok (container_size L file g ref i name) (\<lambda>sz. case sz of
          Some s \<Rightarrow> Inr (shortName name @ ''('' @ s @ '') @0x'' @ fmt_x oid)
        | None \<Rightarrow> Inr (shortName name @ '' @0x'' @ fmt_x oid))))))))"

text \<open>
  The recursion goes from an object to an object it holds; a chain longer than the number of objects comes
  back to an object it has passed, and then it does not end.
\<close>

definition render_depth :: "Graph \<Rightarrow> nat" where
  "render_depth g = Graph_N g + 2"

definition Render :: "golib \<Rightarrow> u8 list \<Rightarrow> Graph \<Rightarrow> FieldValue \<Rightarrow> string outcome" where
  "Render L file g f = render_value L (RenderRef L file g (render_depth g)) f"

subsection \<open>Edge labels\<close>

definition EdgeLabel :: "u8 list \<Rightarrow> Graph \<Rightarrow> int \<Rightarrow> int \<Rightarrow> string outcome" where
  "EdgeLabel file g par child =
     bind_ok (aget (Kind g) par) (\<lambda>k. case k of
       kindInstance \<Rightarrow>
         bind_ok (aget (IDs g) child) (\<lambda>want. bind_ok (Fields file g par) (\<lambda>fs.
         case find (\<lambda>f. fv_Type f = 2 \<and> fv_Raw f = want) fs of
           Some f \<Rightarrow> Inr (''.'' @ fv_Name f) | None \<Rightarrow> Inr ''''))
     | kindObjArray \<Rightarrow>
         bind_ok (aget (IDs g) child) (\<lambda>want. bind_ok (ArrayElems file g par (2 ^ 20)) (\<lambda>es.
         case find (\<lambda>j. es ! j = want) [0..<length es] of
           Some j \<Rightarrow> Inr (''['' @ fmt_d (int j) @ '']'') | None \<Rightarrow> Inr ''''))
     | kindClass \<Rightarrow> Inr '' (static)''
     | kindPrimArray \<Rightarrow> Inr '''')"

end
