(* ===== verification/Hprof_Report.thy ===== *)
theory Hprof_Report
  imports Hprof_Out Hprof_Inspect Hprof_Paths
begin

text \<open>
  The analyses of the heap-dump analyzer (\<open>heapdump/hprofx/cmds.go\<close>): summary, histogram, holders,
  retained sizes, threads, instances and paths. Each takes the writer and returns it with its section
  appended, or fails with a panic or a bad pattern.

  The number that a command passes to \<open>tally_order\<close> says which of the sorts of a run it is, since each
  may order its equal rows differently.
\<close>

record orders =
  tally_order :: "nat \<Rightarrow> tallyRow list \<Rightarrow> tallyRow list"
  top_order :: "(int \<times> int) list \<Rightarrow> (int \<times> int) list"
  key_order :: "(string \<times> string \<times> int) list \<Rightarrow> (string \<times> string \<times> int) list"

definition node_range :: "Graph \<Rightarrow> int list" where
  "node_range g = map int [0..<Graph_N g]"

subsection \<open>Summary\<close>

definition kind_index :: "kind \<Rightarrow> nat" where
  "kind_index k = (case k of kindClass \<Rightarrow> 0 | kindInstance \<Rightarrow> 1 | kindObjArray \<Rightarrow> 2 | kindPrimArray \<Rightarrow> 3)"

definition summary_step :: "Graph \<Rightarrow> int \<Rightarrow> int \<times> int list \<Rightarrow> (int \<times> int list) outcome" where
  "summary_step g i = (\<lambda>(shallow, counts).
     bind_ok (aget (Size g) i) (\<lambda>sz. bind_ok (aget (Kind g) i) (\<lambda>k.
     Inr (int64 (shallow + sz), counts[kind_index k := int64 (counts ! kind_index k + 1)]))))"

definition summary_counts :: "Graph \<Rightarrow> (int \<times> int list) outcome" where
  "summary_counts g = for_each (summary_step g) (node_range g) (0, [0, 0, 0, 0])"

definition root_kinds :: "Meta \<Rightarrow> string list" where
  "root_kinds m = sort (map (\<lambda>(k, v). k @ ''='' @ fmt_d v) (map_entries (RootKinds m)))"

definition cmdSummary :: "golib \<Rightarrow> Graph \<Rightarrow> out \<Rightarrow> out outcome" where
  "cmdSummary L g q =
     bind_ok (summary_counts g) (\<lambda>(shallow, counts).
     let m = M g in
     table [''Property'', ''Value''] ''ll''
       [[''File'', Path m],
        [''File size'', fmt_f 2 (mb (FileSize m)) @ '' MB''],
        [''Dump time'', fmt_millis (sint (Timestamp m))],
        [''Live bytes (shallow total)'', fmt_f 2 (mb shallow) @ '' MB''],
        [''Objects'', fmt_d (int (Graph_N g))],
        [''  instances'', fmt_d (counts ! kind_index kindInstance)],
        [''  object arrays'', fmt_d (counts ! kind_index kindObjArray)],
        [''  primitive arrays'', fmt_d (counts ! kind_index kindPrimArray)],
        [''Classes'', fmt_d (counts ! kind_index kindClass)],
        [''Threads'', fmt_d (int (length (Threads m)))],
        [''GC roots'', Join (root_kinds m) '' '']]
       (heading L 2 ''Dump summary'' q))"

subsection \<open>Histogram\<close>

definition histo_step :: "Graph \<Rightarrow> int \<Rightarrow> tallies \<times> int \<Rightarrow> (tallies \<times> int) outcome" where
  "histo_step g i = (\<lambda>(stats, tot).
     bind_ok (aget (Kind g) i) (\<lambda>k.
     if k = kindClass then Inr (stats, tot)
     else bind_ok (Graph_Name g i) (\<lambda>name. bind_ok (aget (Size g) i) (\<lambda>sz.
          Inr (add_tally stats name sz, int64 (tot + sz))))))"

definition histo_stats :: "Graph \<Rightarrow> (tallies \<times> int) outcome" where
  "histo_stats g = for_each (histo_step g) (node_range g) (map_new, 0)"

definition histo_cells :: "int \<Rightarrow> tallyRow \<Rightarrow> string list" where
  "histo_cells tot = (\<lambda>(key, t).
     [truncate_to key 74, fmt_f 2 (mb (tl_Bytes t)), fmt_d (tl_Count t),
      fmt_f 2 (f_div (f_mul (f_of_int 100) (f_of_int (tl_Bytes t))) (f_of_int tot)) @ ''%''])"

definition cmdHisto :: "golib \<Rightarrow> orders \<Rightarrow> Graph \<Rightarrow> int \<Rightarrow> bool \<Rightarrow> out \<Rightarrow> out outcome" where
  "cmdHisto L R g topN byCount q =
     bind_ok (histo_stats g) (\<lambda>(stats, tot).
     let rows = sortTally (tally_order R (if byCount then 1 else 0)) stats (\<not> byCount)
     in table [''Class'', ''Shallow MB'', ''Count'', ''% heap''] ''lrrr''
          (map (histo_cells tot) (take (nat topN) rows))
          (heading L 2 (if byCount then ''Top classes by instance count'' else ''Top classes by shallow size'') q))"

subsection \<open>Holders\<close>

definition holder_key :: "Graph \<Rightarrow> int \<Rightarrow> string outcome" where
  "holder_key g i =
     bind_ok (Referrers g i) (\<lambda>refs. case refs of
       [] \<Rightarrow> Inr (''<no referrer '' @ em_dash @ '' unreachable or a GC root>'')
     | r # rs \<Rightarrow> bind_ok (Graph_Name g r) (\<lambda>name.
         Inr (if rs \<noteq> [] then name @ '' (+'' @ fmt_d (int (length rs)) @ '' other referrers)'' else name)))"

definition holder_step :: "regexp \<Rightarrow> Graph \<Rightarrow> int \<Rightarrow> tallies \<times> int \<times> int \<Rightarrow> (tallies \<times> int \<times> int) outcome" where
  "holder_step re g i = (\<lambda>(holders, matched, matchedBytes).
     bind_ok (Graph_Name g i) (\<lambda>name.
     if \<not> MatchString re name then Inr (holders, matched, matchedBytes)
     else bind_ok (aget (Size g) i) (\<lambda>sz. bind_ok (holder_key g i) (\<lambda>key.
          Inr (add_tally holders key sz, int64 (matched + 1), int64 (matchedBytes + sz))))))"

definition tally_cells :: "nat \<Rightarrow> tallyRow \<Rightarrow> string list" where
  "tally_cells width = (\<lambda>(key, t). [truncate_to key width, fmt_f 2 (mb (tl_Bytes t)), fmt_d (tl_Count t)])"

definition cmdHolders :: "golib \<Rightarrow> orders \<Rightarrow> Graph \<Rightarrow> string \<Rightarrow> int \<Rightarrow> out \<Rightarrow> out outcome" where
  "cmdHolders L R g pattern topN q =
     bind_ok (mustCompile L pattern) (\<lambda>re.
     bind_ok (for_each (holder_step re g) (node_range g) (map_new, 0, 0)) (\<lambda>(holders, matched, matchedBytes).
     table [''Referrer'', ''MB'', ''Count''] ''lrr''
       (map (tally_cells 74) (take (nat topN) (sortTally (tally_order R 2) holders True)))
       (para (fmt_d matched @ '' matching objects, '' @ fmt_f 2 (mb matchedBytes) @
              '' MB shallow, grouped by the class of their first referrer.'')
         (heading L 2 (''Who holds '' @ pattern) q))))"

subsection \<open>Retained sizes\<close>

definition large_objects :: "Graph \<Rightarrow> Dom \<Rightarrow> int \<Rightarrow> (int \<times> int) list outcome" where
  "large_objects g d minBytes =
     bind_ok (outcome_map (\<lambda>i. bind_ok (aget (Retained d) i) (\<lambda>r. Inr (i, r))) (node_range g)) (\<lambda>all.
     Inr (filter (\<lambda>(i, r). r \<ge> minBytes) all))"

text \<open>A node whose dominator retains nearly the same bytes is the next link of the same chain.\<close>

definition same_chain :: "Dom \<Rightarrow> int \<Rightarrow> int \<Rightarrow> bool outcome" where
  "same_chain d i r =
     bind_ok (aget (Idom d) i) (\<lambda>p.
     if p \<ge> 0 \<and> p \<noteq> DRoot d
     then bind_ok (aget (Retained d) p) (\<lambda>rp.
          Inr (f_less (f_of_int (int64 (rp - r))) (f_mul (f_const (2 / 100)) (f_of_int r))))
     else Inr False)"

definition retained_entry :: "Graph \<Rightarrow> int \<Rightarrow> int \<Rightarrow> int list \<Rightarrow> string outcome" where
  "retained_entry g i r chain =
     bind_ok (Graph_Label g i) (\<lambda>label. bind_ok (aget (Size g) i) (\<lambda>sz.
     bind_ok (outcome_map (\<lambda>c. bind_ok (Graph_Name g c) (\<lambda>n. Inr (truncate_to n 44))) chain) (\<lambda>names.
     Inr (pad_right 58 (truncate_to label 58) @ ''  retained '' @ pad_left 9 (fmt_f 2 (mb r)) @
          '' MB  shallow '' @ fmt_d sz @ '' B'' @ newline @
          (if chain \<noteq> [] then ''    dominated by: '' @ Join names '' <- '' @ newline else [])))))"

fun retained_loop :: "Graph \<Rightarrow> Dom \<Rightarrow> (int \<times> int) list \<Rightarrow> int \<Rightarrow> int set \<Rightarrow> string outcome" where
  "retained_loop g d [] room seen = Inr []"
| "retained_loop g d ((i, r) # tops) room seen =
     (if room \<le> 0 then Inr []
      else if i \<in> seen then retained_loop g d tops room seen
      else bind_ok (DomChain d i 8) (\<lambda>chain.
           bind_ok (same_chain d i r) (\<lambda>skip.
           if skip then retained_loop g d tops room seen
           else bind_ok (retained_entry g i r chain) (\<lambda>s.
                bind_ok (retained_loop g d tops (room - 1) (seen \<union> set chain)) (\<lambda>rest. Inr (s @ rest))))))"

definition retained_class_step :: "Graph \<Rightarrow> Dom \<Rightarrow> int \<Rightarrow> tallies \<Rightarrow> tallies outcome" where
  "retained_class_step g d i byClass =
     bind_ok (Reachable d i) (\<lambda>ok.
     if ok then bind_ok (Graph_Name g i) (\<lambda>name. bind_ok (aget (Retained d) i) (\<lambda>r. Inr (add_tally byClass name r)))
     else Inr byClass)"

definition cmdRetained :: "golib \<Rightarrow> orders \<Rightarrow> Graph \<Rightarrow> Dom \<Rightarrow> int \<Rightarrow> float64 \<Rightarrow> out \<Rightarrow> out outcome" where
  "cmdRetained L R g d topN minMB q =
     bind_ok (large_objects g d (f_int64 (f_mul minMB (f_of_int (2 ^ 20))))) (\<lambda>large.
     let tops = sort_key (\<lambda>(i, r). - r) (top_order R large) in
     bind_ok (retained_loop g d tops topN {}) (\<lambda>b.
     bind_ok (for_each (retained_class_step g d) (node_range g) map_new) (\<lambda>byClass.
     table [''Class'', ''Retained MB'', ''Instances''] ''lrr''
       (map (tally_cells 70) (take (nat topN) (sortTally (tally_order R 3) byClass True)))
       (para (''Nested and therefore **not additive** '' @ em_dash @ '' a linked list's nodes each dominate the rest of the list. Useful for ranking, not for totals.'')
       (heading L 3 ''Retained bytes summed per class''
       (code b
       (para (''Retained size is the memory freed if the object became unreachable. Unreachable garbage in this dump: '' @
              fmt_f 2 (mb (Unreach g)) @ '' MB.'')
       (heading L 2 ''Largest objects by retained size'' q))))))))"

subsection \<open>Threads\<close>

definition threadFlags :: "(u64 \<times> string) list" where
  "threadFlags = [(1, ''ALIVE''), (2, ''TERMINATED''), (4, ''RUNNABLE''), (8, ''BLOCKED_ON_MONITOR''),
     (16, ''WAITING_INDEFINITELY''), (32, ''WAITING_TIMED''), (64, ''SLEEPING''), (128, ''IN_OBJECT_WAIT''),
     (1024, ''PARKED''), (4096, ''SUSPENDED''), (8192, ''NATIVE'')]"

definition threadStatus :: "u64 \<Rightarrow> string" where
  "threadStatus s =
     (let names = map snd (filter (\<lambda>(bit, name). and s bit \<noteq> 0) threadFlags)
      in if names = [] then ''UNKNOWN'' else Join names ''|'')"

record thread_group =
  tg_names :: "string list"
  tg_frames :: "string list"
  tg_status :: string

type_synonym thread_groups = "(string, thread_group) gomap"

fun thread_fields :: "u8 list \<Rightarrow> Graph \<Rightarrow> FieldValue list \<Rightarrow> string \<times> string \<Rightarrow> (string \<times> string) outcome" where
  "thread_fields file g [] s = Inr s"
| "thread_fields file g (f # fs) (name, status) =
     (if fv_Name f = ''name''
      then bind_ok (string_at file g (fv_Raw f)) (\<lambda>str.
           thread_fields file g fs (case str of Some s \<Rightarrow> (s, status) | None \<Rightarrow> (name, status)))
      else if fv_Name f = ''threadStatus'' then thread_fields file g fs (name, threadStatus (fv_Raw f))
      else thread_fields file g fs (name, status))"

definition thread_info :: "u8 list \<Rightarrow> Graph \<Rightarrow> ThreadRef \<Rightarrow> (string \<times> string) outcome" where
  "thread_info file g t =
     (let i = Lookup g (ObjID t)
      in if i \<ge> 0 then bind_ok (Fields file g i) (\<lambda>fs. thread_fields file g fs (''<unknown>'', ''''))
         else Inr (''<unknown>'', ''''))"

definition thread_frames :: "Meta \<Rightarrow> ThreadRef \<Rightarrow> string list" where
  "thread_frames m t =
     map (map_str (Frames m)) (case map_get (Traces m) (StackSerial t) of None \<Rightarrow> [] | Some fs \<Rightarrow> fs)"

definition group_key :: "string \<Rightarrow> string list \<Rightarrow> string" where
  "group_key status frames = status @ [char_of (0 :: nat)] @ Join frames newline"

definition group_add :: "string \<Rightarrow> string \<Rightarrow> string list \<Rightarrow> thread_groups \<times> string list \<Rightarrow> thread_groups \<times> string list" where
  "group_add name status frames = (\<lambda>(groups, order).
     let key = group_key status frames
     in case map_get groups key of
          None \<Rightarrow> (map_set key \<lparr>tg_names = [name], tg_frames = frames, tg_status = status\<rparr> groups, order @ [key])
        | Some gr \<Rightarrow> (map_set key (gr\<lparr>tg_names := tg_names gr @ [name]\<rparr>) groups, order))"

definition thread_step :: "u8 list \<Rightarrow> Graph \<Rightarrow> ThreadRef \<Rightarrow> thread_groups \<times> string list \<Rightarrow>
    (thread_groups \<times> string list) outcome" where
  "thread_step file g t s =
     bind_ok (thread_info file g t) (\<lambda>(name, status). Inr (group_add name status (thread_frames (M g) t) s))"

definition group_of :: "thread_groups \<Rightarrow> string \<Rightarrow> thread_group" where
  "group_of groups k = (case map_get groups k of
     None \<Rightarrow> \<lparr>tg_names = [], tg_frames = [], tg_status = ''''\<rparr> | Some gr \<Rightarrow> gr)"

definition group_threads :: "u8 list \<Rightarrow> Graph \<Rightarrow> (thread_groups \<times> string list) outcome" where
  "group_threads file g =
     bind_ok (for_each (thread_step file g) (Threads (M g)) (map_new, [])) (\<lambda>(groups, order).
     Inr (groups, sort_key (\<lambda>k. - int (length (tg_names (group_of groups k)))) order))"

definition group_text :: "int \<Rightarrow> thread_group \<Rightarrow> string" where
  "group_text maxFrames gr =
     (let names = tg_names gr; frames = tg_frames gr; shown = take (nat maxFrames) frames;
          listed = (if length names > 6 then take 6 names @ [ellipsis @ '' +'' @ fmt_d (int (length names) - 6) @ '' more''] else names)
      in newline @ times_sign @ fmt_d (int (length names)) @ ''  ['' @ tg_status gr @ '']  '' @ Join listed '', '' @ newline @
         concat (map (\<lambda>f. ''        at '' @ f @ newline) shown) @
         (if length shown < length frames
          then ''        '' @ ellipsis @ '' '' @ fmt_d (int64 (int (length frames) - maxFrames)) @ '' more frames'' @ newline else []))"

definition cmdThreads :: "golib \<Rightarrow> u8 list \<Rightarrow> Graph \<Rightarrow> int \<Rightarrow> out \<Rightarrow> out outcome" where
  "cmdThreads L file g maxFrames q =
     bind_ok (group_threads file g) (\<lambda>(groups, order).
     Inr (code (TrimLeft newline_char (concat (map (\<lambda>k. group_text maxFrames (group_of groups k)) order)))
       (heading L 2 (''Threads ('' @ fmt_d (int (length (Threads (M g)))) @ '', grouped by identical stack)'') q)))"

subsection \<open>Instances\<close>

definition field_lines :: "golib \<Rightarrow> u8 list \<Rightarrow> Graph \<Rightarrow> regexp option \<Rightarrow> int \<Rightarrow> string outcome" where
  "field_lines L file g ff i =
     bind_ok (Fields file g i) (\<lambda>fs.
     bind_ok (outcome_map (\<lambda>f. bind_ok (Render L file g f) (\<lambda>v.
         Inr (''    '' @ pad_right 28 (fv_Name f) @ '' '' @ truncate_to v 150 @ newline)))
       (filter (\<lambda>f. case ff of None \<Rightarrow> True | Some re \<Rightarrow> MatchString re (fv_Name f)) fs)) (\<lambda>ls. Inr (concat ls)))"

text \<open>State: the text, the instances shown and the instances that match.\<close>

definition inspect_step :: "golib \<Rightarrow> u8 list \<Rightarrow> Graph \<Rightarrow> regexp \<Rightarrow> regexp option \<Rightarrow> int \<Rightarrow> int \<Rightarrow>
    string \<times> int \<times> int \<Rightarrow> (string \<times> int \<times> int) outcome" where
  "inspect_step L file g re ff limit i = (\<lambda>(b, shown, total).
     bind_ok (aget (Kind g) i) (\<lambda>k.
     if k \<noteq> kindInstance then Inr (b, shown, total)
     else bind_ok (Graph_Name g i) (\<lambda>name.
       if \<not> MatchString re name then Inr (b, shown, total)
       else if shown \<ge> limit then Inr (b, shown, total + 1)
       else bind_ok (Graph_Label g i) (\<lambda>label. bind_ok (field_lines L file g ff i) (\<lambda>ls.
            Inr (b @ newline @ label @ newline @ ls, shown + 1, total + 1))))))"

definition cmdInspect :: "golib \<Rightarrow> u8 list \<Rightarrow> Graph \<Rightarrow> string \<Rightarrow> int \<Rightarrow> string \<Rightarrow> out \<Rightarrow> out outcome" where
  "cmdInspect L file g pattern limit fieldFilter q =
     bind_ok (mustCompile L pattern) (\<lambda>re.
     bind_ok (if fieldFilter = [] then Inr None else bind_ok (mustCompile L fieldFilter) (\<lambda>r. Inr (Some r))) (\<lambda>ff.
     bind_ok (for_each (inspect_step L file g re ff limit) (node_range g) ([], 0, 0)) (\<lambda>(b, shown, total).
     let q' = heading L 2 (''Instances matching '' @ pattern) q;
         b' = (if total > shown then b @ newline @ ellipsis @ '' '' @ fmt_d (total - shown) @
                 '' more instances not shown (raise -limit)'' @ newline else b)
     in if total = 0 then Inr (para ''_no matching instances_'' q')
        else Inr (code (TrimLeft newline_char b') q'))))"

subsection \<open>Paths\<close>

text \<open>The lines of a chain, from the root (the last node of the chain) down to the object.\<close>

definition path_line :: "u8 list \<Rightarrow> Graph \<Rightarrow> int list \<Rightarrow> nat \<Rightarrow> string outcome" where
  "path_line file g chain k =
     (let v = chain ! k
      in bind_ok (if k + 1 < length chain then EdgeLabel file g (chain ! (k + 1)) v
                  else Inr (if in_RootSet g v then '' (GC root)'' else '''')) (\<lambda>label.
         bind_ok (Graph_Label g v) (\<lambda>name.
         Inr (''  '' @ Repeat ''  '' (length chain - 1 - k) @ truncate_to name 96 @ label @ newline))))"

definition path_text :: "u8 list \<Rightarrow> Graph \<Rightarrow> Dom \<Rightarrow> int list \<Rightarrow> int \<Rightarrow> string outcome" where
  "path_text file g d par i =
     bind_ok (path_chain par d i) (\<lambda>chain.
     bind_ok (Graph_Label g i) (\<lambda>name. bind_ok (aget (Retained d) i) (\<lambda>r.
     bind_ok (outcome_map (path_line file g chain) (rev [0..<length chain])) (\<lambda>ls.
     Inr (newline @ name @ ''  (retained '' @ fmt_f 2 (mb r) @ '' MB)'' @ newline @ concat ls)))))"

fun paths_loop :: "u8 list \<Rightarrow> Graph \<Rightarrow> Dom \<Rightarrow> regexp \<Rightarrow> int list \<Rightarrow> int list \<Rightarrow> int \<Rightarrow> (string list) outcome" where
  "paths_loop file g d re par [] room = Inr []"
| "paths_loop file g d re par (i # is) room =
     (if room \<le> 0 then Inr []
      else bind_ok (Graph_Name g i) (\<lambda>name.
           if \<not> MatchString re name then paths_loop file g d re par is room
           else bind_ok (Reachable d i) (\<lambda>ok.
             if \<not> ok then paths_loop file g d re par is room
             else bind_ok (path_text file g d par i) (\<lambda>s.
                  bind_ok (paths_loop file g d re par is (room - 1)) (\<lambda>rest. Inr (s # rest))))))"

definition cmdPaths :: "golib \<Rightarrow> u8 list \<Rightarrow> Graph \<Rightarrow> Dom \<Rightarrow> string \<Rightarrow> int \<Rightarrow> out \<Rightarrow> out outcome" where
  "cmdPaths L file g d pattern limit q =
     bind_ok (mustCompile L pattern) (\<lambda>re.
     bind_ok (bfsFromRoots g d) (\<lambda>par.
     bind_ok (paths_loop file g d re par (node_range g) limit) (\<lambda>shown.
     let q' = heading L 2 (''Paths from GC roots to '' @ pattern) q
     in if shown = [] then Inr (para ''_no reachable matching objects_'' q')
        else Inr (code (TrimLeft newline_char (concat shown)) q'))))"

end
