(* ===== verification/Hprof_Amqp.thy ===== *)
theory Hprof_Amqp
  imports Hprof_Report
begin

text \<open>
  The RabbitMQ analysis (\<open>heapdump/hprofx/cmd_amqp.go\<close>): deliveries are found from the objects that hold an
  envelope, their shape is worked out once per class, and the report shows where they are buffered, their
  sizes, their age and the settings of the consumers.
\<close>

definition envelopeClass :: string where
  "envelopeClass = ''com.rabbitmq.client.Envelope''"

definition class_at :: "Graph \<Rightarrow> int \<Rightarrow> string outcome" where
  "class_at g i = bind_ok (aget (ClassOf g) i) (\<lambda>c. Inr (className (M g) c))"

subsection \<open>Deliveries\<close>

record deliveryShape =
  sh_tag :: string
  sh_envelope :: string
  sh_props :: string
  sh_body :: string
  sh_ok :: bool

definition no_shape :: deliveryShape where
  "no_shape = \<lparr>sh_tag = '''', sh_envelope = '''', sh_props = '''', sh_body = '''', sh_ok = False\<rparr>"

record delivery =
  dl_node :: int
  dl_holder :: string
  dl_tag :: string
  dl_exchange :: string
  dl_routing :: string
  dl_bodyLen :: int
  dl_bodyNode :: int
  dl_stamp :: int

definition shape_step :: "Graph \<Rightarrow> FieldValue \<Rightarrow> deliveryShape \<Rightarrow> deliveryShape outcome" where
  "shape_step g f s =
     (if fv_Type f \<noteq> 2 \<or> fv_Raw f = 0 then Inr s
      else let t = Lookup g (fv_Raw f)
      in if t < 0 then Inr s
      else bind_ok (aget (Kind g) t) (\<lambda>k. bind_ok (aget (ClassOf g) t) (\<lambda>c.
        let name = className (M g) c
        in Inr (if k = kindPrimArray \<and> c = 8
                then if sh_body s = '''' then s\<lparr>sh_body := fv_Name f\<rparr> else s
                else if name = envelopeClass then s\<lparr>sh_envelope := fv_Name f\<rparr>
                else if Contains name ''BasicProperties'' then s\<lparr>sh_props := fv_Name f\<rparr>
                else if name = ''java.lang.String''
                then if sh_tag s = '''' \<or> Contains (ToLower (fv_Name f)) ''tag'' then s\<lparr>sh_tag := fv_Name f\<rparr> else s
                else s))))"

type_synonym shapes = "(u64, deliveryShape) gomap"

definition deliveryShapeOf :: "u8 list \<Rightarrow> Graph \<Rightarrow> int \<Rightarrow> shapes \<Rightarrow> (deliveryShape \<times> shapes) outcome" where
  "deliveryShapeOf file g node cache =
     bind_ok (aget (ClassOf g) node) (\<lambda>cid.
     case map_get cache cid of Some s \<Rightarrow> Inr (s, cache)
     | None \<Rightarrow>
         bind_ok (Fields file g node) (\<lambda>fs.
         bind_ok (for_each (shape_step g) fs no_shape) (\<lambda>s.
         let s' = s\<lparr>sh_ok := sh_body s \<noteq> '''' \<and> sh_envelope s \<noteq> ''''\<rparr>
         in Inr (s', map_set cid s' cache))))"

definition propsTimestamp :: "u8 list \<Rightarrow> Graph \<Rightarrow> int \<Rightarrow> int outcome" where
  "propsTimestamp file g props =
     (if props < 0 then Inr 0
      else bind_ok (Field file g props ''timestamp'') (\<lambda>f. case f of None \<Rightarrow> Inr 0
        | Some f \<Rightarrow>
            if fv_Raw f = 0 then Inr 0
            else let date = Lookup g (fv_Raw f)
            in if date < 0 then Inr 0
            else bind_ok (Field file g date ''fastTime'') (\<lambda>ft. case ft of None \<Rightarrow> Inr 0
              | Some ft \<Rightarrow> Inr (sint (fv_Raw ft)))))"

definition body_field :: "u8 list \<Rightarrow> Graph \<Rightarrow> deliveryShape \<Rightarrow> FieldValue \<Rightarrow> delivery \<Rightarrow> delivery outcome" where
  "body_field file g s f d =
     (if fv_Name f = sh_body s
      then let b = Lookup g (fv_Raw f)
           in if b \<ge> 0 then bind_ok (ArrayLen file g b) (\<lambda>n. Inr (d\<lparr>dl_bodyNode := b, dl_bodyLen := n\<rparr>)) else Inr d
      else if fv_Name f = sh_tag s
      then bind_ok (string_at file g (fv_Raw f)) (\<lambda>v. case v of None \<Rightarrow> Inr d | Some t \<Rightarrow> Inr (d\<lparr>dl_tag := t\<rparr>))
      else if fv_Name f = sh_props s
      then bind_ok (propsTimestamp file g (Lookup g (fv_Raw f))) (\<lambda>t. Inr (d\<lparr>dl_stamp := t\<rparr>))
      else Inr d)"

definition envelope_field :: "u8 list \<Rightarrow> Graph \<Rightarrow> FieldValue \<Rightarrow> delivery \<Rightarrow> delivery outcome" where
  "envelope_field file g f d =
     (if fv_Name f = ''_exchange'' \<or> fv_Name f = ''exchange''
      then bind_ok (string_at file g (fv_Raw f)) (\<lambda>v. case v of None \<Rightarrow> Inr d | Some x \<Rightarrow> Inr (d\<lparr>dl_exchange := x\<rparr>))
      else if fv_Name f = ''_routingKey'' \<or> fv_Name f = ''routingKey''
      then bind_ok (string_at file g (fv_Raw f)) (\<lambda>v. case v of None \<Rightarrow> Inr d | Some x \<Rightarrow> Inr (d\<lparr>dl_routing := x\<rparr>))
      else Inr d)"

definition readDelivery :: "u8 list \<Rightarrow> Graph \<Rightarrow> int \<Rightarrow> int \<Rightarrow> deliveryShape \<Rightarrow> delivery outcome" where
  "readDelivery file g node env s =
     bind_ok (Graph_Name g node) (\<lambda>name.
     bind_ok (Fields file g node) (\<lambda>fs.
     bind_ok (for_each (body_field file g s) fs
       \<lparr>dl_node = node, dl_holder = name, dl_tag = '''', dl_exchange = '''', dl_routing = '''', dl_bodyLen = 0,
        dl_bodyNode = -1, dl_stamp = 0\<rparr>) (\<lambda>d.
     bind_ok (Fields file g env) (\<lambda>es.
     bind_ok (for_each (envelope_field file g) es d) (\<lambda>d'.
     Inr (if dl_tag d' = '''' then d'\<lparr>dl_tag := ''<none>''\<rparr> else d'))))))"

text \<open>State: the holders seen, the shapes known and the deliveries found.\<close>

type_synonym scan = "int set \<times> shapes \<times> delivery list"

definition holder_scan :: "u8 list \<Rightarrow> Graph \<Rightarrow> int \<Rightarrow> int \<Rightarrow> scan \<Rightarrow> scan outcome" where
  "holder_scan file g env holder = (\<lambda>(seen, shapes, ds).
     if holder \<in> seen then Inr (seen, shapes, ds)
     else bind_ok (aget (Kind g) holder) (\<lambda>k.
     if k \<noteq> kindInstance then Inr (seen, shapes, ds)
     else bind_ok (deliveryShapeOf file g holder shapes) (\<lambda>(shape, shapes').
       if \<not> sh_ok shape then Inr (insert holder seen, shapes', ds)
       else bind_ok (readDelivery file g holder env shape) (\<lambda>d. Inr (insert holder seen, shapes', ds @ [d])))))"

definition envelope_scan :: "u8 list \<Rightarrow> Graph \<Rightarrow> int \<Rightarrow> scan \<Rightarrow> scan outcome" where
  "envelope_scan file g env s =
     bind_ok (Referrers g env) (\<lambda>holders. for_each (holder_scan file g env) holders s)"

definition is_instance_of :: "Graph \<Rightarrow> (string \<Rightarrow> bool) \<Rightarrow> int \<Rightarrow> bool outcome" where
  "is_instance_of g P i =
     bind_ok (aget (Kind g) i) (\<lambda>k.
     if k = kindInstance then bind_ok (class_at g i) (\<lambda>c. Inr (P c)) else Inr False)"

definition outcome_filter :: "('a \<Rightarrow> bool outcome) \<Rightarrow> 'a list \<Rightarrow> 'a list outcome" where
  "outcome_filter p xs =
     bind_ok (outcome_map (\<lambda>x. bind_ok (p x) (\<lambda>b. Inr (x, b))) xs) (\<lambda>ys. Inr (map fst (filter snd ys)))"

definition find_envelopes :: "Graph \<Rightarrow> int list outcome" where
  "find_envelopes g = outcome_filter (is_instance_of g (\<lambda>c. c = envelopeClass)) (node_range g)"

definition find_deliveries :: "u8 list \<Rightarrow> Graph \<Rightarrow> int list \<Rightarrow> delivery list outcome" where
  "find_deliveries file g envelopes =
     bind_ok (for_each (envelope_scan file g) envelopes ({}, map_new, [])) (\<lambda>(seen, shapes, ds). Inr ds)"

subsection \<open>Labels\<close>

definition pct :: "int list \<Rightarrow> rat \<Rightarrow> int outcome" where
  "pct xs p =
     (if xs = [] then Inr 0
      else aget xs (f_int64 (f_mul (f_of_int (int (length xs) - 1)) (f_const p))))"

definition bytesLabel :: "int \<Rightarrow> string" where
  "bytesLabel n =
     (if n \<ge> 2 ^ 20 then fmt_f 1 (f_div (f_of_int n) (f_of_int (2 ^ 20))) @ '' MB''
      else if n \<ge> 2 ^ 10 then fmt_f 1 (f_div (f_of_int n) (f_of_int (2 ^ 10))) @ '' KB''
      else fmt_d n @ '' B'')"

text \<open>\<open>Duration.Hours\<close>, \<open>Minutes\<close> and \<open>Seconds\<close>: the whole units plus the rest; division truncates.\<close>

definition dur_units :: "int \<Rightarrow> int \<Rightarrow> float64" where
  "dur_units unit d =
     f_add (f_of_int (sgn d * (\<bar>d\<bar> div unit))) (f_div (f_of_int (sgn d * (\<bar>d\<bar> mod unit))) (f_of_int unit))"

definition durLabel :: "int \<Rightarrow> string" where
  "durLabel ms =
     (if ms \<ge> 2 ^ 61 then infinity_sign
      else let d = int64 (ms * 1000000)
      in if d \<ge> 3600000000000 then fmt_f 1 (dur_units 3600000000000 d) @ '' h''
      else if d \<ge> 60000000000 then fmt_f 0 (dur_units 60000000000 d) @ '' min''
      else fmt_f 0 (dur_units 1000000000 d) @ '' s'')"

definition tallyRows :: "(tallyRow list \<Rightarrow> tallyRow list) \<Rightarrow> tallies \<Rightarrow> int \<Rightarrow> string list list" where
  "tallyRows ord m topN =
     (let rows = sortTally ord m True; shown = take (nat topN) rows
      in map (tally_cells 66) shown @
         (if length shown < length rows
          then [[ellipsis @ '' '' @ fmt_d (int64 (int (length (map_entries m)) - topN)) @ '' more'', [], []]] else []))"

subsection \<open>Age\<close>

definition ageBuckets :: "int list" where
  "ageBuckets = [60000, 5 * 60000, 15 * 60000, 30 * 60000, 60 * 60000, 2 * 3600000, 3 * 3600000, 2 ^ 62]"

definition body_stamp :: "golib \<Rightarrow> u8 list \<Rightarrow> Graph \<Rightarrow> regexp \<Rightarrow> delivery \<Rightarrow> int list \<Rightarrow> int list outcome" where
  "body_stamp L file g re d stamps =
     (if dl_bodyNode d < 0 then Inr stamps
      else bind_ok (PrimBytes file g (dl_bodyNode d) 512) (\<lambda>(b, t).
        let m = FindSubmatch re (case b of None \<Rightarrow> [] | Some bs \<Rightarrow> bytes_string bs)
        in if length m < 2 then Inr stamps
           else case Sscan_int64 L (m ! 1) of
                  None \<Rightarrow> Inr stamps
                | Some ms \<Rightarrow> Inr (if ms > 10 ^ 12 then stamps @ [ms] else stamps)))"

text \<open>The time stamps and where they come from.\<close>

definition backlog_stamps :: "golib \<Rightarrow> u8 list \<Rightarrow> Graph \<Rightarrow> delivery list \<Rightarrow> int list \<Rightarrow> string \<Rightarrow> (int list \<times> string) outcome" where
  "backlog_stamps L file g deliveries stamps ageRegex =
     (if stamps = [] \<and> ageRegex \<noteq> []
      then bind_ok (mustCompile L ageRegex) (\<lambda>re.
           if NumSubexp re < 1 then Inl AgePatternWithoutGroup
           else bind_ok (for_each (body_stamp L file g re) deliveries stamps) (\<lambda>ss.
                Inr (ss, ''body regex '' @ ageRegex)))
      else Inr (stamps, ''BasicProperties.timestamp''))"

definition backlog_ages :: "int \<Rightarrow> int list \<Rightarrow> int list" where
  "backlog_ages dumpTime stamps = sort (filter (\<lambda>a. a \<ge> 0) (map (\<lambda>s. int64 (dumpTime - s)) stamps))"

definition bucket_count :: "int list \<Rightarrow> int \<Rightarrow> int \<Rightarrow> nat" where
  "bucket_count ages prev b = length (filter (\<lambda>a. a > prev \<and> a \<le> b) ages)"

fun bucket_counts :: "int list \<Rightarrow> int \<Rightarrow> int list \<Rightarrow> nat list" where
  "bucket_counts ages prev [] = []"
| "bucket_counts ages prev (b # bs) = bucket_count ages prev b # bucket_counts ages b bs"

fun bucket_labels :: "int \<Rightarrow> int list \<Rightarrow> string list" where
  "bucket_labels prev [] = []"
| "bucket_labels prev (b # bs) =
     (if b = 2 ^ 62 then ''older than '' @ durLabel prev else durLabel prev @ '' '' @ en_dash @ '' '' @ durLabel b)
     # bucket_labels b bs"

definition age_rows :: "int list \<Rightarrow> string list list" where
  "age_rows ages =
     map (\<lambda>(label, n). [label, fmt_d (int n)]) (zip (bucket_labels 0 ageBuckets) (bucket_counts ages 0 ageBuckets))"

definition age_hint :: "string \<Rightarrow> string" where
  "age_hint ageRegex =
     ''Producers did not set BasicProperties.timestamp.'' @
     (if ageRegex = []
      then '' If your payloads embed a millisecond timestamp, pass `-age` with a regex whose first capture group is that value, e.g. `-age '' @
           [CHR 0x27, CHR 0x22] @ ''ts'' @ [CHR 0x22] @ '':('' @ [CHR 0x5C] @ ''d{13})'' @ [CHR 0x27] @ ''`.''
      else [])"

definition pct_cells :: "(int \<Rightarrow> string) \<Rightarrow> int list \<Rightarrow> rat list \<Rightarrow> string list outcome" where
  "pct_cells txt xs ps = outcome_map (\<lambda>p. bind_ok (pct xs p) (\<lambda>v. Inr (txt v))) ps"

definition age_report :: "Graph \<Rightarrow> delivery list \<Rightarrow> string \<Rightarrow> int list \<Rightarrow> out \<Rightarrow> out outcome" where
  "age_report g deliveries source ages q =
     bind_ok (pct_cells durLabel ages [1 / 100, 25 / 100, 50 / 100, 75 / 100, 99 / 100]) (\<lambda>cells.
     bind_ok (table [''p1'', ''p25'', ''p50'', ''p75'', ''p99'', ''oldest''] ''rrrrrr'' [cells @ [durLabel (last ages)]]
       (para (''Age at dump time, from '' @ source @ '' ('' @ fmt_d (int (length ages)) @ '' of '' @
              fmt_d (int (length deliveries)) @ '' deliveries carried one).'') q)) (\<lambda>q1.
     bind_ok (table [''Age bucket'', ''Messages''] ''lr'' (age_rows ages) q1) (\<lambda>q2.
     Inr (if ages ! 0 > 5 * 60000
          then para (''**Nothing newer than '' @ durLabel (ages ! 0) @ ''.** The backlog stopped growing before the dump '' @ em_dash @
                 '' intake had already halted, which points at the JVM stalling (GC death spiral) rather than at consumers merely running behind.'') q2
          else q2))))"

definition reportBacklogAge :: "golib \<Rightarrow> u8 list \<Rightarrow> Graph \<Rightarrow> delivery list \<Rightarrow> int list \<Rightarrow> string \<Rightarrow> out \<Rightarrow> out outcome" where
  "reportBacklogAge L file g deliveries stamps ageRegex q =
     bind_ok (backlog_stamps L file g deliveries stamps ageRegex) (\<lambda>(ss, source).
     let q' = heading L 3 ''Backlog age'' q; ages = backlog_ages (sint (Timestamp (M g))) ss
     in if ss = [] then Inr (para (''_no timestamps available '' @ em_dash @ '' '' @ age_hint ageRegex @ ''_'') q')
        else if ages = [] then Inr (para (''_timestamps found but all postdate the dump '' @ em_dash @ '' ignoring_'') q')
        else age_report g deliveries source ages q')"

subsection \<open>Consumers\<close>

record consumer =
  cs_queues :: string
  cs_ack :: string
  cs_prefetch :: int
  cs_buffered :: int

definition raw_int32 :: "u64 \<Rightarrow> int" where
  "raw_int32 raw = sint (ucast raw :: u32)"

definition queue_names :: "u8 list \<Rightarrow> Graph \<Rightarrow> u64 \<Rightarrow> string list outcome" where
  "queue_names file g raw =
     (let a = Lookup g raw
      in if a \<ge> 0
         then bind_ok (ArrayElems file g a 16) (\<lambda>es. bind_ok (outcome_map (string_at file g) es) (\<lambda>ns.
              Inr (map the (filter (\<lambda>n. n \<noteq> None) ns))))
         else Inr [])"

definition queue_length :: "u8 list \<Rightarrow> Graph \<Rightarrow> u64 \<Rightarrow> int option outcome" where
  "queue_length file g raw =
     (let q = Lookup g raw
      in if q < 0 then Inr None
         else bind_ok (Field file g q ''count'') (\<lambda>c. case c of None \<Rightarrow> Inr None
           | Some cf \<Rightarrow>
               let ai = Lookup g (fv_Raw cf)
               in if ai < 0 then Inr None
                  else bind_ok (Field file g ai ''value'') (\<lambda>v. Inr (map_option (\<lambda>f. raw_int32 (fv_Raw f)) v))))"

definition consumer_field :: "golib \<Rightarrow> u8 list \<Rightarrow> Graph \<Rightarrow> FieldValue \<Rightarrow> consumer \<Rightarrow> consumer outcome" where
  "consumer_field L file g f r =
     (if fv_Name f = ''queues''
      then bind_ok (queue_names file g (fv_Raw f)) (\<lambda>names. Inr (r\<lparr>cs_queues := Join names '',''\<rparr>))
      else if fv_Name f = ''prefetchCount'' then Inr (r\<lparr>cs_prefetch := raw_int32 (fv_Raw f)\<rparr>)
      else if fv_Name f = ''acknowledgeMode''
      then bind_ok (RenderRef L file g (render_depth g) (fv_Raw f)) (\<lambda>s. Inr (r\<lparr>cs_ack := s\<rparr>))
      else if fv_Name f = ''queue''
      then bind_ok (queue_length file g (fv_Raw f)) (\<lambda>n. case n of None \<Rightarrow> Inr r | Some k \<Rightarrow> Inr (r\<lparr>cs_buffered := k\<rparr>))
      else Inr r)"

definition read_consumer :: "golib \<Rightarrow> u8 list \<Rightarrow> Graph \<Rightarrow> int \<Rightarrow> consumer outcome" where
  "read_consumer L file g i =
     bind_ok (Fields file g i) (\<lambda>fs.
     for_each (consumer_field L file g) fs \<lparr>cs_queues = [], cs_ack = [], cs_prefetch = 0, cs_buffered = 0\<rparr>)"

definition find_consumers :: "golib \<Rightarrow> u8 list \<Rightarrow> Graph \<Rightarrow> consumer list outcome" where
  "find_consumers L file g =
     bind_ok (outcome_filter (is_instance_of g (suffix ''BlockingQueueConsumer'')) (node_range g))
       (outcome_map (read_consumer L file g))"

type_synonym consumer_id = "string \<times> string \<times> int"
type_synonym consumer_groups = "(consumer_id, int \<times> int) gomap"

definition consumer_key :: "consumer \<Rightarrow> consumer_id" where
  "consumer_key r = (cs_queues r, cs_ack r, cs_prefetch r)"

definition consumer_add :: "consumer \<Rightarrow> consumer_groups \<times> consumer_id list \<Rightarrow> consumer_groups \<times> consumer_id list" where
  "consumer_add r = (\<lambda>(grouped, order).
     let k = consumer_key r
     in case map_get grouped k of
          None \<Rightarrow> (map_set k (1, cs_buffered r) grouped, order @ [k])
        | Some (n, b) \<Rightarrow> (map_set k (int32 (n + 1), int32 (b + cs_buffered r)) grouped, order))"

definition group_val :: "consumer_groups \<Rightarrow> consumer_id \<Rightarrow> int \<times> int" where
  "group_val grouped k = (case map_get grouped k of None \<Rightarrow> (0, 0) | Some v \<Rightarrow> v)"

definition group_consumers :: "(consumer_id list \<Rightarrow> consumer_id list) \<Rightarrow> consumer list \<Rightarrow> consumer_groups \<times> consumer_id list" where
  "group_consumers ord rows =
     (let (grouped, order) = fold consumer_add rows (map_new, [])
      in (grouped, sort_key (\<lambda>k. - fst (group_val grouped k)) (ord order)))"

definition consumer_cells :: "consumer_groups \<Rightarrow> consumer_id \<Rightarrow> string list" where
  "consumer_cells grouped k =
     (case (k, group_val grouped k) of ((queues, ack, prefetch), (n, buffered)) \<Rightarrow>
        [truncate_to queues 52, fmt_d n, fmt_d prefetch, if ack = ''NONE'' then ''NONE  '' @ warning_sign else ack, fmt_d buffered])"

definition no_ack_note :: string where
  "no_ack_note = ''**'' @ warning_sign @ '' `ackMode=NONE` (no-ack): RabbitMQ does not apply QoS to no-ack consumers, so the configured prefetch is ignored and the broker pushes without limit.** The client's ConsumerWorkService queue is unbounded, so the backlog accumulates in the JVM heap until it is exhausted. Switching to `AUTO` restores flow control.''"

definition reportConsumers :: "golib \<Rightarrow> orders \<Rightarrow> u8 list \<Rightarrow> Graph \<Rightarrow> out \<Rightarrow> out outcome" where
  "reportConsumers L R file g q =
     bind_ok (find_consumers L file g) (\<lambda>rows.
     if rows = [] then Inr q
     else let (grouped, order) = group_consumers (key_order R) rows
     in bind_ok (table [''Queue(s)'', ''Consumers'', ''prefetch'', ''ackMode'', ''Buffered in Spring''] ''lrrlr''
          (map (consumer_cells grouped) order) (heading L 3 ''Spring AMQP consumers'' q)) (\<lambda>q'.
        Inr (if list_ex (\<lambda>(queues, ack, prefetch). ack = ''NONE'') order then para no_ack_note q' else q')))"

subsection \<open>Samples\<close>

definition sample_text :: "u8 list \<Rightarrow> Graph \<Rightarrow> delivery \<Rightarrow> string outcome" where
  "sample_text file g d =
     bind_ok (PrimBytes file g (dl_bodyNode d) 700) (\<lambda>(b, t).
     Inr (newline @ ''['' @ fmt_d (dl_bodyLen d) @ '' bytes] '' @ dl_exchange d @ '' / '' @ dl_routing d @ newline @
          truncate_to (case b of None \<Rightarrow> [] | Some bs \<Rightarrow> bytes_string bs) 600 @ newline))"

text \<open>Every \<open>Suc k\<close>-th delivery, at most \<open>room\<close> of them.\<close>

function sample_walk :: "nat \<Rightarrow> delivery list \<Rightarrow> nat \<Rightarrow> delivery list" where
  "sample_walk k [] room = []"
| "sample_walk k (d # ds) 0 = []"
| "sample_walk k (d # ds) (Suc room) =
     (if dl_bodyNode d < 0 then sample_walk k (drop k ds) (Suc room) else d # sample_walk k (drop k ds) room)"
  by pat_completeness auto
termination
  by (relation "measure (\<lambda>(k, ds, room). length ds)") auto

definition sample_deliveries :: "delivery list \<Rightarrow> int \<Rightarrow> delivery list" where
  "sample_deliveries ds samples =
     (let step = (if length ds div nat samples < 1 then 1 else length ds div nat samples)
      in sample_walk (step - 1) ds (nat samples))"

definition reportSamples :: "golib \<Rightarrow> u8 list \<Rightarrow> Graph \<Rightarrow> delivery list \<Rightarrow> int \<Rightarrow> out \<Rightarrow> out outcome" where
  "reportSamples L file g ds samples q =
     (if samples \<le> 0 then Inr q
      else bind_ok (outcome_map (sample_text file g) (sample_deliveries ds samples)) (\<lambda>ts.
           Inr (code (TrimLeft newline_char (concat ts)) (heading L 3 ''Sample message bodies'' q))))"

subsection \<open>The report\<close>

definition delivery_totals :: "delivery list \<Rightarrow> int \<times> tallies \<times> tallies \<times> tallies" where
  "delivery_totals ds =
     fold (\<lambda>d (bytes, byRoute, byTag, byHolder).
       (int64 (bytes + dl_bodyLen d), add_tally byRoute (dl_exchange d @ '' / '' @ dl_routing d) (dl_bodyLen d),
        add_tally byTag (dl_tag d) (dl_bodyLen d), add_tally byHolder (dl_holder d) (dl_bodyLen d))) ds
       (0, map_new, map_new, map_new)"

definition size_cells :: "int list \<Rightarrow> string list outcome" where
  "size_cells sizes =
     bind_ok (pct_cells bytesLabel sizes [50 / 100, 90 / 100, 99 / 100]) (\<lambda>cells.
     Inr (bytesLabel (sizes ! 0) # cells @ [bytesLabel (last sizes)]))"

definition delivery_report :: "golib \<Rightarrow> orders \<Rightarrow> delivery list \<Rightarrow> int \<Rightarrow> out \<Rightarrow> out outcome" where
  "delivery_report L R ds topN q =
     (let (bytes, byRoute, byTag, byHolder) = delivery_totals ds; n = int (length ds)
      in bind_ok (table [''Holder'', ''MB'', ''Messages''] ''lrr'' (tallyRows (tally_order R 5) byHolder topN)
           (heading L 3 ''Where the deliveries are buffered''
           (para (''**'' @ fmt_d n @ '' buffered deliveries holding '' @ fmt_f 2 (mb bytes) @ '' MB of message bodies** (mean '' @
                  fmt_f 1 (f_div (f_div (f_of_int bytes) (f_of_int n)) (f_of_int 1024)) @ '' KB).'') q))) (\<lambda>q1.
         bind_ok (table [''exchange / routingKey'', ''MB'', ''Messages''] ''lrr'' (tallyRows (tally_order R 6) byRoute topN)
           (heading L 3 ''By exchange / routing key'' q1)) (\<lambda>q2.
         bind_ok (table [''consumerTag'', ''MB'', ''Messages''] ''lrr'' (tallyRows (tally_order R 7) byTag topN)
           (heading L 3 ''By consumer tag'' q2)) (\<lambda>q3.
         bind_ok (size_cells (sort (map dl_bodyLen ds))) (\<lambda>cells.
         table [''min'', ''p50'', ''p90'', ''p99'', ''max''] ''rrrrr'' [cells] (heading L 3 ''Message body size'' q3))))))"

definition cmdAMQP :: "golib \<Rightarrow> orders \<Rightarrow> u8 list \<Rightarrow> Graph \<Rightarrow> int \<Rightarrow> int \<Rightarrow> string \<Rightarrow> out \<Rightarrow> out outcome" where
  "cmdAMQP L R file g topN samples ageRegex q =
     bind_ok (find_envelopes g) (\<lambda>envelopes.
     let q0 = heading L 2 ''AMQP delivery backlog'' q
     in if envelopes = []
        then Inr (para (''_no com.rabbitmq.client.Envelope instances '' @ em_dash @ '' this dump has no buffered AMQP deliveries_'') q0)
        else bind_ok (find_deliveries file g envelopes) (\<lambda>ds.
          if ds = []
          then Inr (para (''_envelopes present but no object holds one together with a body '' @ em_dash @ '' nothing to report_'') q0)
          else bind_ok (delivery_report L R ds topN q0) (\<lambda>q1.
               bind_ok (reportBacklogAge L file g ds (filter (\<lambda>s. s > 0) (map dl_stamp ds)) ageRegex q1) (\<lambda>q2.
               bind_ok (reportConsumers L R file g q2) (reportSamples L file g ds samples)))))"

end
