(* ===== verification/Hprof_Main.thy ===== *)
theory Hprof_Main
  imports Hprof_Amqp
begin

text \<open>
  The command line of the heap-dump analyzer (\<open>heapdump/hprofx/main.go\<close>): the dispatch on the command, the
  passes that each command needs, and the report that runs every analysis.

  The parsing of flags by package \<open>flag\<close> and the clock are arguments. Files are a map from paths to bytes.
  Progress messages on standard error are left out.
\<close>

subsection \<open>Helpers\<close>

fun outcome_ex :: "('a \<Rightarrow> bool outcome) \<Rightarrow> 'a list \<Rightarrow> bool outcome" where
  "outcome_ex p [] = Inr False"
| "outcome_ex p (x # xs) = bind_ok (p x) (\<lambda>b. if b then Inr True else outcome_ex p xs)"

definition hasClass :: "Graph \<Rightarrow> string \<Rightarrow> bool outcome" where
  "hasClass g name = outcome_ex (is_instance_of g (\<lambda>c. c = name)) (node_range g)"

definition regexp_special :: "nat \<Rightarrow> bool" where
  "regexp_special r \<longleftrightarrow> r \<in> set (bytes_of (CHR 0x5C # ''.+*?()|[]{}^$''))"

definition regexpEscape :: "string \<Rightarrow> string" where
  "regexpEscape s =
     concat (map (\<lambda>r. (if regexp_special r then [CHR 0x5C] else []) @ utf8_string [r]) (runes (bytes_of s)))"

subsection \<open>The full report\<close>

definition biggest_class :: "orders \<Rightarrow> Graph \<Rightarrow> (string \<times> int) outcome" where
  "biggest_class R g =
     bind_ok (histo_stats g) (\<lambda>(stats, tot).
     Inr (case sortTally (tally_order R 4) stats True of [] \<Rightarrow> ([], 0) | (key, t) # rows \<Rightarrow> (key, tl_Bytes t)))"

definition holders_of_biggest :: "golib \<Rightarrow> orders \<Rightarrow> Graph \<Rightarrow> int \<Rightarrow> out \<Rightarrow> out outcome" where
  "holders_of_biggest L R g topN q =
     bind_ok (biggest_class R g) (\<lambda>(biggest, bytes).
     if biggest = [] then Inr q
     else cmdHolders L R g (''^'' @ regexpEscape biggest @ ''$'') topN
            (para (''`'' @ biggest @ ''` is the largest type at '' @ fmt_f 2 (mb bytes) @
                   '' MB, so the next section attributes it to its holders.'') q))"

definition method_notes :: string where
  "method_notes = ''Shallow sizes, instance counts, holder attribution and thread stacks are exact per-object statistics. Retained sizes come from a Lengauer-Tarjan dominator tree over the full reference graph rooted at a virtual node joined to every GC root; they are exact for the graph as recorded, but a dump only records strong references, so objects kept alive solely through soft/weak/phantom references appear reachable here.''"

definition buildReport :: "golib \<Rightarrow> orders \<Rightarrow> string \<Rightarrow> u8 list \<Rightarrow> Graph \<Rightarrow> Dom \<Rightarrow> int \<Rightarrow> int \<Rightarrow> int \<Rightarrow> string \<Rightarrow> out \<Rightarrow> out outcome" where
  "buildReport L R now file g d topN frames samples ageRe q =
     (let q0 = para ''Read this top to bottom: what is big, who is holding it, why it is still reachable, and what the threads were doing when the dump was taken.''
            (para (''Generated by hprofx on '' @ now @ ''.'')
            (printf (''# Heap dump analysis '' @ em_dash @ '' '' @ Path (M g) @ newline @ newline) q))
      in bind_ok (cmdSummary L g q0) (\<lambda>q1.
         bind_ok (cmdHisto L R g topN False q1) (\<lambda>q2.
         bind_ok (cmdHisto L R g topN True q2) (\<lambda>q3.
         bind_ok (holders_of_biggest L R g topN q3) (\<lambda>q4.
         bind_ok (cmdRetained L R g d topN (f_of_int 1) q4) (\<lambda>q5.
         bind_ok (hasClass g envelopeClass) (\<lambda>amqp.
         bind_ok (if amqp then cmdAMQP L R file g topN samples ageRe q5 else Inr q5) (\<lambda>q6.
         bind_ok (cmdThreads L file g frames q6) (\<lambda>q7.
         Inr (para method_notes (heading L 2 ''Method notes'' q7)))))))))))"

subsection \<open>The program\<close>

definition usage :: string where
  "usage = concat (map (\<lambda>l. l @ newline)
    [''hprofx '' @ em_dash @ '' Java heap dump analyzer'',
     [],
     ''usage: hprofx <dump.hprof> <command> [flags]'',
     [],
     ''commands:'',
     ''  summary                 header, object counts, GC roots'',
     ''  histo                   class histogram        [-top N] [-by count|shallow]'',
     ''  holders                 who references a type  [-class REGEX] [-top N]'',
     ''  retained                dominator tree, retained sizes, top consumers'',
     ''                                                 [-top N] [-min MB]'',
     ''  threads                 reconstructed thread dump, grouped by stack'',
     ''                                                 [-frames N]'',
     ''  amqp                    RabbitMQ backlog: routing keys, consumers, ages,'',
     ''                          ack modes             [-top N] [-samples N] [-age REGEX]'',
     ''  inspect                 dump instance fields   -class REGEX [-limit N] [-field REGEX]'',
     ''  paths                   shortest path from a GC root'',
     ''                                                 -class REGEX [-limit N]'',
     ''  report                  run the full analysis into a markdown file  [-o FILE]'',
     [],
     ''global flags:'',
     ''  -q                      quiet (suppress progress on stderr)'',
     [],
     ''examples:'',
     ''  hprofx heap.hprof report -o analysis.md'',
     ''  hprofx heap.hprof holders -class '' @ [CHR 0x27] @ ''byte'' @ [CHR 0x5C] @ ''['' @ [CHR 0x5C] @ '']'' @ [CHR 0x27],
     ''  hprofx heap.hprof paths -class '' @ [CHR 0x27] @ ''com'' @ [CHR 0x5C] @ ''.example'' @ [CHR 0x5C] @ ''.CacheEntry'' @ [CHR 0x27] @ '' -limit 3'',
     ''  hprofx heap.hprof inspect -class '' @ [CHR 0x27] @ ''BlockingQueueConsumer'' @ [CHR 0x27] @ '' -field '' @ [CHR 0x27] @ ''prefetch|ackMode|queues'' @ [CHR 0x27],
     ''  hprofx heap.hprof amqp -age '' @ [CHR 0x27] @ [CHR 0x22] @ ''traceId'' @ [CHR 0x22] @ '':'' @ [CHR 0x22] @ ''('' @ [CHR 0x5C] @ ''d{13})'' @ [CHR 0x27]])"

record flags =
  fl_top :: int
  fl_by :: string
  fl_class :: string
  fl_limit :: int
  fl_field :: string
  fl_frames :: int
  fl_min :: float64
  fl_samples :: int
  fl_age :: string
  fl_o :: string
  fl_q :: bool

definition default_flags :: flags where
  "default_flags = \<lparr>fl_top = 40, fl_by = ''shallow'', fl_class = [], fl_limit = 10, fl_field = [], fl_frames = 18,
     fl_min = f_of_int 1, fl_samples = 3, fl_age = [], fl_o = [], fl_q = False\<rparr>"

datatype ending =
    Printed string
  | ReportWritten string string      \<comment> \<open>file name and text\<close>
  | UsageShown string                \<comment> \<open>on standard error, exit status 2\<close>
  | FlagError                        \<comment> \<open>package \<open>flag\<close> has ended the process\<close>
  | Crashed failure

definition needs_edges :: "string \<Rightarrow> bool" where
  "needs_edges cmd \<longleftrightarrow> cmd \<in> set [''holders'', ''retained'', ''paths'', ''amqp'', ''report'']"

definition needs_dom :: "string \<Rightarrow> bool" where
  "needs_dom cmd \<longleftrightarrow> cmd \<in> set [''retained'', ''paths'', ''report'']"

definition load_graph :: "string \<Rightarrow> u8 list option \<Rightarrow> string \<Rightarrow> (Graph \<times> Dom) outcome" where
  "load_graph path file cmd =
     bind_ok (LoadMeta path file) (\<lambda>m.
     bind_ok (dumpTimestamp file) (\<lambda>ts.
     bind_ok (BuildGraph (m\<lparr>Timestamp := ts\<rparr>) file (needs_edges cmd)) (\<lambda>g.
     if needs_dom cmd then bind_ok (Dominators g) (\<lambda>(d, g'). Inr (g', d)) else Inr (g, new_dom 0))))"

text \<open>The switch on the command; \<open>None\<close> for an unknown one. Only the commands that computed it read \<open>d\<close>.\<close>

definition run_command :: "golib \<Rightarrow> orders \<Rightarrow> string \<Rightarrow> u8 list \<Rightarrow> Graph \<Rightarrow> Dom \<Rightarrow> string \<Rightarrow> flags \<Rightarrow> out \<Rightarrow> out outcome option" where
  "run_command L R now file g d cmd fl q =
     (if cmd = ''summary'' then Some (cmdSummary L g q)
      else if cmd = ''histo'' then Some (cmdHisto L R g (fl_top fl) (fl_by fl = ''count'') q)
      else if cmd = ''holders''
      then Some (cmdHolders L R g (if fl_class fl = [] then ''^byte'' @ [CHR 0x5C] @ ''['' @ [CHR 0x5C] @ '']$'' else fl_class fl) (fl_top fl) q)
      else if cmd = ''retained'' then Some (cmdRetained L R g d (fl_top fl) (fl_min fl) q)
      else if cmd = ''threads'' then Some (cmdThreads L file g (fl_frames fl) q)
      else if cmd = ''amqp'' then Some (cmdAMQP L R file g (fl_top fl) (fl_samples fl) (fl_age fl) q)
      else if cmd = ''inspect''
      then Some (if fl_class fl = [] then Inl (NeedsClass cmd) else cmdInspect L file g (fl_class fl) (fl_limit fl) (fl_field fl) q)
      else if cmd = ''paths''
      then Some (if fl_class fl = [] then Inl (NeedsClass cmd) else cmdPaths L file g d (fl_class fl) (fl_limit fl) q)
      else if cmd = ''report''
      then Some (buildReport L R now file g d (fl_top fl) (fl_frames fl) (fl_samples fl) (fl_age fl) q)
      else None)"

definition report_name :: "string \<Rightarrow> string \<Rightarrow> string" where
  "report_name path outFile = (if outFile = [] then TrimSuffix path ''.hprof'' @ ''-report.md'' else outFile)"

definition analyse :: "golib \<Rightarrow> orders \<Rightarrow> string \<Rightarrow> (string \<Rightarrow> bool) \<Rightarrow> string \<Rightarrow> u8 list option \<Rightarrow> string \<Rightarrow> flags \<Rightarrow> ending" where
  "analyse L R now writable path file cmd fl =
     (case load_graph path file cmd of Inl e \<Rightarrow> Crashed e
      | Inr (g, d) \<Rightarrow>
          (case run_command L R now (the file) g d cmd fl (newOut (cmd = ''report'')) of
             None \<Rightarrow> UsageShown usage
           | Some (Inl e) \<Rightarrow> Crashed e
           | Some (Inr q) \<Rightarrow>
               if cmd = ''report''
               then let name = report_name path (fl_o fl)
                    in if writable name then ReportWritten name (o_text q) else Crashed (CannotWrite name)
               else Printed (o_text q)))"

definition hprofx_main :: "golib \<Rightarrow> orders \<Rightarrow> string \<Rightarrow> (string \<Rightarrow> bool) \<Rightarrow> (string \<Rightarrow> string list \<Rightarrow> flags option) \<Rightarrow>
    (string \<Rightarrow> u8 list option) \<Rightarrow> string list \<Rightarrow> ending" where
  "hprofx_main L R now writable parse files args =
     (if length args = 2 \<and> (args ! 1 = ''-version'' \<or> args ! 1 = ''version'') then Printed (''hprofx dev'' @ newline)
      else if length args < 3 then UsageShown usage
      else case parse (args ! 2) (drop 3 args) of None \<Rightarrow> FlagError
           | Some fl \<Rightarrow> analyse L R now writable (args ! 1) (files (args ! 1)) (args ! 2) fl)"

end
