(* ===== verification/Hprof_Values.thy ===== *)
theory Hprof_Values
  imports Hprof_Inspect
begin

text \<open>
  What \<open>inspect.go\<close> reads back from a well-formed dump. \<open>object_graph fl xs g\<close> collects what the graph of
  a dump with the objects \<open>xs\<close> promises to the readers; under it, fields, array elements and Java strings
  are exactly the ones that were encoded.
\<close>

subsection \<open>The graph over a file\<close>

definition record_at :: "u8 list \<Rightarrow> int \<Rightarrow> u8 list \<Rightarrow> bool" where
  "record_at fl off b \<longleftrightarrow> (\<exists>a c. fl = a @ b @ c \<and> off = int (length a))"

lemma readAt_record:
  assumes "record_at fl off b" "k + n \<le> length b"
  shows "readAt fl (off + int k) (int n) = Some (take n (drop k b))"
proof -
  obtain a c where fl: "fl = a @ b @ c" and off: "off = int (length a)" using assms(1) by (auto simp: record_at_def)
  have "nat (off + int k) = length a + k" by (simp add: off nat_add_distrib)
  then have "take n (drop (nat (off + int k)) fl) = take n (drop k b)"
    using assms(2) by (simp add: fl)
  then show ?thesis using assms(2) by (simp add: readAt_def off) (simp add: fl)
qed

definition object_graph :: "u8 list \<Rightarrow> subrec list \<Rightarrow> Graph \<Rightarrow> bool" where
  "object_graph fl xs g \<longleftrightarrow>
     IDs g = map obj_id xs \<and> ClassOf g = map obj_class xs \<and> Size g = map (\<lambda>x. int32 (obj_size x)) xs \<and>
     Kind g = map obj_kind xs \<and> length (Offset g) = length xs \<and>
     (\<forall>i < length xs. record_at fl (Offset g ! i) (sub_body (xs ! i))) \<and>
     list_all sub_ok xs \<and> indexed g \<and> distinct (map obj_id xs) \<and> fields_all typed_field (Classes (M g))"

lemma object_graphD:
  assumes "object_graph fl xs g"
  shows "Graph_N g = length xs" "IDs g = map obj_id xs" "ClassOf g = map obj_class xs"
    "Size g = map (\<lambda>x. int32 (obj_size x)) xs" "Kind g = map obj_kind xs" "length (Offset g) = length xs"
    "indexed g" "distinct (IDs g)" "fields_all typed_field (Classes (M g))"
  using assms by (simp_all add: object_graph_def Graph_N_def)

lemma object_graph_at:
  assumes "object_graph fl xs g" "i < length xs"
  shows "record_at fl (Offset g ! i) (sub_body (xs ! i))" "sub_ok (xs ! i)"
    "aget (Kind g) (int i) = Inr (obj_kind (xs ! i))" "aget (ClassOf g) (int i) = Inr (obj_class (xs ! i))"
    "aget (Offset g) (int i) = Inr (Offset g ! i)" "aget (IDs g) (int i) = Inr (obj_id (xs ! i))"
    "aget (Size g) (int i) = Inr (int32 (obj_size (xs ! i)))"
  using assms by (simp_all add: object_graph_def list_all_length)

lemma object_graph_Lookup:
  assumes "object_graph fl xs g" "i < length xs"
  shows "Lookup g (obj_id (xs ! i)) = int i"
  using Lookup_unique [OF object_graphD(7,8) [OF assms(1)], of i] assms object_graphD(1,2) [OF assms(1)] by simp

lemma dump_object_graph:
  assumes "dump_ok hdr rs" "distinct (map obj_id (dump_nodes rs))"
    and g: "IDs g = map obj_id (dump_nodes rs)" "ClassOf g = map obj_class (dump_nodes rs)"
      "Size g = map (\<lambda>x. int32 (obj_size x)) (dump_nodes rs)" "Kind g = map obj_kind (dump_nodes rs)"
      "Offset g = map (\<lambda>(p, x). p + 1) (dump_objects (dump_subs (int (length (enc_header hdr ts))) rs))"
      "indexed g" "meta_inv (M g)"
  shows "object_graph (enc_dump hdr ts rs) (dump_nodes rs) g"
proof -
  let ?q = "int (length (enc_header hdr ts))"
  define ps where "ps = dump_objects (dump_subs ?q rs)"
  have nodes: "dump_nodes rs = map snd ps" unfolding ps_def dump_objects_snd ..
  have at: "record_at (enc_dump hdr ts rs) (p + 1) (sub_body x) \<and> sub_ok x" if "(p, x) \<in> set ps" for p x
  proof -
    have px: "(p, x) \<in> set (dump_subs ?q rs)" using that by (simp add: ps_def dump_objects_def)
    obtain a b where "enc_dump hdr ts rs = a @ enc_sub x @ b" "p = int (length a)" using dump_subs_at [OF px] .
    then have "enc_dump hdr ts rs = (a @ enc_u1 (sub_tag x)) @ sub_body x @ b" "p + 1 = int (length (a @ enc_u1 (sub_tag x)))"
      by (simp_all add: enc_sub_def)
    then have "record_at (enc_dump hdr ts rs) (p + 1) (sub_body x)" unfolding record_at_def by blast
    moreover have "sub_ok x" using dump_subs_ok [OF _ px] assms(1) by (simp add: dump_ok_def)
    ultimately show ?thesis by simp
  qed
  have "record_at (enc_dump hdr ts rs) (Offset g ! i) (sub_body (dump_nodes rs ! i))" if "i < length ps" for i
    using at [of "fst (ps ! i)" "snd (ps ! i)"] that by (simp add: g(5) ps_def [symmetric] nodes case_prod_unfold)
  moreover have "list_all sub_ok (dump_nodes rs)" using at by (auto simp: nodes list_all_iff)
  moreover have "length (Offset g) = length (dump_nodes rs)" by (simp add: g(5) ps_def [symmetric] nodes)
  ultimately show ?thesis using assms by (simp add: object_graph_def nodes meta_inv_def)
qed

text \<open>Both forms of \<open>BuildGraph\<close> give such a graph.\<close>

lemma BuildGraph_object_graph:
  assumes "dump_ok hdr rs" "distinct (map obj_id (dump_nodes rs))" "length (dump_nodes rs) < 2 ^ 31" "dump_ready m rs"
    and "withEdges \<Longrightarrow> length (dump_edges (lay (Classes m)) rs) < 2 ^ 31"
  obtains g where "BuildGraph m (Some (enc_dump hdr ts rs)) withEdges = Inr g"
    "object_graph (enc_dump hdr ts rs) (dump_nodes rs) g" "lay (Classes (M g)) = lay (Classes m)" "className (M g) = className m"
    "withEdges \<Longrightarrow> adjacency g (dump_edges (lay (Classes m)) rs)"
    "withEdges \<Longrightarrow> rooted g (sort (remdups (map (node_at (IDs g)) (filter (\<lambda>r. r \<in> set (IDs g)) (RootIDs m)))))"
proof (cases withEdges)
  case True
  obtain g where g: "BuildGraph m (Some (enc_dump hdr ts rs)) True = Inr g"
      "IDs g = map obj_id (dump_nodes rs)" "ClassOf g = map obj_class (dump_nodes rs)"
      "Size g = map (\<lambda>x. int32 (obj_size x)) (dump_nodes rs)" "Kind g = map obj_kind (dump_nodes rs)"
      "Offset g = map (\<lambda>(p, x). p + 1) (dump_objects (dump_subs (int (length (enc_header hdr ts))) rs))"
      "indexed g" "meta_inv (M g)" "lay (Classes (M g)) = lay (Classes m)" "className (M g) = className m"
      "adjacency g (dump_edges (lay (Classes m)) rs)"
      "rooted g (sort (remdups (map (node_at (IDs g)) (filter (\<lambda>r. r \<in> set (IDs g)) (RootIDs m)))))"
    by (rule BuildGraph_ready [OF assms(1-4) refl, of ts]) (use assms(5) True in auto)
  then show ?thesis using that [of g] dump_object_graph [OF assms(1,2) g(2-8)] True by simp
next
  case False
  obtain g where g: "BuildGraph m (Some (enc_dump hdr ts rs)) False = Inr g"
      "IDs g = map obj_id (dump_nodes rs)" "ClassOf g = map obj_class (dump_nodes rs)"
      "Size g = map (\<lambda>x. int32 (obj_size x)) (dump_nodes rs)" "Kind g = map obj_kind (dump_nodes rs)"
      "Offset g = map (\<lambda>(p, x). p + 1) (dump_objects (dump_subs (int (length (enc_header hdr ts))) rs))"
      "indexed g" "meta_inv (M g)" "lay (Classes (M g)) = lay (Classes m)" "className (M g) = className m"
    by (rule BuildGraph_index [OF assms(1,3,4), of ts]) auto
  then show ?thesis using that [of g] dump_object_graph [OF assms(1,2) g(2-8)] False by simp
qed

subsection \<open>Fields\<close>

text \<open>The fields of a body, read one after the other from its front.\<close>

fun body_fields :: "fieldDesc list \<Rightarrow> u8 list \<Rightarrow> FieldValue list" where
  "body_fields [] body = []"
| "body_fields (f # fs) body =
     (let w = nat (typeSize ! unat (f_typ f))
      in if w > length body then []
         else \<lparr>fv_Name = f_name f, fv_Type = f_typ f, fv_Raw = field_raw (f_typ f) body\<rparr> # body_fields fs (drop w body))"

lemma read_fields_eq:
  "list_all typed_field fs \<Longrightarrow> off \<le> length body \<Longrightarrow>
   read_fields fs body (int (length body)) (int off) = Inr (body_fields fs (drop off body))"
proof (induction fs arbitrary: off)
  case (Cons f fs)
  from Cons.prems obtain w where w: "type_size (f_typ f) = Inr (int w)" "nat (typeSize ! unat (f_typ f)) = w"
    by (auto elim: typed_field_size)
  show ?case
  proof (cases "off + w > length body")
    case True
    then have "w > length (drop off body)" using Cons.prems by simp
    with True w show ?thesis by simp
  next
    case False
    then have "read_fields fs body (int (length body)) (int (off + w)) = Inr (body_fields fs (drop (off + w) body))"
      using Cons by (intro Cons.IH) simp_all
    then have "read_fields fs body (int (length body)) (int off + int w) = Inr (body_fields fs (drop w (drop off body)))"
      by (simp add: add.commute)
    with False w show ?thesis by simp
  qed
qed simp

lemma instance_head:
  fixes oid cid :: u64 and tr :: u32 and body :: "u8 list"
  defines "b \<equiv> sub_body (SInstance oid tr cid body)"
  assumes "length body < 2 ^ 32"
  shows "be_word (take 8 (drop 12 (take 24 b))) = cid" "uint (be_word (take 4 (drop 20 (take 24 b))) :: u32) = int (length body)"
    "drop 24 b = body" "24 + length body = length b"
  using assms(2) by (simp_all add: b_def take_Cons' drop_Cons' take_drop)

lemma Fields_instance:
  assumes G: "object_graph fl xs g" "i < length xs" and x: "xs ! i = SInstance oid tr cid body"
  shows "Fields fl g (int i) = Inr (body_fields (lay (Classes (M g)) cid) body)"
proof -
  note at = object_graph_at [OF G]
  have small: "length body < 2 ^ 32" using at(2) x by simp
  note h = instance_head [OF small, of oid tr cid]
  have "readAt fl (Offset g ! i + int 0) (int 24) = Some (take 24 (drop 0 (sub_body (xs ! i))))"
    by (rule readAt_record [OF at(1)]) (use h(4) x in simp)
  then have r1: "readAt fl (Offset g ! i) 24 = Some (take 24 (sub_body (SInstance oid tr cid body)))" using x by simp
  have "readAt fl (Offset g ! i + int 24) (int (length body)) = Some (take (length body) (drop 24 (sub_body (xs ! i))))"
    by (rule readAt_record [OF at(1)]) (use h(4) x in simp)
  then have r2: "readAt fl (Offset g ! i + 24) (int (length body)) = Some body" using h(3) x by simp
  have typed: "list_all typed_field (lay (Classes (M g)) cid)"
    by (rule fields_all_lay [OF object_graphD(9) [OF G(1)]])
  show ?thesis
  proof (cases "map_get (Classes (M g)) cid")
    case None
    then show ?thesis using at(3,5) r1 r2 h(1,2) x by (simp add: Fields_def Let_def lay_def del: sub_body.simps)
  next
    case (Some ci)
    then have l: "(case ci_layout ci of None \<Rightarrow> [] | Some l \<Rightarrow> l) = lay (Classes (M g)) cid" by (simp add: lay_def)
    show ?thesis
      using at(3,5) r1 r2 h(1,2) x Some read_fields_eq [OF typed, of 0 body]
      by (simp add: Fields_def Let_def l del: sub_body.simps)
  qed
qed

lemma Fields_other:
  "object_graph fl xs g \<Longrightarrow> i < length xs \<Longrightarrow> obj_kind (xs ! i) \<noteq> kindInstance \<Longrightarrow> Fields fl g (int i) = Inr []"
  by (simp add: Fields_def object_graph_at)

text \<open>A body that was written field by field is read back.\<close>

definition enc_slots :: "fieldDesc list \<Rightarrow> u64 list \<Rightarrow> u8 list" where
  "enc_slots fs vs = concat (map (\<lambda>(f, v). enc_value (f_typ f) v) (zip fs vs))"

definition slots_ok :: "fieldDesc list \<Rightarrow> u64 list \<Rightarrow> bool" where
  "slots_ok fs vs \<longleftrightarrow> length vs = length fs \<and> list_all (\<lambda>(f, v). typed_value (f_typ f) v) (zip fs vs)"

lemma field_raw_enc:
  assumes "typed_value t v"
  shows "field_raw t (enc_value t v @ rest) = v"
  using assms be_nat_be_bytes [of "Suc 0" "unat v"] unfolding typed_value_def
  by (elim conjE valid_type_cases)
     (simp_all add: field_raw_def enc_value_def value_fits_def typeSize_def be_word_def be_nat_be_bytes)

lemma length_enc_value [simp]: "length (enc_value t v) = nat (typeSize ! unat t)"
  by (simp add: enc_value_def)

lemma body_fields_enc:
  "slots_ok fs vs \<Longrightarrow> body_fields fs (enc_slots fs vs @ rest) =
   map (\<lambda>(f, v). \<lparr>fv_Name = f_name f, fv_Type = f_typ f, fv_Raw = v\<rparr>) (zip fs vs)"
proof (induction fs arbitrary: vs)
  case (Cons f fs)
  then obtain v ws where vs: "vs = v # ws" by (cases vs) (auto simp: slots_ok_def)
  have "body_fields fs (enc_slots fs ws @ rest) = map (\<lambda>(f, v). \<lparr>fv_Name = f_name f, fv_Type = f_typ f, fv_Raw = v\<rparr>) (zip fs ws)"
    using Cons.prems vs by (intro Cons.IH) (simp add: slots_ok_def)
  moreover have "typed_value (f_typ f) v" using Cons.prems vs by (simp add: slots_ok_def)
  ultimately show ?case by (simp add: vs enc_slots_def field_raw_enc)
qed simp

subsection \<open>Arrays\<close>

lemma take_min_length: "take (min (length xs) n) xs = take n xs"
  by (simp add: min_def)

lemma valid_type_size:
  assumes "valid_type t"
  obtains w where "type_size t = Inr (int w)" "nat (typeSize ! unat t) = w"
  using assms typed_field_size [of "\<lparr>f_name = [], f_typ = t\<rparr>"] by (auto simp: typed_field_def)

lemma array_head:
  fixes oid cid :: u64 and tr :: u32 and es :: "u64 list"
  defines "b \<equiv> sub_body (SObjArray oid tr cid es)"
  assumes "length es < 2 ^ 32"
  shows "uint (be_word (take 4 (drop 12 b)) :: u32) = int (length es)" "drop 24 b = concat (map enc_u8 es)"
    "length b = 24 + length es * 8"
proof -
  have "length (concat (map enc_u8 es)) = length es * 8" by (induction es) simp_all
  then show "length b = 24 + length es * 8" by (simp add: b_def)
qed (use assms(2) in \<open>simp_all add: b_def\<close>)

lemma prim_head:
  fixes oid :: u64 and tr :: u32 and vs :: "u64 list" and t :: u8
  defines "b \<equiv> sub_body (SPrimArray oid tr t vs)"
  assumes "length vs < 2 ^ 32"
  shows "uint (be_word (take 4 (drop 12 b)) :: u32) = int (length vs)" "take 5 (drop 12 b) = enc_u4 (word_of_nat (length vs)) @ [t]"
    "drop 17 b = prim_body t vs" "length b = 17 + length vs * nat (typeSize ! unat t)"
proof -
  have "length (prim_body t vs) = length vs * nat (typeSize ! unat t)"
    unfolding prim_body_def by (induction vs) simp_all
  then show "length b = 17 + length vs * nat (typeSize ! unat t)" by (simp add: b_def)
qed (use assms(2) in \<open>simp_all add: b_def enc_u1_def\<close>)

lemma ArrayLen_ok:
  assumes G: "object_graph fl xs g" "i < length xs"
  shows "xs ! i = SObjArray oid tr cid es \<Longrightarrow> ArrayLen fl g (int i) = Inr (int (length es))"
    and "xs ! i = SPrimArray oid tr t vs \<Longrightarrow> ArrayLen fl g (int i) = Inr (int (length vs))"
proof -
  note at = object_graph_at [OF G]
  have r: "readAt fl (Offset g ! i + 12) 4 = Some (take 4 (drop 12 (sub_body (xs ! i))))" if "16 \<le> length (sub_body (xs ! i))"
    using readAt_record [OF at(1), of 12 4] that by simp
  show "xs ! i = SObjArray oid tr cid es \<Longrightarrow> ArrayLen fl g (int i) = Inr (int (length es))"
    using r at(2,3,5) array_head [of es oid tr cid] by (simp add: ArrayLen_def del: sub_body.simps)
  show "xs ! i = SPrimArray oid tr t vs \<Longrightarrow> ArrayLen fl g (int i) = Inr (int (length vs))"
    using r at(2,3,5) prim_head [of vs oid tr t] by (simp add: ArrayLen_def del: sub_body.simps)
qed

lemma ArrayElems_ok:
  assumes G: "object_graph fl xs g" "i < length xs" and x: "xs ! i = SObjArray oid tr cid es" and most: "0 \<le> most"
  shows "ArrayElems fl g (int i) most = Inr (take (nat most) es)"
proof -
  note at = object_graph_at [OF G]
  have small: "length es < 2 ^ 32" using at(2) x by simp
  note h = array_head [OF small, of oid tr cid]
  define n where "n = min (length es) (nat most)"
  have n: "min (int (length es)) most = int n" using most by (simp add: n_def)
  have "readAt fl (Offset g ! i + int 24) (int (n * 8)) = Some (take (n * 8) (drop 24 (sub_body (xs ! i))))"
    by (rule readAt_record [OF at(1)]) (use h(3) x in \<open>simp add: n_def del: sub_body.simps\<close>)
  then have r: "readAt fl (Offset g ! i + 24) (int n * 8) = Some (take (n * 8) (concat (map enc_u8 es)))"
    using h(2) x by (simp del: sub_body.simps)
  have sp: "concat (map enc_u8 es) = concat (map enc_u8 (take n es)) @ concat (map enc_u8 (drop n es))"
    by (simp flip: concat_append map_append)
  moreover have "length (concat (map enc_u8 ys)) = length ys * 8" for ys by (induction ys) simp_all
  ultimately have "take (n * 8) (concat (map enc_u8 es)) = concat (map enc_u8 (take n es))"
    by (simp add: n_def)
  then have "array_refs n (take (n * 8) (concat (map enc_u8 es))) = take n es"
    using array_refs_enc [of "take n es"] by (simp add: n_def)
  then have "array_refs (nat (int n)) (take (n * 8) (concat (map enc_u8 es))) = take (nat most) es"
    by (simp add: n_def take_min_length)
  then show ?thesis
    using at(3,5) x ArrayLen_ok(1) [OF G x] r by (simp add: ArrayElems_def Let_def n del: sub_body.simps)
qed

lemma PrimBytes_ok:
  assumes G: "object_graph fl xs g" "i < length xs" and x: "xs ! i = SPrimArray oid tr t vs" and most: "0 \<le> most"
  shows "PrimBytes fl g (int i) most = Inr (Some (take (nat most) (prim_body t vs)), t)"
proof -
  note at = object_graph_at [OF G]
  have small: "length vs < 2 ^ 32" and ty: "valid_type t" using at(2) x by simp_all
  note h = prim_head [OF small, of oid tr t]
  obtain w where w: "type_size t = Inr (int w)" "nat (typeSize ! unat t) = w"
    using valid_type_size [OF ty] .
  define n where "n = min (length vs * w) (nat most)"
  have n: "min (int (length vs) * int w) most = int n" using most by (simp add: n_def of_nat_min)
  have r1: "readAt fl (Offset g ! i + 12) 5 = Some (enc_u4 (word_of_nat (length vs)) @ [t])"
    using readAt_record [OF at(1), of 12 5] h(2,4) x by (simp del: sub_body.simps)
  have "readAt fl (Offset g ! i + int 17) (int n) = Some (take n (drop 17 (sub_body (xs ! i))))"
    by (rule readAt_record [OF at(1)]) (use h(4) x w in \<open>simp add: n_def del: sub_body.simps\<close>)
  then have r2: "readAt fl (Offset g ! i + 17) (int n) = Some (take n (prim_body t vs))"
    using h(3) x by (simp del: sub_body.simps)
  have "length (prim_body t vs) = length vs * w" using h(3,4) w by (metis add_diff_cancel_left' length_drop)
  then have "take n (prim_body t vs) = take (nat most) (prim_body t vs)"
    using take_min_length [of "prim_body t vs" "nat most"] by (simp add: n_def)
  then show ?thesis
    using at(3,5) x r1 r2 w small by (simp add: PrimBytes_def Let_def n nth_append del: sub_body.simps)
qed

subsection \<open>Java strings\<close>

text \<open>The array behind a Java string: UTF-16 in a \<open>char[]\<close>, UTF-16 or ASCII bytes in a \<open>byte[]\<close> with a coder.\<close>

definition java_string :: "nat list \<Rightarrow> u64 option \<Rightarrow> u8 \<Rightarrow> u64 list \<Rightarrow> bool" where
  "java_string rs coder t vs \<longleftrightarrow>
     (let us = concat (map utf16_units rs) in
      t = 5 \<and> vs = map of_nat us \<or>
      t = 8 \<and> coder = Some 1 \<and> vs = concat (map (\<lambda>u. [of_nat (u mod 256), of_nat (u div 256)]) us) \<or>
      t = 8 \<and> coder \<noteq> Some 1 \<and> list_all (\<lambda>r. r < 128) rs \<and> vs = map of_nat rs)"

lemma unat_small64: "n < 65536 \<Longrightarrow> unat (word_of_nat n :: u64) = n"
  by (simp add: unat_of_nat take_bit_nat_eq_self)

lemma unat_small8: "n < 256 \<Longrightarrow> unat (word_of_nat n :: u8) = n"
  by (simp add: unat_of_nat take_bit_nat_eq_self)

lemma be_nat_pair: "be_nat [a, b] = unat a * 256 + unat b"
  using be_nat_snoc [of "[a]" b] be_nat_snoc [of "[]" a] by simp

lemma be_bytes_2: "be_bytes 2 n = [word_of_nat (n div 256), word_of_nat n]"
  by (simp add: numeral_2_eq_2)

lemma be_units:
  "list_all (\<lambda>u. u < 65536) us \<Longrightarrow>
   map (\<lambda>(x, y). be_nat [x, y]) (pairs (prim_body 5 (map of_nat us))) = us"
proof (induction us)
  case (Cons u us)
  have "prim_body 5 (map of_nat (u # us)) = word_of_nat (u div 256) # word_of_nat u # prim_body 5 (map of_nat us)"
    using Cons.prems by (simp add: prim_body_def enc_value_def typeSize_def unat_small64 be_bytes_2)
  moreover have "u div 256 < 256" using Cons.prems by auto
  then have "unat (word_of_nat (u div 256) :: u8) * 256 + unat (word_of_nat u :: u8) = u"
    using div_mult_mod_eq [of u 256] by (simp add: unat_of_nat take_bit_eq_mod)
  ultimately show ?case using Cons by (simp add: be_nat_pair)
qed (simp add: prim_body_def)

lemma le_units:
  "list_all (\<lambda>u. u < 65536) us \<Longrightarrow>
   map (\<lambda>(x, y). be_nat [y, x]) (pairs (prim_body 8 (concat (map (\<lambda>u. [of_nat (u mod 256), of_nat (u div 256)]) us)))) = us"
proof (induction us)
  case (Cons u us)
  let ?c = "\<lambda>us. concat (map (\<lambda>u. [of_nat (u mod 256), of_nat (u div 256)]) us)"
  have "u div 256 < 256" "u mod 256 < 256" using Cons.prems by auto
  then have b: "unat (word_of_nat (u mod 256) :: u64) = u mod 256" "unat (word_of_nat (u div 256) :: u64) = u div 256"
    "unat (word_of_nat (u mod 256) :: u8) = u mod 256" "unat (word_of_nat (u div 256) :: u8) = u div 256"
    by (simp_all only: unat_small8) (rule unat_small64, simp)+
  have "prim_body 8 (?c (u # us)) = word_of_nat (u mod 256) # word_of_nat (u div 256) # prim_body 8 (?c us)"
    using b by (simp add: prim_body_def enc_value_def typeSize_def)
  moreover have "u div 256 * 256 + u mod 256 = u" by simp
  ultimately show ?case using Cons b by (simp only: be_nat_pair list.map pairs.simps prod.case list.pred_inject)
qed (simp add: prim_body_def)

lemma ascii_bytes:
  "list_all (\<lambda>r. r < 128) rs \<Longrightarrow> bytes_string (prim_body 8 (map of_nat rs)) = utf8_string rs"
proof (induction rs)
  case (Cons r rs)
  then have "unat (word_of_nat r :: u64) = r" "unat (word_of_nat r :: u8) = r" by (simp_all add: unat_small64 unat_small8)
  moreover have "encodeRune r = [r]" using Cons.prems encode_single [of r] by (simp add: encodeRune_scalar)
  ultimately show ?case using Cons
    by (simp add: prim_body_def enc_value_def typeSize_def bytes_string_def utf8_string_def string_of_def)
qed (simp add: prim_body_def bytes_string_def utf8_string_def string_of_def)

lemma string_text_java:
  assumes "list_all scalar rs" "java_string rs coder t vs"
  shows "string_text coder (prim_body t vs) t = utf8_string rs"
proof -
  let ?us = "concat (map utf16_units rs)"
  have small: "list_all (\<lambda>u. u < 65536) ?us" using assms(1) utf16_units_bound by (auto simp: list_all_iff)
  consider "t = 5" "vs = map of_nat ?us"
    | "t = 8" "coder = Some 1" "vs = concat (map (\<lambda>u. [of_nat (u mod 256), of_nat (u div 256)]) ?us)"
    | "t = 8" "coder \<noteq> Some 1" "list_all (\<lambda>r. r < 128) rs" "vs = map of_nat rs"
    using assms(2) unfolding java_string_def Let_def by blast
  then show ?thesis
  proof cases
    case 1
    then show ?thesis
      using be_units [OF small] utf16_roundtrip [OF assms(1)] by (simp add: string_text_def decodeUTF16_def)
  next
    case 2
    then show ?thesis
      using le_units [OF small] utf16_roundtrip [OF assms(1)] by (simp add: string_text_def decodeUTF16_def)
  next
    case 3
    then show ?thesis using ascii_bytes by (simp add: string_text_def)
  qed
qed

lemma StringOf_ok:
  assumes G: "object_graph fl xs g" and i: "i < length xs" "xs ! i = SInstance oid tr cid body"
    and name: "className (M g) cid = ''java.lang.String''"
    and slots: "string_slots (body_fields (lay (Classes (M g)) cid) body) (0, None) = (aid, coder)"
    and j: "j < length xs" "xs ! j = SPrimArray aid tr' t vs" and short: "length (prim_body t vs) \<le> 2 ^ 20"
    and str: "list_all scalar rs" "java_string rs coder t vs"
  shows "StringOf fl g (int i) = Inr (Some (utf8_string rs))"
proof -
  have L: "Lookup g aid = int j" using object_graph_Lookup [OF G j(1)] j(2) by simp
  have P: "PrimBytes fl g (int j) (2 ^ 20) = Inr (Some (prim_body t vs), t)"
    using PrimBytes_ok [OF G j, of "2 ^ 20"] short by simp
  show ?thesis
    using object_graph_at(3,4) [OF G i(1)] i(2) name Fields_instance [OF G i] slots L P string_text_java [OF str]
    by (simp add: StringOf_def)
qed

subsection \<open>Edge labels\<close>

text \<open>The references that the graph has of an instance are the object fields that \<open>Fields\<close> lists.\<close>

lemma layout_refs_fields:
  "list_all typed_field fs \<Longrightarrow> layout_refs fs body = map fv_Raw (filter (\<lambda>f. fv_Type f = 2) (body_fields fs body))"
proof (induction fs arbitrary: body)
  case (Cons f fs)
  have "nat (typeSize ! 2) = 8" by (simp add: typeSize_def)
  with Cons show ?case by (simp add: Let_def field_raw_def)
qed simp

lemma node_at_ids:
  assumes "object_graph fl xs g" "t \<in> set (map obj_id xs)"
  shows "obj_id (xs ! node_at (map obj_id xs) t) = t" "node_at (map obj_id xs) t < length xs"
proof -
  obtain k where k: "k < length xs" "obj_id (xs ! k) = t" using assms(2) by (auto simp: in_set_conv_nth)
  have "distinct (map obj_id xs)" using assms(1) by (simp add: object_graph_def)
  from node_at_nth [OF this, of k] k show "obj_id (xs ! node_at (map obj_id xs) t) = t" "node_at (map obj_id xs) t < length xs"
    by simp_all
qed

lemma node_edges_refs:
  assumes G: "object_graph fl xs g" and e: "(i, j) \<in> set (node_edges (map obj_id xs) L x)" "x \<in> set xs"
  shows "i < length xs" "j < length xs" "xs ! i = x" "obj_id (xs ! j) \<in> set (obj_refs L x)"
proof -
  obtain k where k: "k < length xs" "xs ! k = x" using e(2) by (auto simp: in_set_conv_nth)
  have d: "distinct (map obj_id xs)" using G by (simp add: object_graph_def)
  have i: "i = k" using e(1) node_at_nth [OF d, of k] k by (auto simp: node_edges_def)
  then show "i < length xs" "xs ! i = x" using k by simp_all
  from e(1) show "j < length xs" "obj_id (xs ! j) \<in> set (obj_refs L x)"
    using node_at_ids [OF G] by (auto simp: node_edges_def)
qed

lemma EdgeLabel_instance:
  assumes G: "object_graph fl xs g" and i: "i < length xs" "xs ! i = SInstance oid tr cid body" and j: "j < length xs"
    and r: "obj_id (xs ! j) \<in> set (layout_refs (lay (Classes (M g)) cid) body)"
  obtains f where "f \<in> set (body_fields (lay (Classes (M g)) cid) body)" "fv_Type f = 2" "fv_Raw f = obj_id (xs ! j)"
    "EdgeLabel fl g (int i) (int j) = Inr (''.'' @ fv_Name f)"
proof -
  let ?fs = "body_fields (lay (Classes (M g)) cid) body" and ?P = "\<lambda>f. fv_Type f = 2 \<and> fv_Raw f = obj_id (xs ! j)"
  have "list_all typed_field (lay (Classes (M g)) cid)" by (rule fields_all_lay [OF object_graphD(9) [OF G]])
  from r [unfolded layout_refs_fields [OF this]] have "\<exists>f \<in> set ?fs. ?P f" by auto
  then have "find ?P ?fs \<noteq> None" by (auto simp: find_None_iff)
  then obtain f where f: "find ?P ?fs = Some f" by auto
  then have "f \<in> set ?fs" "?P f" by (auto simp: find_Some_iff)
  moreover have "EdgeLabel fl g (int i) (int j) = Inr (''.'' @ fv_Name f)"
    using object_graph_at(3) [OF G i(1)] object_graph_at(6) [OF G j] Fields_instance [OF G i] i(2) f
    by (simp add: EdgeLabel_def)
  ultimately show ?thesis using that by blast
qed

lemma EdgeLabel_array:
  assumes G: "object_graph fl xs g" and i: "i < length xs" "xs ! i = SObjArray oid tr cid es" and j: "j < length xs"
    and r: "obj_id (xs ! j) \<in> set es" "length es \<le> 2 ^ 20"
  obtains k where "k < length es" "es ! k = obj_id (xs ! j)" "EdgeLabel fl g (int i) (int j) = Inr (''['' @ fmt_d (int k) @ '']'')"
proof -
  let ?P = "\<lambda>k. es ! k = obj_id (xs ! j)"
  have "\<exists>k \<in> set [0..<length es]. ?P k" using r(1) by (auto simp: in_set_conv_nth)
  then have "find ?P [0..<length es] \<noteq> None" by (auto simp: find_None_iff)
  then obtain k where k: "find ?P [0..<length es] = Some k" by auto
  then have "k < length es" "?P k" by (auto simp: find_Some_iff)
  moreover have "ArrayElems fl g (int i) (2 ^ 20) = Inr es" using ArrayElems_ok [OF G i, of "2 ^ 20"] r(2) by simp
  then have "EdgeLabel fl g (int i) (int j) = Inr (''['' @ fmt_d (int k) @ '']'')"
    using object_graph_at(3) [OF G i(1)] object_graph_at(6) [OF G j] i(2) k by (simp add: EdgeLabel_def)
  ultimately show ?thesis using that by blast
qed

end
