(* ===== verification/Hprof_Calm.thy ===== *)
theory Hprof_Calm
  imports Hprof_Main Hprof_Values
begin

text \<open>
  How an operation of the analyses may fail. \<open>calm L so P r\<close> says that \<open>r\<close> is a value with the property
  \<open>P\<close> or a \<open>benign\<close> failure: a pattern that the library \<open>L\<close> does not compile or that has no group, and when
  the flag \<open>so\<close> is set an exhausted stack. The collection \<open>calm\<close> has one rule for each construct and each
  operation, so that a command is followed by repeated use of \<open>rule calm\<close>. The theory has the rules, the
  access to the objects and the pieces of the rendering.
\<close>

named_theorems calm \<open>an operation returns or fails in a benign way\<close>

fun benign :: "golib \<Rightarrow> bool \<Rightarrow> failure \<Rightarrow> bool" where
  "benign L so (BadPattern p) \<longleftrightarrow> Compile L p = None"
| "benign L so AgePatternWithoutGroup \<longleftrightarrow> (\<exists>p re. Compile L p = Some re \<and> NumSubexp re < 1)"
| "benign L so StackOverflow \<longleftrightarrow> so"
| "benign L so _ \<longleftrightarrow> False"

definition calm :: "golib \<Rightarrow> bool \<Rightarrow> ('a \<Rightarrow> bool) \<Rightarrow> 'a outcome \<Rightarrow> bool" where
  "calm L so P r = (case r of Inl e \<Rightarrow> benign L so e | Inr x \<Rightarrow> P x)"

abbreviation safe :: "golib \<Rightarrow> bool \<Rightarrow> 'a outcome \<Rightarrow> bool" where
  "safe L so r \<equiv> calm L so (\<lambda>_. True) r"

subsection \<open>Rules\<close>

lemma calm_Inr [calm]: "P x \<Longrightarrow> calm L so P (Inr x)"
  by (simp add: calm_def)

lemma calm_Inl: "benign L so e \<Longrightarrow> calm L so P (Inl e)"
  by (simp add: calm_def)

lemma calm_bind [calm]: "calm L so Q r \<Longrightarrow> (\<And>x. Q x \<Longrightarrow> calm L so P (f x)) \<Longrightarrow> calm L so P (bind_ok r f)"
  by (cases r) (simp_all add: calm_def)

lemma calm_mono: "calm L so Q r \<Longrightarrow> (\<And>x. Q x \<Longrightarrow> P x) \<Longrightarrow> calm L so P r"
  by (cases r) (simp_all add: calm_def)

lemma calm_if [calm]: "(b \<Longrightarrow> calm L so P x) \<Longrightarrow> (\<not> b \<Longrightarrow> calm L so P y) \<Longrightarrow> calm L so P (if b then x else y)"
  by simp

lemma calm_option [calm]:
  "(z = None \<Longrightarrow> calm L so P a) \<Longrightarrow> (\<And>y. z = Some y \<Longrightarrow> calm L so P (f y)) \<Longrightarrow> calm L so P (case z of None \<Rightarrow> a | Some y \<Rightarrow> f y)"
  by (cases z) simp_all

lemma calm_prod [calm]: "(\<And>a b. z = (a, b) \<Longrightarrow> calm L so P (f a b)) \<Longrightarrow> calm L so P (case z of (a, b) \<Rightarrow> f a b)"
  by (cases z) simp

lemma calm_let [calm]: "(\<And>x. x = v \<Longrightarrow> calm L so P (f x)) \<Longrightarrow> calm L so P (Let v f)"
  by simp

lemma calm_for_each:
  "I s \<Longrightarrow> (\<And>x s. x \<in> set xs \<Longrightarrow> I s \<Longrightarrow> calm L so I (f x s)) \<Longrightarrow> calm L so I (for_each f xs s)"
proof (induction xs arbitrary: s)
  case (Cons x xs)
  have "calm L so I (f x s)" using Cons.prems by simp
  then show ?case unfolding for_each.simps by (rule calm_bind) (use Cons in simp)
qed (simp add: calm_Inr)

lemma safe_for_each [calm]: "(\<And>x s. x \<in> set xs \<Longrightarrow> safe L so (f x s)) \<Longrightarrow> safe L so (for_each f xs s)"
  by (rule calm_for_each) simp_all

lemma calm_outcome_map:
  "(\<And>x. x \<in> set xs \<Longrightarrow> calm L so Q (f x)) \<Longrightarrow> calm L so (\<lambda>ys. length ys = length xs \<and> list_all Q ys) (outcome_map f xs)"
proof (induction xs)
  case (Cons x xs)
  have "calm L so Q (f x)" using Cons.prems by simp
  moreover have "calm L so (\<lambda>ys. length ys = length xs \<and> list_all Q ys) (outcome_map f xs)" using Cons by simp
  ultimately show ?case unfolding outcome_map.simps by (auto intro!: calm_Inr elim!: calm_bind)
qed (simp add: calm_Inr)

lemma safe_outcome_map [calm]: "(\<And>x. x \<in> set xs \<Longrightarrow> safe L so (f x)) \<Longrightarrow> safe L so (outcome_map f xs)"
  by (rule calm_mono [OF calm_outcome_map]) simp_all

lemma calm_aget [calm]: "0 \<le> i \<Longrightarrow> i < int (length xs) \<Longrightarrow> calm L so (\<lambda>x. x = xs ! nat i) (aget xs i)"
  by (simp add: aget_def calm_Inr)

lemma safe_Inr: "\<exists>x. r = Inr x \<Longrightarrow> safe L so r"
  by (auto simp: calm_def)

subsection \<open>Objects\<close>

abbreviation node :: "Graph \<Rightarrow> int \<Rightarrow> bool" where
  "node g i \<equiv> 0 \<le> i \<and> i < int (Graph_N g)"

lemma node_cases:
  assumes "object_graph fl xs g" "node g i"
  obtains k where "i = int k" "k < length xs"
  using assms object_graphD(1) [OF assms(1)] by (metis nat_int of_nat_less_iff nonneg_int_cases)

lemma object_graph_lengths:
  assumes "object_graph fl xs g"
  shows "length (Kind g) = Graph_N g" "length (ClassOf g) = Graph_N g" "length (Size g) = Graph_N g"
    "length (Offset g) = Graph_N g" "length (IDs g) = Graph_N g"
  using object_graphD [OF assms] by simp_all

lemma Lookup_node: "object_graph fl xs g \<Longrightarrow> Lookup g oid < 0 \<or> node g (Lookup g oid)"
  using Lookup_cases [OF object_graphD(7), of fl xs g oid] by force

lemma Lookup_bound: "object_graph fl xs g \<Longrightarrow> 0 \<le> Lookup g oid \<Longrightarrow> Lookup g oid < int (Graph_N g)"
  using Lookup_node [of fl xs g oid] by linarith

lemma in_node_range: "i \<in> set (node_range g) \<longleftrightarrow> node g i"
  by (auto simp: node_range_def image_iff intro: bexI [of _ "nat i"])

lemma safe_Graph_Name [calm]:
  assumes G: "object_graph fl xs g" and i: "node g i"
  shows "safe L so (Graph_Name g i)"
proof -
  obtain k where k: "i = int k" "k < length xs" using node_cases [OF assms] .
  note at = object_graph_at [OF G k(2)]
  show ?thesis
  proof (cases "xs ! k")
    case (SPrimArray oid tr t vs)
    then have "valid_type t" using at(2) by simp
    then have "uint t < 12" by (cases rule: valid_type_cases) simp_all
    then have "safe L so (aget typeName (uint (ucast t :: u64)))"
      by (intro calm_mono [OF calm_aget]) (simp_all add: typeName_def unsigned_ucast_eq take_bit_int_eq_self)
    then show ?thesis using k at SPrimArray by (simp add: Graph_Name_def) (rule calm_bind, assumption, rule calm_Inr, simp)
  qed (use k at in \<open>simp_all add: Graph_Name_def calm_Inr\<close>)
qed

lemma safe_Fields [calm]:
  assumes G: "object_graph fl xs g" and i: "node g i"
  shows "safe L so (Fields fl g i)"
proof -
  obtain k where k: "i = int k" "k < length xs" using node_cases [OF assms] .
  show ?thesis
  proof (cases "xs ! k")
    case (SInstance oid tr cid body)
    then show ?thesis using Fields_instance [OF G k(2)] k(1) by (simp add: calm_Inr)
  qed (use Fields_other [OF G k(2)] k(1) in \<open>simp_all add: calm_Inr\<close>)
qed

lemma safe_ArrayLen [calm]:
  assumes G: "object_graph fl xs g" and i: "node g i"
  shows "safe L so (ArrayLen fl g i)"
  unfolding ArrayLen_def by (rule calm | simp add: object_graph_lengths [OF G] i)+

lemma safe_ArrayElems [calm]:
  assumes G: "object_graph fl xs g" and i: "node g i"
  shows "safe L so (ArrayElems fl g i most)"
  unfolding ArrayElems_def by (rule calm G i | simp add: object_graph_lengths [OF G] i)+

lemma safe_PrimBytes [calm]:
  assumes G: "object_graph fl xs g" and i: "node g i" and most: "0 \<le> most"
  shows "calm L so (\<lambda>(b, t). t < 12) (PrimBytes fl g i most)"
proof -
  obtain k where k: "i = int k" "k < length xs" using node_cases [OF G i] .
  show ?thesis
  proof (cases "xs ! k")
    case (SPrimArray oid tr t vs)
    then have "valid_type t" using object_graph_at(2) [OF G k(2)] by simp
    then have "t < 12" by (cases rule: valid_type_cases) simp_all
    then show ?thesis using PrimBytes_ok [OF G k(2) SPrimArray most] k(1) by (simp add: calm_Inr)
  qed (use object_graph_at(3) [OF G k(2)] k(1) in \<open>simp_all add: PrimBytes_def calm_Inr\<close>)
qed

subsection \<open>Rendering\<close>

lemma safe_StringOf [calm]:
  assumes G: "object_graph fl xs g" and i: "i < 0 \<or> node g i"
  shows "safe L so (StringOf fl g i)"
proof (cases "i < 0")
  case False
  then have n: "node g i" using i by simp
  show ?thesis unfolding StringOf_def Let_def
    by (rule calm G n | simp add: object_graph_lengths [OF G] n Lookup_bound [OF G])+
qed (simp add: StringOf_def calm_Inr)

lemma safe_string_at [calm]: "object_graph fl xs g \<Longrightarrow> safe L so (string_at fl g oid)"
  unfolding string_at_def by (rule safe_StringOf) (auto dest: Lookup_node)

lemma safe_Field [calm]: "object_graph fl xs g \<Longrightarrow> node g i \<Longrightarrow> safe L so (Field fl g i name)"
  unfolding Field_def by (rule calm | simp)+

lemma safe_enum_name [calm]:
  assumes G: "object_graph fl xs g" and i: "node g i"
  shows "safe L so (enum_name fl g i)"
  unfolding enum_name_def by (rule calm G i | simp add: object_graph_lengths [OF G] i)+

lemma safe_boxed_value [calm]: "object_graph fl xs g \<Longrightarrow> node g i \<Longrightarrow> safe L so (boxed_value fl g i name)"
  unfolding boxed_value_def by (rule calm | simp)+

lemma safe_render_value [calm]: "(\<And>oid. safe L so (ref oid)) \<Longrightarrow> safe L so (render_value L ref f)"
  unfolding render_value_def Let_def by (rule calm | simp)+

lemma safe_renderElem [calm]:
  assumes G: "object_graph fl xs g" and ref: "\<And>oid. safe L so (ref oid)"
  shows "safe L so (renderElem L fl g ref oid)"
proof -
  show ?thesis unfolding renderElem_def Let_def by (rule calm G ref | simp add: Lookup_bound [OF G])+
qed

lemma safe_render_prim_array [calm]:
  assumes G: "object_graph fl xs g" and i: "node g i"
  shows "safe L so (render_prim_array L fl g i)"
proof -
  have tn: "t < 12 \<Longrightarrow> uint t < int (length typeName)" for t :: u8 by (simp add: typeName_def word_less_def)
  show ?thesis unfolding render_prim_array_def Let_def by (rule calm G i | simp add: tn)+
qed

lemma safe_render_obj_array [calm]:
  "object_graph fl xs g \<Longrightarrow> node g i \<Longrightarrow> (\<And>oid. safe L so (ref oid)) \<Longrightarrow> safe L so (render_obj_array L fl g ref oid i name)"
  unfolding render_obj_array_def Let_def by (rule calm | assumption | simp)+

lemma safe_container_size [calm]:
  assumes G: "object_graph fl xs g" and i: "node g i" and ref: "\<And>oid. safe L so (ref oid)"
  shows "safe L so (container_size L fl g ref i name)"
proof -
  show ?thesis unfolding container_size_def Let_def by (rule calm G i ref | simp add: Lookup_bound [OF G])+
qed

text \<open>Whatever the dump is, a reference is rendered or its chain of values exhausts the stack.\<close>

lemma overflow_RenderRef:
  assumes G: "object_graph fl xs g"
  shows "safe L True (RenderRef L fl g depth oid)"
proof (induction depth arbitrary: oid)
  case 0
  show ?case by (simp add: calm_Inl)
next
  case (Suc depth)
  show ?case unfolding RenderRef.simps Let_def
    by (rule calm G Suc.IH | simp add: Lookup_bound [OF G] object_graph_lengths [OF G])+
qed

lemma overflow_Render: "object_graph fl xs g \<Longrightarrow> safe L True (Render L fl g f)"
  unfolding Render_def by (rule calm overflow_RenderRef | assumption)+

end
