(* ===== verification/Hprof_Rendering.thy ===== *)
theory Hprof_Rendering
  imports Hprof_Calm
begin

text \<open>
  How deep \<open>RenderRef\<close> goes. In a dump whose boxed values are primitive and whose container sizes are
  primitive or boxed, which holds for the classes of the JDK, two levels are enough for every
  reference. A boxed object whose value is a reference to the object itself is followed without end.
\<close>

text \<open>The names and values that the classes of the JDK have.\<close>

definition plain_value :: "u8 list \<Rightarrow> Graph \<Rightarrow> int \<Rightarrow> bool" where
  "plain_value file g i \<longleftrightarrow>
     (\<forall>vf. Field file g i ''value'' = Inr (Some vf) \<longrightarrow> fv_Type vf \<noteq> 2)"

definition boxed_object :: "Graph \<Rightarrow> int \<Rightarrow> bool" where
  "boxed_object g i \<longleftrightarrow> (\<exists>name \<in> set boxedField. Graph_Name g i = Inr name)"

definition jdk_values :: "u8 list \<Rightarrow> Graph \<Rightarrow> bool" where
  "jdk_values file g \<longleftrightarrow>
     (\<forall>i. node g i \<and> boxed_object g i \<longrightarrow> plain_value file g i) \<and>
     (\<forall>i name sf f. node g i \<and> Graph_Name g i = Inr name \<and> map_of sizeFields name = Some sf \<and>
        Field file g i sf = Inr (Some f) \<and> fv_Type f = 2 \<and> Lookup g (fv_Raw f) \<ge> 0 \<longrightarrow>
        boxed_object g (Lookup g (fv_Raw f)))"

text \<open>No failure but a panic, which \<open>safe L True\<close> excludes.\<close>

definition ends_ref :: "'a outcome \<Rightarrow> bool" where
  "ends_ref r \<longleftrightarrow> (\<forall>L e. r = Inl e \<longrightarrow> \<not> benign L True e)"

lemma ends_ref_Inr [intro!]: "ends_ref (Inr x)"
  by (simp add: ends_ref_def)

lemma ends_ref_if [intro!]: "(b \<Longrightarrow> ends_ref x) \<Longrightarrow> (\<not> b \<Longrightarrow> ends_ref y) \<Longrightarrow> ends_ref (if b then x else y)"
  by simp

lemma ends_ref_bind [intro!]: "ends_ref r \<Longrightarrow> (\<And>x. r = Inr x \<Longrightarrow> ends_ref (f x)) \<Longrightarrow> ends_ref (bind_ok r f)"
  by (cases r) (simp_all add: ends_ref_def)

lemma ends_ref_option [intro!]: "(z = None \<Longrightarrow> ends_ref a) \<Longrightarrow> (\<And>y. z = Some y \<Longrightarrow> ends_ref (f y)) \<Longrightarrow> ends_ref (case z of None \<Rightarrow> a | Some y \<Rightarrow> f y)"
  by (cases z) simp_all

lemma ends_outcome_map: "(\<And>x. x \<in> set xs \<Longrightarrow> ends_ref (f x)) \<Longrightarrow> ends_ref (outcome_map f xs)"
  by (induction xs) auto

lemma ends_aget: "ends_ref (aget xs i)"
  by (simp add: aget_def ends_ref_def)

lemma ends_type_size: "ends_ref (type_size t)"
  by (simp add: type_size_def ends_aget)

lemma ends_read_fields: "ends_ref (read_fields fs body sz off)"
  by (induction fs body sz off rule: read_fields.induct) (simp_all only: read_fields.simps, auto intro!: ends_type_size)

lemma ends_Fields: "ends_ref (Fields file g i)"
  unfolding Fields_def Let_def by (auto intro!: ends_aget ends_read_fields)

lemma ends_Field: "ends_ref (Field file g i name)"
  unfolding Field_def by (auto intro!: ends_Fields)

lemma ends_Graph_Name: "ends_ref (Graph_Name g i)"
  unfolding Graph_Name_def by (auto intro!: ends_aget split: kind.split)

lemma ends_ArrayLen: "ends_ref (ArrayLen file g i)"
  unfolding ArrayLen_def by (auto intro!: ends_aget)

lemma ends_ArrayElems: "ends_ref (ArrayElems file g i n)"
  unfolding ArrayElems_def Let_def by (auto intro!: ends_aget ends_ArrayLen)

lemma ends_PrimBytes: "ends_ref (PrimBytes file g i n)"
  unfolding PrimBytes_def Let_def by (auto intro!: ends_aget ends_type_size)

lemma ends_StringOf: "ends_ref (StringOf file g i)"
  unfolding StringOf_def Let_def case_prod_unfold by (auto intro!: ends_aget ends_Fields ends_PrimBytes)

lemma ends_enum_name: "ends_ref (enum_name file g i)"
  unfolding enum_name_def string_at_def by (auto intro!: ends_aget ends_Field ends_StringOf)

lemma ends_boxed_value: "ends_ref (boxed_value file g i name)"
  unfolding boxed_value_def by (auto intro!: ends_Field)

lemma ends_render_prim_array: "ends_ref (render_prim_array L file g i)"
  unfolding render_prim_array_def Let_def case_prod_unfold by (auto intro!: ends_aget ends_ArrayLen ends_PrimBytes)

lemmas ends_reads = ends_aget ends_Field ends_Graph_Name ends_ArrayLen ends_ArrayElems ends_StringOf ends_enum_name
  ends_boxed_value ends_render_prim_array

lemma ends_render_value: "(fv_Type f = 2 \<Longrightarrow> ends_ref (ref (fv_Raw f))) \<Longrightarrow> ends_ref (render_value L ref f)"
  by (simp add: render_value_def Let_def ends_ref_Inr)

lemma boxed_value_plain:
  assumes j: "jdk_values file g" and i: "node g i" and "Graph_Name g i = Inr name" "boxed_value file g i name = Inr (Some vf)"
  shows "fv_Type vf \<noteq> 2"
proof -
  have "name \<in> set boxedField" "Field file g i ''value'' = Inr (Some vf)"
    using assms(4) by (simp_all add: boxed_value_def split: if_splits)
  then show ?thesis using j i assms(3) unfolding jdk_values_def plain_value_def boxed_object_def by blast
qed

lemma ends_boxed:
  assumes "object_graph file xs g" "jdk_values file g" "\<not> Lookup g oid < 0"
    and "Graph_Name g (Lookup g oid) = Inr name" "boxed_value file g (Lookup g oid) name = Inr (Some vf)"
  shows "ends_ref (render_value L ref vf)"
  using boxed_value_plain [OF assms(2) _ assms(4,5)] Lookup_node [OF assms(1), of oid] assms(3)
  by (intro ends_render_value) simp

text \<open>An element of an array is rendered without a further reference.\<close>

lemma ends_renderElem:
  assumes "object_graph file xs g" "jdk_values file g"
  shows "ends_ref (renderElem L file g ref oid)"
  unfolding renderElem_def Let_def by (auto intro!: ends_reads ends_boxed [OF assms])

lemma ends_render_obj_array:
  assumes "object_graph file xs g" "jdk_values file g"
  shows "ends_ref (render_obj_array L file g ref oid i name)"
  unfolding render_obj_array_def Let_def by (auto intro!: ends_reads ends_outcome_map ends_renderElem [OF assms])

text \<open>A boxed object takes one level, a container whose size is boxed takes two.\<close>

lemma boxed_no_container: "name \<in> set boxedField \<Longrightarrow> map_of sizeFields name = None"
  by (auto simp: boxedField_def sizeFields_def)

lemma ends_RenderRef_boxed:
  assumes "object_graph file xs g" "jdk_values file g" "Lookup g oid \<ge> 0 \<Longrightarrow> boxed_object g (Lookup g oid)"
  shows "ends_ref (RenderRef L file g (Suc depth) oid)"
proof -
  have "ends_ref (container_size L file g ref (Lookup g oid) name)"
    if "\<not> Lookup g oid < 0" "Graph_Name g (Lookup g oid) = Inr name" for name ref
    using assms(3) that boxed_no_container [of name] by (auto simp: boxed_object_def container_size_def)
  then show ?thesis unfolding RenderRef.simps Let_def
    by (auto intro!: ends_reads ends_boxed [OF assms(1,2)] ends_render_obj_array [OF assms(1,2)])
qed

lemma ends_container_size:
  assumes G: "object_graph file xs g" and j: "jdk_values file g" and i: "node g i" "Graph_Name g i = Inr name"
  shows "ends_ref (container_size L file g (RenderRef L file g (Suc depth)) i name)"
proof -
  have boxed: "boxed_object g (Lookup g (fv_Raw f))"
    if "map_of sizeFields name = Some sf" "Field file g i sf = Inr (Some f)" "fv_Type f = 2" "Lookup g (fv_Raw f) \<ge> 0" for sf f
    using j i that unfolding jdk_values_def by blast
  have inner: "fv_Type v \<noteq> 2"
    if "boxed_object g (Lookup g oid)" "Lookup g oid \<ge> 0" "Field file g (Lookup g oid) ''value'' = Inr (Some v)" for oid v
    using j that Lookup_node [OF G, of oid] unfolding jdk_values_def plain_value_def by auto
  show ?thesis unfolding container_size_def Let_def
    by (auto intro!: ends_Field ends_render_value ends_RenderRef_boxed [OF G j] dest: boxed inner)
qed

lemma ends_RenderRef:
  assumes G: "object_graph file xs g" and j: "jdk_values file g"
  shows "ends_ref (RenderRef L file g (Suc (Suc depth)) oid)"
proof -
  have n: "node g (Lookup g oid)" if "\<not> Lookup g oid < 0" using Lookup_node [OF G, of oid] that by simp
  show ?thesis unfolding RenderRef.simps(2) [of L "file" g "Suc depth"] Let_def
    by (auto intro!: ends_reads ends_boxed [OF G j] ends_render_obj_array [OF G j] ends_container_size [OF G j] dest: n)
qed

lemma Render_returns:
  assumes G: "object_graph file xs g" and j: "jdk_values file g"
  shows "\<exists>s. Render L file g f = Inr s"
proof -
  have "ends_ref (Render L file g f)"
    unfolding Render_def render_depth_def by (auto intro!: ends_render_value ends_RenderRef [OF G j] simp: eval_nat_numeral)
  then show ?thesis using overflow_Render [OF G, of L f] by (cases "Render L file g f") (auto simp: ends_ref_def calm_def)
qed

text \<open>The commands render references under the same condition, or with the stack's overflow tolerated.\<close>

lemma safe_RenderRef [calm]:
  assumes G: "object_graph file xs g" and J: "so \<or> jdk_values file g"
  shows "safe L so (RenderRef L file g (render_depth g) oid)"
proof (cases so)
  case True
  then show ?thesis using overflow_RenderRef [OF G] by simp
next
  case False
  then have "ends_ref (RenderRef L file g (render_depth g) oid)"
    using J ends_RenderRef [OF G, of L "Graph_N g" oid] unfolding render_depth_def by (simp only: add_2_eq_Suc' simp_thms)
  then show ?thesis using overflow_RenderRef [OF G, of L "render_depth g" oid]
    by (cases "RenderRef L file g (render_depth g) oid") (auto simp: ends_ref_def calm_def)
qed

lemma safe_Render [calm]: "object_graph file xs g \<Longrightarrow> so \<or> jdk_values file g \<Longrightarrow> safe L so (Render L file g f)"
  unfolding Render_def by (rule calm | assumption)+

text \<open>A boxed object that is its own value.\<close>

lemma RenderRef_cycle:
  assumes "oid \<noteq> 0" "Lookup g oid \<ge> 0" "Graph_Name g (Lookup g oid) = Inr name" "name \<in> set boxedField"
    and "StringOf file g (Lookup g oid) = Inr None" "enum_name file g (Lookup g oid) = Inr None"
    and "Field file g (Lookup g oid) ''value'' = Inr (Some vf)" "fv_Type vf = 2" "fv_Raw vf = oid"
  shows "RenderRef L file g depth oid = Inl StackOverflow"
  by (induction depth) (use assms in \<open>simp_all add: boxed_value_def render_value_def\<close>)

end
