(* ===== verification/Hprof_Safe.thy ===== *)
theory Hprof_Safe
  imports Hprof_Rendering
begin

text \<open>
  The analyses do not panic on well-formed dumps: each command returns or fails in a benign way. The
  commands that render values need the condition \<open>jdk_values\<close>, unless the overflow of the stack is tolerated.
\<close>

subsection \<open>References and tables\<close>

lemma safe_EdgeLabel [calm]:
  assumes G: "object_graph fl xs g" and n: "node g par" "node g child"
  shows "safe L so (EdgeLabel fl g par child)"
proof -
  have "safe L so (case k of kindInstance \<Rightarrow> a | kindObjArray \<Rightarrow> b | kindClass \<Rightarrow> c | kindPrimArray \<Rightarrow> d)"
    if "safe L so a" "safe L so b" "safe L so c" "safe L so d" for k and a b c d :: "string outcome"
    using that by (cases k) simp_all
  note sp = this
  show ?thesis unfolding EdgeLabel_def by (rule calm sp G n | simp add: n object_graph_lengths [OF G])+
qed

lemma calm_widen: "length r \<le> length width \<Longrightarrow> calm L so (\<lambda>w. length w = length width) (widen r width)"
  unfolding widen_def
  by (rule calm_for_each) (auto simp: aget_def aset_def intro!: calm_Inr)

lemma safe_table [calm]:
  assumes "\<And>r. r \<in> set rows \<Longrightarrow> length r \<le> length headers"
  shows "safe L so (table headers align rows q)"
proof -
  have "calm L so (\<lambda>w. length w = length headers) (column_widths headers rows)"
    unfolding column_widths_def by (rule calm_for_each) (simp, metis assms calm_widen)
  then have t: "safe L so (text_table headers align rows)"
    unfolding text_table_def by (rule calm_bind) (simp add: calm_Inr)
  show ?thesis unfolding table_def by (rule calm t | simp)+
qed

lemma calm_mustCompile: "calm L so (\<lambda>re. Compile L p = Some re) (mustCompile L p)"
  by (simp add: mustCompile_def calm_def split: option.split)

lemma safe_mustCompile [calm]: "safe L so (mustCompile L p)"
  by (rule calm_mono [OF calm_mustCompile TrueI])

subsection \<open>The analyses of the object graph\<close>

lemma safe_cmdSummary [calm]:
  assumes G: "object_graph fl xs g"
  shows "safe L so (cmdSummary L g q)"
  unfolding cmdSummary_def summary_counts_def summary_step_def Let_def
  by (rule calm | auto simp: in_node_range object_graph_lengths [OF G])+

lemma safe_histo_stats [calm]:
  assumes G: "object_graph fl xs g"
  shows "safe L so (histo_stats g)"
  unfolding histo_stats_def histo_step_def
  by (rule calm G | simp add: in_node_range object_graph_lengths [OF G])+

lemma safe_cmdHisto [calm]: "object_graph fl xs g \<Longrightarrow> safe L so (cmdHisto L R g topN byCount q)"
  unfolding cmdHisto_def Let_def by (rule calm | assumption | auto simp: histo_cells_def)+

lemma safe_thread_fields [calm]: "object_graph fl xs g \<Longrightarrow> safe L so (thread_fields fl g fs s)"
proof (induction fs arbitrary: s)
  case (Cons f fs)
  then show ?case by (cases s) (simp, intro conjI impI calm_bind [OF safe_string_at]; simp)
qed (simp add: calm_Inr)

lemma safe_thread_info [calm]:
  assumes G: "object_graph fl xs g"
  shows "safe L so (thread_info fl g t)"
  unfolding thread_info_def Let_def by (rule calm G | simp add: Lookup_bound [OF G])+

lemma safe_thread_step [calm]: "object_graph fl xs g \<Longrightarrow> safe L so (thread_step fl g t s)"
  unfolding thread_step_def by (rule calm | assumption | simp)+

lemma safe_group_threads [calm]: "object_graph fl xs g \<Longrightarrow> safe L so (group_threads fl g)"
  unfolding group_threads_def by (rule calm | assumption | simp)+

lemma safe_cmdThreads [calm]: "object_graph fl xs g \<Longrightarrow> safe L so (cmdThreads L fl g maxFrames q)"
  unfolding cmdThreads_def by (rule calm | assumption | simp)+

lemma safe_Graph_Label [calm]:
  assumes G: "object_graph fl xs g" and i: "node g i"
  shows "safe L so (Graph_Label g i)"
  unfolding Graph_Label_def by (rule calm G i | simp add: i object_graph_lengths [OF G])+

lemma safe_field_lines [calm]:
  "object_graph fl xs g \<Longrightarrow> so \<or> jdk_values fl g \<Longrightarrow> node g i \<Longrightarrow> safe L so (field_lines L fl g ff i)"
  unfolding field_lines_def by (rule calm | assumption | simp)+

lemma safe_inspect_step [calm]:
  assumes G: "object_graph fl xs g" and i: "node g i" and J: "so \<or> jdk_values fl g"
  shows "safe L so (inspect_step L fl g re ff limit i s)"
  unfolding inspect_step_def by (rule calm G J i | simp add: object_graph_lengths [OF G] i)+

lemma safe_cmdInspect [calm]:
  assumes G: "object_graph fl xs g" and J: "so \<or> jdk_values fl g"
  shows "safe L so (cmdInspect L fl g pattern limit fieldFilter q)"
proof -
  have ff: "safe L so (if fieldFilter = [] then Inr None else bind_ok (mustCompile L fieldFilter) (\<lambda>r. Inr (Some r)))"
    by (rule calm | simp)+
  show ?thesis unfolding cmdInspect_def Let_def by (rule ff calm G J | simp add: in_node_range)+
qed

subsection \<open>The analyses of the references\<close>

lemma calm_Referrers [calm]:
  assumes "adjacency g es" "node g i"
  shows "calm L so (\<lambda>rs. \<forall>r \<in> set rs. node g r) (Referrers g i)"
proof -
  obtain k where k: "i = int k" "k < Graph_N g" using assms(2) by (metis of_nat_less_iff nonneg_int_cases)
  have "Referrers g i = Inr (map int (targets k (map prod.swap es)))" using assms(1) k by (simp add: adjacency_def)
  moreover have "v < Graph_N g" if "v \<in> set (targets k (map prod.swap es))" for v
    using that assms(1) by (auto simp: targets_def adjacency_def)
  ultimately show ?thesis by (simp add: calm_Inr)
qed

lemma safe_holder_key [calm]:
  assumes G: "object_graph fl xs g" and A: "adjacency g es" and i: "node g i"
  shows "safe L so (holder_key g i)"
  unfolding holder_key_def
  by (rule calm_bind [OF calm_Referrers [OF A i]])
     (auto split: list.split intro!: calm_Inr calm_bind [OF safe_Graph_Name [OF G]])

lemma safe_cmdHolders [calm]:
  assumes G: "object_graph fl xs g" and A: "adjacency g es"
  shows "safe L so (cmdHolders L R g pattern topN q)"
  unfolding cmdHolders_def holder_step_def
  by (rule calm G A | auto simp: in_node_range object_graph_lengths [OF G] tally_cells_def)+

subsection \<open>The analyses of the dominator tree\<close>

definition dom_ok :: "Graph \<Rightarrow> Dom \<Rightarrow> bool" where
  "dom_ok g d \<longleftrightarrow> DRoot d = int (Graph_N g) \<and> length (Idom d) = Suc (Graph_N g) \<and> length (Retained d) = Suc (Graph_N g) \<and>
     (\<forall>v < Graph_N g. Idom d ! v < int (Suc (Graph_N g))) \<and> (\<forall>v < Graph_N g. \<exists>b. Reachable d (int v) = Inr b)"

lemma obj_idom_bound:
  assumes g: "dom_graph g es roots n" and p: "obj_idom es roots n p v"
  shows "p < int (Suc n)"
proof (cases "p = int n")
  case False
  then obtain u where u: "p = int u" "u \<noteq> v" "v \<in> freed es roots u" "u \<in> freed es roots u"
    using p by (auto simp: obj_idom_def)
  then have "reachable es roots u" by (simp add: freed_def)
  then have "u < n" using g by (induction rule: reaches.induct) (auto simp: dom_graph_def adjacency_def rooted_def)
  then show ?thesis using u(1) by simp
qed simp

lemma Dominators_dom_ok:
  assumes g: "dom_graph g es roots n" and size: "length (Size g) = n"
  obtains d u where "Dominators g = Inr (d, g\<lparr>Unreach := u\<rparr>)" "dom_ok g d"
proof -
  obtain d u where D: "Dominators g = Inr (d, g\<lparr>Unreach := Unreach g + u\<rparr>)" "DRoot d = int n"
      "\<And>v. v < n \<Longrightarrow> Reachable d (int v) = Inr (reachable es roots v)"
      "\<And>v. v < n \<Longrightarrow> reachable es roots v \<Longrightarrow> obj_idom es roots n (Idom d ! v) v"
      "\<And>v. v < n \<Longrightarrow> \<not> reachable es roots v \<Longrightarrow> Idom d ! v = -1" "length (Idom d) = Suc n" "length (Retained d) = Suc n"
    by (rule Dominators_ok [OF assms]) (rule that)
  have "Idom d ! v < int (Suc n)" if "v < n" for v
    using D(4,5) [OF that] obj_idom_bound [OF g] by fastforce
  then have "dom_ok g d" using D g by (simp add: dom_ok_def dom_graph_def)
  with that D(1) show ?thesis by blast
qed

lemma calm_Idom [calm]:
  assumes "dom_ok g d" "node g i"
  shows "calm L so (\<lambda>p. p < int (Suc (Graph_N g))) (aget (Idom d) i)"
proof -
  obtain k where k: "i = int k" "k < Graph_N g" using assms(2) by (metis of_nat_less_iff nonneg_int_cases)
  then show ?thesis using assms(1) by (simp add: dom_ok_def calm_Inr)
qed

lemma calm_dom_chain:
  assumes d: "dom_ok g d"
  shows "v < int (Suc (Graph_N g)) \<Longrightarrow> calm L so (\<lambda>c. \<forall>x \<in> set c. node g x) (dom_chain d k v)"
proof (induction k arbitrary: v)
  case (Suc k)
  have "calm L so (\<lambda>c. \<forall>x \<in> set c. node g x) (bind_ok (aget (Idom d) v) (\<lambda>v'. bind_ok (dom_chain d k v') (\<lambda>out. Inr (v # out))))"
    if v: "v \<ge> 0" "v \<noteq> DRoot d"
  proof -
    have n: "node g v" using v Suc.prems d by (simp add: dom_ok_def)
    show ?thesis
      by (rule calm_bind [OF calm_Idom [OF d n]], rule calm_bind [OF Suc.IH], assumption, rule calm_Inr) (use n in auto)
  qed
  then show ?case by (simp add: calm_Inr)
qed (simp add: calm_Inr)

lemma calm_DomChain [calm]:
  "dom_ok g d \<Longrightarrow> node g i \<Longrightarrow> calm L so (\<lambda>c. \<forall>x \<in> set c. node g x) (DomChain d i limit)"
  unfolding DomChain_def by (rule calm_bind [OF calm_Idom]) (auto intro: calm_dom_chain)

lemma safe_Reachable [calm]: "dom_ok g d \<Longrightarrow> node g i \<Longrightarrow> safe L so (Reachable d i)"
  by (rule safe_Inr) (metis dom_ok_def of_nat_less_iff nonneg_int_cases)

lemma dom_ok_Retained: "dom_ok g d \<Longrightarrow> length (Retained d) = Suc (Graph_N g)"
  by (simp add: dom_ok_def)

lemma safe_Retained: "dom_ok g d \<Longrightarrow> node g i \<Longrightarrow> safe L so (aget (Retained d) i)"
  by (rule calm_mono [OF calm_aget]) (simp_all add: dom_ok_def)

lemma safe_same_chain [calm]:
  assumes d: "dom_ok g d" and i: "node g i"
  shows "safe L so (same_chain d i r)"
  unfolding same_chain_def
  by (rule calm_bind [OF calm_Idom [OF d i]], rule calm_if)
     (rule calm | use d in \<open>simp add: dom_ok_def\<close>)+

lemma safe_retained_entry [calm]:
  assumes G: "object_graph fl xs g" and i: "node g i" and c: "\<forall>x \<in> set chain. node g x"
  shows "safe L so (retained_entry g i r chain)"
  unfolding retained_entry_def
  by (rule calm G i | simp add: object_graph_lengths [OF G] i bspec [OF c])+

lemma safe_retained_loop [calm]:
  assumes G: "object_graph fl xs g" and d: "dom_ok g d"
  shows "\<forall>(i, r) \<in> set tops. node g i \<Longrightarrow> safe L so (retained_loop g d tops room seen)"
proof (induction tops arbitrary: room seen)
  case (Cons t tops)
  obtain i r where t: "t = (i, r)" by fastforce
  have i: "node g i" and rest: "\<And>room seen. safe L so (retained_loop g d tops room seen)" using Cons t by auto
  show ?case unfolding t retained_loop.simps by (rule calm G d i rest | assumption | simp)+
qed (simp add: calm_Inr)

lemma calm_large_objects:
  assumes "dom_ok g d"
  shows "calm L so (\<lambda>ts. \<forall>(i, r) \<in> set ts. node g i) (large_objects g d m)"
proof -
  have "calm L so (\<lambda>p. node g (fst p)) (bind_ok (aget (Retained d) i) (\<lambda>r. Inr (i, r)))" if "i \<in> set (node_range g)" for i
    using that dom_ok_Retained [OF assms] by (auto simp: in_node_range intro!: calm_bind [OF calm_aget] calm_Inr)
  from calm_outcome_map [of "node_range g", OF this] show ?thesis
    unfolding large_objects_def by (rule calm_bind) (assumption, rule calm_Inr, force simp: list_all_iff)
qed

lemma safe_cmdRetained [calm]:
  assumes G: "object_graph fl xs g" and d: "dom_ok g d" and R: "\<And>ts. set (top_order R ts) \<subseteq> set ts"
  shows "safe L so (cmdRetained L R g d topN minMB q)"
proof -
  have step: "safe L so (retained_class_step g d i s)" if "node g i" for i s
    unfolding retained_class_step_def by (rule safe_Retained [OF d] calm G d that | simp)+
  show ?thesis unfolding cmdRetained_def Let_def
    by (rule calm_bind [OF calm_large_objects [OF d]])
       (rule calm G d step | use R in \<open>fastforce simp: in_node_range tally_cells_def\<close>)+
qed

subsection \<open>Paths\<close>

lemma calm_path_walk:
  assumes p: "length par = n" "\<And>v. v < n \<Longrightarrow> par ! v \<le> int n"
  shows "v \<le> int n \<Longrightarrow> calm L so (\<lambda>c. \<forall>x \<in> set c. 0 \<le> x \<and> x < int n) (path_walk par (int n) room v)"
proof (induction room arbitrary: v)
  case (Suc room)
  have "calm L so (\<lambda>c. \<forall>x \<in> set c. 0 \<le> x \<and> x < int n) (bind_ok (aget par v) (\<lambda>v'. bind_ok (path_walk par (int n) room v') (\<lambda>chain. Inr (v # chain))))"
    if v: "v \<ge> 0" "v \<noteq> int n"
  proof -
    have n: "0 \<le> v" "v < int n" using v Suc.prems by simp_all
    have "calm L so (\<lambda>x. x \<le> int n) (aget par v)" using n p by (simp add: aget_def calm_Inr nat_less_iff)
    then show ?thesis by (rule calm_bind) (rule calm_bind [OF Suc.IH], assumption, rule calm_Inr, use n in auto)
  qed
  then show ?case using Suc.prems by (simp add: calm_Inr)
qed (simp add: calm_Inr)

lemma safe_cmdPaths [calm]:
  assumes G: "object_graph fl xs g" and d: "dom_ok g d" and dg: "dom_graph g es roots n"
  shows "safe L so (cmdPaths L fl g d pattern limit q)"
proof -
  have n: "n = Graph_N g" using dg by (simp add: dom_graph_def)
  obtain par where par: "bfsFromRoots g d = Inr par" "length par = n" "\<And>v. v < n \<Longrightarrow> bfs_parent es roots n par v"
    using bfsFromRoots_ok [OF dg] d n by (auto simp: dom_ok_def)
  have rng: "par ! v \<le> int n" if "v < n" for v
    using par(3) [OF that] dg by (auto simp: bfs_parent_def dom_graph_def adjacency_def split: if_splits)
  have chain: "calm L so (\<lambda>c. \<forall>x \<in> set c. node g x) (path_chain par d i)" if "node g i" for i
    using calm_path_walk [OF par(2) rng, where v = i and room = 201] that d n by (simp add: path_chain_def dom_ok_def)
  have line: "safe L so (path_line fl g c k)" if "\<forall>x \<in> set c. node g x" "k \<in> set (rev [0..<length c])" for c k
  proof -
    have k: "node g (c ! k)" "k + 1 < length c \<Longrightarrow> node g (c ! (k + 1))" using that by (simp_all add: nth_mem)
    have lab: "safe L so (if k + 1 < length c then EdgeLabel fl g (c ! (k + 1)) (c ! k) else Inr (if in_RootSet g (c ! k) then '' (GC root)'' else ''''))"
      by (rule calm G k | simp)+
    show ?thesis unfolding path_line_def Let_def by (rule lab calm G k | simp)+
  qed
  have shown: "safe L so (path_text fl g d par i)" if "node g i" for i
    unfolding path_text_def by (rule chain safe_Retained [OF d] calm G line that | assumption | simp)+
  have loop: "\<forall>i \<in> set ks. node g i \<Longrightarrow> safe L so (paths_loop fl g d re par ks room)" for ks re room
  proof (induction ks arbitrary: room)
    case (Cons i ks)
    then have i: "node g i" and rest: "\<And>room. safe L so (paths_loop fl g d re par ks room)" by simp_all
    show ?case unfolding paths_loop.simps by (rule calm G d i rest shown | simp)+
  qed (simp add: calm_Inr)
  show ?thesis unfolding cmdPaths_def Let_def par(1) bind_ok_simps by (rule calm loop | simp add: in_node_range)+
qed

subsection \<open>Deliveries\<close>

lemma safe_shape_step [calm]:
  assumes G: "object_graph fl xs g"
  shows "safe L so (shape_step g f s)"
  unfolding shape_step_def Let_def
  by (rule calm G | simp add: object_graph_lengths [OF G] Lookup_bound [OF G])+

lemma safe_deliveryShapeOf [calm]:
  assumes G: "object_graph fl xs g" and i: "node g i"
  shows "safe L so (deliveryShapeOf fl g i cache)"
  unfolding deliveryShapeOf_def Let_def by (rule calm G i | simp add: object_graph_lengths [OF G] i)+

lemma safe_propsTimestamp [calm]:
  assumes G: "object_graph fl xs g" and i: "i < 0 \<or> node g i"
  shows "safe L so (propsTimestamp fl g i)"
  unfolding propsTimestamp_def Let_def by (rule calm G | use i in \<open>simp add: Lookup_bound [OF G]\<close>)+

definition body_ok :: "Graph \<Rightarrow> delivery \<Rightarrow> bool" where
  "body_ok g d \<longleftrightarrow> dl_bodyNode d < 0 \<or> node g (dl_bodyNode d)"

lemma calm_body_field:
  assumes G: "object_graph fl xs g" and d: "body_ok g d"
  shows "calm L so (body_ok g) (body_field fl g s f d)"
proof -
  have t: "safe L so (propsTimestamp fl g (Lookup g (fv_Raw f)))"
    by (rule safe_propsTimestamp [OF G]) (use Lookup_node [OF G] in blast)
  have "body_ok g (d\<lparr>dl_bodyNode := b, dl_bodyLen := n\<rparr>)" if "b = Lookup g (fv_Raw f)" for b n
    using Lookup_node [OF G, of "fv_Raw f"] that by (simp add: body_ok_def)
  moreover have "body_ok g (d\<lparr>dl_tag := t\<rparr>)" "body_ok g (d\<lparr>dl_stamp := n\<rparr>)" for t n using d by (simp_all add: body_ok_def)
  ultimately show ?thesis unfolding body_field_def Let_def
    by (auto split: option.split intro!: calm_Inr d calm_bind [OF t] calm_bind [OF safe_string_at [OF G]]
        calm_bind [OF safe_ArrayLen [OF G]] simp: Lookup_bound [OF G])
qed

lemma calm_envelope_field:
  assumes G: "object_graph fl xs g" and d: "body_ok g d"
  shows "calm L so (body_ok g) (envelope_field fl g f d)"
proof -
  have "body_ok g (d\<lparr>dl_exchange := x\<rparr>)" "body_ok g (d\<lparr>dl_routing := x\<rparr>)" for x using d by (simp_all add: body_ok_def)
  then show ?thesis unfolding envelope_field_def
    by (auto split: option.split intro!: calm_Inr d calm_bind [OF safe_string_at [OF G]])
qed

lemma calm_readDelivery:
  assumes G: "object_graph fl xs g" and n: "node g i" "node g env"
  shows "calm L so (body_ok g) (readDelivery fl g i env s)"
proof -
  have start: "body_ok g \<lparr>dl_node = i, dl_holder = x, dl_tag = y, dl_exchange = y, dl_routing = y, dl_bodyLen = 0, dl_bodyNode = -1, dl_stamp = 0\<rparr>" for x y
    by (simp add: body_ok_def)
  have fin: "body_ok g (if dl_tag d = [] then d\<lparr>dl_tag := t\<rparr> else d)" if "body_ok g d" for d t
    using that by (simp add: body_ok_def)
  show ?thesis unfolding readDelivery_def
    by (intro calm_bind [OF safe_Graph_Name [OF G n(1)]] calm_bind [OF safe_Fields [OF G n(1)]]
        calm_bind [OF safe_Fields [OF G n(2)]] calm_bind [OF calm_for_each [OF start calm_body_field [OF G]]])
       (auto intro!: calm_bind [OF calm_for_each] calm_envelope_field [OF G] calm_Inr fin)
qed

text \<open>The scan keeps at most one delivery for each holder it has seen.\<close>

definition scan_ok :: "Graph \<Rightarrow> scan \<Rightarrow> bool" where
  "scan_ok g = (\<lambda>(seen, shapes, ds). finite seen \<and> (\<forall>i \<in> seen. node g i) \<and> length ds \<le> card seen \<and> list_all (body_ok g) ds)"

lemma calm_holder_scan:
  assumes G: "object_graph fl xs g" and n: "node g env" "node g holder" and s: "scan_ok g s"
  shows "calm L so (scan_ok g) (holder_scan fl g env holder s)"
proof -
  obtain seen shapes ds where s': "s = (seen, shapes, ds)" by (cases s)
  have ok: "scan_ok g (insert holder seen, sh, ds)" "body_ok g d \<Longrightarrow> scan_ok g (insert holder seen, sh, ds @ [d])"
    if "holder \<notin> seen" for sh d
    using that s n by (auto simp: scan_ok_def s')
  have k: "calm L so (\<lambda>k. k = Kind g ! nat holder) (aget (Kind g) holder)"
    by (rule calm_aget) (use n(2) object_graph_lengths [OF G] in simp_all)
  show ?thesis unfolding holder_scan_def s' prod.case
    using s unfolding s'
    by (auto intro!: calm_Inr calm_bind [OF k] calm_bind [OF safe_deliveryShapeOf [OF G n(2)]]
        calm_bind [OF calm_readDelivery [OF G n(2,1)]] ok)
qed

lemma calm_find_deliveries:
  assumes G: "object_graph fl xs g" and A: "adjacency g es" and e: "\<forall>i \<in> set envelopes. node g i"
  shows "calm L so (\<lambda>ds. length ds \<le> Graph_N g \<and> list_all (body_ok g) ds) (find_deliveries fl g envelopes)"
proof -
  have "calm L so (scan_ok g) (envelope_scan fl g env s)" if "node g env" "scan_ok g s" for env s
    unfolding envelope_scan_def
    by (rule calm_bind [OF calm_Referrers [OF A that(1)]])
       (auto intro!: calm_for_each calm_holder_scan [OF G that(1)] that(2))
  then have "calm L so (scan_ok g) (for_each (envelope_scan fl g) envelopes ({}, map_new, []))"
    using e by (intro calm_for_each) (auto simp: scan_ok_def)
  moreover have "length ds \<le> Graph_N g" if "scan_ok g (seen, sh, ds)" for seen sh ds
  proof -
    have "seen \<subseteq> int ` {..<Graph_N g}" using that by (force simp: scan_ok_def image_iff intro: bexI [of _ "nat i" for i])
    then have "card seen \<le> card (int ` {..<Graph_N g})" by (rule card_mono [rotated]) simp
    also have "\<dots> = Graph_N g" by (simp add: card_image)
    finally show ?thesis using that by (simp add: scan_ok_def)
  qed
  ultimately show ?thesis unfolding find_deliveries_def
    by (auto intro!: calm_Inr elim!: calm_bind simp: scan_ok_def)
qed

end
