(* ===== verification/Hprof_Total.thy ===== *)
theory Hprof_Total
  imports Hprof_Safe
begin

text \<open>
  The remaining commands of \<open>hprofx\<close>, the AMQP report and the combined report, return or fail in a benign way.
  With the reader, the graph and the dominators this gives the program: on a well-formed dump every
  command ends with its report or with a message to the user.
\<close>

subsection \<open>The AMQP report\<close>

lemma safe_is_instance_of [calm]:
  assumes G: "object_graph fl xs g" and i: "node g i"
  shows "safe L so (is_instance_of g P i)"
  unfolding is_instance_of_def class_at_def
  using i by (simp add: object_graph_lengths [OF G] aget_def calm_Inr)

lemma calm_outcome_filter:
  assumes "\<And>x. x \<in> set xs \<Longrightarrow> safe L so (p x)"
  shows "calm L so (\<lambda>ys. set ys \<subseteq> set xs) (outcome_filter p xs)"
proof -
  have "calm L so (\<lambda>y. fst y \<in> set xs) (bind_ok (p x) (\<lambda>b. Inr (x, b)))" if "x \<in> set xs" for x
    by (rule calm_bind [OF assms [OF that]]) (simp add: calm_Inr that)
  from calm_outcome_map [of xs, OF this] show ?thesis
    unfolding outcome_filter_def by (rule calm_bind) (assumption, rule calm_Inr, auto simp: list_all_iff)
qed

lemma calm_instances:
  assumes "object_graph fl xs g"
  shows "calm L so (\<lambda>ys. \<forall>i \<in> set ys. node g i) (outcome_filter (is_instance_of g P) (node_range g))"
  by (rule calm_mono [OF calm_outcome_filter]) (use assms in \<open>auto simp: in_node_range intro: safe_is_instance_of\<close>)

lemma safe_pct [calm]:
  assumes "0 \<le> p" "p \<le> 1" "length xs \<le> 2 ^ 53"
  shows "safe L so (pct xs p)"
proof (cases "xs = []")
  case False
  then have "0 \<le> int (length xs) - 1" "int (length xs) - 1 < 2 ^ 53"
    using assms(3) by (cases xs; simp)+
  from f_int64_scaled [OF this assms(1,2)] have "safe L so (aget xs (f_int64 (f_mul (f_of_int (int (length xs) - 1)) (f_const p))))"
    by (intro calm_mono [OF calm_aget]) auto
  with False show ?thesis by (simp add: pct_def)
qed (simp add: pct_def calm_Inr)

lemma safe_pct_cells [calm]:
  "(\<And>p. p \<in> set ps \<Longrightarrow> 0 \<le> p \<and> p \<le> 1) \<Longrightarrow> length xs \<le> 2 ^ 53 \<Longrightarrow> safe L so (pct_cells h xs ps)"
  unfolding pct_cells_def by (rule calm | simp)+

lemma calm_for_each_grow:
  assumes "\<And>x s. x \<in> set xs \<Longrightarrow> calm L so (\<lambda>s'. m s' \<le> Suc (m s)) (f x s)"
  shows "calm L so (\<lambda>s'. m s' \<le> m s + length xs) (for_each f xs s)"
  using assms
proof (induction xs arbitrary: s)
  case (Cons x xs)
  have "calm L so (\<lambda>s'. m s' \<le> Suc (m s)) (f x s)" using Cons.prems by simp
  then show ?case unfolding for_each.simps
  proof (rule calm_bind)
    fix s' assume "m s' \<le> Suc (m s)"
    moreover have "calm L so (\<lambda>t. m t \<le> m s' + length xs) (for_each f xs s')" using Cons by simp
    ultimately show "calm L so (\<lambda>t. m t \<le> m s + length (x # xs)) (for_each f xs s')" by (elim calm_mono) simp
  qed
qed (simp add: calm_Inr)

lemma calm_backlog_stamps:
  assumes G: "object_graph fl xs g" and ds: "list_all (body_ok g) ds" and s: "length stamps \<le> length ds"
  shows "calm L so (\<lambda>(ss, source). length ss \<le> length ds) (backlog_stamps L fl g ds stamps ageRegex)"
proof -
  have step: "calm L so (\<lambda>s'. length s' \<le> Suc (length s)) (body_stamp L fl g re d s)" if "d \<in> set ds" for re d s
  proof -
    have n: "dl_bodyNode d < 0 \<or> node g (dl_bodyNode d)" using ds that by (auto simp: list_all_iff body_ok_def)
    show ?thesis unfolding body_stamp_def Let_def
      by (auto split: option.split intro!: calm_Inr calm_bind [OF safe_PrimBytes [OF G]]) (use n in auto)
  qed
  have "calm L so (\<lambda>s'. length s' \<le> length ([] :: int list) + length ds) (for_each (body_stamp L fl g re) ds [])" for re
    by (rule calm_for_each_grow [OF step])
  note grown = this
  show ?thesis unfolding backlog_stamps_def
    by (auto intro!: calm_Inr calm_Inl s calm_bind [OF calm_mustCompile] calm_bind [OF grown]) blast
qed

lemma safe_age_report [calm]:
  assumes "length ages \<le> 2 ^ 53"
  shows "safe L so (age_report g ds source ages q)"
proof -
  have "calm L so (\<lambda>ys. length ys = length ps \<and> list_all (\<lambda>_. True) ys) (pct_cells h ages ps)"
    if "\<And>p. p \<in> set ps \<Longrightarrow> 0 \<le> p \<and> p \<le> 1" for h ps
    unfolding pct_cells_def using that assms
    by (intro calm_outcome_map) (auto intro!: calm_Inr calm_bind [OF safe_pct])
  note p = this
  have c: "calm L so (\<lambda>ys. length ys = 5) (pct_cells durLabel ages [1 / 100, 25 / 100, 50 / 100, 75 / 100, 99 / 100])"
    by (rule calm_mono [OF p]) auto
  show ?thesis unfolding age_report_def
    by (rule calm_bind [OF c]) (rule calm | auto simp: age_rows_def)+
qed

lemma safe_reportBacklogAge [calm]:
  assumes G: "object_graph fl xs g" and ds: "list_all (body_ok g) ds" "length ds \<le> 2 ^ 53" and s: "length stamps \<le> length ds"
  shows "safe L so (reportBacklogAge L fl g ds stamps ageRegex q)"
  unfolding reportBacklogAge_def Let_def
proof (rule calm_bind [OF calm_backlog_stamps [OF G ds(1) s]], clarify)
  fix ss :: "int list" and source assume "length ss \<le> length ds"
  then have "length (backlog_ages (sint (Timestamp (M g))) ss) \<le> 2 ^ 53"
    using ds(2) length_filter_le [of "\<lambda>a. a \<ge> 0" "map (\<lambda>s. int64 (sint (Timestamp (M g)) - s)) ss"]
    by (simp only: backlog_ages_def length_sort length_map)
  then show "safe L so (if ss = [] then Inr (para (''_no timestamps available '' @ em_dash @ '' '' @ age_hint ageRegex @ ''_'') (heading L 3 ''Backlog age'' q))
     else if backlog_ages (sint (Timestamp (M g))) ss = []
     then Inr (para (''_timestamps found but all postdate the dump '' @ em_dash @ '' ignoring_'') (heading L 3 ''Backlog age'' q))
     else age_report g ds source (backlog_ages (sint (Timestamp (M g))) ss) (heading L 3 ''Backlog age'' q))"
    by (auto intro!: calm_Inr safe_age_report)
qed

lemma safe_consumer_field [calm]:
  assumes G: "object_graph fl xs g" and J: "so \<or> jdk_values fl g"
  shows "safe L so (consumer_field L fl g f r)"
proof -
  have q: "safe L so (queue_names fl g raw)" for raw
    unfolding queue_names_def Let_def by (rule calm G | simp add: Lookup_bound [OF G])+
  have l: "safe L so (queue_length fl g raw)" for raw
    unfolding queue_length_def Let_def by (rule calm G | simp add: Lookup_bound [OF G])+
  show ?thesis unfolding consumer_field_def by (rule q l calm G J | simp)+
qed

lemma safe_reportConsumers [calm]:
  assumes G: "object_graph fl xs g" and J: "so \<or> jdk_values fl g"
  shows "safe L so (reportConsumers L R fl g q)"
proof -
  have r: "safe L so (read_consumer L fl g i)" if "node g i" for i
    unfolding read_consumer_def by (rule calm G J that | simp)+
  have "safe L so (find_consumers L fl g)"
    unfolding find_consumers_def by (rule calm_bind [OF calm_instances [OF G]]) (rule calm r | simp)+
  note f = this
  have "length (consumer_cells grouped k) = 5" for grouped k
    by (simp add: consumer_cells_def split: prod.split)
  note five = this
  show ?thesis unfolding reportConsumers_def Let_def
    by (rule f calm | force simp: five)+
qed

lemma sample_walk_in: "d \<in> set (sample_walk k ds room) \<Longrightarrow> d \<in> set ds \<and> \<not> dl_bodyNode d < 0"
  by (induction k ds room rule: sample_walk.induct) (auto split: if_splits dest: in_set_dropD)

lemma safe_reportSamples [calm]:
  assumes G: "object_graph fl xs g" and ds: "list_all (body_ok g) ds"
  shows "safe L so (reportSamples L fl g ds samples q)"
proof -
  have "safe L so (sample_text fl g d)" if "d \<in> set (sample_deliveries ds samples)" for d
  proof -
    have "node g (dl_bodyNode d)"
      using that ds sample_walk_in [of d] by (auto simp: sample_deliveries_def Let_def list_all_iff body_ok_def)
    then show ?thesis unfolding sample_text_def
      by (intro calm_bind [OF safe_PrimBytes [OF G]]) (auto intro: calm_Inr)
  qed
  note t = this
  show ?thesis unfolding reportSamples_def by (rule calm t | simp)+
qed

lemma safe_delivery_report [calm]:
  assumes "length ds \<le> 2 ^ 53"
  shows "safe L so (delivery_report L R ds topN q)"
proof -
  have rows: "r \<in> set (tallyRows ord m topN) \<Longrightarrow> length r = 3" for r ord m
    by (auto simp: tallyRows_def tally_cells_def Let_def split: if_splits prod.splits)
  have p: "calm L so (\<lambda>ys. length ys = length ps \<and> list_all (\<lambda>_. True) ys) (pct_cells h (sort (map dl_bodyLen ds)) ps)"
    if "\<And>p. p \<in> set ps \<Longrightarrow> 0 \<le> p \<and> p \<le> 1" for h ps
    unfolding pct_cells_def using that assms
    by (intro calm_outcome_map) (auto intro!: calm_Inr calm_bind [OF safe_pct])
  have c: "calm L so (\<lambda>c. length c = 5) (size_cells (sort (map dl_bodyLen ds)))"
    unfolding size_cells_def
    by (rule calm_bind [OF p]) (auto intro!: calm_Inr)
  show ?thesis unfolding delivery_report_def Let_def case_prod_unfold
    by (rule c calm | simp add: rows)+
qed

lemma safe_cmdAMQP [calm]:
  assumes G: "object_graph fl xs g" and A: "adjacency g es" and n: "Graph_N g \<le> 2 ^ 53" and J: "so \<or> jdk_values fl g"
  shows "safe L so (cmdAMQP L R fl g topN samples ageRegex q)"
  unfolding cmdAMQP_def Let_def find_envelopes_def
proof (rule calm_bind [OF calm_instances [OF G]], rule calm_if, simp add: calm_Inr)
  fix envelopes assume e: "\<forall>i \<in> set envelopes. node g i"
  let ?q = "heading L 2 ''AMQP delivery backlog'' q"
  show "safe L so (bind_ok (find_deliveries fl g envelopes) (\<lambda>ds.
          if ds = []
          then Inr (para (''_envelopes present but no object holds one together with a body '' @ em_dash @ '' nothing to report_'') ?q)
          else bind_ok (delivery_report L R ds topN ?q) (\<lambda>q1.
               bind_ok (reportBacklogAge L fl g ds (filter (\<lambda>s. s > 0) (map dl_stamp ds)) ageRegex q1) (\<lambda>q2.
               bind_ok (reportConsumers L R fl g q2) (reportSamples L fl g ds samples)))))"
  proof (rule calm_bind [OF calm_find_deliveries [OF G A e]], rule calm_if, simp add: calm_Inr)
    fix ds assume "length ds \<le> Graph_N g \<and> list_all (body_ok g) ds"
    then have ds: "list_all (body_ok g) ds" "length ds \<le> 2 ^ 53" using n by auto
    have "length (filter (\<lambda>s. s > 0) (map dl_stamp ds)) \<le> length ds" using length_filter_le [of "\<lambda>s. s > 0" "map dl_stamp ds"] by simp
    note B = safe_reportBacklogAge [OF G ds this]
    show "safe L so (bind_ok (delivery_report L R ds topN ?q) (\<lambda>q1.
               bind_ok (reportBacklogAge L fl g ds (filter (\<lambda>s. s > 0) (map dl_stamp ds)) ageRegex q1) (\<lambda>q2.
               bind_ok (reportConsumers L R fl g q2) (reportSamples L fl g ds samples))))"
      by (rule B calm G J ds)+
  qed
qed

subsection \<open>The combined report\<close>

lemma safe_outcome_ex [calm]: "(\<And>x. x \<in> set xs \<Longrightarrow> safe L so (p x)) \<Longrightarrow> safe L so (outcome_ex p xs)"
proof (induction xs)
  case (Cons x xs)
  have "safe L so (p x)" using Cons.prems by simp
  then show ?case unfolding outcome_ex.simps by (rule calm_bind) (use Cons in \<open>simp add: calm_Inr\<close>)
qed (simp add: calm_Inr)

lemma safe_hasClass [calm]: "object_graph fl xs g \<Longrightarrow> safe L so (hasClass g name)"
  unfolding hasClass_def by (rule safe_outcome_ex) (auto simp: in_node_range intro: safe_is_instance_of)

lemma safe_holders_of_biggest [calm]:
  assumes G: "object_graph fl xs g" and A: "adjacency g es"
  shows "safe L so (holders_of_biggest L R g topN q)"
proof -
  have b: "safe L so (biggest_class R g)"
    unfolding biggest_class_def by (rule calm_bind [OF safe_histo_stats [OF G]]) (simp add: calm_Inr split: prod.split)
  show ?thesis unfolding holders_of_biggest_def by (rule b calm G A | simp)+
qed

lemma safe_buildReport [calm]:
  assumes G: "object_graph fl xs g" and A: "adjacency g es" and d: "dom_ok g d" and n: "Graph_N g \<le> 2 ^ 53"
    and R: "\<And>ts. set (top_order R ts) \<subseteq> set ts" and J: "so \<or> jdk_values fl g"
  shows "safe L so (buildReport L R now fl g d topN frames samples ageRe q)"
proof -
  have a: "safe L so (if amqp then cmdAMQP L R fl g topN samples ageRe q5 else Inr q5)" for amqp q5
    using safe_cmdAMQP [OF G A n J] by (simp add: calm_Inr)
  show ?thesis unfolding buildReport_def Let_def by (rule a calm G A d R n TrueI)+
qed

subsection \<open>The program\<close>

lemma unreach_frame [simp]:
  "object_graph fl xs (g\<lparr>Unreach := u\<rparr>) = object_graph fl xs g" "adjacency (g\<lparr>Unreach := u\<rparr>) es = adjacency g es"
  "dom_graph (g\<lparr>Unreach := u\<rparr>) es roots n = dom_graph g es roots n" "dom_ok (g\<lparr>Unreach := u\<rparr>) d = dom_ok g d"
  "Graph_N (g\<lparr>Unreach := u\<rparr>) = Graph_N g"
  by (simp_all add: object_graph_def adjacency_def dom_graph_def rooted_def dom_ok_def indexed_def Graph_N_def
      Refs_def Referrers_def in_RootSet_def)

text \<open>What the passes of a command leave behind.\<close>

definition loaded :: "u8 list \<Rightarrow> subrec list \<Rightarrow> string \<Rightarrow> Graph \<Rightarrow> Dom \<Rightarrow> bool" where
  "loaded fl xs cmd g d \<longleftrightarrow> object_graph fl xs g \<and> (needs_edges cmd \<longrightarrow> (\<exists>es. adjacency g es)) \<and>
     (needs_dom cmd \<longrightarrow> dom_ok g d \<and> (\<exists>es roots n. dom_graph g es roots n))"

text \<open>The dumps that the theorems are about: well-formed, no object id twice, counts that fit \<open>int32\<close>.\<close>

definition analysable :: "string \<Rightarrow> u8 list \<Rightarrow> u64 \<Rightarrow> hprof_record list \<Rightarrow> bool" where
  "analysable path hdr ts rs \<longleftrightarrow> dump_ok hdr rs \<and> distinct (map obj_id (dump_nodes rs)) \<and> length (dump_nodes rs) < 2 ^ 31 \<and>
     length (dump_edges (lay (Classes (dump_meta path hdr ts rs))) rs) < 2 ^ 31"

lemma load_graph_dump:
  assumes an: "analysable path hdr ts rs"
  obtains g d where "load_graph path (Some (enc_dump hdr ts rs)) cmd = Inr (g, d)" "loaded (enc_dump hdr ts rs) (dump_nodes rs) cmd g d"
    "lay (Classes (M g)) = lay (Classes (dump_meta path hdr ts rs))" "className (M g) = className (dump_meta path hdr ts rs)"
proof -
  have ok: "dump_ok hdr rs" and ids: "distinct (map obj_id (dump_nodes rs))" and n: "length (dump_nodes rs) < 2 ^ 31"
    and e: "length (dump_edges (lay (Classes (dump_meta path hdr ts rs))) rs) < 2 ^ 31"
    using an by (simp_all add: analysable_def)
  let ?m = "(dump_meta path hdr ts rs)\<lparr>Timestamp := ts\<rparr>"
  have time: "dumpTimestamp (Some (enc_dump hdr ts rs)) = Inr ts"
    using ok openDump_enc [of hdr ts "concat (map enc_record rs)"] by (simp add: dumpTimestamp_def enc_dump_def dump_ok_def)
  have ready: "dump_ready ?m rs" using dump_meta_ready [OF ok refl] by simp
  obtain g where g: "BuildGraph ?m (Some (enc_dump hdr ts rs)) (needs_edges cmd) = Inr g"
      "object_graph (enc_dump hdr ts rs) (dump_nodes rs) g"
      "needs_edges cmd \<Longrightarrow> adjacency g (dump_edges (lay (Classes ?m)) rs)"
      "needs_edges cmd \<Longrightarrow> rooted g (sort (remdups (map (node_at (IDs g)) (filter (\<lambda>r. r \<in> set (IDs g)) (RootIDs ?m)))))"
      "lay (Classes (M g)) = lay (Classes ?m)" "className (M g) = className ?m"
    by (rule BuildGraph_object_graph [OF ok ids n ready]) (use e in auto)
  note load = LoadMeta_dump [OF ok, of path ts] time g(1)
  show ?thesis
  proof (cases "needs_dom cmd")
    case True
    then have "needs_edges cmd" by (auto simp: needs_dom_def needs_edges_def)
    note ar = g(3) [OF this] g(4) [OF this]
    have N: "Graph_N g = length (dump_nodes rs)" "length (Size g) = Graph_N g"
      using object_graphD(1) [OF g(2)] object_graph_lengths(3) [OF g(2)] by simp_all
    obtain roots where dg: "dom_graph g (dump_edges (lay (Classes ?m)) rs) roots (Graph_N g)"
      using ar N n e by (auto simp: dom_graph_def)
    obtain d u where D: "Dominators g = Inr (d, g\<lparr>Unreach := u\<rparr>)" "dom_ok g d"
      using Dominators_dom_ok [OF dg N(2)] .
    then have "load_graph path (Some (enc_dump hdr ts rs)) cmd = Inr (g\<lparr>Unreach := u\<rparr>, d)"
      using True load by (simp add: load_graph_def)
    then show ?thesis by (rule that) (use g(2,5,6) ar(1) D(2) dg in \<open>auto simp: loaded_def className_def fun_eq_iff\<close>)
  next
    case False
    then have "load_graph path (Some (enc_dump hdr ts rs)) cmd = Inr (g, new_dom 0)"
      using load by (simp add: load_graph_def)
    then show ?thesis by (rule that) (use g(2,3,5,6) False in \<open>auto simp: loaded_def className_def fun_eq_iff\<close>)
  qed
qed

lemma loaded_object_graph:
  assumes "analysable path hdr ts rs" "load_graph path (Some (enc_dump hdr ts rs)) cmd = Inr (g, d)"
  shows "object_graph (enc_dump hdr ts rs) (dump_nodes rs) g" "lay (Classes (M g)) = lay (Classes (dump_meta path hdr ts rs))"
    "className (M g) = className (dump_meta path hdr ts rs)"
  by (rule load_graph_dump [OF assms(1), of cmd], use assms(2) in \<open>simp add: loaded_def\<close>)+

text \<open>The commands that render values, and those that need the flag \<open>-class\<close>.\<close>

definition renders :: "string \<Rightarrow> bool" where
  "renders cmd \<longleftrightarrow> cmd \<in> {''inspect'', ''amqp'', ''report''}"

definition class_missing :: "string \<Rightarrow> flags \<Rightarrow> bool" where
  "class_missing cmd fl \<longleftrightarrow> cmd \<in> {''inspect'', ''paths''} \<and> fl_class fl = []"

lemma safe_run_command:
  assumes l: "loaded file xs cmd g d" and n: "Graph_N g \<le> 2 ^ 53" and R: "\<And>ts. set (top_order R ts) \<subseteq> set ts"
    and J: "renders cmd \<Longrightarrow> so \<or> jdk_values file g" and r: "run_command L R now file g d cmd fl q = Some r"
  shows "safe L so r \<or> r = Inl (NeedsClass cmd) \<and> class_missing cmd fl"
proof -
  have G: "object_graph file xs g" using l by (simp add: loaded_def)
  note bits = needs_edges_def needs_dom_def loaded_def
  have paths: "safe L so (cmdPaths L file g d p k q)" if c: "cmd = ''paths''" for p k
  proof -
    obtain es roots n where "dom_ok g d" "dom_graph g es roots n" using l c by (auto simp: bits)
    then show ?thesis by (rule safe_cmdPaths [OF G])
  qed
  have holders: "safe L so (cmdHolders L R g p k q)" if c: "cmd = ''holders''" for p k
  proof -
    obtain es where "adjacency g es" using l c by (auto simp: bits)
    then show ?thesis by (rule safe_cmdHolders [OF G])
  qed
  have amqp: "safe L so (cmdAMQP L R file g k j re q)" if c: "cmd = ''amqp''" for k j re
  proof -
    obtain es where "adjacency g es" using l c by (auto simp: bits)
    then show ?thesis using J c by (auto simp: renders_def intro: safe_cmdAMQP [OF G _ n])
  qed
  have retained: "safe L so (cmdRetained L R g d k mb q)" if c: "cmd = ''retained''" for k mb
  proof -
    have "dom_ok g d" using l c by (auto simp: bits)
    then show ?thesis by (rule safe_cmdRetained [OF G _ R])
  qed
  have report: "safe L so (buildReport L R now file g d k f s re q)" if c: "cmd = ''report''" for k f s re
  proof -
    obtain es where "adjacency g es" "dom_ok g d" using l c by (auto simp: bits)
    then show ?thesis using J c by (auto simp: renders_def intro: safe_buildReport [OF G _ _ n R])
  qed
  have inspect: "safe L so (cmdInspect L file g p k ff q)" if "cmd = ''inspect''" for p k ff
    using J that by (auto simp: renders_def intro: safe_cmdInspect [OF G])
  show ?thesis
    using r paths holders amqp retained report inspect safe_cmdSummary [OF G] safe_cmdHisto [OF G] safe_cmdThreads [OF G]
    unfolding run_command_def by (auto simp: class_missing_def split: if_splits)
qed

text \<open>
  How the program may end, given whether the values of the dump are those of the JDK: the command has
  printed or written its report, or the usage is shown, or a failure has a cause outside the program.
\<close>

fun ends_well :: "golib \<Rightarrow> (string \<Rightarrow> bool) \<Rightarrow> flags \<Rightarrow> bool \<Rightarrow> string \<Rightarrow> ending \<Rightarrow> bool" where
  "ends_well L writable fl jdk cmd (Printed s) \<longleftrightarrow> cmd \<noteq> ''report''"
| "ends_well L writable fl jdk cmd (ReportWritten name s) \<longleftrightarrow> cmd = ''report'' \<and> writable name"
| "ends_well L writable fl jdk cmd (UsageShown s) \<longleftrightarrow>
     cmd \<notin> set [''summary'', ''histo'', ''holders'', ''retained'', ''threads'', ''amqp'', ''inspect'', ''paths'', ''report'']"
| "ends_well L writable fl jdk cmd FlagError \<longleftrightarrow> False"
| "ends_well L writable fl jdk cmd (Crashed e) \<longleftrightarrow>
     benign L (renders cmd \<and> \<not> jdk) e \<or> e = NeedsClass cmd \<and> class_missing cmd fl \<or>
     cmd = ''report'' \<and> (\<exists>name. e = CannotWrite name \<and> \<not> writable name)"

lemma run_command_known:
  "run_command L R now fl g d cmd flags q = None \<longleftrightarrow>
     cmd \<notin> set [''summary'', ''histo'', ''holders'', ''retained'', ''threads'', ''amqp'', ''inspect'', ''paths'', ''report'']"
  by (simp add: run_command_def)

lemma analyse_ends_well:
  assumes an: "analysable path hdr ts rs" and R: "\<And>ts. set (top_order R ts) \<subseteq> set ts"
  obtains g d where "load_graph path (Some (enc_dump hdr ts rs)) cmd = Inr (g, d)"
    "ends_well L writable fl (jdk_values (enc_dump hdr ts rs) g) cmd (analyse L R now writable path (Some (enc_dump hdr ts rs)) cmd fl)"
proof -
  let ?file = "enc_dump hdr ts rs"
  obtain g d where load: "load_graph path (Some ?file) cmd = Inr (g, d)" and l: "loaded ?file (dump_nodes rs) cmd g d"
    by (rule load_graph_dump [OF an])
  have "length (dump_nodes rs) < 2 ^ 31" using an by (simp add: analysable_def)
  then have "Graph_N g \<le> 2 ^ 53" using l object_graphD(1) [of ?file "dump_nodes rs" g] by (simp add: loaded_def)
  note run = safe_run_command [OF l this R, of "renders cmd \<and> \<not> jdk_values ?file g" L now fl "newOut (cmd = ''report'')"]
  let ?r = "run_command L R now ?file g d cmd fl (newOut (cmd = ''report''))"
  have "ends_well L writable fl (jdk_values ?file g) cmd (analyse L R now writable path (Some ?file) cmd fl)"
  proof (cases ?r)
    case None
    then show ?thesis using load run_command_known [of L R now ?file g d cmd fl] by (simp add: analyse_def)
  next
    case (Some r)
    then show ?thesis using run [OF _ Some] load by (cases r) (auto simp: analyse_def calm_def Let_def)
  qed
  with load show ?thesis by (rule that)
qed

end
