(* ===== verification/Hprof_Tally.thy ===== *)
theory Hprof_Tally
  imports Hprof_Safe
begin

text \<open>
  What the tallies of the reports count: the histogram has one row per class name, with the exact number
  and bytes of its objects; percentiles are elements of the sample and grow with the rank; the buckets
  of the backlog ages count every positive age once.
\<close>

subsection \<open>Sums that fit\<close>

lemma int64_id: "- (2 ^ 63) \<le> x \<Longrightarrow> x < 2 ^ 63 \<Longrightarrow> int64 x = x"
  by (simp add: int64_def)

lemma sum_list_bound:
  "(\<And>x. x \<in> set xs \<Longrightarrow> \<bar>x\<bar> \<le> (c :: int)) \<Longrightarrow> \<bar>sum_list xs\<bar> \<le> int (length xs) * c"
proof (induction xs)
  case (Cons x xs)
  have "\<bar>x\<bar> \<le> c" "\<bar>sum_list xs\<bar> \<le> int (length xs) * c" using Cons by simp_all
  then show ?case by (simp add: algebra_simps)
qed simp

definition small_sizes :: "Graph \<Rightarrow> bool" where
  "small_sizes g \<longleftrightarrow> Graph_N g < 2 ^ 31 \<and> (\<forall>i < Graph_N g. \<bar>Size g ! i\<bar> \<le> 2 ^ 31)"

lemma object_graph_small:
  assumes "object_graph fl xs g" "length xs < 2 ^ 31"
  shows "small_sizes g"
proof -
  have "\<bar>int32 x\<bar> \<le> 2 ^ 31" for x using int32_bounds [of x] by simp
  with assms object_graphD [OF assms(1)] show ?thesis by (simp add: small_sizes_def)
qed

lemma sizes_fit:
  assumes "small_sizes g" "length is < 2 ^ 31" "\<And>i. i \<in> set is \<Longrightarrow> i < Graph_N g" "j < Graph_N g"
  shows "int64 (sum_list (map ((!) (Size g)) is) + Size g ! j) = sum_list (map ((!) (Size g)) is) + Size g ! j"
proof -
  have "\<bar>sum_list (map ((!) (Size g)) is)\<bar> \<le> int (length (map ((!) (Size g)) is)) * 2 ^ 31"
    by (rule sum_list_bound) (use assms in \<open>auto simp: small_sizes_def\<close>)
  moreover have "int (length is) * 2 ^ 31 \<le> 2 ^ 31 * 2 ^ 31" using assms(2) by simp
  moreover have "\<bar>Size g ! j\<bar> \<le> 2 ^ 31" using assms(1,4) by (simp add: small_sizes_def)
  ultimately show ?thesis by (intro int64_id) simp_all
qed

subsection \<open>The histogram\<close>

definition counted :: "Graph \<Rightarrow> nat list \<Rightarrow> nat list" where
  "counted g is = filter (\<lambda>i. Kind g ! i \<noteq> kindClass) is"

definition named :: "Graph \<Rightarrow> string \<Rightarrow> nat list \<Rightarrow> nat list" where
  "named g name is = filter (\<lambda>i. Graph_Name g (int i) = Inr name) (counted g is)"

definition row_of :: "Graph \<Rightarrow> nat list \<Rightarrow> tally option" where
  "row_of g is = (if is = [] then None
     else Some \<lparr>tl_Count = int (length is), tl_Bytes = sum_list (map ((!) (Size g)) is)\<rparr>)"

definition histo_ok :: "Graph \<Rightarrow> nat list \<Rightarrow> tallies \<times> int \<Rightarrow> bool" where
  "histo_ok g is s \<longleftrightarrow> (\<forall>name. map_get (fst s) name = row_of g (named g name is)) \<and>
     snd s = sum_list (map ((!) (Size g)) (counted g is))"

lemma Graph_Name_total:
  assumes "object_graph fl xs g" "node g i"
  obtains name where "Graph_Name g i = Inr name"
proof (cases "Graph_Name g i")
  case (Inl e)
  then have "\<not> benign L True e" by (auto simp: Graph_Name_def aget_def split: if_splits kind.splits)
  then show ?thesis using safe_Graph_Name [OF assms, of L True] Inl by (simp add: calm_def)
qed (rule that)

lemma add_tally_row:
  assumes "small_sizes g" "length js < 2 ^ 31" "\<And>i. i \<in> set js \<Longrightarrow> i < Graph_N g" "j < Graph_N g"
    and "map_get m name = row_of g js"
  shows "map_get (add_tally m name (Size g ! j)) k = (if k = name then row_of g (js @ [j]) else map_get m k)"
  using sizes_fit [OF assms(1-4)] assms(2,5) int64_id [of "Size g ! j"] assms(1,4)
  by (auto simp: add_tally_def row_of_def Let_def int64_id abs_le_iff small_sizes_def)

lemma histo_step_ok:
  assumes G: "object_graph fl xs g" and s: "small_sizes g" and h: "histo_ok g is st"
    and nodes: "length is < 2 ^ 31" "\<And>i. i \<in> set is \<Longrightarrow> i < Graph_N g" and j: "j < Graph_N g"
  shows "\<exists>st'. histo_step g (int j) st = Inr st' \<and> histo_ok g (is @ [j]) st'"
proof (cases "Kind g ! j = kindClass")
  case True
  then show ?thesis using h j object_graph_lengths [OF G]
    by (cases st) (simp add: histo_step_def aget_def histo_ok_def named_def counted_def)
next
  case False
  obtain stats tot where st: "st = (stats, tot)" by fastforce
  obtain name where name: "Graph_Name g (int j) = Inr name" using Graph_Name_total [OF G, of "int j"] j by auto
  have len: "length (named g name is) < 2 ^ 31" "length (counted g is) < 2 ^ 31"
    unfolding named_def counted_def by (rule le_less_trans [OF length_filter_le] nodes(1))+
  have sub: "i \<in> set (named g name is) \<Longrightarrow> i < Graph_N g" "i \<in> set (counted g is) \<Longrightarrow> i < Graph_N g" for i
    using nodes(2) by (auto simp: named_def counted_def)
  have step: "histo_step g (int j) st = Inr (add_tally stats name (Size g ! j), int64 (tot + Size g ! j))"
    using False j name object_graph_lengths [OF G] st by (simp add: histo_step_def aget_def)
  have tot: "int64 (tot + Size g ! j) = sum_list (map ((!) (Size g)) (counted g (is @ [j])))"
    using h st sizes_fit [OF s len(2) sub(2) j] False by (simp add: histo_ok_def counted_def)
  have get: "map_get stats name = row_of g (named g name is)" using h st by (simp add: histo_ok_def)
  have "map_get (add_tally stats name (Size g ! j)) k = row_of g (named g k (is @ [j]))" for k
    using h st name False add_tally_row [OF s len(1) sub(1) j get, of k] by (simp add: named_def counted_def histo_ok_def)
  then show ?thesis using step tot by (simp add: histo_ok_def)
qed

lemma histo_stats_ok:
  assumes G: "object_graph fl xs g" and s: "small_sizes g"
  shows "\<exists>st. histo_stats g = Inr st \<and> histo_ok g [0..<Graph_N g] st"
proof -
  have "\<exists>st. for_each (histo_step g) (map int [0..<k]) (map_new, 0) = Inr st \<and> histo_ok g [0..<k] st" if "k \<le> Graph_N g" for k
    using that
  proof (induction k)
    case 0
    then show ?case by (simp add: histo_ok_def named_def counted_def row_of_def map_get_conv)
  next
    case (Suc k)
    then obtain st where st: "for_each (histo_step g) (map int [0..<k]) (map_new, 0) = Inr st" "histo_ok g [0..<k] st" by auto
    have k: "length [0..<k] < 2 ^ 31" "\<And>i. i \<in> set [0..<k] \<Longrightarrow> i < Graph_N g" "k < Graph_N g"
      using Suc.prems s by (auto simp: small_sizes_def)
    from histo_step_ok [OF G s st(2) k] show ?case using st(1) by (auto simp: for_each_append)
  qed
  then show ?thesis unfolding histo_stats_def node_range_def by simp
qed

lemma sortTally_rows:
  assumes "mset (ord (map_entries m)) = mset (map_entries m)"
  shows "(k, t) \<in> set (sortTally ord m b) \<longleftrightarrow> map_get m k = Some t" "distinct (map fst (sortTally ord m b))"
    "sorted (map (tally_key b) (sortTally ord m b))"
proof -
  have ms: "mset (sortTally ord m b) = mset (map_entries m)" using assms by (simp add: sortTally_def)
  then have "set (sortTally ord m b) = set (map_entries m)" by (rule mset_eq_setD)
  then show "(k, t) \<in> set (sortTally ord m b) \<longleftrightarrow> map_get m k = Some t" by (simp add: map_get_entries)
  have "mset (map fst (sortTally ord m b)) = mset (map fst (map_entries m))" using ms by (metis mset_map)
  then show "distinct (map fst (sortTally ord m b))" using mset_eq_imp_distinct_iff impl_of_distinct by blast
qed (simp add: sortTally_def)

subsection \<open>Percentiles\<close>

lemma pct_rank:
  assumes "xs \<noteq> []" "length xs \<le> 2 ^ 53" "0 \<le> p" "p \<le> 1"
  defines "k \<equiv> f_int64 (f_mul (f_of_int (int (length xs) - 1)) (f_const p))"
  shows "pct xs p = Inr (xs ! nat k)" "0 \<le> k" "nat k < length xs"
proof -
  have "0 \<le> int (length xs) - 1" "int (length xs) - 1 < 2 ^ 53" using assms(1,2) by (cases xs; simp)+
  note f = f_int64_scaled [OF this assms(3,4), folded k_def]
  then show "0 \<le> k" by simp
  show "nat k < length xs" using f assms(1) by (cases xs) auto
  then show "pct xs p = Inr (xs ! nat k)" using f(1) assms(1) by (simp add: pct_def k_def [symmetric] aget_def)
qed

lemma pct_mono:
  assumes "sorted xs" "xs \<noteq> []" "length xs \<le> 2 ^ 53" "0 \<le> p" "p \<le> q" "q \<le> 1"
  shows "\<exists>a b. pct xs p = Inr a \<and> pct xs q = Inr b \<and> a \<le> b \<and> a \<in> set xs \<and> b \<in> set xs"
proof -
  let ?n = "int (length xs) - 1"
  have n: "0 \<le> ?n" "?n < 2 ^ 53" using assms(2,3) by (cases xs; simp)+
  have pq: "p \<le> 1" "0 \<le> q" using assms(4-6) by simp_all
  have "of_int ?n * round53 p \<le> of_int ?n * round53 q"
    by (rule mult_left_mono [OF round53_mono [OF assms(5)]]) (use n(1) in \<open>simp only: of_int_0_le_iff\<close>)
  then have "f_int64 (f_mul (f_of_int ?n) (f_const p)) \<le> f_int64 (f_mul (f_of_int ?n) (f_const q))"
    unfolding f_int64_scaled(3) [OF n assms(4) pq(1)] f_int64_scaled(3) [OF n pq(2) assms(6)]
    by (intro floor_mono round53_mono)
  then show ?thesis
    using pct_rank [OF assms(2,3,4) pq(1)] pct_rank [OF assms(2,3) pq(2) assms(6)] sorted_nth_mono [OF assms(1)]
    by (simp add: nat_mono)
qed

subsection \<open>Buckets\<close>

lemma bucket_counts_sum:
  "sorted (prev # bs) \<Longrightarrow> sum_list (bucket_counts ages prev bs) = length (filter (\<lambda>a. a > prev \<and> a \<le> last (prev # bs)) ages)"
proof (induction bs arbitrary: prev)
  case (Cons b bs)
  have le: "prev \<le> b" "b \<le> last (b # bs)" using Cons.prems by (auto intro: last_in_set)
  have "length (filter (\<lambda>a. a > prev \<and> a \<le> b) ages) + length (filter (\<lambda>a. a > b \<and> a \<le> last (b # bs)) ages) =
      length (filter (\<lambda>a. a > prev \<and> a \<le> last (b # bs)) ages)"
    using le by (induction ages) auto
  then show ?case using Cons by (simp add: bucket_count_def)
qed (induction ages; simp)

end
