(* ===== verification/Heap_Reports.thy ===== *)
theory Heap_Reports
  imports Heapdump Hprof_Total Hprof_Tally Hprof_Rendering
begin

text \<open>
  The properties of what \<open>hprofx\<close> prints: the program as a whole, the values that the inspection reads
  back from the file, and the numbers in the reports.
\<close>

section \<open>The program\<close>

text \<open>C13: On a well-formed dump (object ids distinct, counts that fit \<open>int32\<close>) the program does not panic,
  whatever the command, its flags, the patterns and the order of equal rows: the dump is loaded; a known
  command ends with its text printed, or for \<open>report\<close> written to a writable file; an unknown one shows the
  usage. The only failures are a pattern that does not compile, an age pattern without a group, a
  missing \<open>-class\<close> for \<open>inspect\<close> and \<open>paths\<close>, a report file that cannot be written, and in the commands that
  render values (\<open>inspect\<close>, \<open>amqp\<close>, \<open>report\<close>) an endless rendering; the last never happens when the values
  are as in the JDK, that is, boxed values are primitive and container sizes primitive or boxed.\<close>

theorem analysis_never_panics:
  assumes "analysable path hdr ts rs" "files path = Some (enc_dump hdr ts rs)"
    and "\<And>xs. mset (top_order R xs) = mset xs"
    and "length args \<ge> 3" "args ! 1 = path" "parse (args ! 2) (drop 3 args) = Some fl"
  shows "\<exists>g d. load_graph path (files path) (args ! 2) = Inr (g, d) \<and>
    ends_well L writable fl (jdk_values (enc_dump hdr ts rs) g) (args ! 2) (hprofx_main L R now writable parse files args)"
proof -
  have "set (top_order R xs) \<subseteq> set xs" for xs using mset_eq_setD [OF assms(3), of xs] by simp
  then show ?thesis
    by (rule analyse_ends_well [OF assms(1), of R "args ! 2" L writable fl now]) (use assms(2,4-6) in \<open>auto simp: hprofx_main_def\<close>)
qed

section \<open>Values read back\<close>

text \<open>C30: The fields of an object are read back as they were written. When the body of an instance is the
  encoding of one value per field of its class layout (own fields, then those of the superclasses),
  possibly with padding behind, \<open>Fields\<close> returns exactly these names, types and values in order.\<close>

theorem fields_are_read:
  assumes "analysable path hdr ts rs" "load_graph path (Some (enc_dump hdr ts rs)) cmd = Inr (g, d)"
    and "i < length (dump_nodes rs)" "dump_nodes rs ! i = SInstance oid tr cid (enc_slots fs vs @ rest)"
    and "fs = lay (Classes (dump_meta path hdr ts rs)) cid" "slots_ok fs vs"
  shows "Fields (enc_dump hdr ts rs) g (int i) =
    Inr (map (\<lambda>(f, v). \<lparr>fv_Name = f_name f, fv_Type = f_typ f, fv_Raw = v\<rparr>) (zip fs vs))"
proof -
  note G = loaded_object_graph [OF assms(1,2)]
  show ?thesis using Fields_instance [OF G(1) assms(3,4)] body_fields_enc [OF assms(6)] assms(5) G(2) by simp
qed

text \<open>C31: Java strings are decoded. For an instance of \<open>java.lang.String\<close> whose field \<open>value\<close> refers to the
  array of a text of Unicode scalar values (UTF-16 units in a \<open>char[]\<close>; in a \<open>byte[]\<close> little-endian
  UTF-16 with coder 1, or ASCII with another coder or none) of at most 1 MiB, \<open>StringOf\<close> returns the
  text in UTF-8.\<close>

theorem java_strings_are_decoded:
  assumes "analysable path hdr ts rs" "load_graph path (Some (enc_dump hdr ts rs)) cmd = Inr (g, d)"
    and "i < length (dump_nodes rs)" "dump_nodes rs ! i = SInstance oid tr cid body"
    and "className (dump_meta path hdr ts rs) cid = ''java.lang.String''"
    and "string_slots (body_fields (lay (Classes (dump_meta path hdr ts rs)) cid) body) (0, None) = (aid, coder)"
    and "j < length (dump_nodes rs)" "dump_nodes rs ! j = SPrimArray aid tr' t vs" "length (prim_body t vs) \<le> 2 ^ 20"
    and "list_all scalar chars" "java_string chars coder t vs"
  shows "StringOf (enc_dump hdr ts rs) g (int i) = Inr (Some (utf8_string chars))"
proof -
  note G = loaded_object_graph [OF assms(1,2)]
  show ?thesis
    by (rule StringOf_ok [OF G(1) assms(3,4)]) (use G(2,3) assms(5-) in simp_all)
qed

text \<open>C33: The label of a reference names the slot that holds it. For every edge of the object graph the label
  is, for an instance, a dot and the name of a reference field with the id of the target; for an array of
  at most 2^20 elements, the index of an element with that id; for a class, the word for a static.\<close>

theorem edge_labels_name_references:
  assumes "analysable path hdr ts rs" "load_graph path (Some (enc_dump hdr ts rs)) cmd = Inr (g, d)"
    and "layout = lay (Classes (dump_meta path hdr ts rs))" "(i, j) \<in> set (dump_edges layout rs)"
  shows "case dump_nodes rs ! i of
      SInstance oid tr cid body \<Rightarrow> \<exists>f \<in> set (body_fields (layout cid) body).
        fv_Type f = 2 \<and> fv_Raw f = obj_id (dump_nodes rs ! j) \<and>
        EdgeLabel (enc_dump hdr ts rs) g (int i) (int j) = Inr (''.'' @ fv_Name f)
    | SObjArray oid tr cid es \<Rightarrow> length es \<le> 2 ^ 20 \<longrightarrow> (\<exists>k < length es. es ! k = obj_id (dump_nodes rs ! j) \<and>
        EdgeLabel (enc_dump hdr ts rs) g (int i) (int j) = Inr (''['' @ fmt_d (int k) @ '']''))
    | SClass cd \<Rightarrow> EdgeLabel (enc_dump hdr ts rs) g (int i) (int j) = Inr '' (static)''
    | _ \<Rightarrow> False"
proof -
  note G = loaded_object_graph [OF assms(1,2)]
  obtain x where x: "x \<in> set (dump_nodes rs)" "(i, j) \<in> set (node_edges (map obj_id (dump_nodes rs)) layout x)"
    using assms(4) by (auto simp: dump_edges_def)
  note e = node_edges_refs [OF G(1) x(2,1)]
  show ?thesis
  proof (cases "dump_nodes rs ! i")
    case (SInstance oid tr cid body)
    then have "obj_id (dump_nodes rs ! j) \<in> set (layout_refs (lay (Classes (M g)) cid) body)" using e(3,4) G(2) assms(3) by auto
    from EdgeLabel_instance [OF G(1) e(1) SInstance e(2) this] show ?thesis using SInstance G(2) assms(3) by auto
  next
    case (SObjArray oid tr cid es)
    then have "obj_id (dump_nodes rs ! j) \<in> set es" using e(3,4) by auto
    from EdgeLabel_array [OF G(1) e(1) SObjArray e(2) this] show ?thesis using SObjArray by auto
  qed (use e(3,4) object_graph_at(3) [OF G(1) e(1)] in \<open>auto simp: EdgeLabel_def\<close>)
qed

section \<open>Numbers in the reports\<close>

text \<open>C32: The histogram is exact. On a well-formed dump \<open>histo_stats\<close> returns; its rows are the names of the
  objects that are not classes, each once, with the number of its objects and the sum of their sizes
  (no sum overflows); the total is the sum of the sizes of all of them; and however map iteration and the
  sort order equal rows, the sorted table holds every row once, largest first.\<close>

theorem histogram_is_exact:
  assumes "analysable path hdr ts rs" "load_graph path (Some (enc_dump hdr ts rs)) cmd = Inr (g, d)"
  shows "\<exists>stats tot. histo_stats g = Inr (stats, tot) \<and>
    (\<forall>name. map_get stats name = row_of g (named g name [0..<Graph_N g])) \<and>
    tot = sum_list (map ((!) (Size g)) (counted g [0..<Graph_N g])) \<and>
    (\<forall>ord byBytes. mset (ord (map_entries stats)) = mset (map_entries stats) \<longrightarrow>
       (\<forall>name t. (name, t) \<in> set (sortTally ord stats byBytes) \<longleftrightarrow> map_get stats name = Some t) \<and>
       distinct (map fst (sortTally ord stats byBytes)) \<and> sorted (map (tally_key byBytes) (sortTally ord stats byBytes)))"
proof -
  note G = loaded_object_graph [OF assms(1,2)]
  have "small_sizes g" using object_graph_small [OF G(1)] assms(1) by (simp add: analysable_def)
  from histo_stats_ok [OF G(1) this] obtain stats tot where h: "histo_stats g = Inr (stats, tot)" "histo_ok g [0..<Graph_N g] (stats, tot)"
    by auto
  then show ?thesis using sortTally_rows [of _ stats] by (intro exI [of _ stats] exI [of _ tot]) (simp add: histo_ok_def)
qed

text \<open>Percentiles are elements of the sample and ordered: for a sorted sample of at most 2^53 values and
  ranks between 0 and 1, the rank computed in floating point is an index of the sample, so that \<open>pct\<close>
  does not panic, and a higher rank never gives a smaller value.\<close>

theorem percentiles_are_ordered:
  assumes "sorted xs" "xs \<noteq> []" "length xs \<le> 2 ^ 53" "0 \<le> p" "p \<le> q" "q \<le> 1"
  shows "\<exists>a b. pct xs p = Inr a \<and> pct xs q = Inr b \<and> a \<le> b \<and> a \<in> set xs \<and> b \<in> set xs"
  using assms by (rule pct_mono)

theorem percentiles_are_ordered_witness:
  "\<exists>a b. pct [3, 5, 8] (1 / 100) = Inr a \<and> pct [3, 5, 8] (99 / 100) = Inr b \<and> a \<le> b \<and> a \<in> {3, 5, 8} \<and> b \<in> {3, 5, 8}"
  using percentiles_are_ordered [of "[3, 5, 8]" "1 / 100" "99 / 100"] by simp

text \<open>C36: The age buckets of the AMQP report count every positive age (up to 2^62 ms, the last bound) once and an age of zero not at all: the
  first bucket starts behind 0, so the counts of the table add up to the number of positive ages, while the
  line above it gives the number of all ages.\<close>

theorem age_buckets_miss_zero:
  assumes "ages = backlog_ages dumpTime stamps" "\<forall>a \<in> set ages. a \<le> 2 ^ 62"
  shows "sum_list (bucket_counts ages 0 ageBuckets) = length ages - count (mset ages) 0"
proof -
  have "filter (\<lambda>a. a > 0 \<and> a \<le> 2 ^ 62) ages = filter (\<lambda>a. a \<noteq> 0) ages"
    by (rule filter_cong) (use assms in \<open>auto simp: backlog_ages_def\<close>)
  moreover have "length (filter (\<lambda>a. a \<noteq> 0) ages) + count (mset ages) 0 = length ages"
    by (induction ages) auto
  ultimately show ?thesis using bucket_counts_sum [of 0 ageBuckets ages] by (auto simp: ageBuckets_def)
qed

theorem age_buckets_miss_zero_witness:
  "sum_list (bucket_counts [0, 0, 5000] 0 ageBuckets) = 1"
  using age_buckets_miss_zero [of "[0, 0, 5000]" 5000 "[5000, 0, 5000]"]
  by (simp add: backlog_ages_def int64_def)

section \<open>Rendering\<close>

text \<open>C34: The rendering of field values ends and returns on a well-formed dump in which, as in the classes of
  the JDK, the value of a boxed object is primitive and the size field of a container is primitive or refers
  to a boxed counter: every field is rendered, whatever cycles the references form.\<close>

theorem rendering_returns:
  assumes "analysable path hdr ts rs" "load_graph path (Some (enc_dump hdr ts rs)) cmd = Inr (g, d)"
    and "jdk_values (enc_dump hdr ts rs) g"
  shows "\<exists>s. Render L (enc_dump hdr ts rs) g f = Inr s"
  using Render_returns [OF loaded_object_graph(1) [OF assms(1,2)] assms(3)] .

text \<open>C35: Without that condition it may not end: when the class of an object is called like a boxed type and
  its field \<open>value\<close> is a reference to the object itself (and it has no field called \<open>name\<close>), \<open>RenderRef\<close> calls itself on the same reference for
  ever, so that every number of levels is exhausted.\<close>

theorem self_reference_is_followed_forever:
  assumes "analysable path hdr ts rs" "load_graph path (Some (enc_dump hdr ts rs)) cmd = Inr (g, d)"
    and "i < length (dump_nodes rs)" "dump_nodes rs ! i = SInstance oid tr cid body" "oid \<noteq> 0"
    and "className (dump_meta path hdr ts rs) cid \<in> set boxedField"
    and "fs = body_fields (lay (Classes (dump_meta path hdr ts rs)) cid) body"
    and "find_field_value ''value'' fs = Some vf" "fv_Type vf = 2" "fv_Raw vf = oid" "find_field_value ''name'' fs = None"
  shows "RenderRef L (enc_dump hdr ts rs) g depth oid = Inl StackOverflow"
proof -
  note G = loaded_object_graph [OF assms(1,2)]
  note at = object_graph_at [OF G(1) assms(3)]
  have i: "Lookup g oid = int i" using object_graph_Lookup [OF G(1) assms(3)] assms(4) by simp
  have name: "Graph_Name g (int i) = Inr (className (dump_meta path hdr ts rs) cid)"
    using at assms(4) G(3) by (simp add: Graph_Name_def)
  have F: "Fields (enc_dump hdr ts rs) g (int i) = Inr fs"
    using Fields_instance [OF G(1) assms(3,4)] G(2) assms(7) by simp
  have "className (dump_meta path hdr ts rs) cid \<noteq> ''java.lang.String''" using assms(6) by (auto simp: boxedField_def)
  then have "StringOf (enc_dump hdr ts rs) g (int i) = Inr None" using at assms(4) G(3) by (simp add: StringOf_def)
  moreover have "enum_name (enc_dump hdr ts rs) g (int i) = Inr None"
    using at assms(4,11) F by (simp add: enum_name_def Field_def)
  ultimately show ?thesis
    using RenderRef_cycle [OF assms(5), of g "className (dump_meta path hdr ts rs) cid" "enc_dump hdr ts rs" vf] i name assms(6,8-10) F
    by (simp add: Field_def)
qed

section \<open>The properties on sample dumps\<close>

lemma sample_analysable: "analysable ''a.hprof'' sample_header 5 sample_records"
proof -
  have "length (dump_nodes sample_records) = 6" using arg_cong [OF sample_nodes, of length] by simp
  then show ?thesis using sample_ok sample_distinct unfolding analysable_def sample_edges by simp
qed

abbreviation sample_dump :: "u8 list" where
  "sample_dump \<equiv> enc_dump sample_header 5 sample_records"

definition sample_lib :: golib where
  "sample_lib = \<lparr>IsPrint = (\<lambda>r. 32 \<le> r \<and> r < 127), unicode_ToUpper = id, fmt_g32 = (\<lambda>_. ''0''), fmt_g64 = (\<lambda>_. ''0''),
     Sscan_int64 = (\<lambda>_. None), Compile = (\<lambda>_. None)\<rparr>"

definition sample_orders :: orders where
  "sample_orders = \<lparr>tally_order = (\<lambda>_ rows. rows), top_order = rev, key_order = id\<rparr>"

lemma sample_loaded:
  obtains g d where "load_graph ''a.hprof'' (Some sample_dump) cmd = Inr (g, d)"
  using load_graph_dump [OF sample_analysable] .

lemma sample_node_list:
  "dump_nodes sample_records = [SClass sample_object_class, SClass sample_node_class,
      SInstance 200 1 101 (enc_u8 201 @ enc_u4 7), SInstance 201 1 101 (enc_u8 200 @ enc_u4 9),
      SObjArray 300 1 102 [200, 0, 201], SPrimArray 400 1 8 [65, 66, 67]]"
  by (simp add: dump_nodes_def sample_records_def sample_subs_def)

theorem fields_are_read_witness:
  "\<exists>g d. load_graph ''a.hprof'' (Some sample_dump) ''inspect'' = Inr (g, d) \<and>
    Fields sample_dump g 2 = Inr [\<lparr>fv_Name = ''next'', fv_Type = 2, fv_Raw = 201\<rparr>, \<lparr>fv_Name = ''value'', fv_Type = 10, fv_Raw = 7\<rparr>]"
proof -
  obtain g d where l: "load_graph ''a.hprof'' (Some sample_dump) ''inspect'' = Inr (g, d)" using sample_loaded .
  let ?fs = "[\<lparr>f_name = ''next'', f_typ = 2\<rparr>, \<lparr>f_name = ''value'', f_typ = 10\<rparr>]"
  have "dump_nodes sample_records ! 2 = SInstance 200 1 101 (enc_slots ?fs [201, 7] @ [])" "2 < length (dump_nodes sample_records)"
    by (simp_all add: sample_node_list enc_slots_def enc_value_def typeSize_def enc_u8_def enc_u4_def)
  moreover have "slots_ok ?fs [201, 7]"
    by (simp add: slots_ok_def typed_value_def valid_type_def value_fits_def typeSize_def)
  ultimately show ?thesis using fields_are_read [OF sample_analysable l _ _ sample_lay [symmetric]] l by force
qed

theorem edge_labels_name_references_witness:
  "\<exists>g d. load_graph ''a.hprof'' (Some sample_dump) ''paths'' = Inr (g, d) \<and> EdgeLabel sample_dump g 2 3 = Inr ''.next''"
proof -
  obtain g d where l: "load_graph ''a.hprof'' (Some sample_dump) ''paths'' = Inr (g, d)" using sample_loaded .
  have e: "(2, 3) \<in> set (dump_edges (lay (Classes sample_meta)) sample_records)" by (simp add: sample_edges)
  have "fv_Name f = ''next''" if "f \<in> set (body_fields (lay (Classes sample_meta) 101) (enc_u8 201 @ enc_u4 7))" "fv_Type f = 2" for f
    using that by (auto simp: sample_lay typeSize_def split: if_splits)
  then show ?thesis using edge_labels_name_references [OF sample_analysable l refl e] l by (auto simp: sample_node_list)
qed

lemma sample_class_names:
  "className sample_meta 100 = ''java.lang.Object''" "className sample_meta 101 = ''demo.Node''"
  "className sample_meta 102 = ''<class 0x'' @ fmt_x 102 @ ''>''"
  by (simp_all add: className_def dump_meta_def buildLayouts_def sample_classes build.simps map_get_conv Let_def lookup_update)

lemma sample_names:
  assumes "load_graph ''a.hprof'' (Some sample_dump) cmd = Inr (g, d)"
  shows "Graph_N g = 6" "Kind g = [kindClass, kindClass, kindInstance, kindInstance, kindObjArray, kindPrimArray]"
    "Graph_Name g 0 = Inr ''class java.lang.Object''" "Graph_Name g 1 = Inr ''class demo.Node''"
    "Graph_Name g 2 = Inr ''demo.Node''" "Graph_Name g 3 = Inr ''demo.Node''"
    "Graph_Name g 4 = Inr (''<class 0x'' @ fmt_x 102 @ ''>'')" "Graph_Name g 5 = Inr ''byte[]''"
proof -
  note G = loaded_object_graph [OF sample_analysable assms]
  note D = object_graphD [OF G(1), unfolded sample_node_list]
  show n: "Graph_N g = 6" and k: "Kind g = [kindClass, kindClass, kindInstance, kindInstance, kindObjArray, kindPrimArray]"
    using D(1,5) by simp_all
  have c: "ClassOf g = [100, 101, 101, 101, 102, 8]" using D(3) by (simp add: sample_object_class_def sample_node_class_def)
  show "Graph_Name g 0 = Inr ''class java.lang.Object''" "Graph_Name g 1 = Inr ''class demo.Node''"
    "Graph_Name g 2 = Inr ''demo.Node''" "Graph_Name g 3 = Inr ''demo.Node''"
    "Graph_Name g 4 = Inr (''<class 0x'' @ fmt_x 102 @ ''>'')" "Graph_Name g 5 = Inr ''byte[]''"
    by (simp_all add: Graph_Name_def k c aget_def G(3) sample_class_names typeName_def)
qed

theorem histogram_is_exact_witness:
  "\<exists>g d stats tot t. load_graph ''a.hprof'' (Some sample_dump) ''histo'' = Inr (g, d) \<and> histo_stats g = Inr (stats, tot) \<and>
    map_get stats ''demo.Node'' = Some t \<and> tl_Count t = 2"
proof -
  obtain g d where l: "load_graph ''a.hprof'' (Some sample_dump) ''histo'' = Inr (g, d)" using sample_loaded .
  note N = sample_names [OF l]
  have "named g ''demo.Node'' [0..<6] = [2, 3]" using N by (simp add: named_def counted_def upt_conv_Cons)
  then have "row_of g (named g ''demo.Node'' [0..<Graph_N g]) = Some \<lparr>tl_Count = 2, tl_Bytes = Size g ! 2 + Size g ! 3\<rparr>"
    using N(1) by (simp add: row_of_def)
  moreover obtain stats tot where h: "histo_stats g = Inr (stats, tot)"
      "\<forall>name. map_get stats name = row_of g (named g name [0..<Graph_N g])"
    using histogram_is_exact [OF sample_analysable l] by (elim exE conjE) (rule that)
  ultimately have "map_get stats ''demo.Node'' = Some \<lparr>tl_Count = 2, tl_Bytes = Size g ! 2 + Size g ! 3\<rparr>" by simp
  with l h(1) show ?thesis by (metis tally.select_convs(1))
qed

lemma sample_jdk_values:
  assumes l: "load_graph ''a.hprof'' (Some sample_dump) cmd = Inr (g, d)"
  shows "jdk_values sample_dump g"
proof -
  note N = sample_names [OF l]
  have "name \<notin> set boxedField \<and> map_of sizeFields name = None" if n: "node g i" "Graph_Name g i = Inr name" for i name
  proof -
    have "i = 0 \<or> i = 1 \<or> i = 2 \<or> i = 3 \<or> i = 4 \<or> i = 5" using n(1) N(1) by linarith
    then have "name = ''class java.lang.Object'' \<or> name = ''class demo.Node'' \<or> name = ''demo.Node'' \<or>
        name = ''<class 0x'' @ fmt_x 102 @ ''>'' \<or> name = ''byte[]''"
      by (elim disjE) (use n(2) N in simp_all)
    then show ?thesis by (elim disjE) (simp_all add: boxedField_def sizeFields_def)
  qed
  then show ?thesis by (auto simp: jdk_values_def boxed_object_def)
qed

text \<open>With patterns that all compile the sample dump leaves no failure: the report is written.\<close>

theorem analysis_never_panics_witness:
  "\<exists>name s. hprofx_main (sample_lib\<lparr>Compile := \<lambda>_. Some \<lparr>MatchString = \<lambda>_. True, NumSubexp = 1, FindSubmatch = \<lambda>_. []\<rparr>\<rparr>)
     sample_orders ''2024-01-01 00:00'' (\<lambda>_. True) (\<lambda>_ _. Some default_flags)
     (\<lambda>_. Some sample_dump) [''hprofx'', ''a.hprof'', ''report''] = ReportWritten name s"
proof -
  let ?L = "sample_lib\<lparr>Compile := \<lambda>_. Some \<lparr>MatchString = \<lambda>_. True, NumSubexp = 1, FindSubmatch = \<lambda>_. []\<rparr>\<rparr>"
  let ?e = "hprofx_main ?L sample_orders ''2024-01-01 00:00'' (\<lambda>_. True) (\<lambda>_ _. Some default_flags)
     (\<lambda>_. Some sample_dump) [''hprofx'', ''a.hprof'', ''report'']"
  obtain g d where "load_graph ''a.hprof'' (Some sample_dump) ''report'' = Inr (g, d)"
      "ends_well ?L (\<lambda>_. True) default_flags (jdk_values sample_dump g) ''report'' ?e"
    using analysis_never_panics [OF sample_analysable, of "\<lambda>_. Some sample_dump" sample_orders "[''hprofx'', ''a.hprof'', ''report'']"
      "\<lambda>_ _. Some default_flags" default_flags ?L "\<lambda>_. True" "''2024-01-01 00:00''"]
    by (auto simp: sample_orders_def)
  then have "ends_well ?L (\<lambda>_. True) default_flags True ''report'' ?e" using sample_jdk_values by simp
  then show ?thesis
  proof (cases ?e)
    case (Crashed e)
    with \<open>ends_well ?L _ _ True _ ?e\<close> show ?thesis by (cases e) (simp_all add: class_missing_def)
  qed simp_all
qed

theorem rendering_returns_witness:
  "\<exists>g d s. load_graph ''a.hprof'' (Some sample_dump) ''inspect'' = Inr (g, d) \<and>
    Render sample_lib sample_dump g \<lparr>fv_Name = ''next'', fv_Type = 2, fv_Raw = 201\<rparr> = Inr s"
proof -
  obtain g d where l: "load_graph ''a.hprof'' (Some sample_dump) ''inspect'' = Inr (g, d)" using sample_loaded .
  from rendering_returns [OF sample_analysable l sample_jdk_values [OF l]] l show ?thesis by blast
qed

text \<open>A dump with a string behind a UTF-16 byte array, and with an object called like a boxed type that
  refers to itself.\<close>

definition text_class :: "u64 \<Rightarrow> (u64 \<times> u8) list \<Rightarrow> class_dump" where
  "text_class cid flds = \<lparr>cd_id = cid, cd_trace = 0, cd_super = 0, cd_loader = 0, cd_signers = 0,
     cd_domain = 0, cd_reserved1 = 0, cd_reserved2 = 0, cd_instSize = 16, cd_consts = [], cd_statics = [], cd_fields = flds\<rparr>"

definition text_subs :: "subrec list" where
  "text_subs =
     [SClass (text_class 100 [(2, 2), (3, 8)]), SClass (text_class 110 [(2, 2)]),
      SInstance 200 1 100 (enc_u8 201 @ [1]), SPrimArray 201 1 8 [104, 0, 233, 0, 61, 216, 0, 222],
      SInstance 210 1 110 (enc_u8 210)]"

definition text_records :: "hprof_record list" where
  "text_records =
     [RString 0 1 (ascii ''java/lang/String''), RString 0 2 (ascii ''value''), RString 0 3 (ascii ''coder''),
      RString 0 4 (ascii ''java/lang/Integer''), RLoadClass 0 1 100 0 1, RLoadClass 0 2 110 0 4, RHeap 0 True text_subs]"

abbreviation text_file :: "u8 list" where
  "text_file \<equiv> enc_dump sample_header 5 text_records"

abbreviation text_meta :: Meta where
  "text_meta \<equiv> dump_meta ''a.hprof'' sample_header 5 text_records"

lemma text_ok: "dump_ok sample_header text_records"
  by (simp add: dump_ok_def header_ok_def ascii_nonzero sample_header_def text_records_def text_subs_def text_class_def rec_ok_def
      class_ok_def typed_value_def valid_type_def value_fits_def typeSize_def root_extra_def tag_defs enc_sub_def
      enc_class_def enc_const_def enc_static_def enc_field_def prim_body_def enc_value_def)

lemma text_nodes: "dump_nodes text_records = text_subs"
  by (simp add: dump_nodes_def text_records_def text_subs_def)

lemma text_classes:
  "map_entries (Classes (fold record_step text_records (new_meta p n))) =
    [(100, \<lparr>ci_id = 100, ci_name = ''java.lang.String'', ci_super = 0, ci_instSize = 16,
        ci_fields = [\<lparr>f_name = ''value'', f_typ = 2\<rparr>, \<lparr>f_name = ''coder'', f_typ = 8\<rparr>], ci_statics = [], ci_layout = None\<rparr>),
     (110, \<lparr>ci_id = 110, ci_name = ''java.lang.Integer'', ci_super = 0, ci_instSize = 16,
        ci_fields = [\<lparr>f_name = ''value'', f_typ = 2\<rparr>], ci_statics = [], ci_layout = None\<rparr>)]"
  by (simp add: text_records_def new_meta_def text_subs_def text_class_def map_str_def Let_def
   name_class_def normalizeClassName_def new_class_def class_step_def record_class_def object_statics_def count_root_def map_get_conv lookup_update)

lemma text_layouts:
  "lay (Classes text_meta) 100 = [\<lparr>f_name = ''value'', f_typ = 2\<rparr>, \<lparr>f_name = ''coder'', f_typ = 8\<rparr>]"
  "lay (Classes text_meta) 110 = [\<lparr>f_name = ''value'', f_typ = 2\<rparr>]"
  "className text_meta 100 = ''java.lang.String''" "className text_meta 110 = ''java.lang.Integer''"
  by (simp_all add: dump_meta_def buildLayouts_def text_classes build.simps lay_def map_get_conv Let_def className_def lookup_update)

lemma text_analysable: "analysable ''a.hprof'' sample_header 5 text_records"
proof -
  have "length (node_edges ids (lay (Classes text_meta)) x) \<le> 2" if "x \<in> set text_subs" for ids x
    using that by (auto simp: node_edges_def text_subs_def text_class_def object_statics_def text_layouts typeSize_def
        intro: order_trans [OF length_filter_le])
  then have "sum_list (map (\<lambda>x. length (node_edges (map obj_id text_subs) (lay (Classes text_meta)) x)) text_subs) \<le>
      sum_list (map (\<lambda>_. 2) text_subs)"
    by (intro sum_list_mono)
  then have "length (dump_edges (lay (Classes text_meta)) text_records) \<le> 2 * length text_subs"
    by (simp add: dump_edges_def text_nodes length_concat comp_def sum_list_triv)
  then show ?thesis unfolding analysable_def using text_ok by (simp add: text_nodes text_subs_def text_class_def)
qed

theorem java_strings_are_decoded_witness:
  "\<exists>g d. load_graph ''a.hprof'' (Some text_file) ''inspect'' = Inr (g, d) \<and>
    StringOf text_file g 2 = Inr (Some (utf8_string [104, 233, 0x1F600]))"
proof -
  obtain g d where l: "load_graph ''a.hprof'' (Some text_file) ''inspect'' = Inr (g, d)"
    using load_graph_dump [OF text_analysable] .
  have n: "dump_nodes text_records ! 2 = SInstance 200 1 100 (enc_u8 201 @ [1])"
    "dump_nodes text_records ! 3 = SPrimArray 201 1 8 [104, 0, 233, 0, 61, 216, 0, 222]" "length (dump_nodes text_records) = 5"
    by (simp_all add: text_nodes text_subs_def)
  have s: "string_slots (body_fields (lay (Classes text_meta) 100) (enc_u8 201 @ [1])) (0, None) = (201, Some 1)"
    using be_nat_snoc [of "[]" 1] by (simp add: text_layouts typeSize_def field_raw_def be_word_enc) (simp add: be_word_def)
  have j: "list_all scalar [104, 233, 0x1F600]" "java_string [104, 233, 0x1F600] (Some 1) 8 [104, 0, 233, 0, 61, 216, 0, 222]"
    "length (prim_body 8 [104, 0, 233, 0, 61, 216, 0, 222]) \<le> 2 ^ 20"
    by (simp_all add: scalar_def java_string_def utf16_units_def prim_body_def enc_value_def typeSize_def)
  show ?thesis
    using java_strings_are_decoded [OF text_analysable l _ n(1) text_layouts(3) s _ n(2) j(3,1,2)] n(3) l by simp
qed

theorem self_reference_is_followed_forever_witness:
  "\<exists>g d. load_graph ''a.hprof'' (Some text_file) ''inspect'' = Inr (g, d) \<and>
    RenderRef sample_lib text_file g 1000 210 = Inl StackOverflow"
proof -
  obtain g d where l: "load_graph ''a.hprof'' (Some text_file) ''inspect'' = Inr (g, d)"
    using load_graph_dump [OF text_analysable] .
  have n: "dump_nodes text_records ! 4 = SInstance 210 1 110 (enc_u8 210)" "4 < length (dump_nodes text_records)"
    by (simp_all add: text_nodes text_subs_def)
  let ?fs = "[\<lparr>fv_Name = ''value'', fv_Type = 2, fv_Raw = 210\<rparr>]"
  have fs: "?fs = body_fields (lay (Classes text_meta) 110) (enc_u8 210)"
    by (simp add: text_layouts typeSize_def field_raw_def be_word_enc)
  have "className text_meta 110 \<in> set boxedField" by (simp add: text_layouts boxedField_def)
  note R = self_reference_is_followed_forever [OF text_analysable l n(2,1) _ this fs]
  show ?thesis using R [of "hd ?fs" sample_lib 1000] l by (simp add: find_field_value_def)
qed

end
