(* ===== verification/Spec2Isabelle.thy ===== *)
theory Spec2Isabelle
  imports Samples Heap_Reports
begin

text \<open>
  \<^bold>\<open>Rootforge.\<close> The repository holds two programs in Go. \<^bold>\<open>rootforged\<close> is a control plane: it
  accepts incident events over HTTP, folds the events of one incident into one case, keeps the cases and
  the investigation tasks in two JSON files, and hands the tasks to workers under leases. \<^bold>\<open>hprofx\<close> is
  an analyser of Java heap dumps: it reads the HPROF format, builds the object graph, its dominator tree
  and its retained sizes, and reports on them. The two share no code.

  \<^bold>\<open>The control plane, bottom up.\<close>

  \<^item> \<open>Prelude\<close>, \<open>Go_Strings\<close>, \<open>Sha256\<close>, \<open>Go_Runtime\<close>, \<open>Go_Json\<close>: lists, association lists as Go maps,
    bytes, UTF-8 and white space, the hash behind fingerprints and identifiers, times and the clock, the
    JSON subset of encoding/json that the wire types use.
  \<^item> \<open>Trigger\<close> (internal/trigger/event.go), \<open>Incident\<close> (internal/incident), \<open>Casefile\<close>
    (internal/casefile: case, in-memory store, service): events, their normal form and fingerprint; the
    application of an event to an incident with replay and conflict detection; the store contract as the
    locale that both stores interpret.
  \<^item> \<open>Wire\<close> (api/v1alpha1/types.go), \<open>Local_Json\<close>, \<open>Local_Cases\<close>, \<open>Local_Outbox\<close>
    (internal/storage/local/{json,cases,outbox}.go, internal/investigation): wire types, the directory
    and the atomic replacement of a file with a failure of every system call, the two persistent stores.
  \<^item> \<open>Intake\<close> (internal/workflow/intake.go), \<open>Http_Api\<close> (internal/httpapi), \<open>Daemon\<close>
    (cmd/rootforged/main.go): the workflow that records and schedules, the handlers with their status
    codes, and the process as a step relation: requests, reconciliation ticks, a crash at any step.

  State is passed explicitly: a store is a record of the memory and the disk, a disk is a map from
  paths to bytes, an operation returns its result and the new store. Errors are values of a sum type. The
  outside world (clock, random bytes, system calls that fail) is an environment record that operations
  take as an argument and number by use.

  \<^bold>\<open>The analyser, bottom up.\<close>

  \<^item> \<open>Hprof_Reader\<close>, \<open>Hprof_Meta\<close> (heapdump/hprofx/hprof.go): the binary reader as a state monad over the
    rest of the input that either fails, reaches the end or returns; the metadata pass \<open>LoadMeta\<close>; class
    dumps, field layouts and class names.
  \<^item> \<open>Hprof_Format\<close>: the specification, a datatype of dumps with its encoder, against which reading is a
    round trip.
  \<^item> \<open>Hprof_Graph\<close>, \<open>Hprof_Objects\<close> (graph.go): the object index, the edges in compressed sparse rows, the
    two passes of \<open>BuildGraph\<close> and random access; the graph that a dump denotes.
  \<^item> \<open>Hprof_Dom\<close> (dom.go and the breadth-first search of cmds.go): the depth-first search, the
    Lengauer-Tarjan loop with path compression, retained sizes, dominator chains.
  \<^item> \<open>Dom_Theory\<close>, \<open>Dom_Forest\<close>, \<open>Dom_Dfs\<close>, \<open>Dom_Loop\<close>, \<open>Dom_Retained\<close>: the correctness of that
    algorithm. Depth-first numberings, semidominators and relative dominators of an abstract rooted graph;
    the forest that \<open>link\<close> and \<open>compress\<close> keep; the invariants of the search, of the main loop with its
    buckets and of the summation.
  \<^item> \<open>Hprof_Paths\<close> (cmds.go): the walk of \<open>cmdPaths\<close> and the invariant of the breadth-first search.
  \<^item> \<open>Go_Format\<close>: what the reports use of the Go library, float64 arithmetic with its rounding, the verbs
    of package fmt, UTF-16, padding and truncation by runes.
  \<^item> \<open>Hprof_Out\<close> (util.go), \<open>Hprof_Inspect\<close> (inspect.go), \<open>Hprof_Report\<close> (cmds.go), \<open>Hprof_Amqp\<close>
    (cmd_amqp.go), \<open>Hprof_Main\<close> (main.go): tallies, tables and the writer; fields, arrays, strings and their
    rendering; the analyses with the text they print; the AMQP backlog; the dispatch on the command and
    the combined report.
  \<^item> \<open>Hprof_Values\<close>: the values in the file behind a graph are those of the dump it was built from.
  \<^item> \<open>Hprof_Calm\<close>, \<open>Hprof_Rendering\<close>, \<open>Hprof_Safe\<close>, \<open>Hprof_Total\<close>: no operation of the analyses panics on such
    a graph, by one rule for each construct and each operation, up to the whole program; between them, how
    deep the rendering of references goes.
  \<^item> \<open>Hprof_Tally\<close>: the numbers of histogram, percentiles and age buckets.
  \<^item> \<open>Hprof_Sample\<close>, \<open>Heapdump\<close>, \<open>Heap_Reports\<close>: a concrete dump, and the theorems of the analyser, on the
    graph and on the reports.

  A report is a function from the writer so far to the writer with a section appended, or a failure: a
  panic of the code, or an exit with a message. Code outside the repository is an argument: the regular
  expressions, Unicode tables and float printing of the Go library (record \<open>golib\<close>), the order that map
  iteration and the unstable sort give to equal rows (record \<open>orders\<close>), flag parsing, the clock and
  the files.

  \<^bold>\<open>What the theorems show.\<close> For the control plane (this theory): an accepted event is on disk and comes
  back after any restart; reachable states reopen; a written file is the old one or the new one; the case
  stores refine one specification and agree; there is one open case per fingerprint, no event is lost and
  a replay changes nothing; an incident holds exactly the events of its history that were new and in its
  scope; leases exclude each other, are fair, and a stale worker is refused; the outbox
  delivers at least once and keeps newer work; the API decodes the
  body of an event request field by field and answers every request as documented. For the
  analyser (theory \<open>Heapdump\<close>): reading an encoded dump gives its metadata and exactly its object graph;
  reading any bytes ends; layouts follow the superclass chain; the index search finds what is there; the
  sparse rows list the edges; \<open>Dominators\<close> returns the immediate dominator of every reachable object
  (\<open>dominators_are_immediate\<close>), and the retained size is the size of what becomes unreachable without the
  object (\<open>retained_is_freed\<close>); the printed paths lead to a GC root and are shortest
  (\<open>paths_are_shortest\<close>). For its reports (theory \<open>Heap_Reports\<close>): no command panics on a well-formed dump,
  and only a dump whose boxed values or container sizes are unlike those of the JDK can exhaust the stack
  (\<open>analysis_never_panics\<close>); fields and Java strings are read back as they were written; the label of a
  reference names the slot that holds it; the histogram is exact; rendering returns on dumps whose boxed
  values are primitive, and runs on for ever on a boxed value that refers to itself; ages of zero are in
  no bucket of the age table.

  \<^bold>\<open>Bounds and fuel.\<close> The reader runs with fuel that starts at one more than the length of the input;
  \<open>reading_ends\<close> shows that it never runs out, because every record consumes at least one byte. The
  hierarchy walk, the two searches, the buckets and the path compression carry fuel derived from the number
  of classes or objects and edges, and return the error \<open>OutOfFuel\<close> when it runs out; the theorems on the
  dominators and on the paths show that this does not happen. The rendering of references counts its
  levels down from two more than the number of objects, a depth that only a recursion without end exceeds; it
  then fails with \<open>StackOverflow\<close>. Sums in the reports wrap at 64 bits as in the code. Sizes are int32 as in the code
  (\<open>shallow_size_wraps\<close>); retained sizes are unbounded integers, since a sum of fewer than \<open>2 ^ 31\<close> such
  sizes fits the int64 of the code.

  \<^bold>\<open>Not modelled.\<close> Flags, signals, socket handling and timeouts of the daemon; the path cleaning of the
  multiplexer; mutexes, since every operation of the stores runs under one; progress output and read
  errors of the disk in the analyser; the packages that so far hold only a comment.
\<close>

section \<open>The running control plane\<close>

text \<open>C2: Whatever requests, reconciliation ticks and crashes a daemon has gone through since its first
  start in an empty directory, its state files open again and give back the state in memory: the same
  cases (up to the representation of attribute maps), the same open index, the same tasks.\<close>

theorem reachable_state_reopens:
  assumes "directory \<noteq> []" "\<And>n. \<not> IsZero (seClock env n)"
    and "main_start interval directory env Map.empty Map.empty = Inr (n, s0)" "(daemon_step directory)\<^sup>*\<^sup>* s0 s"
  shows "\<exists>st ob. OpenCaseStore None None directory (fst (disks s)) = Inr st \<and>
    OpenInvestigationOutbox None None directory (snd (disks s)) = Inr ob \<and>
    (\<forall>cid. rel_option case_eq (map_get (csByID st) cid) (fst (lcs_abs (fst s)) cid)) \<and>
    map_get (csOpenByPrint st) = snd (lcs_abs (fst s)) \<and>
    (\<forall>tid. rel_option task_eq (map_get (ioTasks ob) tid) (io_tasks (snd s) tid))"
proof -
  have "daemon_inv directory s0"
    using main_start_ok(1) [OF assms(1,2) empty_reopens(1) [OF assms(1)] empty_reopens(2) [OF assms(1)] assms(3)] .
  from daemon_reachable_inv [OF assms(4,1) this] show ?thesis
    by (force simp: daemon_inv_def cases_ok_def outbox_ok_def io_sync_def reopens_def ob_reopens_def disks_def
        io_tasks_def lcs_abs_def split: prod.splits)
qed

theorem reachable_state_reopens_witness:
  "\<exists>st ob. OpenCaseStore None None ''data'' (fst (disks (sample_cases1, sample_outbox1))) = Inr st \<and>
    OpenInvestigationOutbox None None ''data'' (snd (disks (sample_cases1, sample_outbox1))) = Inr ob \<and>
    (\<forall>cid. rel_option case_eq (map_get (csByID st) cid) (fst (lcs_abs sample_cases1) cid)) \<and>
    map_get (csOpenByPrint st) = snd (lcs_abs sample_cases1) \<and>
    (\<forall>tid. rel_option task_eq (map_get (ioTasks ob) tid) (io_tasks sample_outbox1 tid))"
proof -
  have "daemon_step ''data'' sample_daemon (sample_cases1, sample_outbox1)"
    by (rule daemon_step.serve [OF _ _ sample_body_valid sample_revisions_left sample_serve(1)]) simp_all
  then have "(daemon_step ''data'')\<^sup>*\<^sup>* sample_daemon (sample_cases1, sample_outbox1)" by (rule r_into_rtranclp)
  from reachable_state_reopens [OF _ _ sample_start this] show ?thesis by simp
qed

text \<open>C1: An event that the API answered with 202 is in its case and has work scheduled, and both are still
  so after the process is killed and started again.\<close>

theorem accepted_event_survives_restart:
  assumes "directory \<noteq> []" "daemon_inv directory s" "\<not> IsZero now" "\<not> IsZero now'" "body_valid (rqBody request)"
    and "revisions_left s" "rqMethod request = ''POST''" "rqPath request = [''api'', ''v1alpha1'', ''events'']"
    and "request_event request = Some event"
    and "daemon_serve now rnd now' request s = (response, s')" "rsStatus response = 202"
    and "\<And>n. \<not> IsZero (seClock env n)"
    and "main_start interval directory env (fst (disks s')) (snd (disks s')) = Inr (n, s'')"
  shows "\<exists>c d r. fst (lcs_abs (fst s'')) (caseID c) = Some d \<and> case_eq d c \<and>
    (\<exists>x \<in> set (incEvents (caseIncident c)). sameEvent x event) \<and>
    fst (lcs_abs (fst s')) (caseID c) = Some c \<and>
    scheduled (snd s') (caseID c) = Some r \<and> caseRevision c \<le> r \<and> all_pending_scheduled s''"
proof -
  have acc: "acceptEvent (daemon_record now rnd now') request s = (response, s')"
    using assms(7,8,10) by (simp add: daemon_serve_def ServeHTTP_def mux_route_def)
  obtain sw q sw' q' where s: "s = (sw, q)" "s' = (sw', q')" by (metis prod.exhaust)
  have inv: "lcs_inv sw" "io_inv q" using assms(2) s by (auto simp: daemon_inv_def cases_ok_def outbox_ok_def)
  have inv': "daemon_inv directory s'" by (rule serve_ok [OF assms(1-6) assms(10)])
  from acc obtain result where rec: "daemon_record now rnd now' (rqContext request) event s = ((result, None), s')"
    by (cases rule: accept_cases) (use assms(9,11) in auto)
  then obtain c created where res: "result = Some (c, created)"
    unfolding daemon_record_def Intake_RecordEvent_def s by (auto split: sum.splits prod.splits)
  note ok = lin.intake_accepted [OF inv rec [unfolded daemon_record_def s res]]
  have get: "fst (lcs_abs sw') (caseID c) = Some c"
    using ok(1) lcs.get_law [of sw' "caseID c"] inv' s
    by (auto simp: daemon_inv_def cases_ok_def split: option.splits)
  obtain cases opn where a: "lcs_abs (fst s') = (cases, opn)" by fastforce
  have re: "reopens directory (fst (disks s')) (cases, opn)" "ob_reopens directory (snd (disks s')) (io_tasks (snd s'))"
    using inv' a
    by (auto simp: daemon_inv_def cases_ok_def outbox_ok_def io_sync_def disks_def io_tasks_def split: prod.splits)
  note start = main_start_ok [OF assms(1) assms(12) re assms(13)]
  have "rel_option case_eq (fst (lcs_abs (fst s'')) (caseID c)) (cases (caseID c))" using start(3) by blast
  then obtain d where "fst (lcs_abs (fst s'')) (caseID c) = Some d" "case_eq d c"
    using get a s by (auto simp: option_rel_Some2)
  then show ?thesis using ok(2,3) get start(2) s by (auto simp: lob.covers_def)
qed

theorem accepted_event_survives_restart_witness:
  "\<exists>s'' c d r. main_start 30 ''data'' sample_env (fst (disks (sample_cases1, sample_outbox1)))
      (snd (disks (sample_cases1, sample_outbox1))) = Inr (0, s'') \<and>
    fst (lcs_abs (fst s'')) (caseID c) = Some d \<and> case_eq d c \<and>
    (\<exists>x \<in> set (incEvents (caseIncident c)). sameEvent x sample_event) \<and>
    fst (lcs_abs sample_cases1) (caseID c) = Some c \<and>
    scheduled sample_outbox1 (caseID c) = Some r \<and> caseRevision c \<le> r \<and> all_pending_scheduled s''"
proof -
  obtain s'' where start: "main_start 30 ''data'' sample_env (fst (disks (sample_cases1, sample_outbox1)))
      (snd (disks (sample_cases1, sample_outbox1))) = Inr (0, s'')"
    using restart_succeeds [OF _ sample_inv1 sample_scheduled1, of 30 sample_env] by (auto simp: sample_env_def)
  have req: "rqMethod sample_request = ''POST''" "rqPath sample_request = [''api'', ''v1alpha1'', ''events'']"
    by (simp_all add: sample_request_def)
  from accepted_event_survives_restart [OF _ sample_inv _ _ sample_body_valid sample_revisions_left req
      sample_request_event sample_serve(1,2) _ start] start
  show ?thesis by auto
qed

text \<open>C17: A process that starts, on whatever state a run of the daemon or a crash between its two writes
  has left, ends its start-up with work scheduled for every pending case at its current revision.\<close>

theorem start_schedules_all_pending:
  assumes "directory \<noteq> []" "daemon_inv directory s" "\<not> IsZero now" "valid_event event" "revisions_left s"
    and "Service_RecordEvent CaseStore_ApplyEvent now (randomCaseID rnd) ctx event (fst s) = (r, sw)"
    and "\<And>n. \<not> IsZero (seClock env n)"
    and "main_start interval directory env (wDisk (snd sw)) (snd (disks s)) = Inr (n, s')"
  shows "all_pending_scheduled s' \<and> (\<forall>cid. rel_option case_eq (fst (lcs_abs (fst s')) cid) (fst (lcs_abs sw) cid))"
proof -
  have "cases_ok directory sw"
    by (rule record_cases_ok [OF assms(1) _ assms(3,4) _ assms(6)])
      (use assms(2,5) in \<open>auto simp: daemon_inv_def revisions_left_def\<close>)
  then obtain cases opn where a: "lcs_abs sw = (cases, opn)" "reopens directory (wDisk (snd sw)) (cases, opn)"
    by (metis cases_ok_def prod.exhaust)
  have "ob_reopens directory (snd (disks s)) (io_tasks (snd s))"
    using assms(2) by (auto simp: daemon_inv_def outbox_ok_def io_sync_def disks_def io_tasks_def split: prod.splits)
  from main_start_ok(2,3) [OF assms(1,7) a(2) this assms(8)] a(1) show ?thesis by simp
qed

theorem start_schedules_all_pending_witness:
  "\<exists>s'. main_start 30 ''data'' sample_env (wDisk (snd sample_cases1)) (snd (disks sample_daemon)) = Inr (1, s') \<and>
    all_pending_scheduled s' \<and>
    (\<forall>cid. rel_option case_eq (fst (lcs_abs (fst s')) cid) (fst (lcs_abs sample_cases1) cid))"
proof -
  obtain s' where start: "main_start 30 ''data'' sample_env (wDisk (snd sample_cases1)) (snd (disks sample_daemon)) = Inr (1, s')"
    using sample_restart by blast
  have rec: "Service_RecordEvent CaseStore_ApplyEvent sample_now (randomCaseID sample_rnd) None sample_event (fst sample_daemon) =
      (Inr (sample_case, True), sample_cases1)"
    using sample_record by (simp add: sample_daemon_def)
  show ?thesis
    using start_schedules_all_pending [OF _ sample_inv _ sample_valid_event sample_revisions_left rec _ start] start by simp
qed

text \<open>C18: A start with a readable data directory does not fail on a state in which all pending work is
  scheduled, and finds nothing to reconcile.\<close>

theorem restart_is_available:
  assumes "directory \<noteq> []" "daemon_inv directory s" "all_pending_scheduled s" "0 < interval"
    and "seMkdirCases env = None" "seOpenCases env = None" "seMkdirOutbox env = None" "seOpenOutbox env = None"
  shows "\<exists>s'. main_start interval directory env (fst (disks s)) (snd (disks s)) = Inr (0, s')"
  using assms by (rule restart_succeeds)

theorem restart_is_available_witness:
  "\<exists>s'. main_start 1 ''data'' sample_env (fst (disks (sample_cases1, sample_outbox1)))
     (snd (disks (sample_cases1, sample_outbox1))) = Inr (0, s')"
  using restart_is_available [OF _ sample_inv1 sample_scheduled1, of 1 sample_env] by (simp add: sample_env_def)

text \<open>C22: A request is answered without touching the stores unless its body is one JSON object that holds
  a valid event; every other answer is decided by what the workflow reported: 409 for a conflict, 500
  for any other error and 202 for an event that was recorded and scheduled.\<close>

theorem event_request_answers:
  assumes "acceptEvent recordEvent request s = (response, s')"
  shows "(case request_event request of
     None \<Rightarrow> rsStatus response = 400 \<and> s' = s
   | Some event \<Rightarrow>
       (if Validate event \<noteq> None then rsStatus response = 400 \<and> s' = s
        else \<exists>result err. recordEvent (rqContext request) event s = ((result, err), s') \<and>
          (rsStatus response = 202 \<longleftrightarrow> err = None) \<and>
          (rsStatus response = 409 \<longleftrightarrow> (\<exists>e. err = Some e \<and> (errors_Is e ErrEventIDConflict \<or> errors_Is e ErrEventScopeConflict))) \<and>
          rsStatus response \<in> {202, 409, 500}))"
  using assms by (cases rule: accept_cases) auto

theorem event_request_answers_witness:
  "(case request_event sample_request of
     None \<Rightarrow> rsStatus sample_response = 400 \<and> (sample_cases1, sample_outbox1) = sample_daemon
   | Some event \<Rightarrow>
       (if Validate event \<noteq> None then rsStatus sample_response = 400 \<and> (sample_cases1, sample_outbox1) = sample_daemon
        else \<exists>result err. daemon_record sample_now sample_rnd sample_now (rqContext sample_request) event sample_daemon =
            ((result, err), (sample_cases1, sample_outbox1)) \<and>
          (rsStatus sample_response = 202 \<longleftrightarrow> err = None) \<and>
          (rsStatus sample_response = 409 \<longleftrightarrow>
            (\<exists>e. err = Some e \<and> (errors_Is e ErrEventIDConflict \<or> errors_Is e ErrEventScopeConflict))) \<and>
          rsStatus sample_response \<in> {202, 409, 500}))"
proof (rule event_request_answers)
  show "acceptEvent (daemon_record sample_now sample_rnd sample_now) sample_request sample_daemon =
      (sample_response, (sample_cases1, sample_outbox1))"
    using sample_serve(1) by (simp add: daemon_serve_def ServeHTTP_def mux_route_def sample_request_def)
qed

text \<open>C24: The body of a request is read by the documented member names. For a body of at most 1 MiB that is one
  JSON object whose members have distinct names of the API, in any order and with any of them absent, with
  strings, times and an object of strings where the API has them, the handler passes on to the workflow
  exactly the event in which each field is the value of its member, or empty when the member is absent;
  when that event is not valid the workflow is not called.\<close>

theorem event_body_is_decoded:
  assumes "bdItems (rqBody request) = [(Doc (JObject ms), n)]" "n \<le> bdLength (rqBody request)"
    and "bdLength (rqBody request) \<le> 1048576" "distinct (map fst ms)" "list_all event_member ms"
    and e: "e = \<lparr>evID = text_member ms ''event_id'' [], evType = text_member ms ''type'' [],
     evSource = text_member ms ''source'' [], evOccurredAt = time_member ms ''occurred_at'' time_zero,
     evObservedAt = time_member ms ''observed_at'' time_zero, evEnvironment = text_member ms ''environment'' [],
     evService = text_member ms ''service'' [], evNode = text_member ms ''node'' [],
     evWorkload = text_member ms ''workload'' [], evContainer = text_member ms ''container'' [],
     evSeverity = text_member ms ''severity'' [], evDedupeKey = text_member ms ''dedupe_key'' [],
     evAttributes = attributes_member ms ''attributes'' None\<rparr>"
    and accept: "acceptEvent recordEvent request s = (response, s')"
  shows "request_event request = Some e \<and>
    s' = (if Validate e = None then snd (recordEvent (rqContext request) e s) else s)"
proof -
  have "dec_members incident_event_fields ms zero_incident_event = Inr (merged_event ms zero_incident_event)"
    by (rule dec_event_members [OF assms(4,5)]) (simp add: zero_incident_event_def)
  then have r: "request_event request = Some e" using assms(1-3)
    by (simp add: e request_event_def MaxBytesReader_def maxRequestBytes_def Decode_def dec_struct_def ensureEOF_def
        DecodeRaw_def EOF_def to_event_def merged_event_def zero_incident_event_def)
  from accept show ?thesis by (cases rule: accept_cases) (use r in auto)
qed

theorem event_body_is_decoded_witness:
  "snd (acceptEvent (\<lambda>ctx e s. ((None, None), e # s)) sample_request []) = [sample_event]"
proof -
  obtain ms where ms: "sample_body = JObject ms" "distinct (map fst ms)" "list_all event_member ms"
      "ms = [(''event_id'', JString ''e1''), (''type'', JString ''oom''), (''source'', JString ''k8s''),
     (''occurred_at'', JTime ''1997-05-21T08:00:00Z'' sample_now), (''observed_at'', JTime ''1997-05-21T08:00:00Z'' sample_now),
     (''environment'', JString ''prod''), (''service'', JString ''api''), (''severity'', JString ''high'')]"
    by (simp add: sample_body_def event_member_def)
  have items: "bdItems (rqBody sample_request) = [(Doc (JObject ms), 260)]" by (simp add: sample_request_def ms(1))
  have e: "sample_event = \<lparr>evID = text_member ms ''event_id'' [], evType = text_member ms ''type'' [],
     evSource = text_member ms ''source'' [], evOccurredAt = time_member ms ''occurred_at'' time_zero,
     evObservedAt = time_member ms ''observed_at'' time_zero, evEnvironment = text_member ms ''environment'' [],
     evService = text_member ms ''service'' [], evNode = text_member ms ''node'' [],
     evWorkload = text_member ms ''workload'' [], evContainer = text_member ms ''container'' [],
     evSeverity = text_member ms ''severity'' [], evDedupeKey = text_member ms ''dedupe_key'' [],
     evAttributes = attributes_member ms ''attributes'' None\<rparr>"
    by (simp add: ms(4) sample_event_def text_member_def time_member_def attributes_member_def)
  from event_body_is_decoded [OF items _ _ ms(2,3) e prod.collapse [symmetric],
      of "\<lambda>ctx e s. ((None, None), e # s)" "[]"]
  show ?thesis by (simp add: sample_request_def)
qed

text \<open>C23: A body longer than the limit is never accepted: the answer is 400 and nothing is stored.\<close>

theorem oversized_body_refused:
  assumes "maxRequestBytes < bdLength (rqBody request)" "body_valid (rqBody request)"
    and "acceptEvent recordEvent request s = (response, s')"
  shows "rsStatus response = 400 \<and> s' = s"
proof -
  have tail: "MaxBytesReader maxRequestBytes (rqBody request) =
      map fst (takeWhile (\<lambda>(i, e). e \<le> maxRequestBytes) (bdItems (rqBody request))) @ [Garbage MaxBytesError]"
    using assms(1) by (simp add: MaxBytesReader_def)
  let ?items = "takeWhile (\<lambda>(i, e). e \<le> maxRequestBytes) (bdItems (rqBody request))"
  have eof: "ensureEOF (map fst xs @ [Garbage MaxBytesError]) \<noteq> None" if "set xs \<subseteq> set (bdItems (rqBody request))" for xs
    using that assms(2)
    by (cases xs) (auto simp: ensureEOF_def DecodeRaw_def MaxBytesError_def EOF_def body_valid_def list_all_iff
        split: item.splits)
  have "set ?items \<subseteq> set (bdItems (rqBody request))" by (auto dest: set_takeWhileD)
  then have "request_event request = None"
    using eof [of "tl ?items"] unfolding request_event_def tail
    by (cases ?items) (auto simp: Decode_def split: sum.splits item.splits if_splits)
  with assms(3) show ?thesis by (cases rule: accept_cases) auto
qed

theorem oversized_body_refused_witness:
  "rsStatus (fst (acceptEvent (daemon_record sample_now sample_rnd sample_now)
     (sample_request\<lparr>rqBody := \<lparr>bdItems = [(Doc sample_body, 260)], bdLength = 1048577\<rparr>\<rparr>) sample_daemon)) = 400"
  using oversized_body_refused [of "sample_request\<lparr>rqBody := \<lparr>bdItems = [(Doc sample_body, 260)], bdLength = 1048577\<rparr>\<rparr>"
      "daemon_record sample_now sample_rnd sample_now" sample_daemon]
  by (simp add: maxRequestBytes_def body_valid_def sample_body_def valid_string_ascii) (metis prod.collapse)

section \<open>Cases\<close>

text \<open>C5: Every call of the durable store's \<open>ApplyEvent\<close> keeps the store invariant and either performs the
  step of the specification, with its answer, or reports an error and leaves the cases as they were.\<close>

theorem local_store_refines_spec:
  assumes "lcs_inv sw" "CaseStore_ApplyEvent ctx event now gen sw = (r, sw')"
  shows "store_inv (lcs_abs sw') \<and>
    ((\<exists>err. r = Inl err) \<and> lcs_abs sw' = lcs_abs sw \<or> (r, lcs_abs sw') = apply_spec event now gen (lcs_abs sw))"
  using lcs.apply_refines [OF assms] lcs.inv_abs [OF lcs.apply_inv [OF assms]] by blast

theorem local_store_refines_spec_witness:
  "store_inv (lcs_abs sample_cases1) \<and>
    (Inr (sample_case, True), lcs_abs sample_cases1) =
      apply_spec sample_event sample_now (randomCaseID sample_rnd) (lcs_abs sample_cases)"
  using local_store_refines_spec [OF _ sample_apply] sample_inv
  by (simp add: daemon_inv_def cases_ok_def sample_daemon_def)

text \<open>C21: The in-memory store and the durable store answer alike: from the same cases, a call gives the
  same answer and the same cases. The only exception is a call that the memory store answers with a case
  while the durable store could not write the same new cases to its file: then the durable store answers with
  the error of that write and keeps its cases.\<close>

theorem stores_agree:
  assumes "mem_inv m" "lcs_inv sw" "mem_abs m = lcs_abs sw"
    and "MemoryStore_ApplyEvent None event now gen m = (r, m')" "CaseStore_ApplyEvent None event now gen sw = (r', sw')"
  shows "r' = r \<and> mem_abs m' = lcs_abs sw' \<or>
    is_ok r \<and> lcs_abs sw' = lcs_abs sw \<and> (\<exists>err cases. r' = Inl err \<and> map_get cases = fst (mem_abs m') \<and>
      CaseStore_persist (fst sw) cases (snd sw) = (Some err, snd sw'))"
proof -
  obtain s w s' w' where sw: "sw = (s, w)" "sw' = (s', w')" by fastforce
  have mem: "apply_spec event now gen (lcs_abs (s, w)) = (r, mem_abs m')"
    using mem_apply_refines [OF assms(1,4)] assms(3) sw by simp
  from assms(2,5) [unfolded sw] show ?thesis
    by (cases rule: CaseStore_cases) (use mem sw in \<open>auto simp: lcs_abs_def\<close>)
qed

theorem stores_agree_witness:
  "fst (MemoryStore_ApplyEvent None sample_event sample_now (randomCaseID sample_rnd) NewMemoryStore) =
     Inr (sample_case, True)"
proof -
  obtain r m' where r: "MemoryStore_ApplyEvent None sample_event sample_now (randomCaseID sample_rnd) NewMemoryStore = (r, m')"
    by fastforce
  have "mem_inv NewMemoryStore" "mem_abs NewMemoryStore = lcs_abs sample_cases" "lcs_inv sample_cases"
    by (simp_all add: mem_inv_def mem_abs_def NewMemoryStore_def sample_cases_def lcs_abs_def lcs_inv_def)
  from stores_agree [OF this(1,3,2) r sample_apply] r show ?thesis by auto
qed

text \<open>C4: After any history of requests to a store that started empty, two open cases never share a
  fingerprint.\<close>

theorem one_open_case_per_fingerprint:
  assumes "sw = Service_RecordAll CaseStore_ApplyEvent requests (\<lparr>csPath = path, csByID = map_new, csOpenByPrint = map_new\<rparr>, w)"
    and "CaseStore_Get None a sw = Inr c" "CaseStore_Get None b sw = Inr d"
    and "Incident_Open (caseIncident c)" "Incident_Open (caseIncident d)"
    and "incFingerprint (caseIncident c) = incFingerprint (caseIncident d)"
  shows "a = b"
proof -
  have "lcs_inv (\<lparr>csPath = path, csByID = map_new, csOpenByPrint = map_new\<rparr>, w)"
    by (simp add: lcs_inv_def lcs_abs_def)
  then have "lcs_inv sw" using lcs.record_all_inv assms(1) by blast
  from lcs.one_open_case [OF this assms(2-)] show ?thesis .
qed

theorem one_open_case_per_fingerprint_witness:
  "Service_RecordAll CaseStore_ApplyEvent [(sample_now, randomCaseID sample_rnd, None, sample_event)] sample_cases = sample_cases1 \<and>
   CaseStore_Get None sample_id sample_cases1 = Inr sample_case \<and> Incident_Open (caseIncident sample_case) \<and> sample_id = sample_id"
proof -
  have rec: "Service_RecordAll CaseStore_ApplyEvent [(sample_now, randomCaseID sample_rnd, None, sample_event)] sample_cases = sample_cases1"
    by (simp add: Service_RecordAll_def sample_record)
  have get: "CaseStore_Get None sample_id sample_cases1 = Inr sample_case"
    by (simp add: CaseStore_Get_def sample_cases1_def)
  have opn: "Incident_Open (caseIncident sample_case)"
    by (simp add: sample_case_def sample_incident_def pending_open)
  show ?thesis
    using one_open_case_per_fingerprint [OF rec [unfolded sample_cases_def, symmetric] get get opn opn] rec get opn by simp
qed

text \<open>C6: Recording an event again, under the same ID of the same source and with the same content, answers
  with the unchanged case and \<open>created = false\<close>, and writes nothing.\<close>

theorem replayed_event_changes_nothing:
  assumes "lcs_inv sw" "Service_RecordEvent CaseStore_ApplyEvent now gen ctx event sw = (Inr (c, created), sw')"
    and "sameEvent event event'" "TrimSpace (evID event) \<noteq> []"
  shows "Service_RecordEvent CaseStore_ApplyEvent now' gen' None event' sw' = (Inr (c, False), sw')"
  using assms by (rule lcs.record_twice)

theorem replayed_event_changes_nothing_witness:
  "Service_RecordEvent CaseStore_ApplyEvent time_zero (\<lambda>_. Inl ErrNoTask) None sample_event sample_cases1 =
     (Inr (sample_case, False), sample_cases1)"
proof -
  have "lcs_inv sample_cases" using sample_inv by (simp add: daemon_inv_def cases_ok_def sample_daemon_def)
  moreover have "TrimSpace (evID sample_event) \<noteq> []" by (simp add: sample_event_def)
  ultimately show ?thesis using replayed_event_changes_nothing [OF _ sample_record sameEvent_refl] by blast
qed

text \<open>C15: No request ever removes a case, drops or reorders an event of a case, or moves the update time of
  a case back.\<close>

theorem no_event_is_lost:
  assumes "lcs_inv sw"
  shows "lcs_inv (Service_RecordAll CaseStore_ApplyEvent requests sw) \<and>
    cases_grow (fst (lcs_abs sw)) (fst (lcs_abs (Service_RecordAll CaseStore_ApplyEvent requests sw)))"
  using lcs.record_all_inv [OF assms] .

theorem no_event_is_lost_witness:
  "cases_grow (fst (lcs_abs sample_cases1))
     (fst (lcs_abs (Service_RecordAll CaseStore_ApplyEvent [(sample_now, randomCaseID sample_rnd, None, sample_event)] sample_cases1)))"
proof -
  have "lcs_inv sample_cases1" using sample_inv1 by (simp add: daemon_inv_def cases_ok_def)
  from no_event_is_lost [OF this] show ?thesis by blast
qed

text \<open>An incident that the code builds satisfies its invariant: normalized valid events of one
  fingerprint and one scope, event IDs unique per source, and a window that is the minimum and the maximum
  of the occurrence times. \<open>Apply\<close> keeps it and never removes an event.\<close>

theorem incident_invariant:
  "(Incident_New event = Inr i \<longrightarrow> incident_inv i \<and> incEvents i = [Normalize event]) \<and>
   (incident_inv i \<longrightarrow> Incident_Apply i event = Inr (changed, i') \<longrightarrow>
      incident_inv i' \<and> incEvents i' = incEvents i @ (if changed then [Normalize event] else []))"
  using New_inv New_events Apply_inv Apply_frame(4) by blast

theorem incident_invariant_witness: "incident_inv sample_incident \<and> incEvents sample_incident = [sample_event]"
  using incident_invariant [of sample_event sample_incident] sample_New by simp

text \<open>C16: What an incident is after any sequence of events. It starts with the first event; \<open>Apply\<close> then keeps,
  in order of arrival, exactly the events that are valid, have the fingerprint and the scope of the first
  event, and, when they carry an ID, whose source and ID no kept event has. The incident stays pending, its
  window runs from the earliest to the latest occurrence of the kept events, and its severity is the latest
  one that was given.\<close>

theorem incident_history_is_exact:
  assumes "Incident_New e = Inr i" "j = fold apply_or_keep es i" "ks = fold keep_event es [Normalize e]"
  shows "incEvents j = ks \<and> incStatus j = StatusPendingInvestigation \<and> incSeverity j = latest_severity ks \<and>
    instant (incFirstOccurredAt j) = Min ((\<lambda>x. instant (evOccurredAt x)) ` set ks) \<and>
    instant (incLastOccurredAt j) = Max ((\<lambda>x. instant (evOccurredAt x)) ` set ks)"
proof -
  have s: "summarizes j" "incEvents j = ks"
    using history_events [OF New_summarizes [OF assms(1)], of es] New_events [OF assms(1)] assms(2,3) by simp_all
  then have "window_ok j" by (simp add: summarizes_def incident_inv_def)
  from window_extrema [OF this] s show ?thesis by (simp add: summarizes_def)
qed

theorem incident_history_is_exact_witness:
  "incEvents (fold apply_or_keep [sample_event, sample_event\<lparr>evID := []\<rparr>, sample_event\<lparr>evService := ''db'', evID := []\<rparr>] sample_incident) =
     [sample_event, sample_event\<lparr>evID := []\<rparr>]"
proof -
  have n: "Normalize (sample_event\<lparr>evID := []\<rparr>) = sample_event\<lparr>evID := []\<rparr>"
    "evService (Normalize (sample_event\<lparr>evService := ''db'', evID := []\<rparr>)) = TrimSpace ''db''"
    by (simp_all add: Normalize_def sample_event_def sample_now_def UTC_def IsZero_def)
  have db: "TrimSpace ''db'' = ''db''"
    by (rule TrimSpace_trimmed) (simp add: trimmed_def bytes_of_def decodeLastRune_def IsSpace_def)
  have v: "Validate (sample_event\<lparr>evID := []\<rparr>) = None"
    by (simp add: Validate_def event_problems_def sample_event_def sample_now_def IsZero_def)
  have f: "Fingerprint (sample_event\<lparr>evID := []\<rparr>) = Fingerprint sample_event"
    by (simp add: Fingerprint_def fingerprint_parts_def n(1))
  let ?es = "[sample_event, sample_event\<lparr>evID := []\<rparr>, sample_event\<lparr>evService := ''db'', evID := []\<rparr>]"
  have "fold keep_event ?es [Normalize sample_event] =
      [sample_event, sample_event\<lparr>evID := []\<rparr>]"
    using n db v f sample_fields by (simp add: keep_event_def admissible_def same_scope_def)
  moreover have "incEvents (fold apply_or_keep ?es sample_incident) = fold keep_event ?es [Normalize sample_event]"
    using incident_history_is_exact [OF sample_New refl refl, of ?es] by (rule conjunct1)
  ultimately show ?thesis by (simp only:)
qed

section \<open>Fingerprints\<close>

text \<open>C25: Two events without a NUL character in their identifying fields share a fingerprint only if they
  have the same identity (source and dedupe key when there is a key, type and scope otherwise) or their
  inputs are a SHA-256 collision.\<close>

theorem fingerprint_identifies:
  assumes "nul_free (Normalize a)" "nul_free (Normalize b)" "Fingerprint a = Fingerprint b"
  shows "same_identity (Normalize a) (Normalize b) \<or>
    sha_collision (bytes_of (fingerprint_input a)) (bytes_of (fingerprint_input b))"
  using assms fingerprint_input_inj by (auto simp: Fingerprint_eq_iff)

theorem fingerprint_identifies_witness:
  "same_identity (Normalize sample_event) (Normalize sample_event) \<or>
    sha_collision (bytes_of (fingerprint_input sample_event)) (bytes_of (fingerprint_input sample_event))"
  by (rule fingerprint_identifies) (simp_all add: nul_free_def sample_event_def)

text \<open>C26: The fingerprint does not keep the source and the dedupe key apart when they may contain NUL: the
  two events differ in both and have one fingerprint, although each is valid.\<close>

theorem fingerprint_boundary_shift:
  "\<exists>a b. Validate a = None \<and> Validate b = None \<and> evSource (Normalize a) \<noteq> evSource (Normalize b) \<and>
     evDedupeKey (Normalize a) \<noteq> evDedupeKey (Normalize b) \<and> Fingerprint a = Fingerprint b"
proof -
  let ?a = "sample_event\<lparr>evSource := ''k'' @ [CHR 0x00] @ ''x'', evDedupeKey := ''y''\<rparr>"
  let ?b = "sample_event\<lparr>evSource := ''k'', evDedupeKey := ''x'' @ [CHR 0x00] @ ''y''\<rparr>"
  have trim: "TrimSpace (''k'' @ [CHR 0x00] @ ''x'') = ''k'' @ [CHR 0x00] @ ''x''" "TrimSpace ''k'' = ''k''"
    "TrimSpace (''x'' @ [CHR 0x00] @ ''y'') = ''x'' @ [CHR 0x00] @ ''y''" "TrimSpace ''y'' = ''y''"
    by (rule TrimSpace_trimmed, simp add: trimmed_def bytes_of_def decodeLastRune_def IsSpace_def)+
  have valid: "Validate ?a = None" "Validate ?b = None"
    using trim by (simp_all add: Validate_def event_problems_def sample_event_def)
  have "fingerprint_input ?a = fingerprint_input ?b"
    using trim by (simp add: fingerprint_input_def fingerprint_parts_def)
  then have "Fingerprint ?a = Fingerprint ?b" by (simp add: Fingerprint_eq_iff)
  moreover have "evSource (Normalize ?a) \<noteq> evSource (Normalize ?b)" "evDedupeKey (Normalize ?a) \<noteq> evDedupeKey (Normalize ?b)"
    using trim by simp_all
  ultimately show ?thesis using valid by blast
qed

section \<open>State files\<close>

text \<open>C7: \<open>writeJSONAtomic\<close> is atomic at every point: after each of its system calls the state file holds the
  old contents or the complete new ones; when it reports success the new ones are in place, when it reports
  an error the old ones are, and no other file but its temporary one has changed.\<close>

theorem write_is_atomic:
  assumes "writeJSONAtomic env path value d = (r, ds)" "\<not> is_temp path"
  shows "(\<forall>d' \<in> set ds. d' path = d path \<or> d' path = Some [Doc value]) \<and>
    (\<forall>d' \<in> set ds. \<forall>p. p \<noteq> path \<longrightarrow> \<not> is_temp p \<longrightarrow> d' p = d p) \<and>
    (r = None \<longrightarrow> last ds path = Some [Doc value]) \<and> (r \<noteq> None \<longrightarrow> last ds path = d path)"
proof -
  have "\<forall>d' \<in> set ds. d' path = d path \<or> d' path = Some [Doc value]"
    using writeJSONAtomic_trace [OF assms] by blast
  moreover have "\<forall>d' \<in> set ds. \<forall>p. p \<noteq> path \<longrightarrow> \<not> is_temp p \<longrightarrow> d' p = d p"
    using writeJSONAtomic_other [OF assms(1)] by blast
  ultimately show ?thesis using writeJSONAtomic_result(2,3) [OF assms] by simp
qed

theorem write_is_atomic_witness:
  "last (snd (writeJSONAtomic ((all_ok ''7'')\<lparr>weRename := Some (ErrLib ''EIO'')\<rparr>) (''d'', ''f'') JNull [(''d'', ''f'') \<mapsto> []]))
     (''d'', ''f'') = Some []"
proof -
  let ?env = "(all_ok ''7'')\<lparr>weRename := Some (ErrLib ''EIO'')\<rparr>" and ?d = "[(''d'', ''f'') \<mapsto> []]"
  have "fst (writeJSONAtomic ?env (''d'', ''f'') JNull ?d) \<noteq> None"
    by (simp add: writeJSONAtomic_def CreateTemp_def temp_path_def all_ok_def Marshal_def fail_write_def Let_def)
  then show ?thesis
    using write_is_atomic [of ?env "(''d'', ''f'')" JNull ?d] by (cases "writeJSONAtomic ?env (''d'', ''f'') JNull ?d") (simp add: is_temp_def)
qed

text \<open>C14: Opening the file that the case store wrote gives back every case, when the strings of the cases are
  valid UTF-8 and their times can be written: the same case under its ID, up to an empty attribute map, which
  comes back as no map, and the order of the attributes; and it rebuilds the same open index.\<close>

theorem case_file_roundtrip:
  assumes "directory \<noteq> []" "store_inv (map_get m, opn)" "all_storable (map_get m)"
    and "d (cases_path directory) = Some [Doc (saved_cases m)]"
  shows "\<exists>st. OpenCaseStore None None directory d = Inr st \<and> map_get (csOpenByPrint st) = opn \<and>
    (\<forall>cid. rel_option case_eq (map_get (csByID st) cid) (map_get m cid))"
proof -
  obtain st where st: "OpenCaseStore None None directory d = Inr st" "map_get (csOpenByPrint st) = opn"
      "map_get (csByID st) = map_option coerce_case \<circ> map_get m"
    using open_saved [where d = d and directory = directory, OF assms] by blast
  have "case_eq (coerce_case c) c" if "map_get m cid = Some c" for cid c
    using assms(3) that coerce_case_eq by (auto simp: all_storable_def storable_def)
  then have "rel_option case_eq (map_get (csByID st) cid) (map_get m cid)" for cid
    using st(3) by (cases "map_get m cid") auto
  then show ?thesis using st by blast
qed

theorem case_file_roundtrip_witness:
  "\<exists>st c. OpenCaseStore None None ''data'' [cases_path ''data'' \<mapsto> [Doc sample_file]] = Inr st \<and>
    map_get (csByID st) sample_id = Some c \<and> case_eq c sample_case"
proof -
  let ?m = "map_set sample_id sample_case map_new"
  have "store_inv (map_get ?m, map_get (map_set (Fingerprint sample_event) sample_id map_new))" "all_storable (map_get ?m)"
    using sample_inv1 by (auto simp: daemon_inv_def cases_ok_def lcs_inv_def lcs_abs_def sample_cases1_def)
  from case_file_roundtrip [OF _ this, of "''data''" "[cases_path ''data'' \<mapsto> [Doc sample_file]]"]
  obtain st where st: "OpenCaseStore None None ''data'' [cases_path ''data'' \<mapsto> [Doc sample_file]] = Inr st"
      "\<forall>cid. rel_option case_eq (map_get (csByID st) cid) (map_get ?m cid)"
    by (auto simp: sample_saved)
  then show ?thesis using st(2) [rule_format, of sample_id] by (auto simp: option_rel_Some2)
qed

text \<open>A crash at any point of writing the next state of the cases leaves a file that opens to the old
  state or to the new one.\<close>

theorem crash_leaves_old_or_new:
  assumes "directory \<noteq> []" "csPath s = cases_path directory" "reopens directory (wDisk w) old"
    and "store_inv (map_get m, opn)" "all_storable (map_get m)"
    and "writeJSONAtomic env (csPath s) (saved_cases m) (wDisk w) = (r, ds)" "d \<in> set ds"
  shows "reopens directory d old \<or> reopens directory d (map_get m, opn)"
  using assms by (rule persist_crash)

theorem crash_leaves_old_or_new_witness:
  "list_all (\<lambda>d. reopens ''data'' d (Map.empty, Map.empty) \<or>
      reopens ''data'' d (map_get (map_set sample_id sample_case map_new),
        map_get (map_set (Fingerprint sample_event) sample_id map_new)))
     (snd (writeJSONAtomic (all_ok ''0'') (cases_path ''data'') sample_file Map.empty))"
  unfolding list_all_iff
proof
  let ?m = "map_set sample_id sample_case map_new"
  fix d
  assume d: "d \<in> set (snd (writeJSONAtomic (all_ok ''0'') (cases_path ''data'') sample_file Map.empty))"
  obtain r ds where w: "writeJSONAtomic (all_ok ''0'') (cases_path ''data'') sample_file Map.empty = (r, ds)" by fastforce
  have "store_inv (map_get ?m, map_get (map_set (Fingerprint sample_event) sample_id map_new))" "all_storable (map_get ?m)"
    using sample_inv1 by (auto simp: daemon_inv_def cases_ok_def lcs_inv_def lcs_abs_def sample_cases1_def)
  from crash_leaves_old_or_new [OF _ _ _ this, of "''data''" "fst sample_cases" empty_world "(Map.empty, Map.empty)"
      "all_ok ''0''" r ds d]
  show "reopens ''data'' d (Map.empty, Map.empty) \<or>
     reopens ''data'' d (map_get ?m, map_get (map_set (Fingerprint sample_event) sample_id map_new))"
    using d w empty_reopens(1) by (simp add: sample_cases_def empty_world_def sample_saved del: map_get_set)
qed

section \<open>The outbox\<close>

text \<open>C3: At-least-once delivery. Work scheduled for a revision of a case stays scheduled, at this revision or a
  later one, through every history of operations, failed writes included, until a completed lease has covered
  it. As in C19, the zero time is never a clock reading, the end of a lease or an availability passed to
  \<open>Retry\<close>, and the random token of a lease is not empty.\<close>

theorem outbox_delivers_at_least_once:
  assumes "io_inv s" "list_all op_ok ops" "scheduled s cid = Some r" "run ops s = (served, s')"
  shows "(\<exists>r'. scheduled s' cid = Some r' \<and> r \<le> r') \<or> (\<exists>r'. (cid, r') \<in> set served \<and> r \<le> r')"
  using assms by (rule run_keeps_work)

theorem outbox_delivers_at_least_once_witness:
  "scheduled (snd (run [OpComplete None (taskID sample_id) ''t'' sample_now] sample_outbox1)) sample_id = Some 1"
proof -
  have "io_inv sample_outbox1" using sample_inv1 by (simp add: daemon_inv_def outbox_ok_def)
  moreover have "scheduled sample_outbox1 sample_id = Some 1"
    by (simp add: scheduled_def sample_outbox1_def sample_task_def)
  moreover have "run [OpComplete None (taskID sample_id) ''t'' sample_now] sample_outbox1 = ([], sample_outbox1)"
    by (simp add: completed_by_def Complete_def ownedLease_def sample_outbox1_def sample_task_def new_task_def)
  ultimately show ?thesis
    using outbox_delivers_at_least_once [of sample_outbox1 "[OpComplete None (taskID sample_id) ''t'' sample_now]" sample_id 1]
    by auto
qed

text \<open>C19: Every history of operations keeps each task in a state that the loader accepts, as long as no clock
  reading, no end of a lease and no availability passed to \<open>Retry\<close> is the zero time, and the random token of a
  lease is not empty. (C40 is what a \<open>Retry\<close> with the zero time does.)\<close>

theorem outbox_invariant:
  assumes "io_inv s" "list_all op_ok ops" "run ops s = (served, s')" "io_tasks s' tid = Some t"
  shows "tkID t = tid \<and> validateTask t = None"
  using run_inv [OF assms(1-3)] assms(4) by (simp add: io_inv_def)

theorem outbox_invariant_witness: "tkID sample_task = taskID sample_id \<and> validateTask sample_task = None"
proof -
  have "io_inv sample_outbox" using sample_inv by (simp add: daemon_inv_def outbox_ok_def sample_daemon_def)
  moreover have "run [OpEnsure None sample_id 1 sample_now] sample_outbox = ([], sample_outbox1)"
    by (simp add: sample_ensure completed_by_def)
  moreover have "io_tasks sample_outbox1 (taskID sample_id) = Some sample_task" by (simp add: sample_outbox1_def)
  ultimately show ?thesis
    using outbox_invariant [of sample_outbox "[OpEnsure None sample_id 1 sample_now]" "[]" sample_outbox1] by simp
qed

text \<open>C8: \<open>LeaseNext\<close> never hands out a task whose lease is still running; the task it hands out was eligible,
  no eligible task comes before it by availability and ID, and it carries a lease on its current revision.\<close>

theorem lease_is_exclusive_and_fair:
  assumes "io_inv (ob, w)" "LeaseNext rnd ctx owner now duration (ob, w) = (Inr t, ob', w')"
  shows "\<exists>u. map_get (ioTasks ob) (tkID t) = Some u \<and> eligible now u \<and>
    \<not> (tkStatus u = TaskLeased \<and> After (tkLeaseUntil u) now) \<and>
    (\<forall>v. map_get (ioTasks ob) (tkID v) = Some v \<longrightarrow> eligible now v \<longrightarrow> lease_order u \<le> lease_order v) \<and>
    tkStatus t = TaskLeased \<and> tkLeasedRevision t = tkCaseRevision u \<and> tkLeaseUntil t = Add (UTC now) duration \<and>
    map_get (ioTasks ob') (tkID t) = Some t"
  using assms(2)
proof (cases rule: lease_cases)
  case (leased u rest bs)
  have t: "t = lease_task (TrimSpace owner) (hex_encode bs) now duration u" "map_get (ioTasks ob') (tkID t) = Some t"
    using leased(5) by (auto elim!: install_cases)
  have "\<not> (tkStatus u = TaskLeased \<and> After (tkLeaseUntil u) now)"
    using lease_chosen(2) [OF assms(1) leased(4)] by (auto simp: eligible_def)
  then show ?thesis
    using lease_chosen [OF assms(1) leased(4)] t by (auto simp: lease_task_def)
qed simp

theorem lease_is_exclusive_and_fair_witness:
  "\<exists>t ob' w'. LeaseNext (Inr [9]) None ''worker'' sample_now 60 sample_outbox1 = (Inr t, ob', w') \<and>
     tkStatus t = TaskLeased \<and> map_get (ioTasks ob') (tkID t) = Some t"
proof -
  obtain ob w where q: "sample_outbox1 = (ob, w)" by fastforce
  have inv: "io_inv (ob, w)" using sample_inv1 q by (simp add: daemon_inv_def outbox_ok_def)
  obtain t ob' w' where l: "LeaseNext (Inr [9]) None ''worker'' sample_now 60 (ob, w) = (Inr t, ob', w')"
    using sample_lease q by (metis prod.exhaust)
  from lease_is_exclusive_and_fair [OF inv l] show ?thesis using l q by auto
qed

text \<open>\<open>LeaseNext\<close> finds no task exactly when no task is eligible.\<close>

theorem lease_none_iff_idle:
  assumes "io_inv (ob, w)" "TrimSpace owner \<noteq> []" "0 < duration"
  shows "fst (LeaseNext (Inr bs) None owner now duration (ob, w)) = Inl ErrNoTask \<longleftrightarrow>
    (\<forall>tid t. map_get (ioTasks ob) tid = Some t \<longrightarrow> \<not> eligible now t)"
proof -
  let ?ts = "sort_key lease_order (filter (eligible now) (map_values (ioTasks ob)))"
  have mem: "set ?ts = {t. (\<exists>tid. map_get (ioTasks ob) tid = Some t) \<and> eligible now t}"
    by (auto simp: map_values_iff)
  have "?ts = [] \<longleftrightarrow> set ?ts = {}" by (simp only: set_empty)
  also have "\<dots> \<longleftrightarrow> (\<forall>tid t. map_get (ioTasks ob) tid = Some t \<longrightarrow> \<not> eligible now t)" unfolding mem by blast
  finally have idle: "?ts = [] \<longleftrightarrow> (\<forall>tid t. map_get (ioTasks ob) tid = Some t \<longrightarrow> \<not> eligible now t)" .
  have "fst (Outbox_install m t (ob, w)) \<noteq> Inl ErrNoTask" for m and t :: Task
    by (auto simp: Outbox_install_def Outbox_persist_def split: prod.splits option.splits)
  then have "fst (LeaseNext (Inr bs) None owner now duration (ob, w)) = Inl ErrNoTask \<longleftrightarrow> ?ts = []"
    using assms(2,3) by (cases ?ts) (simp_all add: LeaseNext_def Let_def randomLeaseToken_def)
  then show ?thesis using idle by simp
qed

theorem lease_none_iff_idle_witness:
  "fst (LeaseNext (Inr [9]) None ''worker'' sample_now 60 sample_outbox) = Inl ErrNoTask"
proof -
  have "io_inv sample_outbox" using sample_inv by (simp add: daemon_inv_def outbox_ok_def sample_daemon_def)
  then show ?thesis
    using lease_none_iff_idle [of "fst sample_outbox" "snd sample_outbox" "''worker''" 60 "[9]" sample_now]
    by (simp add: sample_outbox_def)
qed

text \<open>C9: A worker without the current lease changes nothing: \<open>Complete\<close> and \<open>Retry\<close> are refused with a lease
  conflict, or with task not found, unless the caller presents the token of a lease that is still running.\<close>

theorem stale_worker_is_refused:
  assumes "\<not> (\<exists>t. map_get (ioTasks ob) tid = Some t \<and> tkStatus t = TaskLeased \<and> tkLeaseToken t = token \<and> token \<noteq> [] \<and>
      After (tkLeaseUntil t) now)"
  shows "\<exists>err \<in> {ErrLeaseConflict, ErrTaskNotFound}.
    Complete None tid token now (ob, w) = (Inl err, ob, w) \<and>
    Retry None tid token now availableAt failure (ob, w) = (Inl err, ob, w)"
proof -
  have "\<exists>err \<in> {ErrLeaseConflict, ErrTaskNotFound}. ownedLease ob tid token now = Inl err"
    using assms by (auto simp: ownedLease_def split: option.splits)
  then show ?thesis by (auto simp: Complete_def Retry_def)
qed

theorem stale_worker_is_refused_witness:
  "\<exists>err \<in> {ErrLeaseConflict, ErrTaskNotFound}.
    Complete None (taskID sample_id) ''old'' sample_now sample_outbox1 = (Inl err, sample_outbox1) \<and>
    Retry None (taskID sample_id) ''old'' sample_now sample_now [] sample_outbox1 = (Inl err, sample_outbox1)"
  using stale_worker_is_refused [of "fst sample_outbox1" "taskID sample_id" "''old''" sample_now "snd sample_outbox1" sample_now "[]"]
  by (simp add: sample_outbox1_def sample_task_def new_task_def)

text \<open>Completing a lease keeps newer work: when the case moved on during the lease the task is pending again
  at the newer revision and without lease, otherwise it is gone.\<close>

theorem complete_keeps_newer_work:
  assumes "Complete ctx tid token now (ob, w) = (Inr (), ob', w')"
  shows "\<exists>t. map_get (ioTasks ob) tid = Some t \<and> tkStatus t = TaskLeased \<and> tkLeaseToken t = token \<and>
    map_get (ioTasks ob') = (map_get (ioTasks ob))(tid :=
      (if tkLeasedRevision t < tkCaseRevision t then Some (requeue now t) else None)) \<and>
    pending_ok (requeue now t) \<and> tkCaseRevision (requeue now t) = tkCaseRevision t"
  using assms
proof (cases rule: complete_cases)
  case (requeued t)
  from requeued(3) show ?thesis
    by (cases rule: install_cases)
      (use requeued(1,2) in \<open>auto simp: owned_iff pending_ok_def requeue_def clearLease_def\<close>)
next
  case (completed t)
  then have "\<not> tkLeasedRevision t < tkCaseRevision t" by simp
  with completed(3) show ?thesis
    by (cases rule: install_cases)
      (use completed(1) in \<open>auto simp: owned_iff pending_ok_def requeue_def clearLease_def\<close>)
qed simp

theorem complete_keeps_newer_work_witness:
  "\<exists>ob' w'. Complete None (taskID sample_id) (tkLeaseToken sample_leased) sample_now sample_outbox2 = (Inr (), ob', w') \<and>
     map_get (ioTasks ob') (taskID sample_id) = None"
proof -
  obtain ob w where q: "sample_outbox2 = (ob, w)" by fastforce
  obtain ob' w' where c: "Complete None (taskID sample_id) (tkLeaseToken sample_leased) sample_now (ob, w) = (Inr (), ob', w')"
    using sample_complete q by (metis prod.exhaust)
  have "map_get (ioTasks ob) (taskID sample_id) = Some sample_leased" using q by (auto simp: sample_outbox2_def)
  then have "map_get (ioTasks ob') (taskID sample_id) = None"
    using complete_keeps_newer_work [OF c] by (auto simp: sample_leased_def lease_task_def)
  then show ?thesis using c q by auto
qed



text \<open>C27: Completed work does not stay completed: after a lease on the current revision was completed, ensuring
  work for the same revision of the case creates the task anew, with no attempts on record. A case whose
  status stays pending is therefore scheduled again by the next reconciliation.\<close>

theorem completed_work_is_rescheduled:
  assumes "io_inv (ob, w)" "map_get (ioTasks ob) tid = Some t" "tkCaseRevision t = tkLeasedRevision t"
    and "Complete None tid token now (ob, w) = (Inr (), s1)"
    and "EnsurePending None (tkCaseID t) (tkCaseRevision t) now' s1 = (Inr (u, changed), s2)"
  shows "changed \<and> tkCaseRevision u = tkCaseRevision t \<and> tkStatus u = TaskPending \<and> tkAttempts u = 0"
proof -
  obtain ob1 w1 ob2 w2 where p: "s1 = (ob1, w1)" "s2 = (ob2, w2)" by fastforce
  have tid: "tid = taskID (tkCaseID t)" using io_inv_get [OF assms(1,2)] by (auto simp: validateTask_iff)
  from assms(4) [unfolded p] have gone: "map_get (ioTasks ob1) tid = None"
    by (cases rule: complete_cases) (use assms(2,3) in \<open>auto simp: owned_iff elim!: install_cases\<close>)
  from assms(5) [unfolded p] show ?thesis
    by (cases rule: ensure_cases) (use gone tid in \<open>auto simp: new_task_def zero_task_def elim!: install_cases\<close>)
qed

theorem completed_work_is_rescheduled_witness:
  "\<exists>s1 s2 u changed. Complete None (taskID sample_id) (tkLeaseToken sample_leased) sample_now sample_outbox2 = (Inr (), s1) \<and>
     EnsurePending None sample_id 1 sample_now s1 = (Inr (u, changed), s2) \<and> changed \<and> tkAttempts u = 0"
proof -
  obtain ob w where q: "sample_outbox2 = (ob, w)" by fastforce
  have inv: "io_inv (ob, w)" using sample_inv2 q by simp
  obtain s1 s2 u changed where c: "Complete None (taskID sample_id) (tkLeaseToken sample_leased) sample_now (ob, w) = (Inr (), s1)"
      "EnsurePending None sample_id 1 sample_now s1 = (Inr (u, changed), s2)"
    using sample_complete sample_ensure_again q by metis
  have t: "map_get (ioTasks ob) (taskID sample_id) = Some sample_leased" using q by (auto simp: sample_outbox2_def)
  have f: "tkCaseID sample_leased = sample_id" "tkCaseRevision sample_leased = 1" "tkLeasedRevision sample_leased = 1"
    by (simp_all add: sample_leased_def lease_task_def sample_task_def)
  from completed_work_is_rescheduled [OF inv t _ c(1)] c q f show ?thesis by metis
qed

text \<open>C40: \<open>Retry\<close> accepts an availability time that the loader refuses: after a successful \<open>Retry\<close> with the zero
  time, the outbox file that it has written cannot be opened any more, so that the process does not start.\<close>

theorem retry_with_zero_time_is_unloadable:
  assumes "directory \<noteq> []" "ioPath ob = outbox_path directory"
    and "Retry ctx tid token now time_zero failure (ob, w) = (Inr (), ob', w')"
  shows "\<exists>err. OpenInvestigationOutbox None None directory (wDisk w') = Inl err"
  using assms(3)
proof (cases rule: retry_cases)
  case (retried t)
  from retried(2) obtain m where m: "Outbox_persist ob m w = (None, w')" "map_get m tid = Some (retry_task now time_zero failure t)"
    by (cases rule: install_cases) (auto simp: lookup_update)
  have "IsZero (tkAvailableAt (retry_task now time_zero failure t))"
    by (simp add: retry_task_def clearLease_def IsZero_def UTC_def time_zero_def)
  from open_refuses_zero [where d = "wDisk w'" and directory = directory, OF assms(1) _ m(2) this] show ?thesis
    using outbox_persist_disk(1) [OF m(1) assms(2)] by simp
qed simp

theorem retry_with_zero_time_is_unloadable_witness:
  "\<exists>ob w err. Retry None (taskID sample_id) (tkLeaseToken sample_leased) sample_now time_zero [] sample_outbox2 = (Inr (), ob, w) \<and>
    OpenInvestigationOutbox None None ''data'' (wDisk w) = Inl err"
proof -
  obtain ob w where r: "Retry None (taskID sample_id) (tkLeaseToken sample_leased) sample_now time_zero [] sample_outbox2 = (Inr (), ob, w)"
    using sample_retry by blast
  have "ioPath (fst sample_outbox2) = outbox_path ''data''" by (simp add: sample_outbox2_def)
  from retry_with_zero_time_is_unloadable [OF _ this, of None "taskID sample_id" "tkLeaseToken sample_leased" sample_now "[]"
      "snd sample_outbox2" ob w] r show ?thesis by simp
qed

end
